(* ===== verification/Prelude.thy ===== *)
theory Prelude
  imports Main "HOL-Library.Multiset" "HOL-Library.Char_ord" "HOL-Library.List_Lexorder"
    "HOL-Library.Product_Lexorder" "HOL-Library.Code_Target_Numeral"
begin

text \<open>
  What every component shares: the collections the proofs rewrite with, the order on byte strings
  and generic lemmas on lists, sorting and association lists.

  A Go string is a byte sequence: a \<^typ>\<open>string\<close>, whose \<^typ>\<open>char\<close>s are the 256 bytes. With
  \<open>Char_ord\<close> and \<open>List_Lexorder\<close> it is a \<open>linorder\<close> and \<open><\<close> is Go's bytewise string comparison.
  A Go \<^verbatim>\<open>int\<close> is an \<^typ>\<open>int\<close>, a length or an index a \<^typ>\<open>nat\<close>. \<^verbatim>\<open>sort.Strings\<close> and \<^verbatim>\<open>sort.Ints\<close> are
  \<open>sort\<close>, and \<^verbatim>\<open>sort.SliceStable\<close> with a comparison by keys is \<open>sort_key\<close>, which is stable.
\<close>

named_theorems partition_facts
  \<open>what the grouping and filtering passes keep of the multiset of their input\<close>

named_theorems text_facts
  \<open>facts on the byte-string operations\<close>

subsection \<open>Lists\<close>

text \<open>First-occurrence-order removal of duplicates: what a \<^verbatim>\<open>seen\<close> map and an \<^verbatim>\<open>order\<close> slice do.\<close>

fun nub_order :: "'a list \<Rightarrow> 'a list \<Rightarrow> 'a list" where
  "nub_order seen [] = []"
| "nub_order seen (x # xs) =
     (if x \<in> set seen then nub_order seen xs else x # nub_order (x # seen) xs)"

lemma set_nub_order: "set (nub_order seen xs) = set xs - set seen"
  by (induction seen xs rule: nub_order.induct) auto

lemma distinct_nub_order: "distinct (nub_order seen xs)"
  by (induction seen xs rule: nub_order.induct) (auto simp: set_nub_order)

definition distinct_keys :: "'a list \<Rightarrow> 'a list" where
  "distinct_keys xs = nub_order [] xs"

lemma set_distinct_keys [simp]: "set (distinct_keys xs) = set xs"
  by (simp add: distinct_keys_def set_nub_order)

lemma distinct_distinct_keys [simp]: "distinct (distinct_keys xs)"
  by (simp add: distinct_keys_def distinct_nub_order)

text \<open>Grouping by a key and concatenating the groups in any order of the keys keeps the multiset.\<close>

lemma mset_concat_filter_keys:
  assumes "distinct ks" and "f ` set xs \<subseteq> set ks"
  shows "mset (concat (map (\<lambda>k. filter (\<lambda>x. f x = k) xs) ks)) = mset xs"
  using assms
proof (induction ks arbitrary: xs)
  case Nil
  then show ?case by simp
next
  case (Cons k ks)
  let ?ys = "filter (\<lambda>x. f x \<noteq> k) xs"
  have eq: "map (\<lambda>k'. filter (\<lambda>x. f x = k') xs) ks = map (\<lambda>k'. filter (\<lambda>x. f x = k') ?ys) ks"
  proof (rule map_cong [OF refl])
    fix k' assume "k' \<in> set ks"
    with Cons.prems(1) have "k' \<noteq> k" by auto
    then show "filter (\<lambda>x. f x = k') xs = filter (\<lambda>x. f x = k') ?ys"
      by (auto intro!: filter_cong)
  qed
  have "mset (concat (map (\<lambda>k'. filter (\<lambda>x. f x = k') ?ys) ks)) = mset ?ys"
    using Cons.prems by (intro Cons.IH) auto
  then have "mset (concat (map (\<lambda>k'. filter (\<lambda>x. f x = k') xs) ks)) = mset ?ys"
    by (simp only: eq)
  then show ?case
    by simp
qed

lemma distinct_adj_less_sorted:
  fixes xs :: "'a::linorder list"
  shows "sorted xs \<Longrightarrow> distinct xs \<Longrightarrow> sorted_wrt (<) xs"
  by (simp add: strict_sorted_iff)

lemma sorted_map_last: "sorted (map f xs) \<Longrightarrow> x \<in> set xs \<Longrightarrow> f x \<le> f (last xs)"
  by (induction xs) auto

lemma sorted_wrt_concat_map:
  assumes "\<And>x. x \<in> set xs \<Longrightarrow> sorted_wrt R (f x)"
    and "distinct xs"
    and "\<And>x y a b. x \<in> set xs \<Longrightarrow> y \<in> set xs \<Longrightarrow> x \<noteq> y \<Longrightarrow> a \<in> set (f x) \<Longrightarrow> b \<in> set (f y) \<Longrightarrow> R a b"
  shows "sorted_wrt R (concat (map f xs))"
  using assms
proof (induction xs)
  case Nil
  then show ?case by simp
next
  case (Cons x xs)
  have "sorted_wrt R (concat (map f xs))"
    by (rule Cons.IH) (use Cons.prems in \<open>auto intro: Cons.prems(3)\<close>)
  moreover have "R a b" if "a \<in> set (f x)" "b \<in> set (concat (map f xs))" for a b
  proof -
    from that(2) obtain y where "y \<in> set xs" "b \<in> set (f y)" by auto
    then show ?thesis
      using Cons.prems(2) that(1) by (intro Cons.prems(3) [of x y a b]) auto
  qed
  ultimately show ?case
    using Cons.prems(1) [of x] by (simp add: sorted_wrt_append)
qed

end
