(* ===== verification/GoText.thy ===== *)
theory GoText
  imports Prelude GoUnicode
begin

text \<open>
  The operations of Go's \<^verbatim>\<open>strings\<close>, \<^verbatim>\<open>unicode/utf8\<close> and \<^verbatim>\<open>strconv\<close> packages the program calls, on
  byte strings. \<^verbatim>\<open>strings.ToUpper\<close>, \<^verbatim>\<open>ToLower\<close> and \<^verbatim>\<open>TrimSpace\<close> work on runes: a string is decoded
  as UTF-8, where every byte that starts no valid encoding is the rune \<open>RuneError\<close> of width 1.
\<close>

subsection \<open>UTF-8\<close>

definition RuneError :: nat where
  "RuneError = 65533"

abbreviation byte :: "char \<Rightarrow> nat" where
  "byte c \<equiv> of_char c"

definition is_cont :: "char \<Rightarrow> bool" where
  "is_cont c \<longleftrightarrow> 128 \<le> byte c \<and> byte c < 192"

text \<open>\<^verbatim>\<open>utf8.DecodeRuneInString\<close>: the first rune and its width. The ranges of the second byte exclude
  overlong encodings, surrogates and runes above \<open>10FFFF\<close>.\<close>

definition second_range :: "nat \<Rightarrow> nat \<times> nat" where
  "second_range b =
     (if b = 224 then (160, 192) else if b = 237 then (128, 160)
      else if b = 240 then (144, 192) else if b = 244 then (128, 144) else (128, 192))"

definition rune_width :: "nat \<Rightarrow> nat" where
  "rune_width b =
     (if b < 128 then 1 else if 194 \<le> b \<and> b < 224 then 2 else if 224 \<le> b \<and> b < 240 then 3
      else if 240 \<le> b \<and> b < 245 then 4 else 0)"

fun decode_rune :: "string \<Rightarrow> nat \<times> nat" where
  "decode_rune [] = (RuneError, 0)"
| "decode_rune (c # cs) =
     (let b = byte c; w = rune_width b; (lo, hi) = second_range b in
      if w = 1 then (b, 1)
      else case cs of
        c1 # cs1 \<Rightarrow>
          if w = 0 \<or> byte c1 < lo \<or> hi \<le> byte c1 then (RuneError, 1)
          else if w = 2 then ((b - 192) * 64 + (byte c1 - 128), 2)
          else (case cs1 of
            c2 # cs2 \<Rightarrow>
              if \<not> is_cont c2 then (RuneError, 1)
              else if w = 3 then ((b - 224) * 4096 + (byte c1 - 128) * 64 + (byte c2 - 128), 3)
              else (case cs2 of
                c3 # cs3 \<Rightarrow>
                  if \<not> is_cont c3 then (RuneError, 1)
                  else ((b - 240) * 262144 + (byte c1 - 128) * 4096 + (byte c2 - 128) * 64
                        + (byte c3 - 128), 4)
              | [] \<Rightarrow> (RuneError, 1))
          | [] \<Rightarrow> (RuneError, 1))
      | [] \<Rightarrow> (RuneError, 1))"

text \<open>\<^verbatim>\<open>utf8.AppendRune\<close>: a surrogate or a rune out of range is written as \<open>RuneError\<close>.\<close>

definition encode_rune :: "nat \<Rightarrow> string" where
  "encode_rune r =
     (if r < 128 then [char_of r]
      else if r < 2048 then [char_of (192 + r div 64), char_of (128 + r mod 64)]
      else if (55296 \<le> r \<and> r < 57344) \<or> 1114112 \<le> r
        then [char_of (239::nat), char_of (191::nat), char_of (189::nat)]
      else if r < 65536
        then [char_of (224 + r div 4096), char_of (128 + r div 64 mod 64), char_of (128 + r mod 64)]
      else [char_of (240 + r div 262144), char_of (128 + r div 4096 mod 64),
            char_of (128 + r div 64 mod 64), char_of (128 + r mod 64)])"

fun decode_runes :: "string \<Rightarrow> nat list" where
  "decode_runes [] = []"
| "decode_runes (c # cs) =
     (let (r, w) = decode_rune (c # cs) in r # decode_runes (drop (w - 1) cs))"

definition rune_start :: "char \<Rightarrow> bool" where
  "rune_start c \<longleftrightarrow> \<not> is_cont c"

text \<open>\<^verbatim>\<open>utf8.DecodeLastRuneInString\<close>: walk back over at most three continuation bytes.\<close>

definition decode_last_rune :: "string \<Rightarrow> nat \<times> nat" where
  "decode_last_rune s =
     (let n = length s in
      if n = 0 then (RuneError, 0)
      else if byte (last s) < 128 then (byte (last s), 1)
      else case find (\<lambda>k. k \<le> n \<and> rune_start (s ! (n - k))) [2, 3, 4] of
        None \<Rightarrow> (RuneError, 1)
      | Some k \<Rightarrow> (let (r, w) = decode_rune (drop (n - k) s) in
                  if w = k then (r, k) else (RuneError, 1)))"

subsection \<open>Case mapping and trimming\<close>

definition is_ascii :: "string \<Rightarrow> bool" where
  "is_ascii s \<longleftrightarrow> list_all (\<lambda>c. byte c < 128) s"

definition map_runes :: "(nat \<Rightarrow> nat) \<Rightarrow> string \<Rightarrow> string" where
  "map_runes f s = concat (map (\<lambda>r. encode_rune (f r)) (decode_runes s))"

definition ToUpper :: "string \<Rightarrow> string" where
  "ToUpper s =
     (if is_ascii s then map (\<lambda>c. char_of (unicode_ToUpper (byte c))) s
      else map_runes unicode_ToUpper s)"

definition ToLower :: "string \<Rightarrow> string" where
  "ToLower s =
     (if is_ascii s then map (\<lambda>c. char_of (unicode_ToLower (byte c))) s
      else map_runes unicode_ToLower s)"

function trim_left :: "string \<Rightarrow> string" where
  "trim_left s =
     (let (r, w) = decode_rune s in
      if s \<noteq> [] \<and> unicode_IsSpace r then trim_left (drop (max 1 w) s) else s)"
  by pat_completeness auto
termination
  by (relation "measure length") auto

function trim_right :: "string \<Rightarrow> string" where
  "trim_right s =
     (let (r, w) = decode_last_rune s in
      if s \<noteq> [] \<and> unicode_IsSpace r then trim_right (take (length s - max 1 w) s) else s)"
  by pat_completeness auto
termination
proof (relation "measure length")
  fix s :: string and x r w
  assume "s \<noteq> [] \<and> unicode_IsSpace r"
  then have "0 < length s" by simp
  then have "length s - max 1 w < length s" by linarith
  then show "(take (length s - max 1 w) s, s) \<in> measure length" by simp
qed simp

declare trim_left.simps [simp del] trim_right.simps [simp del]

definition TrimSpace :: "string \<Rightarrow> string" where
  "TrimSpace s = trim_right (trim_left s)"

subsection \<open>Searching, splitting and joining\<close>

fun has_prefix :: "string \<Rightarrow> string \<Rightarrow> bool" where
  "has_prefix [] s = True"
| "has_prefix (p # ps) [] = False"
| "has_prefix (p # ps) (c # cs) = (p = c \<and> has_prefix ps cs)"

fun contains :: "string \<Rightarrow> string \<Rightarrow> bool" where
  "contains sub [] = (sub = [])"
| "contains sub (c # cs) = (has_prefix sub (c # cs) \<or> contains sub cs)"

text \<open>\<^verbatim>\<open>strings.ReplaceAll(s, ",", "")\<close>: every comma dropped.\<close>

definition strip_commas :: "string \<Rightarrow> string" where
  "strip_commas s = filter (\<lambda>c. c \<noteq> CHR '','') s"

text \<open>\<^verbatim>\<open>strings.Split(s, sep)\<close> for a non-empty \<open>sep\<close>; \<open>cur\<close> is the current segment, reversed.\<close>

function split_loop :: "string \<Rightarrow> string \<Rightarrow> string \<Rightarrow> string list" where
  "split_loop sep cur [] = [rev cur]"
| "split_loop sep cur (c # cs) =
     (if has_prefix sep (c # cs) then rev cur # split_loop sep [] (drop (length sep - 1) cs)
      else split_loop sep (c # cur) cs)"
  by pat_completeness auto
termination
  by (relation "measure (\<lambda>(sep, cur, s). length s)") auto

definition Split :: "string \<Rightarrow> string \<Rightarrow> string list" where
  "Split s sep = split_loop sep [] s"

fun Join :: "string list \<Rightarrow> string \<Rightarrow> string" where
  "Join [] sep = []"
| "Join [x] sep = x"
| "Join (x # y # xs) sep = x @ sep @ Join (y # xs) sep"

text \<open>\<^verbatim>\<open>strconv.Itoa\<close> and the \<^verbatim>\<open>%d\<close> verb.\<close>

fun digits_of :: "nat \<Rightarrow> string" where
  "digits_of n =
     (if n < 10 then [char_of (48 + n)] else digits_of (n div 10) @ [char_of (48 + n mod 10)])"

declare digits_of.simps [simp del]

definition Itoa :: "int \<Rightarrow> string" where
  "Itoa i = (if i < 0 then CHR ''-'' # digits_of (nat (- i)) else digits_of (nat i))"

subsection \<open>Splitting a joined string\<close>

lemma has_prefix_semi:
  "e \<noteq> [] \<Longrightarrow> has_prefix ''; '' (e @ ''; '' @ x) = has_prefix ''; '' e"
  by (cases e; cases "tl e") auto

lemma split_loop_append:
  "split_loop ''; '' cur (e @ ''; '' @ x) = split_loop ''; '' cur e @ split_loop ''; '' [] x"
proof (induction "length e" arbitrary: e cur rule: less_induct)
  case less
  show ?case
  proof (cases e)
    case Nil
    then show ?thesis by simp
  next
    case (Cons c cs)
    show ?thesis
    proof (cases "has_prefix ''; '' e")
      case True
      then obtain ds where ds: "e = CHR '';'' # CHR '' '' # ds"
        using Cons by (cases cs) auto
      show ?thesis using less [of ds] by (simp add: ds)
    next
      case False
      then have "\<not> has_prefix ''; '' (e @ ''; '' @ x)"
        using has_prefix_semi [of e x] Cons by simp
      then have "split_loop ''; '' cur (e @ ''; '' @ x) =
          split_loop ''; '' (c # cur) (cs @ ''; '' @ x)"
        using Cons by (simp del: has_prefix.simps)
      also have "\<dots> = split_loop ''; '' (c # cur) cs @ split_loop ''; '' [] x"
        using less [of cs] Cons by simp
      also have "\<dots> = split_loop ''; '' cur e @ split_loop ''; '' [] x"
        using False Cons by (simp del: has_prefix.simps)
      finally show ?thesis .
    qed
  qed
qed

lemma Split_append [text_facts]: "Split (e @ ''; '' @ x) ''; '' = Split e ''; '' @ Split x ''; ''"
  by (simp only: Split_def split_loop_append)

lemma split_loop_no_sep: "\<not> contains sep s \<Longrightarrow> split_loop sep cur s = [rev cur @ s]"
  by (induction sep cur s rule: split_loop.induct) auto

lemma Split_no_sep [text_facts]: "\<not> contains sep s \<Longrightarrow> Split s sep = [s]"
  by (simp add: Split_def split_loop_no_sep)

subsection \<open>Splitting on one byte\<close>

lemma split_loop_char:
  "c \<notin> set a \<Longrightarrow> split_loop [c] cur (a @ c # s) = (rev cur @ a) # split_loop [c] [] s"
  by (induction a arbitrary: cur) auto

lemma split_loop_char_end: "c \<notin> set a \<Longrightarrow> split_loop [c] cur a = [rev cur @ a]"
  by (induction a arbitrary: cur) auto

lemma Split_char: "c \<notin> set a \<Longrightarrow> Split (a @ c # s) [c] = a # Split s [c]"
  by (simp add: Split_def split_loop_char)

lemma Split_char_end: "c \<notin> set a \<Longrightarrow> Split a [c] = [a]"
  by (simp add: Split_def split_loop_char_end)

lemma Split_Join_char:
  "rs \<noteq> [] \<Longrightarrow> list_all (\<lambda>r. c \<notin> set r) rs \<Longrightarrow> Split (Join rs [c]) [c] = rs"
  by (induction rs "[c]" rule: Join.induct) (simp_all add: Split_char Split_char_end)

lemma Split_lines:
  "list_all (\<lambda>r. c \<notin> set r) rs \<Longrightarrow> Split (concat (map (\<lambda>r. r @ [c]) rs)) [c] = rs @ [[]]"
  by (induction rs) (simp_all add: Split_char Split_char_end)

lemma Join_Split_char: "Join (Split s [c]) [c] = s"
proof -
  have "split_loop [c] cur s \<noteq> [] \<and> Join (split_loop [c] cur s) [c] = rev cur @ s" for cur
  proof (induction s arbitrary: cur)
    case (Cons x xs)
    show ?case
    proof (cases "x = c")
      case True
      then show ?thesis using Cons [of "[]"] by (cases "split_loop [c] [] xs") auto
    next
      case False
      then show ?thesis using Cons [of "x # cur"] by simp
    qed
  qed simp
  then show ?thesis by (simp add: Split_def)
qed

lemma Split_nonempty: "Split s [c] \<noteq> []"
proof -
  have "split_loop [c] cur s \<noteq> []" for cur by (induction s arbitrary: cur) auto
  then show ?thesis by (simp add: Split_def)
qed

lemma set_Split: "x \<in> set (Split s [c]) \<Longrightarrow> set x \<subseteq> set s"
proof -
  have "x \<in> set (split_loop [c] cur s) \<Longrightarrow> set x \<subseteq> set cur \<union> set s" for cur
    by (induction s arbitrary: cur) (fastforce split: if_splits)+
  from this [of "[]"] show "x \<in> set (Split s [c]) \<Longrightarrow> set x \<subseteq> set s" by (simp add: Split_def)
qed

lemma split_loop_append_char: "split_loop [c] cur (a @ c # b) = split_loop [c] cur a @ split_loop [c] [] b"
  by (induction a arbitrary: cur) auto

lemma Split_append_char: "Split (a @ c # b) [c] = Split a [c] @ Split b [c]"
  by (simp add: Split_def split_loop_append_char)

lemma Split_no_char: "l \<in> set (Split s [c]) \<Longrightarrow> c \<notin> set l"
proof -
  have "l \<in> set (split_loop [c] cur s) \<Longrightarrow> c \<notin> set cur \<Longrightarrow> c \<notin> set l" for cur
  proof (induction s arbitrary: cur)
    case (Cons x s)
    show ?case
    proof (cases "x = c")
      case True
      then show ?thesis using Cons.prems Cons.IH [of "[]"] by auto
    next
      case False
      then show ?thesis using Cons.prems Cons.IH [of "x # cur"] by simp
    qed
  qed simp
  then show "l \<in> set (Split s [c]) \<Longrightarrow> c \<notin> set l" by (simp add: Split_def)
qed

lemma has_prefix_append: "has_prefix p (p @ s)"
  by (induction p) auto

lemma contains_append: "contains p (a @ p @ s)"
proof (induction a)
  case Nil
  show ?case by (cases "p @ s") (use has_prefix_append [of p s] in auto)
qed simp

lemma Split_contains: "l \<in> set (Split s [c]) \<Longrightarrow> contains l s"
proof -
  assume "l \<in> set (Split s [c])"
  then obtain xs ys where s: "Split s [c] = xs @ l # ys" by (meson split_list)
  have "\<exists>a b. Join (xs @ l # ys) [c] = a @ l @ b"
  proof (induction xs)
    case Nil
    then show ?case by (cases ys) (auto intro: exI [of _ "[]"])
  next
    case (Cons x xs)
    then obtain a b where "Join (xs @ l # ys) [c] = a @ l @ b" by blast
    then have "Join ((x # xs) @ l # ys) [c] = (x @ [c] @ a) @ l @ b" by (cases xs) simp_all
    then show ?case by blast
  qed
  then show ?thesis using Join_Split_char [of s c] contains_append by (metis s)
qed

subsection \<open>Comma-free names\<close>

lemma strip_commas_idem [simp]: "strip_commas (strip_commas s) = strip_commas s"
  by (simp add: strip_commas_def)

lemma strip_commas_no_comma [simp]: "CHR '','' \<notin> set (strip_commas s)"
  by (simp add: strip_commas_def)

lemma strip_commas_id: "CHR '','' \<notin> set s \<Longrightarrow> strip_commas s = s"
  by (induction s) (auto simp: strip_commas_def)

end
