(* ===== verification/Finding.thy ===== *)
theory Finding
  imports GoText
begin

text \<open>
  The data of the library module \<^verbatim>\<open>reconcile/\<close> and the vocabularies it works with:
  \<^verbatim>\<open>finding.go\<close>, \<^verbatim>\<open>source.go\<close>, \<^verbatim>\<open>verification.go\<close>, \<^verbatim>\<open>severity.go\<close>, \<^verbatim>\<open>confidence.go\<close>, \<^verbatim>\<open>attribution.go\<close>
  and the constants of \<^verbatim>\<open>merge.go\<close>. A pointer field is an \<open>option\<close>; a nil and an empty slice are
  both \<open>[]\<close>, which the code never tells apart.
\<close>

subsection \<open>Records\<close>

record verification =
  Verdict :: string
  Skeptic :: string
  Notes :: string
  ChallengeSurvived :: bool
  Truncated :: bool

record finding =
  Severity :: string
  File :: string
  Line :: int
  Problem :: string
  Fix :: string
  Category :: string
  EstMinutes :: int
  Evidence :: string
  Reviewer :: string
  Reviewers :: "string list"
  Confidence :: string
  Disagreement :: string
  Verification :: "verification option"

record source =
  Name :: string
  Findings :: "finding list"

definition zero_finding :: finding where
  "zero_finding =
     \<lparr>Severity = [], File = [], Line = 0, Problem = [], Fix = [], Category = [], EstMinutes = 0,
      Evidence = [], Reviewer = [], Reviewers = [], Confidence = [], Disagreement = [],
      Verification = None\<rparr>"

subsection \<open>Verdicts\<close>

definition VerdictConfirmed :: string where [simp]: "VerdictConfirmed = ''confirmed''"
definition VerdictRefuted :: string where [simp]: "VerdictRefuted = ''refuted''"
definition VerdictUnverifiable :: string where [simp]: "VerdictUnverifiable = ''unverifiable''"

definition Valid :: "verification \<Rightarrow> bool" where
  "Valid v \<longleftrightarrow>
     (if Verdict v = VerdictConfirmed \<or> Verdict v = VerdictRefuted \<or> Verdict v = VerdictUnverifiable
      then Skeptic v \<noteq> [] else False)"

subsection \<open>Severities\<close>

definition SevCritical :: string where [simp]: "SevCritical = ''CRITICAL''"
definition SevHigh :: string where [simp]: "SevHigh = ''HIGH''"
definition SevMedium :: string where [simp]: "SevMedium = ''MEDIUM''"
definition SevLow :: string where [simp]: "SevLow = ''LOW''"

definition SeverityRank :: "string \<rightharpoonup> int" where
  "SeverityRank = map_of [(''CRITICAL'', 4), (''HIGH'', 3), (''MEDIUM'', 2), (''LOW'', 1)]"

text \<open>A Go map read of an absent key is the zero value.\<close>

definition rank_or_zero :: "(string \<rightharpoonup> int) \<Rightarrow> string \<Rightarrow> int" where
  "rank_or_zero m k = (case m k of None \<Rightarrow> 0 | Some r \<Rightarrow> r)"

definition NormalizeSeverity :: "string \<Rightarrow> string" where
  "NormalizeSeverity s = ToUpper (TrimSpace s)"

lemma SeverityRank_range: "SeverityRank s = Some r \<Longrightarrow> 1 \<le> r \<and> r \<le> 4"
  by (auto simp: SeverityRank_def split: if_splits)

lemma SeverityRank_inj:
  "SeverityRank s = Some r \<Longrightarrow> SeverityRank t = Some r \<Longrightarrow> s = t"
  by (auto simp: SeverityRank_def split: if_splits)

subsection \<open>Confidence tiers\<close>

definition ConfHigh :: string where [simp]: "ConfHigh = ''HIGH''"
definition ConfMedium :: string where [simp]: "ConfMedium = ''MEDIUM''"
definition ConfLow :: string where [simp]: "ConfLow = ''LOW''"
definition ConfidenceVerified :: string where [simp]: "ConfidenceVerified = ''VERIFIED''"

definition ConfidenceForVerdict :: "string \<Rightarrow> string \<Rightarrow> string" where
  "ConfidenceForVerdict prior verdict =
     (let v = ToLower (TrimSpace verdict) in
      if v = VerdictConfirmed then ConfidenceVerified
      else if v = VerdictRefuted then ConfLow
      else ToUpper (TrimSpace prior))"

definition confidenceRank :: "string \<rightharpoonup> int" where
  "confidenceRank =
     map_of [(ConfLow, 1), (ConfMedium, 2), (ConfHigh, 3), (ConfidenceVerified, 4)]"

definition ConfidenceAtOrAbove :: "string \<Rightarrow> string \<Rightarrow> bool" where
  "ConfidenceAtOrAbove c floor =
     (let cr = rank_or_zero confidenceRank (ToUpper (TrimSpace c));
          fr = rank_or_zero confidenceRank (ToUpper (TrimSpace floor))
      in if cr = 0 \<or> fr = 0 then False else fr \<le> cr)"

lemma confidenceRank_range: "confidenceRank s = Some r \<Longrightarrow> 1 \<le> r \<and> r \<le> 4"
  by (auto simp: confidenceRank_def split: if_splits)

subsection \<open>Fix attribution\<close>

definition EvidenceSep :: string where "EvidenceSep = ''; ''"
definition FixAttributionPrefix :: string where "FixAttributionPrefix = ''fix by ''"

definition HasFixAttribution :: "string \<Rightarrow> string \<Rightarrow> bool" where
  "HasFixAttribution evidence name =
     (if TrimSpace name = [] then False
      else list_ex (\<lambda>seg. TrimSpace seg = FixAttributionPrefix @ name) (Split evidence EvidenceSep))"

definition AppendFixAttribution :: "string \<Rightarrow> string \<Rightarrow> string" where
  "AppendFixAttribution evidence name =
     (if TrimSpace name = [] then evidence
      else if HasFixAttribution evidence name then evidence
      else if TrimSpace evidence = [] then FixAttributionPrefix @ name
      else evidence @ EvidenceSep @ FixAttributionPrefix @ name)"

lemma Append_has:
  assumes "TrimSpace name \<noteq> []" and "\<not> contains EvidenceSep name"
    and "TrimSpace (FixAttributionPrefix @ name) = FixAttributionPrefix @ name"
  shows "HasFixAttribution (AppendFixAttribution evidence name) name"
proof -
  have no_sep: "\<not> contains ''; '' (''fix by '' @ name)"
    using assms(2) by (cases name) (auto simp: EvidenceSep_def)
  have last: "Split (''fix by '' @ name) ''; '' = [''fix by '' @ name]"
    by (rule Split_no_sep [OF no_sep])
  have trim: "TrimSpace (''fix by '' @ name) = ''fix by '' @ name"
    using assms(3) by (simp only: FixAttributionPrefix_def)
  have blank: "HasFixAttribution (''fix by '' @ name) name"
    using assms(1) last trim
    by (simp only: HasFixAttribution_def FixAttributionPrefix_def EvidenceSep_def) simp
  have joined: "HasFixAttribution (evidence @ ''; '' @ ''fix by '' @ name) name"
    using assms(1) last trim
    by (simp only: HasFixAttribution_def FixAttributionPrefix_def EvidenceSep_def Split_append) simp
  show ?thesis
    unfolding AppendFixAttribution_def EvidenceSep_def FixAttributionPrefix_def
    using assms(1) blank joined by (simp del: append_Cons append.simps)
qed

text \<open>
  Attributing a fix is idempotent: for a name that is not blank, has no surrounding space and does
  not contain the separator, the attribution is found again in the text it was appended to, so
  appending it a second time changes nothing, whatever the evidence was.
\<close>

theorem attribution_idempotent:
  assumes "TrimSpace name \<noteq> []" and "\<not> contains EvidenceSep name"
    and "TrimSpace (FixAttributionPrefix @ name) = FixAttributionPrefix @ name"
  shows "HasFixAttribution (AppendFixAttribution evidence name) name \<and>
    AppendFixAttribution (AppendFixAttribution evidence name) name = AppendFixAttribution evidence name"
  using Append_has [OF assms, of evidence] AppendFixAttribution_def [of "AppendFixAttribution evidence name" name]
  by (simp only: if_True) (simp split: if_splits)

theorem attribution_idempotent_witness:
  "AppendFixAttribution (AppendFixAttribution ''line 3; nil'' ''opus'') ''opus'' = AppendFixAttribution ''line 3; nil'' ''opus''"
proof -
  have "TrimSpace ''opus'' \<noteq> []" "\<not> contains EvidenceSep ''opus''"
    "TrimSpace (FixAttributionPrefix @ ''opus'') = FixAttributionPrefix @ ''opus''"
    by code_simp+
  from attribution_idempotent [OF this] show ?thesis by blast
qed

text \<open>A name with a trailing space is attributed again and again: the segment is trimmed, the name is not.\<close>

lemma attribution_repeats:
  "AppendFixAttribution (AppendFixAttribution ''x'' ''opus '') ''opus '' \<noteq> AppendFixAttribution ''x'' ''opus ''"
  by code_simp

end
