(* ===== verification/Category.thy ===== *)
theory Category
  imports Finding
begin

text \<open>
  The closed vocabulary of reviewer categories: \<^verbatim>\<open>reconcile/category.go\<close> and the constant
  \<^verbatim>\<open>CategoryOutOfScope\<close> of \<^verbatim>\<open>merge.go\<close>. \<^verbatim>\<open>Categories()\<close> and \<^verbatim>\<open>CategoryMerges()\<close> return copies, so
  each is the value it copies.
\<close>

subsection \<open>Members\<close>

definition CategoryCorrectness :: string where [simp]: "CategoryCorrectness = ''correctness''"
definition CategoryLogic :: string where [simp]: "CategoryLogic = ''logic''"
definition CategorySecurity :: string where [simp]: "CategorySecurity = ''security''"
definition CategorySecret :: string where [simp]: "CategorySecret = ''secret''"
definition CategoryPerformance :: string where [simp]: "CategoryPerformance = ''performance''"
definition CategoryConcurrency :: string where [simp]: "CategoryConcurrency = ''concurrency''"
definition CategoryRace :: string where [simp]: "CategoryRace = ''race''"
definition CategoryErrorHandling :: string where [simp]: "CategoryErrorHandling = ''error-handling''"
definition CategoryState :: string where [simp]: "CategoryState = ''state''"
definition CategoryInvariant :: string where [simp]: "CategoryInvariant = ''invariant''"
definition CategoryType :: string where [simp]: "CategoryType = ''type''"
definition CategoryAPIContract :: string where [simp]: "CategoryAPIContract = ''api-contract''"
definition CategoryContract :: string where [simp]: "CategoryContract = ''contract''"
definition CategoryValidation :: string where [simp]: "CategoryValidation = ''validation''"
definition CategoryInputValidation :: string where [simp]: "CategoryInputValidation = ''input-validation''"
definition CategoryResourceLeak :: string where [simp]: "CategoryResourceLeak = ''resource-leak''"
definition CategoryLeak :: string where [simp]: "CategoryLeak = ''leak''"
definition CategoryDependency :: string where [simp]: "CategoryDependency = ''dependency''"
definition CategoryConfiguration :: string where [simp]: "CategoryConfiguration = ''configuration''"
definition CategoryCoupling :: string where [simp]: "CategoryCoupling = ''coupling''"
definition CategoryComplexity :: string where [simp]: "CategoryComplexity = ''complexity''"
definition CategoryBloat :: string where [simp]: "CategoryBloat = ''bloat''"
definition CategoryDuplication :: string where [simp]: "CategoryDuplication = ''duplication''"
definition CategoryExtensibility :: string where [simp]: "CategoryExtensibility = ''extensibility''"
definition CategoryMaintainability :: string where [simp]: "CategoryMaintainability = ''maintainability''"
definition CategoryNaming :: string where [simp]: "CategoryNaming = ''naming''"
definition CategoryStyle :: string where [simp]: "CategoryStyle = ''style''"
definition CategoryObservability :: string where [simp]: "CategoryObservability = ''observability''"
definition CategoryTesting :: string where [simp]: "CategoryTesting = ''testing''"
definition CategoryDocs :: string where [simp]: "CategoryDocs = ''docs''"
definition CategoryOther :: string where [simp]: "CategoryOther = ''other''"
definition CategoryOutOfScope :: string where [simp]: "CategoryOutOfScope = ''out-of-scope''"

definition categories :: "string list" where
  "categories =
     [CategoryCorrectness, CategoryLogic, CategorySecurity, CategorySecret, CategoryPerformance,
      CategoryConcurrency, CategoryRace, CategoryErrorHandling, CategoryState, CategoryInvariant,
      CategoryType, CategoryAPIContract, CategoryContract, CategoryValidation,
      CategoryInputValidation, CategoryResourceLeak, CategoryLeak, CategoryDependency,
      CategoryConfiguration, CategoryCoupling, CategoryComplexity, CategoryBloat,
      CategoryDuplication, CategoryExtensibility, CategoryMaintainability, CategoryNaming,
      CategoryStyle, CategoryObservability, CategoryTesting, CategoryDocs, CategoryOutOfScope,
      CategoryOther]"

definition Categories :: "string list" where
  "Categories = categories"

subsection \<open>Folds\<close>

definition category_folds :: "(string \<times> string) list" where
  "category_folds =
     [(''resource'', CategoryResourceLeak), (''resources'', CategoryResourceLeak),
      (CategoryLogic, CategoryCorrectness), (''bug'', CategoryCorrectness),
      (''input'', CategoryInputValidation), (''failure'', CategoryErrorHandling),
      (''stability'', CategoryErrorHandling), (''clarity'', CategoryMaintainability),
      (''cleanliness'', CategoryMaintainability), (''consistency'', CategoryNaming),
      (''structure'', CategoryMaintainability)]"

definition CategoryMerges :: "string \<rightharpoonup> string" where
  "CategoryMerges = map_of category_folds"

text \<open>The form every comparison of categories uses: lower-cased and trimmed.\<close>

definition canonical :: "string \<Rightarrow> string" where
  "canonical c = ToLower (TrimSpace c)"

text \<open>
  The vocabulary is closed under its folds: the members are 32 distinct words in canonical
  form, every recorded fold goes to a member that is not itself folded, so applying the table
  twice changes nothing, and \<^verbatim>\<open>logic\<close> is the one member that is folded.
\<close>

theorem category_folds_closed:
  "distinct Categories \<and> length Categories = 32 \<and> list_all (\<lambda>c. canonical c = c) Categories \<and>
   distinct (map fst category_folds) \<and>
   list_all (\<lambda>(word, target). target \<in> set Categories \<and> CategoryMerges target = None) category_folds \<and>
   filter (\<lambda>c. CategoryMerges c \<noteq> None) Categories = [CategoryLogic]"
  by code_simp

end
