(* ===== verification/GoFloat.thy ===== *)
theory GoFloat
  imports Complex_Main "HOL-Library.Code_Target_Numeral"
begin

text \<open>
  Go's \<^verbatim>\<open>float64\<close>. A finite float is the rational it denotes, and an arithmetic operation is the
  exact operation followed by a rounding \<open>fl\<close>, an argument of every definition that computes with
  floats. \<open>binary64\<close> is the IEEE 754 rounding of the hardware (to nearest, ties to even, 53 bits,
  gradual underflow); \<open>id\<close> is exact arithmetic. No operation of the modelled code overflows:
  the largest value it holds is the constant \<open>MaxFloat64\<close>.
\<close>

fun log2_floor :: "nat \<Rightarrow> nat" where
  "log2_floor n = (if n < 2 then 0 else Suc (log2_floor (n div 2)))"

declare log2_floor.simps [simp del]

definition pow2 :: "int \<Rightarrow> rat" where
  "pow2 e = (if 0 \<le> e then 2 ^ nat e else 1 / 2 ^ nat (- e))"

definition exponent_of :: "rat \<Rightarrow> int" where
  "exponent_of x =
     (let (p, q) = quotient_of x; e = int (log2_floor (nat p)) - int (log2_floor (nat q)) in
      if pow2 e \<le> x then e else e - 1)"

definition round_half_even :: "rat \<Rightarrow> int" where
  "round_half_even q =
     (let f = \<lfloor>q\<rfloor>; d = q - of_int f in
      if d < 1 / 2 \<or> (d = 1 / 2 \<and> even f) then f else f + 1)"

definition binary64 :: "rat \<Rightarrow> rat" where
  "binary64 x =
     (if x = 0 then 0
      else let u = pow2 (max (exponent_of \<bar>x\<bar>) (- 1022) - 52)
           in of_int (round_half_even (x / u)) * u)"

text \<open>\<^verbatim>\<open>math.MaxFloat64\<close>, that is \<open>2 ^ 1024 - 2 ^ 971\<close>, with its digits so that it evaluates.\<close>

definition MaxFloat64 :: rat where
  "MaxFloat64 = of_int 179769313486231570814527423731704356798070567525844996598917476803157260780028538760589558632766878171540458953514382464234321326889464182768467546703537516986049910576551282076245490090389328944075868508455133942304583236903222948165808559332123348274797826204144723168738177180919299881250404026184124858368"

lemma MaxFloat64_power: "MaxFloat64 = 2 ^ 1024 - 2 ^ 971"
  by (simp add: MaxFloat64_def)

lemma binary64_zero [simp]: "binary64 0 = 0"
  by (simp add: binary64_def)

lemma round_half_even_of_int [simp]: "round_half_even (of_int k) = k"
  by (simp add: round_half_even_def)

text \<open>Rounding is monotone on one binade's grid and within half a unit of its argument.\<close>

lemma round_half_even_error: "\<bar>of_int (round_half_even q) - q\<bar> \<le> 1 / 2"
proof -
  have lo: "of_int \<lfloor>q\<rfloor> \<le> q" by simp
  have hi: "q < of_int \<lfloor>q\<rfloor> + 1" by linarith
  show ?thesis
    using lo hi by (simp add: round_half_even_def Let_def abs_le_iff field_simps)
qed

lemma pow2_pos [simp]: "0 < pow2 e"
  by (simp add: pow2_def)

lemma binary64_error:
  assumes "x \<noteq> 0"
  shows "\<bar>binary64 x - x\<bar> \<le> pow2 (max (exponent_of \<bar>x\<bar>) (- 1022) - 52) / 2"
proof -
  let ?u = "pow2 (max (exponent_of \<bar>x\<bar>) (- 1022) - 52)"
  let ?k = "of_int (round_half_even (x / ?u)) :: rat"
  have u: "0 < ?u" by simp
  have "binary64 x - x = (?k - x / ?u) * ?u"
    using assms less_imp_neq [OF u] by (simp add: binary64_def Let_def field_simps)
  then have "\<bar>binary64 x - x\<bar> = \<bar>?k - x / ?u\<bar> * ?u"
    by (simp add: abs_mult abs_of_pos [OF u])
  also have "\<dots> \<le> 1 / 2 * ?u"
    by (rule mult_right_mono [OF round_half_even_error less_imp_le [OF u]])
  finally show ?thesis by simp
qed

subsection \<open>Accuracy\<close>

lemma log2_floor_bounds: "0 < n \<Longrightarrow> 2 ^ log2_floor n \<le> n \<and> n < 2 ^ (log2_floor n + 1)"
proof (induction n rule: log2_floor.induct)
  case (1 n)
  show ?case
  proof (cases "n < 2")
    case True
    then show ?thesis using 1(2) by (simp add: log2_floor.simps [of n])
  next
    case False
    then have "2 ^ log2_floor (n div 2) \<le> n div 2" "n div 2 < 2 ^ (log2_floor (n div 2) + 1)" using 1(1) by simp_all
    then have "2 * 2 ^ log2_floor (n div 2) \<le> n" "n < 2 * 2 ^ (log2_floor (n div 2) + 1)" by linarith+
    then show ?thesis using False by (simp add: log2_floor.simps [of n])
  qed
qed

lemma pow2_diff: "pow2 (int a - int b) = 2 ^ a / 2 ^ b"
proof (cases "b \<le> a")
  case True
  then have "nat (int a - int b) = a - b" by simp
  then show ?thesis using True by (simp add: pow2_def power_diff)
next
  case False
  then have "nat (- (int a - int b)) = b - a" by simp
  then show ?thesis using False by (simp add: pow2_def power_diff)
qed

lemma pow2_mono: "a \<le> b \<Longrightarrow> pow2 a \<le> pow2 b"
proof -
  assume "a \<le> b"
  define c where "c = nat (- min a 0)"
  have "pow2 a = 2 ^ nat (a + int c) / 2 ^ c" "pow2 b = 2 ^ nat (b + int c) / 2 ^ c"
    using pow2_diff [of "nat (a + int c)" c] pow2_diff [of "nat (b + int c)" c] \<open>a \<le> b\<close> by (simp_all add: c_def min_def split: if_splits)
  then show ?thesis using \<open>a \<le> b\<close> by (simp add: divide_right_mono power_increasing nat_mono)
qed

lemma pow2_step: "pow2 (e + 1) = 2 * pow2 e"
proof -
  define c where "c = nat (- min e 0)"
  have "pow2 e = 2 ^ nat (e + int c) / 2 ^ c" "pow2 (e + 1) = 2 ^ (nat (e + int c) + 1) / 2 ^ c"
    using pow2_diff [of "nat (e + int c)" c] pow2_diff [of "nat (e + int c) + 1" c] by (simp_all add: c_def min_def algebra_simps split: if_splits)
  then show ?thesis by simp
qed

lemma exponent_of_le:
  assumes "0 < x"
  shows "pow2 (exponent_of x) \<le> x"
proof -
  obtain p q where pq: "quotient_of x = (p, q)" by fastforce
  have q: "0 < q" using quotient_of_denom_pos [OF pq] .
  have x: "x = of_int p / of_int q" by (rule quotient_of_div [OF pq])
  have p: "0 < p" using assms q unfolding x by (simp add: zero_less_divide_iff)
  define a b where "a = log2_floor (nat p)" and "b = log2_floor (nat q)"
  have "2 ^ a \<le> nat p" "nat q < 2 ^ (b + 1)" unfolding a_def b_def using log2_floor_bounds [of "nat p"] log2_floor_bounds [of "nat q"] p q by simp_all
  then have "rat_of_nat (2 ^ a) \<le> rat_of_nat (nat p)" "rat_of_nat (nat q) \<le> rat_of_nat (2 ^ (b + 1))"
    by (simp_all only: of_nat_le_iff less_imp_le)
  then have ab: "(2 :: rat) ^ a \<le> of_int p" "of_int q \<le> (2 :: rat) ^ (b + 1)" using p q by simp_all
  have "pow2 (int a - int b - 1) = 2 ^ a / 2 ^ (b + 1)" using pow2_diff [of a "b + 1"] by (simp add: algebra_simps)
  also have "\<dots> \<le> x" unfolding x using ab q p by (intro frac_le) (simp_all)
  finally have "pow2 (int a - int b - 1) \<le> x" .
  then show ?thesis by (simp add: exponent_of_def pq Let_def a_def b_def)
qed

lemma exponent_of_bound:
  assumes "0 < x" "x \<le> pow2 e"
  shows "exponent_of x \<le> e"
proof (rule ccontr)
  assume "\<not> ?thesis"
  then have "pow2 (e + 1) \<le> pow2 (exponent_of x)" by (intro pow2_mono) simp
  then show False using exponent_of_le [OF assms(1)] assms(2) pow2_pos [of e] unfolding pow2_step by linarith
qed

text \<open>
  The accuracy that the float arithmetic of the program relies on: up to \<open>2 ^ 16\<close> a rounding is off by at most
  \<open>2 ^ (- 37)\<close>, half a unit in the last of 53 bits.
\<close>

definition accurate :: "(rat \<Rightarrow> rat) \<Rightarrow> bool" where
  "accurate f \<longleftrightarrow> (\<forall>x. \<bar>x\<bar> \<le> 2 ^ 16 \<longrightarrow> \<bar>f x - x\<bar> \<le> 1 / 2 ^ 37)"

lemma accurateD: "accurate f \<Longrightarrow> \<bar>x\<bar> \<le> 2 ^ 16 \<Longrightarrow> \<bar>f x - x\<bar> \<le> 1 / 2 ^ 37"
  by (simp add: accurate_def)

lemma accurate_id: "accurate id"
  by (simp add: accurate_def)

lemma accurate_binary64: "accurate binary64"
  unfolding accurate_def
proof (intro allI impI)
  fix x :: rat assume x: "\<bar>x\<bar> \<le> 2 ^ 16"
  show "\<bar>binary64 x - x\<bar> \<le> 1 / 2 ^ 37"
  proof (cases "x = 0")
    case False
    have "exponent_of \<bar>x\<bar> \<le> 16" by (rule exponent_of_bound) (use False x in \<open>simp_all add: pow2_def\<close>)
    then have "pow2 (max (exponent_of \<bar>x\<bar>) (- 1022) - 52) \<le> pow2 (- 36)" by (intro pow2_mono) simp
    then show ?thesis using binary64_error [OF False] by (simp add: pow2_def)
  qed simp
qed

end
