(* ===== verification/GoRuntime.thy ===== *)
theory GoRuntime
  imports GoText GoFloat GoSha256
begin

text \<open>
  The two library services whose results the program uses but never inspects: the rounding of
  \<^verbatim>\<open>float64\<close> arithmetic and the SHA-256 digest behind content-addressed ids. The definitions that
  compute with them take a \<open>runtime\<close>; \<open>go_runtime\<close> is the one the program runs on. Theorems are
  stated for every \<open>runtime\<close> wherever they do not depend on what the two services return.
\<close>

record runtime =
  fl :: "rat \<Rightarrow> rat"
  sum256 :: "string \<Rightarrow> string"

definition go_runtime :: runtime where
  "go_runtime = \<lparr>fl = binary64, sum256 = sha256_Sum256\<rparr>"

text \<open>Exact arithmetic and the identity in place of the digest.\<close>

definition exact_runtime :: runtime where
  "exact_runtime = \<lparr>fl = id, sum256 = id\<rparr>"

lemma exact_runtime_simps [simp]: "fl exact_runtime = id" "sum256 exact_runtime = id"
  by (simp_all add: exact_runtime_def)

lemma accurate_runtimes: "accurate (fl go_runtime)" "accurate (fl exact_runtime)"
  by (simp_all add: go_runtime_def accurate_binary64 accurate_id)

end
