(* ===== verification/Similarity.thy ===== *)
theory Similarity
  imports Finding GoRuntime
begin

text \<open>
  Text similarity: \<^verbatim>\<open>tokenize\<close> and \<^verbatim>\<open>classify\<close> of \<^verbatim>\<open>reconcile/dedupe.go\<close> and \<^verbatim>\<open>pairDistance\<close> of
  \<^verbatim>\<open>reconcile/distance.go\<close>. A token set is a \<^typ>\<open>string set\<close>; the similarity is a \<^verbatim>\<open>float64\<close>, a rational
  rounded by the \<open>runtime\<close>. The theorems show that the integer comparisons decide the exact Jaccard
  thresholds whatever the rounding, and that the relation is symmetric.
\<close>

subsection \<open>Tokens\<close>

definition token_byte :: "char \<Rightarrow> bool" where
  "token_byte c \<longleftrightarrow> CHR ''a'' \<le> c \<and> c \<le> CHR ''z'' \<or> CHR ''0'' \<le> c \<and> c \<le> CHR ''9''"

text \<open>
  \<^verbatim>\<open>tokenSplit.Split(s, -1)\<close> for the pattern \<^verbatim>\<open>[^a-z0-9]+\<close>. Every byte of a multi-byte or invalid
  encoding is outside the class, so the bytes of \<^verbatim>\<open>s\<close> decide where it splits.
\<close>

function tokenSplit_Split :: "string \<Rightarrow> string list" where
  "tokenSplit_Split s =
     (case dropWhile token_byte s of
        [] \<Rightarrow> [takeWhile token_byte s]
      | c # rest \<Rightarrow> takeWhile token_byte s # tokenSplit_Split (dropWhile (\<lambda>x. \<not> token_byte x) rest))"
  by pat_completeness auto
termination
proof (relation "measure length")
  fix s c rest assume "dropWhile token_byte s = c # rest"
  then have "length rest < length s"
    by (metis length_dropWhile_le length_Cons less_eq_Suc_le)
  then show "(dropWhile (\<lambda>x. \<not> token_byte x) rest, s) \<in> measure length"
    using length_dropWhile_le [of "\<lambda>x. \<not> token_byte x" rest] by simp
qed simp

declare tokenSplit_Split.simps [simp del]

definition tokenize :: "string \<Rightarrow> string set" where
  "tokenize s = set (filter (\<lambda>tok. tok \<noteq> []) (tokenSplit_Split (ToLower s)))"

subsection \<open>Relation and distance\<close>

datatype relation = relDistinct | relGray | relMerge

definition MergeThreshold :: rat where "MergeThreshold = 7 / 10"
definition GrayLow :: rat where "GrayLow = 4 / 10"

definition classify :: "runtime \<Rightarrow> string set \<Rightarrow> string set \<Rightarrow> relation \<times> rat" where
  "classify rt a b =
     (if card a = 0 \<and> card b = 0 then (relMerge, 1)
      else if card a = 0 \<or> card b = 0 then (relDistinct, 0)
      else let inter = card (a \<inter> b);
               union = card a + card b - inter;
               sim = fl rt (rat_of_nat inter / rat_of_nat union)
           in if inter * 10 \<ge> union * 7 then (relMerge, sim)
              else if inter * 10 \<ge> union * 4 then (relGray, sim)
              else (relDistinct, sim))"

definition distanceFloor :: rat where [simp]: "distanceFloor = 0"
definition distanceCeiling :: rat where [simp]: "distanceCeiling = 1"

definition pairDistance :: "runtime \<Rightarrow> string \<Rightarrow> string \<Rightarrow> string set \<Rightarrow> string set \<Rightarrow> rat" where
  "pairDistance rt keyA keyB tokA tokB =
     (if keyA \<noteq> [] \<and> keyA = keyB then distanceFloor
      else fl rt (distanceCeiling - snd (classify rt tokA tokB)))"

subsection \<open>Tokens are the maximal runs\<close>

definition token_run :: "string \<Rightarrow> string \<Rightarrow> bool" where
  "token_run t s \<longleftrightarrow> t \<noteq> [] \<and> list_all token_byte t \<and>
     (\<exists>u v. s = u @ t @ v \<and> (u = [] \<or> \<not> token_byte (last u)) \<and> (v = [] \<or> \<not> token_byte (hd v)))"

lemma takeWhile_run:
  assumes "s = t @ v" "list_all token_byte t" "v = [] \<or> \<not> token_byte (hd v)"
  shows "takeWhile token_byte s = t"
proof -
  have "takeWhile token_byte (t @ v) = t @ takeWhile token_byte v"
    using assms(2) by (simp add: list_all_iff)
  moreover have "takeWhile token_byte v = []"
    using assms(3) by (cases v) auto
  ultimately show ?thesis using assms(1) by simp
qed

lemma token_run_append:
  assumes "list_all (\<lambda>x. \<not> token_byte x) w"
  shows "token_run t (w @ s) \<longleftrightarrow> token_run t s"
  using assms
proof (induction w)
  case (Cons c w)
  have "token_run t (c # r) \<longleftrightarrow> token_run t r" if c: "\<not> token_byte c" for r
  proof
    assume "token_run t (c # r)"
    then obtain u v where eq: "c # r = u @ t @ v" and t: "t \<noteq> []" "list_all token_byte t"
      and uv: "u = [] \<or> \<not> token_byte (last u)" "v = [] \<or> \<not> token_byte (hd v)"
      unfolding token_run_def by blast
    have "u \<noteq> []" using eq t c by (cases t) auto
    then obtain u' where "u = c # u'" using eq by (cases u) auto
    then have "r = u' @ t @ v" "u' = [] \<or> \<not> token_byte (last u')" using eq uv(1) by auto
    then show "token_run t r" unfolding token_run_def using t uv(2) by blast
  next
    assume "token_run t r"
    then obtain u v where eq: "r = u @ t @ v" and t: "t \<noteq> []" "list_all token_byte t"
      and uv: "u = [] \<or> \<not> token_byte (last u)" "v = [] \<or> \<not> token_byte (hd v)"
      unfolding token_run_def by blast
    have "c # r = (c # u) @ t @ v" "\<not> token_byte (last (c # u))" using eq uv(1) c by auto
    then show "token_run t (c # r)" unfolding token_run_def using t uv(2) by blast
  qed
  with Cons show ?case by simp
qed simp

lemma token_run_split:
  assumes w: "list_all token_byte w" and c: "\<not> token_byte c"
  shows "token_run t (w @ c # r) \<longleftrightarrow> t \<noteq> [] \<and> t = w \<or> token_run t r"
proof
  assume "token_run t (w @ c # r)"
  then obtain u v where eq: "w @ c # r = u @ t @ v" and t: "t \<noteq> []" "list_all token_byte t"
    and uv: "u = [] \<or> \<not> token_byte (last u)" "v = [] \<or> \<not> token_byte (hd v)"
    unfolding token_run_def by blast
  show "t \<noteq> [] \<and> t = w \<or> token_run t r"
  proof (cases "u = []")
    case True
    then have "takeWhile token_byte (w @ c # r) = t" using takeWhile_run [of _ t v] eq t uv by simp
    moreover have "takeWhile token_byte (w @ c # r) = w" using takeWhile_run [of _ w "c # r"] w c by simp
    ultimately show ?thesis using t by simp
  next
    case False
    then have nt: "\<not> token_byte (last u)" using uv(1) by simp
    have "length w < length u"
    proof (rule ccontr)
      assume "\<not> length w < length u"
      then have "u = take (length u) w"
        using arg_cong [OF eq, of "take (length u)"] by simp
      then have "set u \<subseteq> set w" by (metis set_take_subset)
      then show False using w nt last_in_set [OF False] by (auto simp: list_all_iff)
    qed
    then obtain d where d: "u = w @ c # d"
      using eq by (auto simp: append_eq_append_conv2 Cons_eq_append_conv append_eq_Cons_conv)
    then have "r = d @ t @ v" "d = [] \<or> \<not> token_byte (last d)" using eq nt by auto
    then show ?thesis unfolding token_run_def using t uv(2) by blast
  qed
next
  assume "t \<noteq> [] \<and> t = w \<or> token_run t r"
  then show "token_run t (w @ c # r)"
  proof
    assume "t \<noteq> [] \<and> t = w"
    then show ?thesis
      unfolding token_run_def using w c by (intro conjI exI [of _ "[]"] exI [of _ "c # r"]) auto
  next
    assume "token_run t r"
    then obtain u v where eq: "r = u @ t @ v" and t: "t \<noteq> []" "list_all token_byte t"
      and uv: "u = [] \<or> \<not> token_byte (last u)" "v = [] \<or> \<not> token_byte (hd v)"
      unfolding token_run_def by blast
    have "w @ c # r = (w @ c # u) @ t @ v" "\<not> token_byte (last (w @ c # u))" using eq uv(1) c by auto
    then show ?thesis unfolding token_run_def using t uv(2) by blast
  qed
qed

lemma token_run_all:
  assumes w: "list_all token_byte w"
  shows "token_run t w \<longleftrightarrow> t \<noteq> [] \<and> t = w"
proof
  assume "token_run t w"
  then obtain u v where eq: "w = u @ t @ v" and t: "t \<noteq> []"
    and uv: "u = [] \<or> \<not> token_byte (last u)" "v = [] \<or> \<not> token_byte (hd v)"
    unfolding token_run_def by blast
  have "u = []" "v = []"
    using w eq uv last_in_set [of u] hd_in_set [of v] by (auto simp: list_all_iff)
  then show "t \<noteq> [] \<and> t = w" using eq t by simp
next
  assume "t \<noteq> [] \<and> t = w"
  then show "token_run t w" unfolding token_run_def using w by (metis append.left_neutral append.right_neutral)
qed

lemma tokenSplit_Split_runs: "t \<in> set (tokenSplit_Split s) \<and> t \<noteq> [] \<longleftrightarrow> token_run t s"
proof (induction s rule: tokenSplit_Split.induct)
  case (1 s)
  let ?w = "takeWhile token_byte s"
  have w: "list_all token_byte ?w" by (auto simp: list_all_iff dest: set_takeWhileD)
  show ?case
  proof (cases "dropWhile token_byte s")
    case Nil
    then have all: "list_all token_byte s" by (simp add: dropWhile_eq_Nil_conv list_all_iff)
    then have "takeWhile token_byte s = s" by (simp add: list_all_iff)
    then have "tokenSplit_Split s = [s]" by (simp only: tokenSplit_Split.simps [of s] Nil list.case)
    then show ?thesis using token_run_all [OF all, of t] by auto
  next
    case (Cons c rest)
    let ?d = "dropWhile (\<lambda>x. \<not> token_byte x) rest"
    have c: "\<not> token_byte c" using Cons by (metis dropWhile_eq_Cons_conv)
    have s: "s = ?w @ c # rest" by (metis Cons takeWhile_dropWhile_id)
    have "token_run t s \<longleftrightarrow> t \<noteq> [] \<and> t = ?w \<or> token_run t rest"
      using token_run_split [OF w c, of t rest] s by simp
    moreover have "token_run t rest \<longleftrightarrow> token_run t ?d"
      using token_run_append [of "takeWhile (\<lambda>x. \<not> token_byte x) rest" t ?d]
      by (auto simp: list_all_iff dest: set_takeWhileD)
    ultimately show ?thesis
      using 1 [OF Cons] by (auto simp: tokenSplit_Split.simps [of s] Cons)
  qed
qed

text \<open>
  \<^verbatim>\<open>tokenize\<close> returns precisely the maximal runs of \<^verbatim>\<open>[a-z0-9]\<close> of the lower-cased text.
\<close>

theorem tokenize_maximal_runs: "t \<in> tokenize s \<longleftrightarrow> token_run t (ToLower s)"
  using tokenSplit_Split_runs [of t "ToLower s"] by (simp add: tokenize_def)

subsection \<open>Thresholds\<close>

definition jaccard :: "string set \<Rightarrow> string set \<Rightarrow> rat" where
  "jaccard a b = (if a \<union> b = {} then 1 else rat_of_nat (card (a \<inter> b)) / rat_of_nat (card (a \<union> b)))"

lemma finite_tokenize [simp]: "finite (tokenize s)"
  by (simp add: tokenize_def)

lemma card_Un_diff:
  assumes "finite a" "finite b"
  shows "card a + card b - card (a \<inter> b) = card (a \<union> b)"
  using card_Un_Int [OF assms] by simp

lemma jaccard_threshold:
  assumes "finite a" "finite b" "a \<union> b \<noteq> {}"
  shows "card (a \<union> b) * k \<le> card (a \<inter> b) * 10 \<longleftrightarrow> rat_of_nat k / 10 \<le> jaccard a b"
proof -
  have "0 < card (a \<union> b)" using assms by (simp add: card_gt_0_iff)
  then show ?thesis
    using assms(3) of_nat_le_iff [where 'a = rat, of "card (a \<union> b) * k" "card (a \<inter> b) * 10"]
    by (auto simp: jaccard_def field_simps simp del: of_nat_le_iff)
qed

definition relation_of :: "rat \<Rightarrow> relation" where
  "relation_of j = (if MergeThreshold \<le> j then relMerge else if GrayLow \<le> j then relGray else relDistinct)"

lemma classify_relation:
  assumes "finite a" "finite b"
  shows "fst (classify rt a b) = relation_of (jaccard a b)"
proof (cases "a = {} \<or> b = {}")
  case True
  then show ?thesis
    using assms by (auto simp: classify_def relation_of_def jaccard_def MergeThreshold_def GrayLow_def)
next
  case False
  then have "a \<union> b \<noteq> {}" by auto
  from jaccard_threshold [OF assms this, of 7] jaccard_threshold [OF assms this, of 4] False show ?thesis
    using assms by (simp add: classify_def Let_def card_Un_diff relation_of_def MergeThreshold_def GrayLow_def)
qed

lemma classify_sim_exact:
  assumes "fl rt = id" "finite a" "finite b"
  shows "snd (classify rt a b) = jaccard a b"
  using assms by (auto simp: classify_def Let_def card_Un_diff jaccard_def)

lemma classify_sym: "classify rt a b = classify rt b a"
  unfolding classify_def by (simp add: Int_commute add.commute conj_commute disj_commute Let_def)

lemma jaccard_bounds: "finite a \<Longrightarrow> finite b \<Longrightarrow> 0 \<le> jaccard a b \<and> jaccard a b \<le> 1"
  by (auto simp: jaccard_def divide_le_eq_1 card_gt_0_iff intro!: card_mono)

text \<open>With rounding the similarity is still a number near the unit interval.\<close>

lemma classify_sim_near:
  assumes "accurate (fl rt)" "finite a" "finite b"
  shows "\<bar>snd (classify rt a b) - jaccard a b\<bar> \<le> 1 / 2 ^ 37"
proof (cases "a = {} \<or> b = {}")
  case True
  then show ?thesis using assms by (auto simp: classify_def jaccard_def)
next
  case False
  then have "snd (classify rt a b) = fl rt (jaccard a b)"
    using assms(2,3) by (simp add: classify_def Let_def card_Un_diff jaccard_def)
  moreover have "\<bar>jaccard a b\<bar> \<le> 2 ^ 16" using jaccard_bounds [OF assms(2,3)] by simp
  ultimately show ?thesis using accurateD [OF assms(1)] by simp
qed

text \<open>
  C35. The relation \<^verbatim>\<open>classify\<close> returns for two texts is decided by their exact Jaccard similarity
  against \<^verbatim>\<open>MergeThreshold\<close> and \<^verbatim>\<open>GrayLow\<close>, whatever the floating-point rounding does, and it does not
  depend on the order of the two texts.
\<close>

theorem classify_exact_thresholds:
  "fst (classify rt (tokenize p) (tokenize q)) = relation_of (jaccard (tokenize p) (tokenize q)) \<and>
   classify rt (tokenize p) (tokenize q) = classify rt (tokenize q) (tokenize p)"
  using classify_relation classify_sym by simp

lemma pairDistance_sym: "pairDistance rt k1 k2 a b = pairDistance rt k2 k1 b a"
  using classify_sym [of rt a b] by (auto simp: pairDistance_def)

lemma pairDistance_bounds:
  assumes "finite a" "finite b"
  shows "0 \<le> pairDistance exact_runtime k1 k2 a b" "pairDistance exact_runtime k1 k2 a b \<le> 1"
  using jaccard_bounds [OF assms] classify_sim_exact [OF exact_runtime_simps(1) assms] by (auto simp: pairDistance_def)

end
