(* ===== verification/Merge.thy ===== *)
theory Merge
  imports Category Similarity
begin

text \<open>
  Merging a group of duplicates into one reconciled finding: \<^verbatim>\<open>reconcile/merge.go\<close> and
  \<^verbatim>\<open>reconcile/panelwide.go\<close>. A Go set or counter map that is only looked up or listed in sorted order
  is the list of its keys. The theorems say what each field of a merged finding is, for every group,
  and which of them do not depend on the order of the group.
\<close>

subsection \<open>Records\<close>

record sourceQuote =
  sqReviewer :: string
  sqFile :: string
  sqCategory :: string
  sqEvidence :: string

record sourceCategory =
  scReviewer :: string
  scCategory :: string

record merged = finding +
  SourceCategories :: "sourceCategory list"
  ConfidenceDiscount :: string
  SourceQuotes :: "sourceQuote list"

subsection \<open>Fields\<close>

definition sourceQuotes :: "finding list \<Rightarrow> sourceQuote list" where
  "sourceQuotes members =
     map (\<lambda>f. \<lparr>sqReviewer = strip_commas (Reviewer f), sqFile = File f,
               sqCategory = canonical (Category f), sqEvidence = Evidence f\<rparr>) members"

definition sourceCategories :: "finding list \<Rightarrow> sourceCategory list" where
  "sourceCategories members =
     map (\<lambda>f. \<lparr>scReviewer = strip_commas (Reviewer f), scCategory = canonical (Category f)\<rparr>) members"

definition distinctReviewers :: "finding list \<Rightarrow> string list" where
  "distinctReviewers members =
     sort (distinct_keys (filter (\<lambda>r. r \<noteq> []) (map (\<lambda>f. strip_commas (Reviewer f)) members)))"

text \<open>The loop of \<^verbatim>\<open>MergeSeverity\<close>: the set \<^verbatim>\<open>seen\<close>, then the two ranks with their severities.\<close>

definition MaxInt :: int where "MaxInt = 2 ^ 63 - 1"

definition severity_step ::
  "finding \<Rightarrow> string list \<times> int \<times> string \<times> int \<times> string \<Rightarrow> string list \<times> int \<times> string \<times> int \<times> string" where
  "severity_step f st =
     (case st of (seen, maxRank, mx, minRank, minSev) \<Rightarrow>
        let norm = NormalizeSeverity (Severity f) in
        case SeverityRank norm of
          None \<Rightarrow> st
        | Some rank \<Rightarrow>
            (List.insert norm seen,
             (if rank > maxRank then rank else maxRank), (if rank > maxRank then norm else mx),
             (if rank < minRank then rank else minRank), (if rank < minRank then norm else minSev)))"

text \<open>\<open>first\<close> is \<^verbatim>\<open>group[0]\<close>; on the empty group the index panics.\<close>

definition merge_severity :: "finding \<Rightarrow> finding list \<Rightarrow> string \<times> string" where
  "merge_severity first members =
     (case fold severity_step members ([], - 1, [], MaxInt, []) of (seen, maxRank, mx, minRank, minSev) \<Rightarrow>
        let mx = (if mx = [] then NormalizeSeverity (Severity first) else mx) in
        (mx, if length seen > 1 then minSev @ '' vs '' @ mx else []))"

fun MergeSeverity :: "finding list \<Rightarrow> (string \<times> string) option" where
  "MergeSeverity [] = None"
| "MergeSeverity (f # fs) = Some (merge_severity f (f # fs))"

definition LongestField :: "finding list \<Rightarrow> (finding \<Rightarrow> string) \<Rightarrow> string" where
  "LongestField members sel =
     fold (\<lambda>f best. if length (sel f) > length best then sel f else best) members []"

definition modal_step :: "string list \<Rightarrow> string \<Rightarrow> string \<times> int \<Rightarrow> string \<times> int" where
  "modal_step cs cat st =
     (case st of (best, bestCount) \<Rightarrow>
        let c = int (count_list cs cat) in
        if c > bestCount then (cat, c)
        else if c = bestCount \<and> best = [] \<and> cat \<noteq> [] then (cat, bestCount)
        else st)"

definition ModalCategory :: "finding list \<Rightarrow> string" where
  "ModalCategory members =
     (let cs = map (\<lambda>f. canonical (Category f)) members in
      if list_all (\<lambda>c. c = CategoryOutOfScope) cs then CategoryOutOfScope
      else fst (fold (modal_step cs) (sort (distinct_keys (filter (\<lambda>c. c \<noteq> CategoryOutOfScope) cs))) ([], - 1)))"

fun MaxEstMinutes :: "finding list \<Rightarrow> int" where
  "MaxEstMinutes [] = 0"
| "MaxEstMinutes (g # gs) =
     fold (\<lambda>f mx. if EstMinutes f > mx then EstMinutes f else mx) (g # gs) (EstMinutes g)"

definition evidence_part :: "finding \<Rightarrow> string" where
  "evidence_part f = (if Reviewer f \<noteq> [] then ''['' @ Reviewer f @ ''] '' @ Evidence f else Evidence f)"

definition mergeEvidence :: "finding list \<Rightarrow> string" where
  "mergeEvidence members =
     (if length members = 1 then Evidence (members ! 0)
      else Join (map evidence_part (filter (\<lambda>f. Evidence f \<noteq> []) members)) '' / '')"

subsection \<open>Confidence and the panel-wide class\<close>

definition ConfidenceFor :: "nat \<Rightarrow> string" where
  "ConfidenceFor reviewerCount = (if reviewerCount \<ge> 2 then ConfHigh else ConfMedium)"

definition PanelWideReason :: string where
  "PanelWideReason = ''panel-wide instruction: invariant finding, one file, near-identical evidence''"

definition DiscountedConfidence :: "nat \<Rightarrow> string \<Rightarrow> bool \<Rightarrow> string \<times> string" where
  "DiscountedConfidence reviewerCount category indep =
     (if reviewerCount \<ge> 2 \<and> \<not> indep \<and> canonical category = CategoryInvariant
      then (ConfMedium, PanelWideReason) else (ConfidenceFor reviewerCount, []))"

definition ConfidenceForCategory :: "nat \<Rightarrow> string \<Rightarrow> bool \<Rightarrow> string" where
  "ConfidenceForCategory reviewerCount category indep =
     fst (DiscountedConfidence reviewerCount category indep)"

definition finding_of_quote :: "sourceQuote \<Rightarrow> finding" where
  "finding_of_quote q =
     zero_finding\<lparr>Reviewer := sqReviewer q, File := sqFile q, Category := sqCategory q, Evidence := sqEvidence q\<rparr>"

fun all_near :: "runtime \<Rightarrow> string set list \<Rightarrow> bool" where
  "all_near rt [] = True"
| "all_near rt (t # ts) = (list_all (\<lambda>u. fst (classify rt t u) = relMerge) ts \<and> all_near rt ts)"

definition IsPanelWideQuotes :: "runtime \<Rightarrow> sourceQuote list \<Rightarrow> bool" where
  "IsPanelWideQuotes rt quotes =
     (let members = map finding_of_quote quotes in
      if length (distinctReviewers members) < 2 then False
      else if ModalCategory members \<noteq> CategoryInvariant then False
      else let path = TrimSpace (File (members ! 0)) in
        list_all (\<lambda>f. TrimSpace (File f) = path \<and> tokenize (Evidence f) \<noteq> {}) members \<and>
        all_near rt (map (\<lambda>f. tokenize (Evidence f)) members))"

definition IsPanelWide :: "runtime \<Rightarrow> finding list \<Rightarrow> bool" where
  "IsPanelWide rt members = IsPanelWideQuotes rt (sourceQuotes members)"

subsection \<open>Merging\<close>

definition zero_merged :: merged where
  "zero_merged = finding.extend zero_finding \<lparr>SourceCategories = [], ConfidenceDiscount = [], SourceQuotes = []\<rparr>"

fun Merge :: "runtime \<Rightarrow> finding list \<Rightarrow> merged" where
  "Merge rt [] = zero_merged"
| "Merge rt (g # gs) =
     (let members = g # gs;
          reviewers = distinctReviewers members;
          (maxSev, disagreement) = merge_severity g members;
          category = ModalCategory members;
          quotes = sourceQuotes members;
          (confidence, discount) =
            DiscountedConfidence (length reviewers) category (\<not> IsPanelWideQuotes rt quotes)
      in \<lparr>Severity = maxSev, File = File g, Line = Line g, Problem = LongestField members Problem,
          Fix = LongestField members Fix, Category = category, EstMinutes = MaxEstMinutes members,
          Evidence = mergeEvidence members, Reviewer = [], Reviewers = reviewers,
          Confidence = confidence, Disagreement = disagreement, Verification = None,
          SourceCategories = sourceCategories members, ConfidenceDiscount = discount,
          SourceQuotes = quotes\<rparr>)"

declare Merge.simps(2) [simp del]

subsection \<open>Severities of a group\<close>

definition known_severities :: "finding list \<Rightarrow> string set" where
  "known_severities members = {s \<in> (\<lambda>f. NormalizeSeverity (Severity f)) ` set members. SeverityRank s \<noteq> None}"

definition top_severity :: "string set \<Rightarrow> string" where
  "top_severity S =
     (if SevCritical \<in> S then SevCritical else if SevHigh \<in> S then SevHigh
      else if SevMedium \<in> S then SevMedium else SevLow)"

definition bottom_severity :: "string set \<Rightarrow> string" where
  "bottom_severity S =
     (if SevLow \<in> S then SevLow else if SevMedium \<in> S then SevMedium
      else if SevHigh \<in> S then SevHigh else SevCritical)"

lemma SeverityRank_known: "SeverityRank s \<noteq> None \<longleftrightarrow> s \<in> {SevCritical, SevHigh, SevMedium, SevLow}"
  by (auto simp: SeverityRank_def)

lemma SeverityRank_values [simp]:
  "SeverityRank ''CRITICAL'' = Some 4" "SeverityRank ''HIGH'' = Some 3"
  "SeverityRank ''MEDIUM'' = Some 2" "SeverityRank ''LOW'' = Some 1"
  by (simp_all add: SeverityRank_def)

definition severity_state :: "string set \<Rightarrow> string list \<times> int \<times> string \<times> int \<times> string \<Rightarrow> bool" where
  "severity_state S st =
     (case st of (seen, maxRank, mx, minRank, minSev) \<Rightarrow>
        set seen = S \<and> distinct seen \<and> S \<subseteq> {SevCritical, SevHigh, SevMedium, SevLow} \<and>
        (if S = {} then maxRank = - 1 \<and> mx = [] \<and> minRank = MaxInt \<and> minSev = []
         else mx = top_severity S \<and> SeverityRank (top_severity S) = Some maxRank \<and>
              minSev = bottom_severity S \<and> SeverityRank (bottom_severity S) = Some minRank))"

lemma severity_state_unknown:
  "severity_state S st \<Longrightarrow> SeverityRank (NormalizeSeverity (Severity f)) = None \<Longrightarrow> severity_step f st = st"
  by (auto simp: severity_step_def split: prod.splits)

lemma severity_state_known:
  assumes st: "severity_state S st" and k: "SeverityRank (NormalizeSeverity (Severity f)) \<noteq> None"
  shows "severity_state (insert (NormalizeSeverity (Severity f)) S) (severity_step f st)"
proof -
  obtain seen maxRank mx minRank minSev where s: "st = (seen, maxRank, mx, minRank, minSev)" by (cases st)
  have S: "S \<subseteq> {''CRITICAL'', ''HIGH'', ''MEDIUM'', ''LOW''}" and seen: "set seen = S" "distinct seen"
    using st by (simp_all add: severity_state_def s)
  have n: "NormalizeSeverity (Severity f) = ''CRITICAL'' \<or> NormalizeSeverity (Severity f) = ''HIGH'' \<or>
      NormalizeSeverity (Severity f) = ''MEDIUM'' \<or> NormalizeSeverity (Severity f) = ''LOW''"
    using k [unfolded SeverityRank_known] by simp
  show ?thesis
  proof (cases "S = {}")
    case True
    then show ?thesis using st n
      by (elim disjE) (simp_all add: severity_state_def severity_step_def s top_severity_def bottom_severity_def MaxInt_def Let_def)
  next
    case False
    have mx: "mx = top_severity S" "SeverityRank mx = Some maxRank" "minSev = bottom_severity S" "SeverityRank minSev = Some minRank"
      using st False by (simp_all add: severity_state_def s)
    consider "''CRITICAL'' \<in> S" | "''CRITICAL'' \<notin> S" "''HIGH'' \<in> S" | "''CRITICAL'' \<notin> S" "''HIGH'' \<notin> S" "''MEDIUM'' \<in> S"
      | "S = {''LOW''}" using S False by blast
    then have top: "top_severity (insert (NormalizeSeverity (Severity f)) S) = (if the (SeverityRank (NormalizeSeverity (Severity f))) > maxRank then NormalizeSeverity (Severity f) else mx) \<and>
       SeverityRank (top_severity (insert (NormalizeSeverity (Severity f)) S)) = Some (max maxRank (the (SeverityRank (NormalizeSeverity (Severity f)))))"
      by cases (use n mx(1,2) in \<open>elim disjE; force simp: top_severity_def\<close>)+
    consider "''LOW'' \<in> S" | "''LOW'' \<notin> S" "''MEDIUM'' \<in> S" | "''LOW'' \<notin> S" "''MEDIUM'' \<notin> S" "''HIGH'' \<in> S"
      | "S = {''CRITICAL''}" using S False by blast
    then have bot: "bottom_severity (insert (NormalizeSeverity (Severity f)) S) = (if the (SeverityRank (NormalizeSeverity (Severity f))) < minRank then NormalizeSeverity (Severity f) else minSev) \<and>
       SeverityRank (bottom_severity (insert (NormalizeSeverity (Severity f)) S)) = Some (min minRank (the (SeverityRank (NormalizeSeverity (Severity f)))))"
      by cases (use n mx(3,4) in \<open>elim disjE; force simp: bottom_severity_def\<close>)+
    obtain r where r: "SeverityRank (NormalizeSeverity (Severity f)) = Some r" using k by blast
    show ?thesis using top bot r S seen n
      by (auto simp: severity_state_def severity_step_def s Let_def max_def min_def)
  qed
qed

lemma severity_fold:
  "severity_state S st \<Longrightarrow> severity_state (S \<union> known_severities members) (fold severity_step members st)"
proof (induction members arbitrary: S st)
  case Nil
  then show ?case by (simp add: known_severities_def)
next
  case (Cons f fs)
  show ?case
  proof (cases "SeverityRank (NormalizeSeverity (Severity f)) = None")
    case True
    then have "known_severities (f # fs) = known_severities fs" by (auto simp: known_severities_def)
    then show ?thesis using Cons.IH [OF Cons.prems] severity_state_unknown [OF Cons.prems True] by simp
  next
    case False
    then have "insert (NormalizeSeverity (Severity f)) S \<union> known_severities fs = S \<union> known_severities (f # fs)"
      by (auto simp: known_severities_def)
    then show ?thesis using Cons.IH [OF severity_state_known [OF Cons.prems False]] by simp
  qed
qed

lemma top_eq_bottom:
  assumes "top_severity S = bottom_severity S" "S \<subseteq> {SevCritical, SevHigh, SevMedium, SevLow}"
  shows "S \<subseteq> {top_severity S}"
proof -
  consider "''CRITICAL'' \<in> S" | "''CRITICAL'' \<notin> S" "''HIGH'' \<in> S" | "''CRITICAL'' \<notin> S" "''HIGH'' \<notin> S" "''MEDIUM'' \<in> S"
    | "S \<subseteq> {''LOW''}" using assms(2) by (simp, blast)
  then show ?thesis
  proof cases
    case 1
    have L: "''LOW'' \<notin> S" using assms(1) 1  by (cases "''LOW'' \<in> S") (simp_all add: top_severity_def bottom_severity_def)
    have M: "''MEDIUM'' \<notin> S" using assms(1) 1 L by (cases "''MEDIUM'' \<in> S") (simp_all add: top_severity_def bottom_severity_def)
    have H: "''HIGH'' \<notin> S" using assms(1) 1 L M by (cases "''HIGH'' \<in> S") (simp_all add: top_severity_def bottom_severity_def)
    show ?thesis using L M H 1 assms(2) by (simp add: top_severity_def, blast)
  next
    case 2
    have L: "''LOW'' \<notin> S" using assms(1) 2  by (cases "''LOW'' \<in> S") (simp_all add: top_severity_def bottom_severity_def)
    have M: "''MEDIUM'' \<notin> S" using assms(1) 2 L by (cases "''MEDIUM'' \<in> S") (simp_all add: top_severity_def bottom_severity_def)
    show ?thesis using L M 2 assms(2) by (simp add: top_severity_def, blast)
  next
    case 3
    have L: "''LOW'' \<notin> S" using assms(1) 3  by (cases "''LOW'' \<in> S") (simp_all add: top_severity_def bottom_severity_def)
    show ?thesis using L 3 assms(2) by (simp add: top_severity_def, blast)
  next
    case 4
    then have "''CRITICAL'' \<notin> S" "''HIGH'' \<notin> S" "''MEDIUM'' \<notin> S" by auto
    then show ?thesis using 4 by (simp add: top_severity_def)
  qed
qed

lemma top_neq_bottom:
  assumes "S \<noteq> {}" "S \<subseteq> {SevCritical, SevHigh, SevMedium, SevLow}" "finite S"
  shows "1 < card S \<longleftrightarrow> top_severity S \<noteq> bottom_severity S"
proof
  assume "1 < card S"
  then show "top_severity S \<noteq> bottom_severity S"
    using top_eq_bottom [OF _ assms(2)] card_mono [of "{top_severity S}" S] by fastforce
next
  assume neq: "top_severity S \<noteq> bottom_severity S"
  have "card S \<noteq> 1"
  proof
    assume "card S = 1"
    then obtain s where s: "S = {s}" by (auto simp: card_1_singleton_iff)
    then have "s = ''CRITICAL'' \<or> s = ''HIGH'' \<or> s = ''MEDIUM'' \<or> s = ''LOW''" using assms(2) by simp
    then show False using neq by (elim disjE) (simp_all add: s top_severity_def bottom_severity_def)
  qed
  moreover have "card S \<noteq> 0" using assms(1,3) by simp
  ultimately show "1 < card S" by simp
qed

lemma merge_severity_eq:
  "merge_severity first members =
     (let S = known_severities members in
      if S = {} then (NormalizeSeverity (Severity first), [])
      else (top_severity S,
            if top_severity S = bottom_severity S then [] else bottom_severity S @ '' vs '' @ top_severity S))"
proof -
  let ?S = "known_severities members"
  obtain seen maxRank mx minRank minSev where st: "fold severity_step members ([], - 1, [], MaxInt, []) = (seen, maxRank, mx, minRank, minSev)"
    by (rule prod_cases5)
  have "severity_state {} ([], - 1, [], MaxInt, [])" by (simp add: severity_state_def)
  from severity_fold [OF this, of members]
  have inv: "severity_state ?S (seen, maxRank, mx, minRank, minSev)" by (simp add: st)
  have seen: "set seen = ?S" "length seen = card ?S" "?S \<subseteq> {SevCritical, SevHigh, SevMedium, SevLow}"
    using inv distinct_card [of seen] by (simp_all add: severity_state_def)
  have ne: "top_severity ?S \<noteq> []" by (simp add: top_severity_def)
  show ?thesis
  proof (cases "?S = {}")
    case True
    then show ?thesis using inv seen by (simp add: merge_severity_def st severity_state_def)
  next
    case False
    have "finite ?S" using seen(1) by (metis List.finite_set)
    then show ?thesis using inv ne top_neq_bottom [OF False seen(3)] seen(2) False
      by (simp add: merge_severity_def st severity_state_def Let_def)
  qed
qed

subsection \<open>Reviewers, estimates and longest texts\<close>

lemma sort_distinct_keys: "sort (distinct_keys xs) = sorted_list_of_set (set xs)"
  by (metis distinct_distinct_keys distinct_sort set_distinct_keys set_sort sorted_list_of_set.idem_if_sorted_distinct sorted_sort)

lemma distinctReviewers_eq:
  "distinctReviewers members = sorted_list_of_set ((\<lambda>f. strip_commas (Reviewer f)) ` set members - {[]})"
  by (auto simp: distinctReviewers_def sort_distinct_keys intro: arg_cong [where f = sorted_list_of_set])

lemma fold_max_step:
  "fold (\<lambda>f mx. if h f > mx then h f else mx) fs (m :: int) = Max (insert m (h ` set fs))"
proof (induction fs arbitrary: m)
  case (Cons f fs)
  have "Max (insert m (insert (h f) (h ` set fs))) = Max (insert (if m < h f then h f else m) (h ` set fs))"
    by (cases "h ` set fs = {}") (auto simp: max_def)
  then show ?case using Cons by simp
qed simp

lemma MaxEstMinutes_eq: "members \<noteq> [] \<Longrightarrow> MaxEstMinutes members = Max (EstMinutes ` set members)"
  by (cases members) (simp_all only: MaxEstMinutes.simps fold_max_step, auto)

lemma LongestField_from:
  assumes "best' = fold (\<lambda>f best. if length (sel f) > length best then sel f else best) fs best"
  shows "(best' = best \<or> best' \<in> sel ` set fs) \<and> length best \<le> length best' \<and> (\<forall>f \<in> set fs. length (sel f) \<le> length best')"
  using assms
proof (induction fs arbitrary: best)
  case (Cons f fs)
  have "best' = fold (\<lambda>f best. if length best < length (sel f) then sel f else best) fs (if length best < length (sel f) then sel f else best)"
    using Cons.prems by simp
  from Cons.IH [OF this] show ?case by (auto split: if_splits)
qed simp

lemma LongestField_spec:
  "(LongestField members sel \<in> sel ` set members \<or> LongestField members sel = []) \<and>
   (\<forall>f \<in> set members. length (sel f) \<le> length (LongestField members sel))"
  using LongestField_from [OF LongestField_def] by blast

subsection \<open>The modal category\<close>

definition modal_better :: "string list \<Rightarrow> string \<Rightarrow> string \<Rightarrow> bool" where
  "modal_better cs best c \<longleftrightarrow>
     count_list cs c \<le> count_list cs best \<and>
     (count_list cs c = count_list cs best \<and> c \<noteq> [] \<longrightarrow> best \<noteq> [] \<and> best \<le> c)"

lemma modal_fold:
  assumes "sorted cats" "distinct cats" "\<forall>d \<in> set done. \<forall>c \<in> set cats. d \<le> c"
    and "done \<noteq> [] \<longrightarrow> best \<in> set done \<and> n = int (count_list cs best) \<and> (\<forall>c \<in> set done. modal_better cs best c)"
    and "done = [] \<longrightarrow> n = - 1" "done @ cats \<noteq> []"
  shows "fst (fold (modal_step cs) cats (best, n)) \<in> set (done @ cats) \<and>
    (\<forall>c \<in> set (done @ cats). modal_better cs (fst (fold (modal_step cs) cats (best, n))) c)"
  using assms
proof (induction cats arbitrary: "done" best n)
  case Nil
  then show ?case by simp
next
  case (Cons cat cats)
  obtain best' n' where s: "modal_step cs cat (best, n) = (best', n')" by (metis surj_pair)
  have le: "d \<le> cat" if "d \<in> set done" for d using that Cons.prems(3) by simp
  have step: "best' \<in> set (done @ [cat]) \<and> n' = int (count_list cs best') \<and> (\<forall>c \<in> set (done @ [cat]). modal_better cs best' c)"
  proof (cases "done = []")
    case True
    then have "n = - 1" using Cons.prems(5) by simp
    then have "best' = cat" "n' = int (count_list cs cat)" using s by (auto simp: modal_step_def Let_def split: if_splits)
    then show ?thesis using True by (simp add: modal_better_def)
  next
    case False
    then have inv: "best \<in> set done" "n = int (count_list cs best)" "\<forall>c \<in> set done. modal_better cs best c"
      using Cons.prems(4) by simp_all
    consider "count_list cs best < count_list cs cat" | "count_list cs cat = count_list cs best" "best = []" "cat \<noteq> []"
      | "count_list cs cat \<le> count_list cs best" "count_list cs cat \<noteq> count_list cs best \<or> best \<noteq> [] \<or> cat = []"
      by linarith
    then show ?thesis
    proof cases
      case 1
      then have "best' = cat" "n' = int (count_list cs cat)" using s inv(2) by (auto simp: modal_step_def Let_def split: if_splits)
      moreover have "modal_better cs cat c" if "c \<in> set done" for c
        using 1 inv(3) that unfolding modal_better_def by (metis leD le_less_trans less_imp_le)
      ultimately show ?thesis by (auto simp: modal_better_def)
    next
      case 2
      then have b: "best' = cat" "n' = int (count_list cs cat)" using s inv(2) by (auto simp: modal_step_def Let_def split: if_splits)
      have "modal_better cs cat c" if "c \<in> set done" for c
        using 2 inv(3) that unfolding modal_better_def by metis
      then show ?thesis using b by (auto simp: modal_better_def)
    next
      case 3
      then have b: "best' = best" "n' = n" using s inv(2) by (auto simp: modal_step_def Let_def split: if_splits)
      have "modal_better cs best cat" using 3 le [OF inv(1)] by (auto simp: modal_better_def)
      then show ?thesis using b inv by auto
    qed
  qed
  have "fst (fold (modal_step cs) cats (best', n')) \<in> set ((done @ [cat]) @ cats) \<and>
    (\<forall>c \<in> set ((done @ [cat]) @ cats). modal_better cs (fst (fold (modal_step cs) cats (best', n'))) c)"
    using Cons.prems step by (intro Cons.IH) auto
  then show ?case by (simp add: s)
qed

lemma ModalCategory_spec:
  fixes members defines "cs \<equiv> map (\<lambda>f. canonical (Category f)) members"
  shows "if set cs \<subseteq> {CategoryOutOfScope} then ModalCategory members = CategoryOutOfScope
    else ModalCategory members \<in> set cs - {CategoryOutOfScope} \<and>
         (\<forall>c \<in> set cs - {CategoryOutOfScope}. modal_better cs (ModalCategory members) c)"
proof (cases "set cs \<subseteq> {CategoryOutOfScope}")
  case True
  then have "list_all (\<lambda>c. c = CategoryOutOfScope) cs" by (auto simp: list_all_iff)
  then show ?thesis using True by (simp add: ModalCategory_def cs_def [symmetric])
next
  case False
  let ?cats = "sort (distinct_keys (filter (\<lambda>c. c \<noteq> CategoryOutOfScope) cs))"
  have all: "\<not> list_all (\<lambda>c. c = CategoryOutOfScope) cs" using False by (auto simp: list_all_iff)
  have "set ?cats = set cs - {CategoryOutOfScope}" by auto
  moreover from this have "?cats \<noteq> []" using False by (metis Diff_eq_empty_iff list.set(1))
  moreover have "fst (fold (modal_step cs) ?cats ([], - 1)) \<in> set ([] @ ?cats) \<and>
    (\<forall>c \<in> set ([] @ ?cats). modal_better cs (fst (fold (modal_step cs) ?cats ([], - 1))) c)"
    by (rule modal_fold) (use \<open>?cats \<noteq> []\<close> in simp_all)
  ultimately show ?thesis using False all by (simp add: ModalCategory_def cs_def [symmetric])
qed

subsection \<open>The panel-wide class\<close>

lemma classify_refl: "finite a \<Longrightarrow> fst (classify rt a a) = relMerge"
  by (subst classify_relation) (auto simp: relation_of_def jaccard_def MergeThreshold_def)

lemma all_near_iff:
  "list_all finite ts \<Longrightarrow>
   all_near rt ts \<longleftrightarrow> (\<forall>t \<in> set ts. \<forall>u \<in> set ts. MergeThreshold \<le> jaccard t u)"
proof (induction ts)
  case (Cons t ts)
  have near: "fst (classify rt a b) = relMerge \<longleftrightarrow> MergeThreshold \<le> jaccard a b"
    if "finite a" "finite b" for a b
    using that by (simp add: classify_relation relation_of_def)
  have sym: "jaccard a b = jaccard b a" for a b by (simp add: jaccard_def Int_commute Un_commute)
  have refl: "MergeThreshold \<le> jaccard t t" using Cons.prems near [of t t] classify_refl [of t rt] by simp
  have "list_all (\<lambda>u. fst (classify rt t u) = relMerge) ts \<longleftrightarrow> (\<forall>u \<in> set ts. MergeThreshold \<le> jaccard t u)"
    using Cons.prems near by (auto simp: list_all_iff)
  then show ?case using Cons refl sym by auto
qed simp

lemma quote_fields [simp]:
  "Reviewer (finding_of_quote q) = sqReviewer q" "File (finding_of_quote q) = sqFile q"
  "Category (finding_of_quote q) = sqCategory q" "Evidence (finding_of_quote q) = sqEvidence q"
  by (simp_all add: finding_of_quote_def)

lemma distinctReviewers_nonempty: "2 \<le> length (distinctReviewers members) \<Longrightarrow> members \<noteq> []"
  by (auto simp: distinctReviewers_def distinct_keys_def)

lemma list_all_hd: "members \<noteq> [] \<Longrightarrow> list_all (\<lambda>f. h f = h (members ! 0)) members \<longleftrightarrow> (\<exists>p. \<forall>f \<in> set members. h f = p)"
  by (cases members) (auto simp: list_all_iff)

text \<open>What the class is, over the findings rebuilt from the quotes, as a condition on sets.\<close>

definition shares_quote :: "finding set \<Rightarrow> bool" where
  "shares_quote S \<longleftrightarrow>
     (\<exists>path. \<forall>f \<in> S. TrimSpace (File f) = path) \<and>
     (\<forall>f \<in> S. tokenize (Evidence f) \<noteq> {}) \<and>
     (\<forall>f \<in> S. \<forall>g \<in> S. MergeThreshold \<le> jaccard (tokenize (Evidence f)) (tokenize (Evidence g)))"

lemma IsPanelWideQuotes_iff:
  "IsPanelWideQuotes rt quotes \<longleftrightarrow>
     (let members = map finding_of_quote quotes in
      2 \<le> length (distinctReviewers members) \<and> ModalCategory members = CategoryInvariant \<and>
      shares_quote (set members))"
proof -
  define members where "members = map finding_of_quote quotes"
  show ?thesis
  proof (cases "2 \<le> length (distinctReviewers members) \<and> ModalCategory members = CategoryInvariant")
    case True
    then have ne: "members \<noteq> []" using distinctReviewers_nonempty by blast
    have split: "list_all (\<lambda>f. TrimSpace (File f) = TrimSpace (File (members ! 0)) \<and> tokenize (Evidence f) \<noteq> {}) members \<longleftrightarrow>
        (\<exists>path. \<forall>f \<in> set members. TrimSpace (File f) = path) \<and> (\<forall>f \<in> set members. tokenize (Evidence f) \<noteq> {})"
      unfolding list_all_hd [OF ne, symmetric] by (auto simp: list_all_iff)
    have near: "all_near rt (map (\<lambda>f. tokenize (Evidence f)) members) \<longleftrightarrow>
        (\<forall>f \<in> set members. \<forall>g \<in> set members. MergeThreshold \<le> jaccard (tokenize (Evidence f)) (tokenize (Evidence g)))"
      by (subst all_near_iff) (simp_all add: list_all_iff)
    show ?thesis
      using True unfolding IsPanelWideQuotes_def members_def [symmetric] Let_def split near shares_quote_def by simp
  next
    case False
    then show ?thesis unfolding IsPanelWideQuotes_def members_def [symmetric] Let_def by auto
  qed
qed

subsection \<open>The order of a group\<close>

lemma ModalCategory_perm:
  assumes "mset g = mset h"
  shows "ModalCategory g = ModalCategory h"
proof -
  let ?cs = "map (\<lambda>f. canonical (Category f))"
  have m: "mset (?cs g) = mset (?cs h)" using assms by simp
  then have s: "set (?cs g) = set (?cs h)" by (rule mset_eq_setD)
  have c: "count_list (?cs g) = count_list (?cs h)" using m by (metis count_mset ext)
  have "modal_step (?cs g) = modal_step (?cs h)" unfolding modal_step_def [abs_def] c ..
  then show ?thesis
    unfolding ModalCategory_def Let_def list_all_iff s sort_distinct_keys set_filter by metis
qed

lemma set_map_quotes_perm:
  assumes "mset g = mset h"
  shows "mset (map finding_of_quote (sourceQuotes g)) = mset (map finding_of_quote (sourceQuotes h))"
  using assms by (simp add: sourceQuotes_def)

lemma IsPanelWide_perm:
  assumes "mset g = mset h"
  shows "IsPanelWideQuotes rt (sourceQuotes g) = IsPanelWideQuotes rt (sourceQuotes h)"
  unfolding IsPanelWideQuotes_iff Let_def distinctReviewers_eq
  using ModalCategory_perm [OF set_map_quotes_perm [OF assms]] mset_eq_setD [OF set_map_quotes_perm [OF assms]] by simp

lemma length_LongestField:
  assumes "members \<noteq> []"
  shows "length (LongestField members sel) = Max ((\<lambda>f. length (sel f)) ` set members)"
proof (rule Max_eqI [symmetric])
  show "length (LongestField members sel) \<in> (\<lambda>f. length (sel f)) ` set members"
  proof (cases "LongestField members sel = []")
    case True
    then have "length (sel (hd members)) = length (LongestField members sel)"
      using LongestField_spec [of members sel] hd_in_set [OF assms] by (metis le_zero_eq list.size(3))
    then show ?thesis using hd_in_set [OF assms] by (metis image_eqI)
  next
    case False
    then show ?thesis using LongestField_spec [of members sel] by auto
  qed
qed (use LongestField_spec [of members sel] in auto)

lemma Merge_fields:
  assumes "members \<noteq> []"
  shows "Reviewers (Merge rt members) = distinctReviewers members"
    "(Severity (Merge rt members), Disagreement (Merge rt members)) = merge_severity (hd members) members"
    "Category (Merge rt members) = ModalCategory members"
    "(Confidence (Merge rt members), ConfidenceDiscount (Merge rt members)) =
       DiscountedConfidence (length (distinctReviewers members)) (ModalCategory members) (\<not> IsPanelWide rt members)"
    "EstMinutes (Merge rt members) = Max (EstMinutes ` set members)"
    "SourceQuotes (Merge rt members) = sourceQuotes members"
    "SourceCategories (Merge rt members) = sourceCategories members"
    "Problem (Merge rt members) = LongestField members Problem"
    "Fix (Merge rt members) = LongestField members Fix"
    "File (Merge rt members) = File (hd members)" "Line (Merge rt members) = Line (hd members)"
    "Evidence (Merge rt members) = mergeEvidence members"
    "Verification (Merge rt members) = None" "Reviewer (Merge rt members) = []"
  using assms MaxEstMinutes_eq [OF assms]
  by (cases members; simp add: Merge.simps(2) IsPanelWide_def Let_def split: prod.splits del: MaxEstMinutes.simps)+

text \<open>
  The severity of a merged group is the gravest recognised one and the annotation names the two
  extremes precisely when the group spans more than one: computed by the loop over ranks, they are
  what the set of recognised severities of the group determines. A group without a recognised
  severity keeps the first finding's, normalised; the empty group has no result (the code panics).
\<close>

theorem merge_severity_extremes:
  "MergeSeverity members =
     (let S = known_severities members in
      if members = [] then None
      else if S = {} then Some (NormalizeSeverity (Severity (hd members)), [])
      else Some (top_severity S,
        if top_severity S = bottom_severity S then [] else bottom_severity S @ '' vs '' @ top_severity S))"
  by (cases members) (simp_all add: merge_severity_eq Let_def)

text \<open>
  The category of a group is out-of-scope only when every finding carries it, so a majority
  cannot take a finding out of the severity gate; otherwise it is a most frequent one of the others,
  alphabetically first among the equally frequent, and empty only when no real category is as
  frequent.
\<close>

theorem modal_category_fail_closed:
  "let cs = map (\<lambda>f. canonical (Category f)) members; best = ModalCategory members in
   (best = CategoryOutOfScope \<longleftrightarrow> set cs \<subseteq> {CategoryOutOfScope}) \<and>
   (set cs \<subseteq> {CategoryOutOfScope} \<or>
      best \<in> set cs \<and>
      {c \<in> set cs - {CategoryOutOfScope}. count_list cs best < count_list cs c \<or>
         count_list cs c = count_list cs best \<and> c \<noteq> [] \<and> (best = [] \<or> c < best)} = {})"
proof (cases "set (map (\<lambda>f. canonical (Category f)) members) \<subseteq> {CategoryOutOfScope}")
  case True
  then show ?thesis using ModalCategory_spec [of members] unfolding Let_def by simp
next
  case False
  then have "ModalCategory members \<in> set (map (\<lambda>f. canonical (Category f)) members) - {CategoryOutOfScope} \<and>
     (\<forall>c \<in> set (map (\<lambda>f. canonical (Category f)) members) - {CategoryOutOfScope}.
        modal_better (map (\<lambda>f. canonical (Category f)) members) (ModalCategory members) c)"
    using ModalCategory_spec [of members] by (simp only: if_False) blast
  then have "ModalCategory members \<in> set (map (\<lambda>f. canonical (Category f)) members)"
    and "ModalCategory members \<noteq> CategoryOutOfScope"
    and best: "modal_better (map (\<lambda>f. canonical (Category f)) members) (ModalCategory members) c"
      if "c \<in> set (map (\<lambda>f. canonical (Category f)) members) - {CategoryOutOfScope}" for c
    using that by blast+
  moreover have "\<not> (count_list cs b < count_list cs c \<or> count_list cs c = count_list cs b \<and> c \<noteq> [] \<and> (b = [] \<or> c < b))"
    if "modal_better cs b c" for cs b c
    using that unfolding modal_better_def by (meson leD)
  ultimately show ?thesis using False unfolding Let_def by blast
qed

text \<open>
  The panel-wide class is decided exactly, whatever the rounding: two or more reviewers, modal
  category \<^verbatim>\<open>invariant\<close>, one file, and evidence with words whose word sets overlap to at least
  0.7 for every two members.
\<close>

theorem panel_wide_exact:
  "IsPanelWideQuotes rt quotes \<longleftrightarrow>
     (let members = map finding_of_quote quotes in
      2 \<le> card ((\<lambda>q. strip_commas (sqReviewer q)) ` set quotes - {[]}) \<and>
      ModalCategory members = CategoryInvariant \<and>
      (\<exists>path. sqFile ` set quotes \<subseteq> {p. TrimSpace p = path}) \<and>
      {} \<notin> tokenize ` sqEvidence ` set quotes \<and>
      {(a, b) \<in> sqEvidence ` set quotes \<times> sqEvidence ` set quotes.
         jaccard (tokenize a) (tokenize b) < MergeThreshold} = {})"
proof -
  have len: "length (distinctReviewers (map finding_of_quote quotes)) =
      card ((\<lambda>q. strip_commas (sqReviewer q)) ` set quotes - {[]})"
    unfolding distinctReviewers_eq by (simp add: image_image)
  let ?E = "sqEvidence ` set quotes"
  have files: "(\<forall>f \<in> set (map finding_of_quote quotes). TrimSpace (File f) = path) \<longleftrightarrow>
      sqFile ` set quotes \<subseteq> {p. TrimSpace p = path}" for path
    by (simp add: image_subset_iff)
  have words: "(\<forall>f \<in> set (map finding_of_quote quotes). tokenize (Evidence f) \<noteq> {}) \<longleftrightarrow> {} \<notin> tokenize ` ?E"
    by (auto simp: image_iff)
  have near: "(\<forall>f \<in> set (map finding_of_quote quotes). \<forall>g \<in> set (map finding_of_quote quotes).
        MergeThreshold \<le> jaccard (tokenize (Evidence f)) (tokenize (Evidence g))) \<longleftrightarrow>
      {(a, b) \<in> ?E \<times> ?E. jaccard (tokenize a) (tokenize b) < MergeThreshold} = {}"
    by (simp add: set_eq_iff not_less image_iff) blast
  show ?thesis
    unfolding IsPanelWideQuotes_iff Let_def len shares_quote_def files words near by (rule refl)
qed

text \<open>
  Confidence counts reviewers: the reviewers of a merged finding are the distinct comma-free
  names of its group in sorted order; it is HIGH precisely when there are two or more and the
  agreement was not discounted, MEDIUM otherwise, and a discount carries its reason and happens
  only to a panel-wide group.
\<close>

theorem merge_confidence:
  "let m = Merge rt (g # gs) in
   sorted_wrt (<) (Reviewers m) \<and>
   set (Reviewers m) = (\<lambda>f. strip_commas (Reviewer f)) ` set (g # gs) - {[]} \<and>
   Confidence m = (if 2 \<le> length (Reviewers m) \<and> ConfidenceDiscount m = [] then ConfHigh else ConfMedium) \<and>
   ConfidenceDiscount m =
     (if 2 \<le> length (Reviewers m) \<and> IsPanelWide rt (g # gs) \<and> canonical (Category m) = CategoryInvariant
      then PanelWideReason else [])"
proof -
  have ne: "g # gs \<noteq> []" by simp
  have "sorted_wrt (<) (distinctReviewers (g # gs))" unfolding distinctReviewers_eq by simp
  moreover have "set (distinctReviewers (g # gs)) = (\<lambda>f. strip_commas (Reviewer f)) ` set (g # gs) - {[]}"
    unfolding distinctReviewers_eq by simp
  ultimately show ?thesis
    using Merge_fields(4) [OF ne, of rt]
    unfolding Let_def Merge_fields(1,3) [OF ne]
    by (auto simp: DiscountedConfidence_def ConfidenceFor_def PanelWideReason_def split: if_splits)
qed

text \<open>
  The order in which a group lists its findings does not matter for the decision fields: two
  orders of one group give the same reviewers, category, confidence and its discount, estimate and
  disagreement, the same severity when one is recognised, and texts of the same length.
\<close>

theorem merge_order_independent:
  assumes "mset g = mset h"
  shows "Reviewers (Merge rt g) = Reviewers (Merge rt h) \<and> Category (Merge rt g) = Category (Merge rt h) \<and>
    Confidence (Merge rt g) = Confidence (Merge rt h) \<and>
    ConfidenceDiscount (Merge rt g) = ConfidenceDiscount (Merge rt h) \<and>
    EstMinutes (Merge rt g) = EstMinutes (Merge rt h) \<and> Disagreement (Merge rt g) = Disagreement (Merge rt h) \<and>
    (known_severities g \<noteq> {} \<longrightarrow> Severity (Merge rt g) = Severity (Merge rt h)) \<and>
    length (Problem (Merge rt g)) = length (Problem (Merge rt h)) \<and>
    length (Fix (Merge rt g)) = length (Fix (Merge rt h))"
proof (cases "g = []")
  case True
  then show ?thesis using assms by simp
next
  case False
  then have h: "h \<noteq> []" using assms by auto
  have s: "set g = set h" by (rule mset_eq_setD [OF assms])
  have r: "distinctReviewers g = distinctReviewers h" and k: "known_severities g = known_severities h"
    by (simp_all only: distinctReviewers_eq known_severities_def s)
  note c = ModalCategory_perm [OF assms] and p = IsPanelWide_perm [OF assms, of rt]
  have "(Confidence (Merge rt g), ConfidenceDiscount (Merge rt g)) = (Confidence (Merge rt h), ConfidenceDiscount (Merge rt h))"
    unfolding Merge_fields(4) [OF False] Merge_fields(4) [OF h] c r IsPanelWide_def p ..
  then show ?thesis
    using Merge_fields(2) [OF False, of rt] Merge_fields(2) [OF h, of rt]
    unfolding Merge_fields(1,3,5,8,9) [OF False] Merge_fields(1,3,5,8,9) [OF h] length_LongestField [OF False] length_LongestField [OF h]
      merge_severity_eq k c r s Let_def
    by (auto split: if_splits)
qed

theorem merge_order_independent_witness:
  "mset [zero_finding, zero_finding\<lparr>Severity := ''high''\<rparr>] = mset [zero_finding\<lparr>Severity := ''high''\<rparr>, zero_finding] \<and>
   Disagreement (Merge exact_runtime [zero_finding, zero_finding\<lparr>Severity := ''high''\<rparr>]) =
     Disagreement (Merge exact_runtime [zero_finding\<lparr>Severity := ''high''\<rparr>, zero_finding])"
  using merge_order_independent [of "[zero_finding, zero_finding\<lparr>Severity := ''high''\<rparr>]" "[zero_finding\<lparr>Severity := ''high''\<rparr>, zero_finding]" exact_runtime]
  by simp

end
