(* ===== verification/Pagerank.thy ===== *)
theory Pagerank
  imports Merge "HOL-Library.AList"
begin

text \<open>
  Run-global model authority: \<^verbatim>\<open>reconcile/pagerank.go\<close>. The adjacency map of the agreement graph is an
  association list of association lists, updated the way the code updates its maps and listed only
  in sorted order. Arithmetic follows the order of the code, every \<^verbatim>\<open>float64\<close> operation rounded by the
  runtime; constant expressions are exact and rounded once. The total weight of a node is a sum of
  small integers, which no order of summation rounds. The theorems show, in exact arithmetic, that
  scores are positive and sum to one, and that the iteration stops by its epsilon long before its cap.
\<close>

subsection \<open>The agreement graph\<close>

definition pageRankDamping :: rat where "pageRankDamping = 85 / 100"
definition pageRankMaxIter :: nat where "pageRankMaxIter = 1000"
definition pageRankEpsilon :: rat where "pageRankEpsilon = 1 / 10 ^ 12"
definition maxDistinctReviewers :: nat where "maxDistinctReviewers = 64"

type_synonym agreementGraph = "(string \<times> (string \<times> int) list) list"

definition newAgreementGraph :: agreementGraph where
  "newAgreementGraph = []"

text \<open>\<open>row g u\<close> is \<^verbatim>\<open>g.adj[u]\<close> and \<open>weight g u v\<close> is \<^verbatim>\<open>g.adj[u][v]\<close>, with Go's zero values.\<close>

definition row :: "agreementGraph \<Rightarrow> string \<Rightarrow> (string \<times> int) list" where
  "row g u = (case map_of g u of None \<Rightarrow> [] | Some r \<Rightarrow> r)"

definition weight :: "agreementGraph \<Rightarrow> string \<Rightarrow> string \<Rightarrow> int" where
  "weight g u v = (case map_of (row g u) v of None \<Rightarrow> 0 | Some c \<Rightarrow> c)"

definition ensure_row :: "string \<Rightarrow> agreementGraph \<Rightarrow> agreementGraph" where
  "ensure_row u g = (if map_of g u = None then AList.update u [] g else g)"

definition incr :: "string \<Rightarrow> string \<Rightarrow> agreementGraph \<Rightarrow> agreementGraph" where
  "incr u v g = AList.update u (AList.update v (weight g u v + 1) (row g u)) g"

definition addEdge :: "string \<Rightarrow> string \<Rightarrow> agreementGraph \<Rightarrow> agreementGraph" where
  "addEdge u v g = incr v u (incr u v (ensure_row v (ensure_row u g)))"

fun pairs_of :: "'a list \<Rightarrow> ('a \<times> 'a) list" where
  "pairs_of [] = []"
| "pairs_of (x # xs) = map (Pair x) xs @ pairs_of xs"

definition addAgreement :: "string list \<Rightarrow> agreementGraph \<Rightarrow> agreementGraph" where
  "addAgreement reviewers g =
     (let ds = take maxDistinctReviewers (sort (distinct_keys (filter (\<lambda>r. r \<noteq> []) reviewers)))
      in fold (\<lambda>(u, v). addEdge u v) (pairs_of ds) g)"

definition graph_nodes :: "agreementGraph \<Rightarrow> string list" where
  "graph_nodes g = sort (map fst g)"

subsection \<open>The power iteration\<close>

type_synonym ranks = "(string \<times> rat) list"

definition rank_of :: "ranks \<Rightarrow> string \<Rightarrow> rat" where
  "rank_of r u = (case map_of r u of None \<Rightarrow> 0 | Some x \<Rightarrow> x)"

definition outWeight :: "agreementGraph \<Rightarrow> string \<Rightarrow> rat" where
  "outWeight g u = of_int (sum_list (map snd (row g u)))"

definition neighbors :: "agreementGraph \<Rightarrow> string \<Rightarrow> string list" where
  "neighbors g u = sort (map fst (row g u))"

definition fl_sum :: "runtime \<Rightarrow> ('a \<Rightarrow> rat) \<Rightarrow> 'a list \<Rightarrow> rat" where
  "fl_sum rt h xs = fold (\<lambda>x acc. fl rt (acc + h x)) xs 0"

definition danglingShare :: "runtime \<Rightarrow> agreementGraph \<Rightarrow> ranks \<Rightarrow> rat" where
  "danglingShare rt g r =
     (let dangling = fl_sum rt (rank_of r) (filter (\<lambda>u. outWeight g u = 0) (graph_nodes g))
      in fl rt (fl rt (fl rt pageRankDamping * dangling) / of_nat (length (graph_nodes g))))"

definition inflow :: "runtime \<Rightarrow> agreementGraph \<Rightarrow> ranks \<Rightarrow> string \<Rightarrow> rat" where
  "inflow rt g r u =
     fl_sum rt (\<lambda>v. fl rt (fl rt (of_int (weight g v u) / outWeight g v) * rank_of r v))
       (filter (\<lambda>v. outWeight g v > 0) (neighbors g u))"

definition teleport :: "runtime \<Rightarrow> agreementGraph \<Rightarrow> rat" where
  "teleport rt g = fl rt (fl rt (1 - pageRankDamping) / of_nat (length (graph_nodes g)))"

definition next_rank :: "runtime \<Rightarrow> agreementGraph \<Rightarrow> ranks \<Rightarrow> string \<Rightarrow> rat" where
  "next_rank rt g r u =
     fl rt (fl rt (teleport rt g + danglingShare rt g r) + fl rt (fl rt pageRankDamping * inflow rt g r u))"

definition pr_next :: "runtime \<Rightarrow> agreementGraph \<Rightarrow> ranks \<Rightarrow> ranks" where
  "pr_next rt g r = map (\<lambda>u. (u, next_rank rt g r u)) (graph_nodes g)"

definition pr_delta :: "runtime \<Rightarrow> agreementGraph \<Rightarrow> ranks \<Rightarrow> rat" where
  "pr_delta rt g r = fl_sum rt (\<lambda>u. \<bar>fl rt (next_rank rt g r u - rank_of r u)\<bar>) (graph_nodes g)"

fun pr_loop :: "runtime \<Rightarrow> agreementGraph \<Rightarrow> nat \<Rightarrow> ranks \<Rightarrow> ranks" where
  "pr_loop rt g 0 r = r"
| "pr_loop rt g (Suc k) r =
     (let r' = pr_next rt g r in
      if pr_delta rt g r < fl rt pageRankEpsilon then r' else pr_loop rt g k r')"

definition initial_rank :: "runtime \<Rightarrow> agreementGraph \<Rightarrow> ranks" where
  "initial_rank rt g = map (\<lambda>u. (u, fl rt (1 / of_nat (length (graph_nodes g))))) (graph_nodes g)"

definition pageRank :: "runtime \<Rightarrow> agreementGraph \<Rightarrow> ranks" where
  "pageRank rt g =
     (if length (graph_nodes g) = 0 then [] else pr_loop rt g pageRankMaxIter (initial_rank rt g))"

subsection \<open>Authority of a run\<close>

definition agreement_of :: "finding list list \<Rightarrow> agreementGraph \<times> bool" where
  "agreement_of groups =
     fold (\<lambda>members (g, hasAgreement).
         let revs = distinctReviewers members in
         if length revs \<ge> 2 then (addAgreement revs g, True) else (g, hasAgreement))
       groups (newAgreementGraph, False)"

definition modelAuthority :: "runtime \<Rightarrow> finding list list \<Rightarrow> ranks" where
  "modelAuthority rt groups =
     (case agreement_of groups of (g, hasAgreement) \<Rightarrow> if \<not> hasAgreement then [] else pageRank rt g)"

definition promoteByAuthority :: "merged \<Rightarrow> ranks \<Rightarrow> rat \<Rightarrow> merged" where
  "promoteByAuthority m authority baseline =
     (if length authority = 0 \<or> length (Reviewers m) \<noteq> 1 \<or> Confidence m \<noteq> ConfMedium then m
      else case map_of authority (Reviewers m ! 0) of
        Some score \<Rightarrow> if score > baseline then m\<lparr>Confidence := ConfHigh\<rparr> else m
      | None \<Rightarrow> m)"

subsection \<open>The graph stays symmetric\<close>

lemma map_of_ensure_row: "map_of (ensure_row u g) x = (if x = u \<and> map_of g u = None then Some [] else map_of g x)"
  by (simp add: ensure_row_def update_conv)

lemma row_ensure_row [simp]: "row (ensure_row u g) x = row g x"
  by (simp add: row_def map_of_ensure_row)

lemma map_of_incr: "map_of (incr u v g) x = (if x = u then Some (AList.update v (weight g u v + 1) (row g u)) else map_of g x)"
  by (simp add: incr_def update_conv)

lemma row_incr: "row (incr u v g) x = (if x = u then AList.update v (weight g u v + 1) (row g u) else row g x)"
  by (simp add: row_def map_of_incr)

lemma weight_incr: "weight (incr u v g) x y = weight g x y + (if x = u \<and> y = v then 1 else 0)"
  by (simp add: weight_def row_incr update_conv)

lemma weight_ensure_row [simp]: "weight (ensure_row u g) x y = weight g x y"
  by (simp add: weight_def)

lemma keys_incr: "fst ` set (incr u v g) = insert u (fst ` set g)"
  by (simp add: incr_def dom_update)

lemma keys_ensure_row: "fst ` set (ensure_row u g) = insert u (fst ` set g)"
  by (auto simp: ensure_row_def dom_update map_of_eq_None_iff)

lemma keys_addEdge: "fst ` set (addEdge u v g) = insert u (insert v (fst ` set g))"
  by (auto simp: addEdge_def keys_incr keys_ensure_row)

lemma weight_addEdge:
  "u \<noteq> v \<Longrightarrow> weight (addEdge u v g) x y = weight g x y + (if x = u \<and> y = v \<or> x = v \<and> y = u then 1 else 0)"
  by (auto simp: addEdge_def weight_incr)

lemma row_keys_addEdge:
  "u \<noteq> v \<Longrightarrow> fst ` set (row (addEdge u v g) x) =
     fst ` set (row g x) \<union> (if x = u then {v} else if x = v then {u} else {})"
  by (auto simp: addEdge_def row_incr dom_update)

lemma distinct_row_addEdge: "distinct (map fst (row g x)) \<Longrightarrow> distinct (map fst (row g u)) \<Longrightarrow>
    distinct (map fst (row g v)) \<Longrightarrow> u \<noteq> v \<Longrightarrow> distinct (map fst (row (addEdge u v g) x))"
  by (simp add: addEdge_def row_incr distinct_update)

text \<open>Rows and keys without duplicates, mutual positive counts, no isolated node, no self-agreement.\<close>

definition mutual :: "agreementGraph \<Rightarrow> bool" where
  "mutual g \<longleftrightarrow>
     distinct (map fst g) \<and> (\<forall>x. distinct (map fst (row g x))) \<and>
     (\<forall>x y. weight g x y = weight g y x) \<and> (\<forall>x y. 0 \<le> weight g x y) \<and> (\<forall>x. weight g x x = 0) \<and>
     (\<forall>x y. y \<in> fst ` set (row g x) \<longleftrightarrow> 0 < weight g x y) \<and>
     (\<forall>x. x \<in> fst ` set g \<longleftrightarrow> (\<exists>y. 0 < weight g x y))"

lemma mutual_new: "mutual newAgreementGraph"
  by (simp add: mutual_def newAgreementGraph_def row_def weight_def)

lemma mutual_addEdge:
  assumes "mutual g" "u \<noteq> v"
  shows "mutual (addEdge u v g)"
proof -
  note w = weight_addEdge [OF assms(2)]
  have pos: "0 \<le> weight g x y" and sym: "weight g x y = weight g y x" for x y using assms(1) by (simp_all add: mutual_def)
  have keys: "x \<in> fst ` set (addEdge u v g) \<longleftrightarrow> (\<exists>y. 0 < weight (addEdge u v g) x y)" for x
  proof -
    have "x \<in> fst ` set g \<longleftrightarrow> (\<exists>y. 0 < weight g x y)" using assms(1) by (simp add: mutual_def)
    moreover have "0 < weight (addEdge u v g) x y \<longleftrightarrow> 0 < weight g x y \<or> x = u \<and> y = v \<or> x = v \<and> y = u" for y
      using pos [of x y] by (auto simp: w)
    ultimately show ?thesis by (auto simp: keys_addEdge)
  qed
  have rows: "y \<in> fst ` set (row (addEdge u v g) x) \<longleftrightarrow> 0 < weight (addEdge u v g) x y" for x y
  proof -
    have "y \<in> fst ` set (row g x) \<longleftrightarrow> 0 < weight g x y" using assms(1) by (simp add: mutual_def)
    then show ?thesis using pos [of x y] assms(2) by (auto simp: w row_keys_addEdge)
  qed
  have "distinct (map fst (addEdge u v g))" using assms(1)
    by (simp add: addEdge_def incr_def ensure_row_def distinct_update mutual_def)
  moreover have "distinct (map fst (row (addEdge u v g) x))" for x
    using assms by (intro distinct_row_addEdge) (simp_all add: mutual_def)
  moreover have "weight (addEdge u v g) x y = weight (addEdge u v g) y x" for x y using sym [of x y] by (auto simp: w)
  moreover have "0 \<le> weight (addEdge u v g) x y" for x y using pos [of x y] by (simp add: w)
  moreover have "weight (addEdge u v g) x x = 0" for x using assms by (auto simp: w mutual_def)
  ultimately show ?thesis using keys rows unfolding mutual_def by blast
qed

lemma pairs_of_distinct: "distinct xs \<Longrightarrow> (u, v) \<in> set (pairs_of xs) \<Longrightarrow> u \<noteq> v"
  by (induction xs) auto

lemma mutual_fold_edges:
  "mutual g \<Longrightarrow> \<forall>(u, v) \<in> set es. u \<noteq> v \<Longrightarrow> mutual (fold (\<lambda>(u, v). addEdge u v) es g)"
  by (induction es arbitrary: g) (auto simp: mutual_addEdge)

lemma mutual_addAgreement: "mutual g \<Longrightarrow> mutual (addAgreement reviewers g)"
  unfolding addAgreement_def Let_def by (rule mutual_fold_edges) (auto dest!: pairs_of_distinct [rotated])

subsection \<open>One step in exact arithmetic\<close>

lemma fl_sum_exact: "fl rt = id \<Longrightarrow> fl_sum rt h xs = sum_list (map h xs)"
proof -
  assume e: "fl rt = id"
  have "fold (\<lambda>x acc. acc + h x) xs a = a + sum_list (map h xs)" for a :: rat
    by (induction xs arbitrary: a) (simp_all add: add.assoc)
  then show ?thesis by (simp add: fl_sum_def e)
qed

abbreviation models :: "agreementGraph \<Rightarrow> string set" where
  "models g \<equiv> fst ` set g"

lemma sum_weights:
  "distinct (map fst r) \<Longrightarrow> sum_list (map snd r) = (\<Sum>v \<in> fst ` set r. case map_of r v of None \<Rightarrow> 0 | Some c \<Rightarrow> (c :: int))"
proof (induction r)
  case (Cons p r)
  obtain k c where p: "p = (k, c)" by (cases p)
  have "(\<Sum>v \<in> fst ` set r. case map_of (p # r) v of None \<Rightarrow> 0 | Some c \<Rightarrow> c) =
      (\<Sum>v \<in> fst ` set r. case map_of r v of None \<Rightarrow> 0 | Some c \<Rightarrow> c)"
    by (rule sum.cong) (use Cons.prems p in auto)
  then show ?case using Cons p by simp
qed simp

lemma mutual_graph:
  assumes "mutual g"
  shows "outWeight g u = (\<Sum>v \<in> models g. of_int (weight g u v))"
    and "u \<in> models g \<Longrightarrow> 0 < outWeight g u"
    and "set (neighbors g u) \<subseteq> models g" and "distinct (neighbors g u)"
    and "v \<notin> set (neighbors g u) \<Longrightarrow> weight g v u = 0"
    and "set (graph_nodes g) = models g" and "distinct (graph_nodes g)"
proof -
  have rows: "y \<in> fst ` set (row g x) \<longleftrightarrow> 0 < weight g x y" for x y using assms by (simp add: mutual_def)
  have ks: "x \<in> models g \<longleftrightarrow> (\<exists>y. 0 < weight g x y)" for x using assms by (simp add: mutual_def)
  have pos: "0 \<le> weight g x y" and sym: "weight g x y = weight g y x" for x y using assms by (simp_all add: mutual_def)
  have sub: "fst ` set (row g u) \<subseteq> models g" using rows ks sym by (metis subsetI)
  have "sum_list (map snd (row g u)) = (\<Sum>v \<in> fst ` set (row g u). weight g u v)"
    unfolding weight_def using assms by (intro sum_weights) (simp add: mutual_def)
  also have "\<dots> = (\<Sum>v \<in> models g. weight g u v)"
  proof (rule sum.mono_neutral_left [OF _ sub])
    show "\<forall>v \<in> models g - fst ` set (row g u). weight g u v = 0" using rows [of _ u] pos [of u] by (metis DiffE order.order_iff_strict)
  qed simp
  finally show ow: "outWeight g u = (\<Sum>v \<in> models g. of_int (weight g u v))" by (simp add: outWeight_def)
  show "0 < outWeight g u" if u: "u \<in> models g"
  proof -
    obtain y where "0 < weight g u y" using ks u by auto
    moreover from this have "y \<in> models g" using ks sym by metis
    ultimately show ?thesis unfolding ow by (intro sum_pos2 [of _ y]) (use pos in auto)
  qed
  show "set (neighbors g u) \<subseteq> models g" using sub by (simp add: neighbors_def)
  show "distinct (neighbors g u)" using assms by (simp add: neighbors_def mutual_def)
  show "weight g v u = 0" if "v \<notin> set (neighbors g u)"
    using that rows [of v u] pos [of u v] sym [of u v] by (simp add: neighbors_def order.order_iff_strict)
  show "set (graph_nodes g) = models g" by (simp add: graph_nodes_def)
  show "distinct (graph_nodes g)" using assms by (simp add: graph_nodes_def mutual_def)
qed

definition flow :: "agreementGraph \<Rightarrow> (string \<Rightarrow> rat) \<Rightarrow> string \<Rightarrow> rat" where
  "flow g h u = (\<Sum>v \<in> models g. of_int (weight g v u) / outWeight g v * h v)"

lemma next_rank_exact:
  assumes "fl rt = id" "mutual g"
  shows "next_rank rt g r u = (1 - pageRankDamping) / of_nat (card (models g)) + pageRankDamping * flow g (rank_of r) u"
proof -
  note m = mutual_graph [OF assms(2)]
  have ow: "outWeight g v > 0" if "v \<in> models g" for v using m(2) [OF that] .
  have n: "length (graph_nodes g) = card (models g)" using distinct_card [OF m(7)] m(6) by simp
  have "filter (\<lambda>u. outWeight g u = 0) (graph_nodes g) = []" using ow m(6) by (force simp: filter_empty_conv)
  then have d: "danglingShare rt g r = 0" by (simp add: danglingShare_def fl_sum_exact [OF assms(1)] assms(1))
  have f: "filter (\<lambda>v. 0 < outWeight g v) (neighbors g u) = neighbors g u" using ow m(3) [of u] by (simp add: filter_id_conv subset_iff)
  have "inflow rt g r u = (\<Sum>v \<in> set (neighbors g u). of_int (weight g v u) / outWeight g v * rank_of r v)"
    unfolding inflow_def f fl_sum_exact [OF assms(1)] using m(4) [of u] by (simp add: sum_list_distinct_conv_sum_set assms(1))
  also have "\<dots> = flow g (rank_of r) u"
    unfolding flow_def by (rule sum.mono_neutral_left) (use m(3,5) in auto)
  finally have "inflow rt g r u = flow g (rank_of r) u" .
  then show ?thesis by (simp add: next_rank_def d teleport_def assms(1) n)
qed

lemma sum_flow:
  assumes "mutual g"
  shows "(\<Sum>u \<in> models g. flow g h u) = (\<Sum>v \<in> models g. h v)"
proof -
  have "(\<Sum>u \<in> models g. flow g h u) = (\<Sum>v \<in> models g. \<Sum>u \<in> models g. of_int (weight g v u) / outWeight g v * h v)"
    unfolding flow_def by (rule sum.swap)
  also have "\<dots> = (\<Sum>v \<in> models g. (\<Sum>u \<in> models g. of_int (weight g v u)) / outWeight g v * h v)"
    by (simp add: sum_distrib_right sum_divide_distrib)
  also have "\<dots> = (\<Sum>v \<in> models g. h v)"
    by (rule sum.cong) (use mutual_graph(1,2) [OF assms] in \<open>force simp: less_imp_neq [symmetric]\<close>)+
  finally show ?thesis .
qed

lemma flow_abs:
  assumes "mutual g"
  shows "(\<Sum>u \<in> models g. \<bar>flow g h u - flow g h' u\<bar>) \<le> (\<Sum>v \<in> models g. \<bar>h v - h' v\<bar>)"
proof -
  have pos: "0 \<le> of_int (weight g v u) / outWeight g v" if "v \<in> models g" for u v
    using assms mutual_graph(2) [OF assms that] by (simp add: mutual_def)
  have "\<bar>flow g h u - flow g h' u\<bar> \<le> flow g (\<lambda>v. \<bar>h v - h' v\<bar>) u" for u
  proof -
    have "flow g h u - flow g h' u = (\<Sum>v \<in> models g. of_int (weight g v u) / outWeight g v * (h v - h' v))"
      by (simp add: flow_def sum_subtractf [symmetric] right_diff_distrib)
    also have "\<bar>\<dots>\<bar> \<le> (\<Sum>v \<in> models g. \<bar>of_int (weight g v u) / outWeight g v * (h v - h' v)\<bar>)" by (rule sum_abs)
    also have "\<dots> = flow g (\<lambda>v. \<bar>h v - h' v\<bar>) u"
      unfolding flow_def by (rule sum.cong [OF refl]) (simp only: abs_mult abs_of_nonneg [OF pos])
    finally show ?thesis .
  qed
  then have "(\<Sum>u \<in> models g. \<bar>flow g h u - flow g h' u\<bar>) \<le> (\<Sum>u \<in> models g. flow g (\<lambda>v. \<bar>h v - h' v\<bar>) u)" by (rule sum_mono)
  then show ?thesis by (simp add: sum_flow [OF assms])
qed

subsection \<open>Convergence\<close>

lemma rank_of_map: "distinct xs \<Longrightarrow> u \<in> set xs \<Longrightarrow> rank_of (map (\<lambda>u. (u, h u)) xs) u = h u"
  by (simp add: rank_of_def map_of_map_keys [unfolded comp_def] map_of_map_restrict)

definition iterate :: "runtime \<Rightarrow> agreementGraph \<Rightarrow> nat \<Rightarrow> ranks" where
  "iterate rt g k = (pr_next rt g ^^ k) (initial_rank rt g)"

lemma iterate_0: "iterate rt g 0 = initial_rank rt g"
  by (simp add: iterate_def)

lemma iterate_Suc: "iterate rt g (Suc k) = pr_next rt g (iterate rt g k)"
  by (simp add: iterate_def)

lemma rank_pr_next: "mutual g \<Longrightarrow> u \<in> models g \<Longrightarrow> rank_of (pr_next rt g r) u = next_rank rt g r u"
  using mutual_graph(6,7) [of g] by (simp add: pr_next_def rank_of_map)

lemma pr_delta_exact:
  assumes "fl rt = id" "mutual g"
  shows "pr_delta rt g r = (\<Sum>u \<in> models g. \<bar>next_rank rt g r u - rank_of r u\<bar>)"
  using mutual_graph(6,7) [OF assms(2)]
  by (simp add: pr_delta_def fl_sum_exact [OF assms(1)] sum_list_distinct_conv_sum_set assms(1))

lemma card_keys: "mutual g \<Longrightarrow> length (graph_nodes g) = card (models g)"
  using distinct_card [of "graph_nodes g"] mutual_graph(6,7) [of g] by simp

lemma iterate_bounds:
  assumes "fl rt = id" "mutual g" "g \<noteq> []"
  shows "(\<Sum>u \<in> models g. rank_of (iterate rt g k) u) = 1 \<and>
         (\<forall>u \<in> models g. (1 - pageRankDamping) / of_nat (card (models g)) \<le> rank_of (iterate rt g k) u)"
proof (induction k)
  case 0
  have "rank_of (initial_rank rt g) u = 1 / of_nat (card (models g))" if "u \<in> models g" for u
    using mutual_graph(6,7) [OF assms(2)] that card_keys [OF assms(2)] by (simp add: initial_rank_def rank_of_map assms(1))
  moreover have "card (models g) \<noteq> 0" using assms(3) by simp
  moreover have "(1 - pageRankDamping) / of_nat (card (models g)) \<le> 1 / of_nat (card (models g))"
    by (rule divide_right_mono) (simp_all add: pageRankDamping_def)
  ultimately show ?case by (simp add: iterate_0)
next
  case (Suc k)
  let ?r = "iterate rt g k"
  have n: "card (models g) \<noteq> 0" using assms(3) by simp
  have eq: "rank_of (iterate rt g (Suc k)) u = (1 - pageRankDamping) / of_nat (card (models g)) + pageRankDamping * flow g (rank_of ?r) u"
    if "u \<in> models g" for u
    using that by (simp add: iterate_Suc rank_pr_next [OF assms(2)] next_rank_exact [OF assms(1,2)])
  have "0 \<le> (1 - pageRankDamping) / of_nat (card (models g))" by (simp add: pageRankDamping_def)
  then have nonneg: "0 \<le> rank_of ?r v" if "v \<in> models g" for v using Suc that by (meson order_trans)
  have "0 \<le> flow g (rank_of ?r) u" for u
    unfolding flow_def using nonneg mutual_graph(2) [OF assms(2)] assms(2)
    by (intro sum_nonneg mult_nonneg_nonneg divide_nonneg_pos) (auto simp: mutual_def)
  then have "0 \<le> pageRankDamping * flow g (rank_of ?r) u" for u by (simp add: pageRankDamping_def)
  moreover have "(\<Sum>u \<in> models g. rank_of (iterate rt g (Suc k)) u) =
      (1 - pageRankDamping) + pageRankDamping * (\<Sum>u \<in> models g. flow g (rank_of ?r) u)"
    using n by (simp add: eq sum.distrib sum_distrib_left)
  ultimately show ?case using Suc eq by (simp add: sum_flow [OF assms(2)])
qed

lemma delta_contracts:
  assumes "fl rt = id" "mutual g"
  shows "pr_delta rt g (iterate rt g (Suc k)) \<le> pageRankDamping * pr_delta rt g (iterate rt g k)"
proof -
  let ?r = "iterate rt g k" and ?s = "iterate rt g (Suc k)"
  have step: "\<bar>next_rank rt g ?s u - rank_of ?s u\<bar> = pageRankDamping * \<bar>flow g (rank_of ?s) u - flow g (rank_of ?r) u\<bar>"
    if "u \<in> models g" for u
  proof -
    have "next_rank rt g ?s u - rank_of ?s u = pageRankDamping * (flow g (rank_of ?s) u - flow g (rank_of ?r) u)"
      using that by (simp add: iterate_Suc rank_pr_next [OF assms(2)] next_rank_exact [OF assms(1,2)] right_diff_distrib)
    then show ?thesis by (simp only: abs_mult) (simp add: pageRankDamping_def)
  qed
  have prev: "rank_of ?s v - rank_of ?r v = next_rank rt g ?r v - rank_of ?r v" if "v \<in> models g" for v
    using that by (simp add: iterate_Suc rank_pr_next [OF assms(2)])
  have "pr_delta rt g ?s = pageRankDamping * (\<Sum>u \<in> models g. \<bar>flow g (rank_of ?s) u - flow g (rank_of ?r) u\<bar>)"
    unfolding pr_delta_exact [OF assms] sum_distrib_left by (rule sum.cong [OF refl step])
  also have "\<dots> \<le> pageRankDamping * (\<Sum>v \<in> models g. \<bar>rank_of ?s v - rank_of ?r v\<bar>)"
    by (rule mult_left_mono [OF flow_abs [OF assms(2)]]) (simp add: pageRankDamping_def)
  also have "(\<Sum>v \<in> models g. \<bar>rank_of ?s v - rank_of ?r v\<bar>) = pr_delta rt g ?r"
    unfolding pr_delta_exact [OF assms] by (rule sum.cong [OF refl]) (simp add: prev)
  finally show ?thesis .
qed

lemma delta_bound:
  assumes "fl rt = id" "mutual g" "g \<noteq> []"
  shows "pr_delta rt g (iterate rt g k) \<le> 2 * pageRankDamping ^ k"
proof (induction k)
  case 0
  let ?r = "iterate rt g 0" and ?s = "iterate rt g 1"
  have lb: "0 \<le> (1 - pageRankDamping) / of_nat (card (models g))" by (simp add: pageRankDamping_def)
  have nonneg: "0 \<le> rank_of (iterate rt g j) u" if "u \<in> models g" for u j
    using iterate_bounds [OF assms, of j] that lb by (meson order_trans)
  have s: "next_rank rt g ?r u = rank_of ?s u" if "u \<in> models g" for u
    using that by (simp add: iterate_Suc rank_pr_next [OF assms(2)])
  have "pr_delta rt g ?r \<le> (\<Sum>u \<in> models g. rank_of ?s u + rank_of ?r u)"
    unfolding pr_delta_exact [OF assms(1,2)]
  proof (rule sum_mono)
    fix u assume "u \<in> models g"
    then show "\<bar>next_rank rt g ?r u - rank_of ?r u\<bar> \<le> rank_of ?s u + rank_of ?r u"
      using nonneg [of u 0] nonneg [of u 1] s [of u] by simp
  qed
  also have "\<dots> = 2"
    using iterate_bounds [OF assms, of 0] iterate_bounds [OF assms, of 1] by (simp add: sum.distrib)
  finally show ?case by simp
next
  case (Suc k)
  have "pr_delta rt g (iterate rt g (Suc k)) \<le> pageRankDamping * (2 * pageRankDamping ^ k)"
    using delta_contracts [OF assms(1,2), of k] Suc by (rule order_trans [OF _ mult_left_mono]) (simp add: pageRankDamping_def)
  then show ?case by (simp add: mult.left_commute)
qed

lemma pr_loop_stops:
  assumes "pr_delta rt g ((pr_next rt g ^^ k) r) < fl rt pageRankEpsilon" "k < fuel"
  shows "\<exists>j \<le> k. pr_loop rt g fuel r = (pr_next rt g ^^ Suc j) r \<and> pr_delta rt g ((pr_next rt g ^^ j) r) < fl rt pageRankEpsilon"
  using assms
proof (induction fuel arbitrary: k r)
  case (Suc fuel)
  show ?case
  proof (cases "pr_delta rt g r < fl rt pageRankEpsilon")
    case True
    then show ?thesis by (intro exI [of _ 0]) simp
  next
    case False
    then obtain k' where k: "k = Suc k'" using Suc.prems(1) by (cases k) auto
    have "pr_delta rt g ((pr_next rt g ^^ k') (pr_next rt g r)) < fl rt pageRankEpsilon" "k' < fuel"
      using Suc.prems by (simp_all add: k funpow_swap1)
    from Suc.IH [OF this] obtain j where "j \<le> k'" "pr_loop rt g fuel (pr_next rt g r) = (pr_next rt g ^^ Suc j) (pr_next rt g r)"
      "pr_delta rt g ((pr_next rt g ^^ j) (pr_next rt g r)) < fl rt pageRankEpsilon" by blast
    then show ?thesis using False k by (intro exI [of _ "Suc j"]) (simp add: funpow_swap1)
  qed
qed simp

lemma pageRank_stops:
  assumes "fl rt = id" "mutual g" "g \<noteq> []"
  shows "\<exists>j \<le> 175. pageRank rt g = iterate rt g (Suc j) \<and> pr_delta rt g (iterate rt g j) < pageRankEpsilon"
proof -
  have "pr_delta rt g (iterate rt g 175) \<le> 2 * pageRankDamping ^ 175" by (rule delta_bound [OF assms])
  also have "\<dots> < pageRankEpsilon" by (simp add: pageRankDamping_def pageRankEpsilon_def power_divide divide_less_eq)
  finally have "pr_delta rt g ((pr_next rt g ^^ 175) (initial_rank rt g)) < fl rt pageRankEpsilon"
    by (simp add: iterate_def assms(1))
  from pr_loop_stops [OF this, of pageRankMaxIter]
  obtain j where "j \<le> 175" "pr_loop rt g pageRankMaxIter (initial_rank rt g) = (pr_next rt g ^^ Suc j) (initial_rank rt g)"
    "pr_delta rt g ((pr_next rt g ^^ j) (initial_rank rt g)) < fl rt pageRankEpsilon"
    by (auto simp: pageRankMaxIter_def)
  moreover have "length (graph_nodes g) \<noteq> 0" using assms(3) by (simp add: graph_nodes_def)
  ultimately show ?thesis by (intro exI [of _ j]) (simp add: pageRank_def iterate_def assms(1))
qed

subsection \<open>The graph of a run\<close>

definition agreeing :: "finding list list \<Rightarrow> string set" where
  "agreeing groups =
     (\<Union>members \<in> {members \<in> set groups. 2 \<le> length (distinctReviewers members)}.
        set (take maxDistinctReviewers (distinctReviewers members)))"

lemma pairs_of_members: "2 \<le> length xs \<Longrightarrow> fst ` set (pairs_of xs) \<union> snd ` set (pairs_of xs) = set xs"
proof (induction xs)
  case (Cons x xs)
  then obtain y ys where xs: "xs = y # ys" by (cases xs) auto
  show ?case
  proof (cases ys)
    case Nil
    then show ?thesis by (auto simp: xs)
  next
    case (Cons z zs)
    then have "2 \<le> length xs" by (simp add: xs)
    from Cons.IH [OF this] show ?thesis by (auto simp: xs image_Un image_image)
  qed
qed simp

lemma keys_fold_edges:
  "models (fold (\<lambda>(u, v). addEdge u v) es g) = models g \<union> (fst ` set es \<union> snd ` set es)"
proof (induction es arbitrary: g)
  case (Cons e es)
  obtain u v where "e = (u, v)" by (cases e)
  then show ?case using Cons.IH [of "addEdge u v g"] by (simp add: keys_addEdge insert_commute)
qed simp

lemma distinctReviewers_fixed:
  "sort (distinct_keys (filter (\<lambda>r. r \<noteq> []) (distinctReviewers members))) = distinctReviewers members"
proof -
  have "filter (\<lambda>r. r \<noteq> []) (distinctReviewers members) = distinctReviewers members"
    by (auto simp: distinctReviewers_eq filter_id_conv)
  then show ?thesis by (simp add: sort_distinct_keys) (simp add: distinctReviewers_eq)
qed

lemma keys_addAgreement:
  assumes "2 \<le> length (distinctReviewers members)"
  shows "models (addAgreement (distinctReviewers members) g) =
    models g \<union> set (take maxDistinctReviewers (distinctReviewers members))"
proof -
  have "2 \<le> length (take maxDistinctReviewers (distinctReviewers members))"
    using assms by (simp add: maxDistinctReviewers_def)
  from pairs_of_members [OF this] show ?thesis
    by (simp only: addAgreement_def distinctReviewers_fixed Let_def keys_fold_edges)
qed

lemma agreement_fold:
  assumes "mutual g" "\<not> b \<longrightarrow> g = []" "b \<longrightarrow> g \<noteq> []"
    and "fold (\<lambda>members (g, hasAgreement).
         let revs = distinctReviewers members in
         if length revs \<ge> 2 then (addAgreement revs g, True) else (g, hasAgreement)) groups (g, b) = (g', b')"
  shows "mutual g' \<and> models g' = models g \<union> agreeing groups \<and> (b' \<longleftrightarrow> g' \<noteq> [])"
  using assms
proof (induction groups arbitrary: g b)
  case Nil
  then show ?case by (auto simp: agreeing_def)
next
  case (Cons members groups)
  show ?case
  proof (cases "2 \<le> length (distinctReviewers members)")
    case True
    let ?g = "addAgreement (distinctReviewers members) g"
    have k: "models ?g = models g \<union> set (take maxDistinctReviewers (distinctReviewers members))" by (rule keys_addAgreement [OF True])
    have "distinctReviewers members \<noteq> []" using True by auto
    then have ne: "?g \<noteq> []" using k by (auto simp: maxDistinctReviewers_def)
    have "mutual g' \<and> models g' = models ?g \<union> agreeing groups \<and> (b' \<longleftrightarrow> g' \<noteq> [])"
      using Cons.prems True ne by (intro Cons.IH [of ?g True] mutual_addAgreement) (simp_all add: Let_def)
    moreover have "agreeing (members # groups) = set (take maxDistinctReviewers (distinctReviewers members)) \<union> agreeing groups"
      using True by (auto simp: agreeing_def)
    ultimately show ?thesis by (simp add: k Un_assoc)
  next
    case False
    then have "agreeing (members # groups) = agreeing groups" by (auto simp: agreeing_def)
    then show ?thesis using Cons.IH [of g b] Cons.prems False by (simp add: Let_def)
  qed
qed

lemma agreement_of_spec:
  assumes "agreement_of groups = (g, b)"
  shows "mutual g" "models g = agreeing groups" "b \<longleftrightarrow> g \<noteq> []"
  using agreement_fold [OF mutual_new _ _ assms [unfolded agreement_of_def]]
  by (auto simp: newAgreementGraph_def)

lemma modelAuthority_iterate:
  assumes "fl rt = id" "agreement_of groups = (g, b)" "g \<noteq> []"
  shows "\<exists>j \<le> 175. modelAuthority rt groups = iterate rt g (Suc j) \<and> pr_delta rt g (iterate rt g j) < pageRankEpsilon"
  using pageRank_stops [OF assms(1) agreement_of_spec(1) [OF assms(2)] assms(3)] agreement_of_spec(3) [OF assms(2)] assms(2,3)
  by (simp add: modelAuthority_def)

lemma keys_iterate: "mutual g \<Longrightarrow> map fst (iterate rt g (Suc j)) = graph_nodes g"
  by (simp add: iterate_Suc pr_next_def comp_def)

lemma authority_facts:
  fixes groups rt defines "a \<equiv> modelAuthority rt groups"
  assumes e: "fl rt = id"
  shows "set (map fst a) = agreeing groups" "distinct (map fst a)"
    "a \<noteq> [] \<Longrightarrow> sum_list (map snd a) = 1"
    "(u, s) \<in> set a \<Longrightarrow> (1 - pageRankDamping) / of_nat (length a) \<le> s"
proof -
  obtain g b where ag: "agreement_of groups = (g, b)" by (metis surj_pair)
  note m = agreement_of_spec [OF ag]
  have all: "set (map fst a) = agreeing groups \<and> distinct (map fst a) \<and> (a \<noteq> [] \<longrightarrow> sum_list (map snd a) = 1) \<and>
     (\<forall>(u, s) \<in> set a. (1 - pageRankDamping) / of_nat (length a) \<le> s)"
  proof (cases "g = []")
    case True
    then show ?thesis using m ag by (simp add: a_def modelAuthority_def)
  next
    case False
    obtain j where j: "a = iterate rt g (Suc j)" using modelAuthority_iterate [OF e ag False] a_def by auto
    have k: "map fst a = graph_nodes g" by (simp only: j keys_iterate [OF m(1)])
    note g = mutual_graph(6,7) [OF m(1)] and bounds = iterate_bounds [OF e m(1) False, of "Suc j", folded j]
    have d: "distinct (map fst a)" "fst ` set a = models g" using k g by (metis, metis list.set_map)
    have s: "rank_of a u = s" if "(u, s) \<in> set a" for u s using that d(1) by (simp add: rank_of_def)
    have "sum_list (map snd a) = sum_list (map (\<lambda>u. rank_of a u) (map fst a))"
      unfolding map_map comp_def by (rule arg_cong [of _ _ sum_list], rule map_cong [OF refl]) (use s in force)
    also have "\<dots> = 1" using bounds sum_list_distinct_conv_sum_set [OF d(1), of "rank_of a"] d(2) by simp
    finally have "sum_list (map snd a) = 1" .
    moreover have "length a = card (models g)" using d distinct_card [OF d(1)] by simp
    moreover have "(1 - pageRankDamping) / of_nat (card (models g)) \<le> s" if "(u, s) \<in> set a" for u s
      using bounds s [OF that] d(2) that by force
    ultimately show ?thesis using d m(2) by auto
  qed
  then show "set (map fst a) = agreeing groups" "distinct (map fst a)" by simp_all
  show "a \<noteq> [] \<Longrightarrow> sum_list (map snd a) = 1" using all by simp
  show "(u, s) \<in> set a \<Longrightarrow> (1 - pageRankDamping) / of_nat (length a) \<le> s" using all by auto
qed

lemma sum_list_above:
  assumes "xs \<noteq> []" "\<forall>x \<in> set xs. (c :: rat) < x"
  shows "of_nat (length xs) * c < sum_list xs"
  using assms
proof (induction xs rule: list_nonempty_induct)
  case (cons x xs)
  then show ?case by (simp add: distrib_right)
qed simp

text \<open>
  Authority is a distribution: in exact arithmetic the scored models are the reviewers of the
  groups with at least two (the first 64 of each), each once, every score is at least the teleport
  share and they sum to one, so when there is agreement at least one model is not above the
  baseline \<^verbatim>\<open>1/N\<close> that promotion compares with.
\<close>

theorem authority_distribution:
  "let a = modelAuthority exact_runtime groups in
   set (map fst a) = agreeing groups \<and> distinct (map fst a) \<and>
   (agreeing groups = {} \<and> a = [] \<or>
      sum_list (map snd a) = 1 \<and>
      list_all (\<lambda>s. (1 - pageRankDamping) / of_nat (length a) \<le> s \<and> 0 < s) (map snd a) \<and>
      list_ex (\<lambda>s. s \<le> 1 / of_nat (length a)) (map snd a))"
proof -
  define a where "a = modelAuthority exact_runtime groups"
  note f = authority_facts [where groups = groups, OF exact_runtime_simps(1), folded a_def]
  show ?thesis
  proof (cases "a = []")
    case True
    then show ?thesis using f(1) unfolding a_def [symmetric] by simp
  next
    case False
    have low: "list_ex (\<lambda>s. s \<le> 1 / of_nat (length a)) (map snd a)"
    proof (rule ccontr)
      assume "\<not> ?thesis"
      then have "\<forall>s \<in> set (map snd a). 1 / of_nat (length a) < s" by (auto simp: list_ex_iff not_le)
      from sum_list_above [OF _ this] show False using False f(3) by simp
    qed
    have "0 < (1 - pageRankDamping) / of_nat (length a)" using False by (simp add: pageRankDamping_def)
    then have "list_all (\<lambda>s. (1 - pageRankDamping) / of_nat (length a) \<le> s \<and> 0 < s) (map snd a)"
      using f(4) by (auto simp: list_all_iff intro: less_le_trans)
    then show ?thesis using f(1,2) f(3) [OF False] low unfolding a_def [symmetric] Let_def by blast
  qed
qed

text \<open>
  The power iteration ends by its epsilon, never by its cap of 1000: in exact arithmetic the
  scores of a run with agreement are the iterate after at most 176 steps, the last step moved them by
  less than \<^verbatim>\<open>1e-12\<close> in total, and so would every further one.
\<close>

theorem pagerank_converges:
  "case agreement_of groups of (g, hasAgreement) \<Rightarrow>
     hasAgreement = (agreeing groups \<noteq> {}) \<and>
     (agreeing groups = {} \<or>
        (\<exists>j \<le> 175. modelAuthority exact_runtime groups = iterate exact_runtime g (Suc j) \<and>
           pr_delta exact_runtime g (iterate exact_runtime g j) < pageRankEpsilon \<and>
           (\<forall>i. pr_delta exact_runtime g (iterate exact_runtime g (j + i)) < pageRankEpsilon)))"
proof -
  obtain g b where ag: "agreement_of groups = (g, b)" by (metis surj_pair)
  note m = agreement_of_spec [OF ag] and id = exact_runtime_simps(1)
  have rest: "pr_delta exact_runtime g (iterate exact_runtime g (j + i)) \<le> pr_delta exact_runtime g (iterate exact_runtime g j)" for i j
  proof (induction i)
    case (Suc i)
    have "0 \<le> pr_delta exact_runtime g (iterate exact_runtime g (j + i))"
      by (simp add: pr_delta_exact [OF id m(1)] sum_nonneg)
    then have "pageRankDamping * pr_delta exact_runtime g (iterate exact_runtime g (j + i)) \<le> pr_delta exact_runtime g (iterate exact_runtime g (j + i))"
      by (simp add: pageRankDamping_def)
    then show ?case using Suc delta_contracts [OF id m(1), of "j + i"] by simp
  qed simp
  have empty: "agreeing groups = {} \<longleftrightarrow> g = []" using m(2) by (metis image_is_empty set_empty)
  show ?thesis
  proof (cases "g = []")
    case True
    then show ?thesis using empty m(3) by (simp add: ag)
  next
    case False
    then show ?thesis using modelAuthority_iterate [OF id ag False] empty m(3) rest by (simp add: ag) (meson le_less_trans)
  qed
qed

end
