(* ===== verification/GoJson.thy ===== *)
theory GoJson
  imports GoText GoRuntime
begin

text \<open>
  What the program uses of Go's \<^verbatim>\<open>encoding/json\<close>: \<^verbatim>\<open>json.Marshal\<close> and \<^verbatim>\<open>json.MarshalIndent\<close> of structs
  whose fields are strings, numbers, booleans, slices and structs. A value is a \<open>json\<close> tree, a
  number the text \<^verbatim>\<open>strconv\<close> formats. Strings are escaped as Go does: HTML characters and control
  characters as escapes, U+2028 and U+2029 too, and each invalid UTF-8 byte as \<^verbatim>\<open>\ufffd\<close>.
  The theorem of the theory is that the compact encoding is uniquely decodable: two values with the
  same bytes are equal up to invalid UTF-8.
\<close>

subsection \<open>Strings\<close>

definition backslash :: char where [code_unfold]: "backslash = CHR 0x5C"
definition quote_mark :: char where [code_unfold]: "quote_mark = CHR 0x22"

definition hex_low :: "nat \<Rightarrow> char" where
  "hex_low n = (if n < 10 then char_of (48 + n) else char_of (87 + n))"

definition escape_byte :: "char \<Rightarrow> string" where
  "escape_byte c =
     (if c = quote_mark \<or> c = backslash then [backslash, c]
      else if byte c = 8 then [backslash, CHR ''b'']
      else if byte c = 12 then [backslash, CHR ''f'']
      else if byte c = 10 then [backslash, CHR ''n'']
      else if byte c = 13 then [backslash, CHR ''r'']
      else if byte c = 9 then [backslash, CHR ''t'']
      else if byte c < 32 \<or> c = CHR ''<'' \<or> c = CHR ''>'' \<or> c = CHR ''&''
        then backslash # ''u00'' @ [hex_low (byte c div 16), hex_low (byte c mod 16)]
      else [c])"

fun escape :: "string \<Rightarrow> string" where
  "escape [] = []"
| "escape (c # cs) =
     (let (r, w) = decode_rune (c # cs) in
      if byte c < 128 then escape_byte c @ escape cs
      else if w \<le> 1 then backslash # ''ufffd'' @ escape cs
      else if r = 8232 then backslash # ''u2028'' @ escape (drop (w - 1) cs)
      else if r = 8233 then backslash # ''u2029'' @ escape (drop (w - 1) cs)
      else c # take (w - 1) cs @ escape (drop (w - 1) cs))"

text \<open>The text that is written: every invalid byte replaced by U+FFFD.\<close>

fun coerce :: "string \<Rightarrow> string" where
  "coerce [] = []"
| "coerce (c # cs) =
     (let (r, w) = decode_rune (c # cs) in
      if byte c \<ge> 128 \<and> w \<le> 1 then encode_rune RuneError @ coerce cs
      else c # take (w - 1) cs @ coerce (drop (w - 1) cs))"

fun valid_utf8 :: "string \<Rightarrow> bool" where
  "valid_utf8 [] = True"
| "valid_utf8 (c # cs) =
     (let (r, w) = decode_rune (c # cs) in
      \<not> (byte c \<ge> 128 \<and> w \<le> 1) \<and> valid_utf8 (drop (w - 1) cs))"

subsection \<open>Values\<close>

datatype json =
    JStr string
  | JNum string
  | JBool bool
  | JArr "json list"
  | JObj "(string \<times> json) list"

definition quoted :: "string \<Rightarrow> string" where
  "quoted s = quote_mark # escape s @ [quote_mark]"

fun marshal :: "json \<Rightarrow> string" where
  "marshal (JStr s) = quoted s"
| "marshal (JNum t) = t"
| "marshal (JBool b) = (if b then ''true'' else ''false'')"
| "marshal (JArr vs) = ''['' @ Join (map marshal vs) '','' @ '']''"
| "marshal (JObj fs) = ''{'' @ Join (map (\<lambda>(k, v). quoted k @ '':'' @ marshal v) fs) '','' @ ''}''"

definition newline_indent :: "nat \<Rightarrow> string" where
  "newline_indent d = CHR 0x0A # concat (replicate d ''  '')"

fun marshal_indent :: "nat \<Rightarrow> json \<Rightarrow> string" where
  "marshal_indent d (JArr vs) =
     (if vs = [] then ''[]''
      else ''['' @ newline_indent (d + 1) @
           Join (map (marshal_indent (d + 1)) vs) ('','' @ newline_indent (d + 1)) @
           newline_indent d @ '']'')"
| "marshal_indent d (JObj fs) =
     (if fs = [] then ''{}''
      else ''{'' @ newline_indent (d + 1) @
           Join (map (\<lambda>(k, v). quoted k @ '': '' @ marshal_indent (d + 1) v) fs) ('','' @ newline_indent (d + 1)) @
           newline_indent d @ ''}'')"
| "marshal_indent d v = marshal v"

text \<open>
  \<^verbatim>\<open>strconv.FormatFloat(x, 'f', -1, 64)\<close> for \<open>0 \<le> x \<le> 1\<close>: the fewest decimals that read back as
  \<open>x\<close>. Seventeen always suffice for a \<^verbatim>\<open>float64\<close>.
\<close>

definition pad_left :: "nat \<Rightarrow> string \<Rightarrow> string" where
  "pad_left k s = replicate (k - length s) (CHR ''0'') @ s"

definition decimals :: "rat \<Rightarrow> nat \<Rightarrow> nat" where
  "decimals x k = nat \<lfloor>x * 10 ^ k + 1 / 2\<rfloor>"

definition FormatFloat :: "runtime \<Rightarrow> rat \<Rightarrow> string" where
  "FormatFloat rt x =
     (case find (\<lambda>k. fl rt (of_nat (decimals x k) / 10 ^ k) = x) [0..<17] of
        Some 0 \<Rightarrow> digits_of (decimals x 0)
      | Some k \<Rightarrow> digits_of (decimals x k div 10 ^ k) @ ''.'' @ pad_left k (digits_of (decimals x k mod 10 ^ k))
      | None \<Rightarrow> digits_of (decimals x 17 div 10 ^ 17) @ ''.'' @ pad_left 17 (digits_of (decimals x 17 mod 10 ^ 17)))"

subsection \<open>Decoding\<close>

definition unhex :: "char \<Rightarrow> nat" where
  "unhex c = (if byte c < 58 then byte c - 48 else byte c - 87)"

definition unescape_char :: "char \<Rightarrow> char" where
  "unescape_char x =
     (if x = CHR ''b'' then char_of (8::nat) else if x = CHR ''f'' then char_of (12::nat)
      else if x = CHR ''n'' then char_of (10::nat) else if x = CHR ''r'' then char_of (13::nat)
      else if x = CHR ''t'' then char_of (9::nat) else x)"

definition prepend :: "string \<Rightarrow> (string \<times> string) option \<Rightarrow> (string \<times> string) option" where
  "prepend p = map_option (\<lambda>(s, rest). (p @ s, rest))"

text \<open>Reads an escaped string up to its closing quote.\<close>

fun unescape :: "string \<Rightarrow> (string \<times> string) option" where
  "unescape [] = None"
| "unescape (c # cs) =
     (if c = quote_mark then Some ([], cs)
      else if c = backslash then
        (case cs of
           [] \<Rightarrow> None
         | x # rest \<Rightarrow>
             if x = CHR ''u'' then
               (case rest of
                  h1 # h2 # h3 # h4 # rest' \<Rightarrow>
                    prepend (encode_rune (((unhex h1 * 16 + unhex h2) * 16 + unhex h3) * 16 + unhex h4)) (unescape rest')
                | _ \<Rightarrow> None)
             else prepend [unescape_char x] (unescape rest))
      else prepend [c] (unescape cs))"

lemma hex_facts: "unhex (hex_low k) = k" if "k < 16"
proof -
  have "k \<in> {0..<16}" using that by simp
  then have "k \<in> set [0..<16]" by simp
  then show ?thesis by (auto simp: hex_low_def unhex_def upt_rec)
qed

lemma unescape_plain: "c \<noteq> quote_mark \<Longrightarrow> c \<noteq> backslash \<Longrightarrow> unescape (c # t) = prepend [c] (unescape t)"
  by simp

lemma unescape_plain_append:
  "(\<forall>c \<in> set p. c \<noteq> quote_mark \<and> c \<noteq> backslash) \<Longrightarrow> unescape (p @ t) = prepend p (unescape t)"
proof (induction p)
  case Nil
  then show ?case by (cases "unescape t") (auto simp: prepend_def)
next
  case (Cons c p)
  then show ?case by (cases "unescape t") (auto simp: prepend_def)
qed

lemma escape_byte_round:
  assumes "byte c < (128 :: nat)"
  shows "unescape (escape_byte c @ t) = prepend [c] (unescape t)"
proof -
  have bs: "backslash \<noteq> quote_mark" by (simp add: backslash_def quote_mark_def)
  have short: "unescape ([backslash, x] @ t) = prepend [unescape_char x] (unescape t)" if "x \<noteq> CHR ''u''" for x
    using that bs by simp
  have named: ?thesis if "byte c = k" "escape_byte c = [backslash, x]" "x \<noteq> CHR ''u''" "unescape_char x = char_of (k :: nat)" for k x
  proof -
    have "char_of k = c" using that(1) by auto
    then show ?thesis using short [OF that(3)] that(2,4) by simp
  qed
  have nq: "c \<noteq> quote_mark \<and> c \<noteq> backslash" if "byte c < (33 :: nat)"
    using that by (auto simp: quote_mark_def backslash_def)
  consider "c = quote_mark \<or> c = backslash" | "byte c = (8 :: nat)" | "byte c = (12 :: nat)" | "byte c = (10 :: nat)"
    | "byte c = (13 :: nat)" | "byte c = (9 :: nat)"
    | "\<not> (c = quote_mark \<or> c = backslash)" "byte c \<notin> {8, 12, 10, 13, 9 :: nat}"
      "byte c < (32 :: nat) \<or> c = CHR ''<'' \<or> c = CHR ''>'' \<or> c = CHR ''&''"
    | "\<not> (c = quote_mark \<or> c = backslash)" "byte c \<notin> {8, 12, 10, 13, 9 :: nat}"
      "\<not> (byte c < (32 :: nat) \<or> c = CHR ''<'' \<or> c = CHR ''>'' \<or> c = CHR ''&'')"
    by blast
  then show ?thesis
  proof cases
    case 1
    then have "escape_byte c = [backslash, c]" by (simp add: escape_byte_def)
    moreover have "unescape_char c = c" "c \<noteq> CHR ''u''"
      using 1 by (auto simp: unescape_char_def quote_mark_def backslash_def)
    ultimately show ?thesis using short [of c] by simp
  next
    case 2
    then show ?thesis by (intro named [of 8 "CHR ''b''"]) (simp_all add: escape_byte_def unescape_char_def nq)
  next
    case 3
    then show ?thesis by (intro named [of 12 "CHR ''f''"]) (simp_all add: escape_byte_def unescape_char_def nq)
  next
    case 4
    then show ?thesis by (intro named [of 10 "CHR ''n''"]) (simp_all add: escape_byte_def unescape_char_def nq)
  next
    case 5
    then show ?thesis by (intro named [of 13 "CHR ''r''"]) (simp_all add: escape_byte_def unescape_char_def nq)
  next
    case 6
    then show ?thesis by (intro named [of 9 "CHR ''t''"]) (simp_all add: escape_byte_def unescape_char_def nq)
  next
    case 7
    then have e: "escape_byte c = backslash # ''u00'' @ [hex_low (byte c div 16), hex_low (byte c mod 16)]"
      by (auto simp: escape_byte_def)
    have "byte c div 16 < (16 :: nat)" using assms by simp
    then have "unhex (hex_low (byte c div 16)) = byte c div 16" "unhex (hex_low (byte c mod 16)) = byte c mod 16"
      by (simp_all add: hex_facts)
    moreover have "unhex (CHR ''0'') = 0" by (simp add: unhex_def)
    ultimately show ?thesis using bs assms by (simp add: e encode_rune_def)
  next
    case 8
    then have "escape_byte c = [c]" by (auto simp: escape_byte_def)
    then show ?thesis using 8(1) unescape_plain [of c t] by simp
  qed
qed

lemma rune_width_cases:
  "rune_width b = 2 \<longleftrightarrow> 194 \<le> b \<and> b < 224" "rune_width b = 3 \<longleftrightarrow> 224 \<le> b \<and> b < 240"
  "rune_width b = 4 \<longleftrightarrow> 240 \<le> b \<and> b < 245" "rune_width b = Suc 0 \<longleftrightarrow> b < 128" "rune_width b \<le> 4"
  by (auto simp: rune_width_def)

lemma second_range_bounds: "second_range b = (lo, hi) \<Longrightarrow> 128 \<le> lo \<and> hi \<le> 192"
  by (auto simp: second_range_def split: if_splits)

text \<open>A rune wider than one byte is a lead byte and continuation bytes.\<close>

lemma decode_rune_multi:
  assumes "decode_rune (c # cs) = (r, w)" "128 \<le> byte c" "1 < w"
  shows "(\<exists>c1 t. cs = c1 # t \<and> w = 2 \<and> 194 \<le> byte c \<and> byte c < 224 \<and> is_cont c1 \<and>
       r = (byte c - 192) * 64 + (byte c1 - 128)) \<or>
     (\<exists>c1 c2 t. cs = c1 # c2 # t \<and> w = 3 \<and> 224 \<le> byte c \<and> byte c < 240 \<and> is_cont c1 \<and> is_cont c2 \<and>
       fst (second_range (byte c)) \<le> byte c1 \<and> byte c1 < snd (second_range (byte c)) \<and>
       r = (byte c - 224) * 4096 + (byte c1 - 128) * 64 + (byte c2 - 128)) \<or>
     (\<exists>c1 c2 c3 t. cs = c1 # c2 # c3 # t \<and> w = 4 \<and> 240 \<le> byte c \<and> byte c < 245 \<and> is_cont c1 \<and> is_cont c2 \<and> is_cont c3 \<and>
       fst (second_range (byte c)) \<le> byte c1 \<and> byte c1 < snd (second_range (byte c)) \<and>
       r = (byte c - 240) * 262144 + (byte c1 - 128) * 4096 + (byte c2 - 128) * 64 + (byte c3 - 128))"
proof -
  obtain lo hi where sr: "second_range (byte c) = (lo, hi)" by fastforce
  have b: "128 \<le> lo" "hi \<le> 192" using second_range_bounds [OF sr] by auto
  obtain c1 t where cs: "cs = c1 # t" using assms by (cases cs) (auto simp: Let_def sr rune_width_cases split: if_splits)
  have c1: "lo \<le> byte c1" "byte c1 < hi" "rune_width (byte c) \<noteq> 0"
    using assms by (auto simp: cs Let_def sr rune_width_cases split: if_splits)
  then have k1: "is_cont c1" using b by (simp add: is_cont_def)
  have w4: "rune_width (byte c) = 2 \<or> rune_width (byte c) = 3 \<or> rune_width (byte c) = 4"
    using c1(3) rune_width_cases(4,5) [of "byte c"] assms(2) by linarith
  then show ?thesis
  proof (elim disjE)
    assume w: "rune_width (byte c) = 2"
    then have "194 \<le> byte c" "byte c < 224" by (simp_all add: rune_width_cases(1))
    then show ?thesis using assms c1 k1 by (simp add: cs Let_def sr w)
  next
    assume w: "rune_width (byte c) = 3"
    obtain c2 u where t: "t = c2 # u" using assms w c1 by (cases t) (auto simp: cs Let_def sr)
    have "is_cont c2" using assms w c1 by (auto simp: cs t Let_def sr split: if_splits)
    moreover have "224 \<le> byte c" "byte c < 240" using w by (simp_all add: rune_width_cases(2))
    ultimately show ?thesis using assms c1 k1 by (simp add: cs t Let_def sr w)
  next
    assume w: "rune_width (byte c) = 4"
    obtain c2 u where t: "t = c2 # u" using assms w c1 by (cases t) (auto simp: cs Let_def sr)
    have c2: "is_cont c2" using assms w c1 by (auto simp: cs t Let_def sr split: if_splits)
    obtain c3 q where u: "u = c3 # q" using assms w c1 c2 by (cases u) (auto simp: cs t Let_def sr)
    have "is_cont c3" using assms w c1 c2 by (auto simp: cs t u Let_def sr split: if_splits)
    moreover have "240 \<le> byte c" "byte c < 245" using w by (simp_all add: rune_width_cases(3))
    ultimately show ?thesis using assms c1 k1 c2 by (simp add: cs t u Let_def sr w)
  qed
qed

lemma decode_rune_cont:
  assumes "decode_rune (c # cs) = (r, w)" "128 \<le> byte c" "1 < w"
  shows "\<forall>x \<in> set (c # take (w - 1) cs). x \<noteq> quote_mark \<and> x \<noteq> backslash"
proof -
  have k: "x \<noteq> quote_mark \<and> x \<noteq> backslash" if "128 \<le> byte x" for x
    using that by (auto simp: quote_mark_def backslash_def)
  from decode_rune_multi [OF assms] have "\<forall>x \<in> set (c # take (w - 1) cs). 128 \<le> byte x"
    using assms(2) by (elim disjE exE conjE) (simp_all add: is_cont_def)
  then show ?thesis using k by blast
qed

lemma char_eqI: "byte c = n \<Longrightarrow> c = char_of n"
  by auto

lemma decode_rune_separator:
  assumes "decode_rune (c # cs) = (r, w)" "128 \<le> byte c" "1 < w" and "r = 8232 \<or> r = 8233"
  shows "c # take (w - 1) cs = encode_rune r"
  using decode_rune_multi [OF assms(1-3)]
proof (elim disjE exE conjE)
  fix c1 c2 t assume a: "cs = c1 # c2 # t" "w = 3" "224 \<le> byte c" "byte c < 240" "is_cont c1" "is_cont c2"
    "r = (byte c - 224) * 4096 + (byte c1 - 128) * 64 + (byte c2 - 128)"
  obtain x y z where xyz: "byte c = 224 + x" "byte c1 = 128 + y" "byte c2 = 128 + z"
    using a(3,5,6) by (metis is_cont_def le_iff_add)
  have "y < 64" "z < 64" "x * 4096 + y * 64 + z = 8232 \<or> x * 4096 + y * 64 + z = 8233"
    using a(5-7) xyz assms(4) by (auto simp: is_cont_def)
  note eq = this
  have x: "x = 2" using eq by linarith
  have y: "y = 0" using eq x by linarith
  have b: "byte c = 226" "byte c1 = 128" "byte c2 = (if r = 8232 then 168 else 169)"
    using a(7) xyz eq(3) x y by auto
  have "c = char_of (226 :: nat)" "c1 = char_of (128 :: nat)" "c2 = char_of (if r = 8232 then 168 else 169 :: nat)"
    using b [THEN char_eqI] by simp_all
  then show ?thesis using a(1,2) assms(4) by (auto simp: encode_rune_def)
next
  fix c1 c2 c3 t assume a: "240 \<le> byte c" "fst (second_range (byte c)) \<le> byte c1"
    "r = (byte c - 240) * 262144 + (byte c1 - 128) * 4096 + (byte c2 - 128) * 64 + (byte c3 - 128)"
  have "65536 \<le> (byte c - 240) * 262144 + (byte c1 - 128) * 4096"
    using a(1,2) by (cases "byte c = 240") (auto simp: second_range_def)
  then show ?thesis using a(3) assms(4) by linarith
qed (use assms(4) in \<open>auto simp: is_cont_def\<close>)

lemma prepend_prepend: "prepend p (prepend q x) = prepend (p @ q) x"
  by (cases x) (auto simp: prepend_def)

text \<open>Reading back an escaped string gives the string up to invalid UTF-8.\<close>

lemma unescape_escape: "unescape (escape s @ quote_mark # rest) = Some (coerce s, rest)"
proof (induction s rule: escape.induct)
  case 1
  then show ?case by simp
next
  case (2 c cs)
  obtain r w where d: "decode_rune (c # cs) = (r, w)" by fastforce
  have bs: "backslash \<noteq> quote_mark" by (simp add: backslash_def quote_mark_def)
  have u: "unhex (CHR ''f'') = 15" "unhex (CHR ''d'') = 13" "unhex (CHR ''2'') = 2" "unhex (CHR ''0'') = 0"
    "unhex (CHR ''8'') = 8" "unhex (CHR ''9'') = 9" by (simp_all add: unhex_def)
  consider "byte c < (128::nat)" | "128 \<le> byte c" "w \<le> 1"
    | "128 \<le> byte c" "1 < w" "r = 8232 \<or> r = 8233" | "128 \<le> byte c" "1 < w" "\<not> (r = 8232 \<or> r = 8233)"
    by linarith
  then show ?case
  proof cases
    case 1
    then have "w = 1" using d by (auto simp: Let_def rune_width_cases split: prod.splits)
    then show ?thesis using 2(1) [OF d [symmetric] refl 1] 1 escape_byte_round [OF 1] d by (simp add: prepend_def)
  next
    case 2
    have "escape (c # cs) = backslash # ''ufffd'' @ escape cs" using d 2 by simp
    moreover have "coerce (c # cs) = encode_rune 65533 @ coerce cs" using d 2 by (simp add: RuneError_def)
    ultimately show ?thesis using "2.IH"(2) [OF d [symmetric] refl] 2 bs u by (simp add: prepend_def)
  next
    case 3
    have rr: "escape (c # cs) = (if r = 8232 then backslash # ''u2028'' @ escape (drop (w - 1) cs)
        else backslash # ''u2029'' @ escape (drop (w - 1) cs))" using d 3 by auto
    have ih: "unescape (escape (drop (w - 1) cs) @ quote_mark # rest) = Some (coerce (drop (w - 1) cs), rest)"
      using "2.IH"(3,4) [OF d [symmetric] refl] 3 by (metis not_le)
    have "coerce (c # cs) = encode_rune r @ coerce (drop (w - 1) cs)"
      using d 3 decode_rune_separator [OF d 3] by (auto simp: append_Cons [symmetric] simp del: append_Cons)
    then show ?thesis using rr ih 3(3) bs u by (auto simp: prepend_def)
  next
    case 4
    have "escape (c # cs) = (c # take (w - 1) cs) @ escape (drop (w - 1) cs)" using d 4 by simp
    then have "unescape (escape (c # cs) @ quote_mark # rest) =
        prepend (c # take (w - 1) cs) (unescape (escape (drop (w - 1) cs) @ quote_mark # rest))"
      using unescape_plain_append [OF decode_rune_cont [OF d 4(1,2)]] by simp
    moreover have "unescape (escape (drop (w - 1) cs) @ quote_mark # rest) = Some (coerce (drop (w - 1) cs), rest)"
      using "2.IH"(5) [OF d [symmetric] refl] 4 by (metis not_le)
    moreover have "coerce (c # cs) = c # take (w - 1) cs @ coerce (drop (w - 1) cs)" using d 4 by simp
    ultimately show ?thesis by (simp add: prepend_def)
  qed
qed

lemma coerce_valid: "valid_utf8 s \<Longrightarrow> coerce s = s"
  by (induction s rule: valid_utf8.induct) (auto simp: Let_def split: prod.splits)

subsection \<open>The compact encoding is uniquely decodable\<close>

text \<open>The bytes from \<open>-\<close> to \<open>9\<close>: a number, and no byte that can follow one.\<close>

definition num_char :: "char \<Rightarrow> bool" where
  "num_char c \<longleftrightarrow> 45 \<le> byte c \<and> byte c \<le> (57 :: nat)"

definition num_text :: "string \<Rightarrow> bool" where
  "num_text t \<longleftrightarrow> t \<noteq> [] \<and> list_all num_char t"

fun json_ok :: "json \<Rightarrow> bool" where
  "json_ok (JNum t) = num_text t"
| "json_ok (JArr vs) = list_all json_ok vs"
| "json_ok (JObj fs) = list_all (\<lambda>(k, v). json_ok v) fs"
| "json_ok v = True"

fun coerced :: "json \<Rightarrow> json" where
  "coerced (JStr s) = JStr (coerce s)"
| "coerced (JArr vs) = JArr (map coerced vs)"
| "coerced (JObj fs) = JObj (map (\<lambda>(k, v). (coerce k, coerced v)) fs)"
| "coerced v = v"

definition stops :: "string \<Rightarrow> bool" where
  "stops r \<longleftrightarrow> r = [] \<or> hd r \<in> set '',]}''"

lemma quoted_unique:
  assumes "quoted s @ r = quoted t @ r'"
  shows "coerce s = coerce t \<and> r = r'"
proof -
  have "escape s @ quote_mark # r = escape t @ quote_mark # r'" using assms by (simp add: quoted_def)
  then show ?thesis using unescape_escape [of s r] unescape_escape [of t r'] by simp
qed

lemma num_unique:
  assumes "num_text t" "num_text t'" "stops r" "stops r'" "t @ r = t' @ r'"
  shows "t = t' \<and> r = r'"
proof -
  have tw: "takeWhile num_char (s @ q) = s" if "num_text s" "stops q" for s q
  proof -
    have "takeWhile num_char q = []" using that(2) by (cases q) (auto simp: stops_def num_char_def)
    moreover have "takeWhile num_char (s @ q) = s @ takeWhile num_char q"
      using that(1) by (intro takeWhile_append2) (auto simp: num_text_def list_all_iff)
    ultimately show ?thesis by simp
  qed
  have "t = t'" using tw [OF assms(1,3)] tw [OF assms(2,4)] assms(5) by metis
  then show ?thesis using assms(5) by simp
qed

lemma Join_Cons: "Join (x # xs) sep = x @ (if xs = [] then [] else sep @ Join xs sep)"
  by (cases xs) auto

lemma Join_unique:
  assumes item: "\<And>x y r r'. x \<in> set xs \<Longrightarrow> y \<in> set ys \<Longrightarrow> stops r \<Longrightarrow> stops r' \<Longrightarrow> pr x @ r = pr y @ r' \<Longrightarrow>
      nm x = nm y \<and> r = r'"
    and first: "\<And>x. x \<in> set xs \<union> set ys \<Longrightarrow> pr x \<noteq> [] \<and> hd (pr x) \<noteq> close" and close: "close \<in> set '']}''"
    and eq: "Join (map pr xs) '','' @ close # r = Join (map pr ys) '','' @ close # r'"
  shows "map nm xs = map nm ys \<and> r = r'"
  using assms
proof (induction xs arbitrary: ys)
  case Nil
  then show ?case
  proof (cases ys)
    case (Cons y ys')
    then show ?thesis using Nil(2) [of y] Nil(4) by (cases "pr y") (auto simp: Join_Cons)
  qed simp
next
  case (Cons x xs)
  obtain y ys' where ys: "ys = y # ys'"
    using Cons.prems(2) [of x] Cons.prems(4) by (cases ys; cases "pr x") (auto simp: Join_Cons)
  define R where "R = (\<lambda>zs q. if zs = [] then close # q else CHR '','' # Join (map pr zs) '','' @ close # q)"
  have st: "stops (R zs q)" for zs q using Cons.prems(3) by (auto simp: R_def stops_def)
  have "pr x @ R xs r = pr y @ R ys' r'"
    using Cons.prems(4) by (auto simp: ys Join_Cons R_def)
  then have xy: "nm x = nm y" and R: "R xs r = R ys' r'"
    using Cons.prems(1) [of x y "R xs r" "R ys' r'"] st by (auto simp: ys)
  have c: "close \<noteq> CHR '',''" using Cons.prems(3) by auto
  have "map nm xs = map nm ys' \<and> r = r'"
  proof (cases "xs = [] \<or> ys' = []")
    case True
    then show ?thesis using R c by (auto simp: R_def split: if_splits)
  next
    case False
    then have "Join (map pr xs) '','' @ close # r = Join (map pr ys') '','' @ close # r'" using R by (simp add: R_def)
    then show ?thesis
      using Cons.IH [of ys'] Cons.prems(1-3) by (auto simp: ys)
  qed
  then show ?case using xy by (simp add: ys)
qed

text \<open>The first byte tells the constructor.\<close>

fun kind :: "json \<Rightarrow> nat" where
  "kind (JStr s) = 0" | "kind (JNum t) = 1" | "kind (JBool b) = 2" | "kind (JArr vs) = 3" | "kind (JObj fs) = 4"

definition char_kind :: "char \<Rightarrow> nat" where
  "char_kind c = (if c = quote_mark then 0 else if num_char c then 1 else if c = CHR ''t'' \<or> c = CHR ''f'' then 2
     else if c = CHR ''['' then 3 else if c = CHR ''{'' then 4 else 5)"

lemma marshal_kind:
  assumes "json_ok v"
  shows "\<exists>c cs. marshal v = c # cs \<and> char_kind c = kind v"
proof (cases v)
  case (JNum t)
  then obtain c cs where t: "t = c # cs" and c: "num_char c" using assms by (cases t) (auto simp: num_text_def)
  have "c \<noteq> quote_mark" using c by (auto simp: num_char_def quote_mark_def)
  then show ?thesis using c by (simp add: JNum t char_kind_def)
qed (auto simp: quoted_def quote_mark_def char_kind_def num_char_def)

lemma marshal_first: "json_ok v \<Longrightarrow> marshal v \<noteq> [] \<and> char_kind (hd (marshal v)) \<noteq> 5"
  using marshal_kind [of v] by (cases v) auto

lemma marshal_same_kind:
  assumes "json_ok v" "json_ok w" "marshal v @ r = marshal w @ r'"
  shows "kind v = kind w"
  using marshal_kind [OF assms(1)] marshal_kind [OF assms(2)] assms(3) by auto

lemma close_kind: "char_kind (CHR '']'') = 5" "char_kind (CHR ''}'') = 5"
  by (auto simp: char_kind_def quote_mark_def num_char_def)

lemma marshal_unique:
  "json_ok v \<Longrightarrow> json_ok w \<Longrightarrow> stops r \<Longrightarrow> stops r' \<Longrightarrow> marshal v @ r = marshal w @ r' \<Longrightarrow>
   coerced v = coerced w \<and> r = r'"
proof (induction v arbitrary: w r r' rule: marshal.induct)
  case (1 s)
  then obtain t where w: "w = JStr t" using marshal_same_kind [of "JStr s" w r r'] by (cases w) auto
  show ?case using quoted_unique [of s r t r'] 1 by (simp add: w)
next
  case (2 t)
  then obtain t' where w: "w = JNum t'" using marshal_same_kind [of "JNum t" w r r'] by (cases w) auto
  show ?case using num_unique [of t t' r r'] 2 by (simp add: w)
next
  case (3 b)
  then obtain b' where w: "w = JBool b'" using marshal_same_kind [of "JBool b" w r r'] by (cases w) auto
  show ?case using 3 by (auto simp: w split: if_splits)
next
  case (4 vs)
  then obtain ws where w: "w = JArr ws" using marshal_same_kind [of "JArr vs" w r r'] by (cases w) auto
  have "map coerced vs = map coerced ws \<and> r = r'"
  proof (rule Join_unique [where pr = marshal and close = "CHR '']''"])
    show "coerced x = coerced y \<and> q = q'"
      if "x \<in> set vs" "y \<in> set ws" "stops q" "stops q'" "marshal x @ q = marshal y @ q'" for x y q q'
    proof -
      have ok: "json_ok x" "json_ok y" using 4(2,3) that(1,2) by (auto simp: w list_all_iff)
      show ?thesis by (rule 4(1) [OF that(1) ok that(3-5)])
    qed
    show "marshal x \<noteq> [] \<and> hd (marshal x) \<noteq> CHR '']''" if "x \<in> set vs \<union> set ws" for x
      using marshal_first [of x] close_kind 4(2,3) that by (auto simp: w list_all_iff)
  qed (use 4(6) in \<open>auto simp: w\<close>)
  then show ?case by (simp add: w)
next
  case (5 fs)
  then obtain gs where w: "w = JObj gs" using marshal_same_kind [of "JObj fs" w r r'] by (cases w) auto
  let ?pr = "\<lambda>(k, v). quoted k @ '':'' @ marshal v" and ?nm = "\<lambda>(k, v). (coerce k, coerced v)"
  have "map ?nm fs = map ?nm gs \<and> r = r'"
  proof (rule Join_unique [where pr = ?pr and close = "CHR ''}''"])
    show "?nm x = ?nm y \<and> q = q'"
      if "x \<in> set fs" "y \<in> set gs" "stops q" "stops q'" "?pr x @ q = ?pr y @ q'" for x y q q'
    proof -
      obtain k a l b where xy: "x = (k, a)" "y = (l, b)" by fastforce
      have "quoted k @ '':'' @ marshal a @ q = quoted l @ '':'' @ marshal b @ q'" using that(5) by (simp add: xy)
      then have kl: "coerce k = coerce l" and ab: "marshal a @ q = marshal b @ q'"
        using quoted_unique [of k _ l] by auto
      have ok: "json_ok a" "json_ok b" using 5(2,3) that(1,2) by (auto simp: w xy list_all_iff)
      show ?thesis using 5(1) [OF that(1) xy(1) [symmetric] ok that(3,4) ab] kl by (simp add: xy)
    qed
    show "?pr x \<noteq> [] \<and> hd (?pr x) \<noteq> CHR ''}''" if "x \<in> set fs \<union> set gs" for x
      by (cases x) (simp add: quoted_def quote_mark_def)
  qed (use 5(6) in \<open>auto simp: w\<close>)
  then show ?case by (simp add: w)
qed

subsection \<open>Numbers\<close>

lemma digits_of_chars: "digits_of n \<noteq> [] \<and> list_all (\<lambda>c. 48 \<le> byte c \<and> byte c \<le> (57 :: nat)) (digits_of n)"
proof (induction n rule: digits_of.induct)
  case (1 n)
  then show ?case by (subst (1 2) digits_of.simps) auto
qed

definition undigits :: "string \<Rightarrow> nat" where
  "undigits s = foldl (\<lambda>n c. n * 10 + (byte c - 48)) 0 s"

lemma undigits_digits_of: "undigits (digits_of n) = n"
proof (induction n rule: digits_of.induct)
  case (1 n)
  have "undigits (s @ [c]) = undigits s * 10 + (byte c - 48)" for s c by (simp add: undigits_def)
  then show ?case using 1 by (subst digits_of.simps) (auto simp: undigits_def)
qed

lemma Itoa_num: "num_text (Itoa i)"
proof -
  have "list_all num_char (digits_of n)" "digits_of n \<noteq> []" for n
    using digits_of_chars [of n] by (auto simp: list_all_iff num_char_def)
  then show ?thesis by (simp add: Itoa_def num_text_def num_char_def)
qed

lemma Itoa_inj: "Itoa i = Itoa j \<longleftrightarrow> i = j"
proof
  have nd: "CHR ''-'' # s \<noteq> digits_of n" for n s
    using digits_of_chars [of n] by (cases "digits_of n") auto
  have inj: "digits_of m = digits_of n \<Longrightarrow> m = n" for m n by (metis undigits_digits_of)
  assume "Itoa i = Itoa j"
  then show "i = j"
    using nd nd [THEN not_sym] inj [of "nat (- i)" "nat (- j)"] inj [of "nat i" "nat j"]
    by (simp add: Itoa_def split: if_splits)
qed simp

declare escape.simps [simp del] coerce.simps [simp del] valid_utf8.simps [simp del]

end
