(* ===== verification/Ambiguous.thy ===== *)
theory Ambiguous
  imports Finding GoJson
begin

text \<open>
  The ambiguous sidecar: \<^verbatim>\<open>reconcile/ambiguous.go\<close>, the record \<^verbatim>\<open>AmbiguousCluster\<close> and
  \<^verbatim>\<open>singletonAmbiguousCluster\<close> of \<^verbatim>\<open>reconcile/dedupe.go\<close>, and the wire form of a finding given by the
  struct tags of \<^verbatim>\<open>finding.go\<close> and \<^verbatim>\<open>verification.go\<close>. The theorems show that the text hashed for a
  content-addressed id determines the pair it names, whatever its order, and that a finding with
  valid UTF-8 is determined by its JSON.
\<close>

subsection \<open>Wire form\<close>

definition opt_str :: "string \<Rightarrow> string \<Rightarrow> (string \<times> json) list" where
  "opt_str k s = (if s = [] then [] else [(k, JStr s)])"

definition opt_true :: "string \<Rightarrow> bool \<Rightarrow> (string \<times> json) list" where
  "opt_true k b = (if b then [(k, JBool True)] else [])"

definition verification_json :: "verification \<Rightarrow> json" where
  "verification_json v = JObj
     ([(''verdict'', JStr (Verdict v)), (''skeptic'', JStr (Skeptic v))] @ opt_str ''notes'' (Notes v) @
      opt_true ''challenge_survived'' (ChallengeSurvived v) @ opt_true ''truncated'' (Truncated v))"

definition finding_fields :: "finding \<Rightarrow> (string \<times> json) list" where
  "finding_fields f =
     [(''severity'', JStr (Severity f)), (''file'', JStr (File f)), (''line'', JNum (Itoa (Line f))),
      (''problem'', JStr (Problem f)), (''fix'', JStr (Fix f)), (''category'', JStr (Category f)),
      (''est_minutes'', JNum (Itoa (EstMinutes f))), (''evidence'', JStr (Evidence f))] @
     opt_str ''reviewer'' (Reviewer f) @
     (if Reviewers f = [] then [] else [(''reviewers'', JArr (map JStr (Reviewers f)))]) @
     opt_str ''confidence'' (Confidence f) @ opt_str ''disagreement'' (Disagreement f) @
     (case Verification f of None \<Rightarrow> [] | Some v \<Rightarrow> [(''verification'', verification_json v)])"

definition finding_json :: "finding \<Rightarrow> json" where
  "finding_json f = JObj (finding_fields f)"

record ambiguousCluster =
  ambID :: string
  ambFile :: string
  ambLine :: int
  Similarity :: rat
  ambFindings :: "finding list"

definition ambiguous_json :: "runtime \<Rightarrow> ambiguousCluster \<Rightarrow> json" where
  "ambiguous_json rt a = JObj
     [(''id'', JStr (ambID a)), (''file'', JStr (ambFile a)), (''line'', JNum (Itoa (ambLine a))),
      (''similarity'', JNum (FormatFloat rt (Similarity a))),
      (''findings'', JArr (map finding_json (ambFindings a)))]"

definition renderIndentedJSON :: "json \<Rightarrow> string" where
  "renderIndentedJSON v = marshal_indent 0 v @ [CHR 0x0A]"

subsection \<open>Ids and hashes\<close>

definition length_prefixed :: "string \<Rightarrow> string" where
  "length_prefixed f = Itoa (int (length f)) @ '':'' @ f @ ''|''"

definition amb_preimage :: "string \<Rightarrow> int \<Rightarrow> string \<Rightarrow> string \<Rightarrow> string" where
  "amb_preimage file line problemA problemB =
     (let (lo, hi) = (if problemB < problemA then (problemB, problemA) else (problemA, problemB))
      in concat (map length_prefixed [file, Itoa line, lo, hi]))"

definition AmbiguousID :: "runtime \<Rightarrow> string \<Rightarrow> int \<Rightarrow> string \<Rightarrow> string \<Rightarrow> string" where
  "AmbiguousID rt file line problemA problemB =
     ''amb-'' @ hex_EncodeToString (take 16 (sum256 rt (amb_preimage file line problemA problemB)))"

definition HashBytes :: "runtime \<Rightarrow> string \<Rightarrow> string" where
  "HashBytes rt data = ''sha256:'' @ hex_EncodeToString (sum256 rt data)"

text \<open>Marshalling these types cannot fail, so the error branch of \<^verbatim>\<open>AmbiguousHash\<close> has no counterpart.\<close>

definition AmbiguousHash :: "runtime \<Rightarrow> ambiguousCluster list \<Rightarrow> string" where
  "AmbiguousHash rt clusters = HashBytes rt (renderIndentedJSON (JArr (map (ambiguous_json rt) clusters)))"

definition singletonAmbiguousCluster :: "runtime \<Rightarrow> finding \<Rightarrow> ambiguousCluster" where
  "singletonAmbiguousCluster rt f =
     (let f = (if Reviewer f = [] \<and> length (Reviewers f) = 1
               then f\<lparr>Reviewer := Reviewers f ! 0, Reviewers := [], Confidence := []\<rparr> else f)
      in \<lparr>ambID = AmbiguousID rt (File f) (Line f) (Problem f) (Problem f), ambFile = File f, ambLine = Line f,
          Similarity = 0, ambFindings = [f]\<rparr>)"

subsection \<open>The hashed text determines the pair\<close>

lemma length_prefixed_unique:
  assumes "length_prefixed a @ r = length_prefixed b @ r'"
  shows "a = b \<and> r = r'"
proof -
  let ?d = "\<lambda>c. 48 \<le> byte c \<and> byte c \<le> (57 :: nat)"
  have tw: "takeWhile ?d (Itoa (int n) @ '':'' @ s) = Itoa (int n)" for n s
    using digits_of_chars [of n] by (subst takeWhile_append2) (auto simp: Itoa_def list_all_iff)
  have eq: "Itoa (int (length a)) @ '':'' @ a @ ''|'' @ r = Itoa (int (length b)) @ '':'' @ b @ ''|'' @ r'"
    using assms by (simp add: length_prefixed_def)
  then have "Itoa (int (length a)) = Itoa (int (length b))"
    using tw [of "length a" "a @ ''|'' @ r"] tw [of "length b" "b @ ''|'' @ r'"] by (metis append.assoc)
  then have "length a = length b" by (simp add: Itoa_inj)
  then show ?thesis using eq by auto
qed

lemma amb_preimage_sym: "amb_preimage f l a b = amb_preimage f l b a"
  by (auto simp: amb_preimage_def)

text \<open>
  The id of a gray pair does not depend on the order of the two texts, and the length-prefixed
  text it hashes determines file, line and the unordered pair of texts: no two different pairs
  share a preimage, whatever bytes they contain.
\<close>

theorem ambiguous_id_preimage:
  "AmbiguousID rt file line a b = AmbiguousID rt file line b a \<and>
   (amb_preimage file line a b = amb_preimage file' line' a' b' \<longleftrightarrow>
      file = file' \<and> line = line' \<and> (a = a' \<and> b = b' \<or> a = b' \<and> b = a'))"
proof -
  have "file = file' \<and> line = line' \<and> (a = a' \<and> b = b' \<or> a = b' \<and> b = a')"
    if eq: "amb_preimage file line a b = amb_preimage file' line' a' b'"
  proof -
    obtain lo hi where l: "(lo, hi) = (if b < a then (b, a) else (a, b))" by (metis surj_pair)
    obtain lo' hi' where l': "(lo', hi') = (if b' < a' then (b', a') else (a', b'))" by (metis surj_pair)
    have "length_prefixed file @ length_prefixed (Itoa line) @ length_prefixed lo @ length_prefixed hi @ [] =
        length_prefixed file' @ length_prefixed (Itoa line') @ length_prefixed lo' @ length_prefixed hi' @ []"
      using eq by (simp add: amb_preimage_def l [symmetric] l' [symmetric])
    then have "file = file' \<and> Itoa line = Itoa line' \<and> lo = lo' \<and> hi = hi'"
      using length_prefixed_unique by metis
    then show ?thesis using l l' by (auto simp: Itoa_inj split: if_splits)
  qed
  then show ?thesis using amb_preimage_sym by (auto simp: AmbiguousID_def amb_preimage_sym)
qed

subsection \<open>The wire form determines the finding\<close>

definition valid_verification :: "verification \<Rightarrow> bool" where
  "valid_verification v \<longleftrightarrow> valid_utf8 (Verdict v) \<and> valid_utf8 (Skeptic v) \<and> valid_utf8 (Notes v)"

definition valid_finding :: "finding \<Rightarrow> bool" where
  "valid_finding f \<longleftrightarrow> valid_utf8 (Severity f) \<and> valid_utf8 (File f) \<and> valid_utf8 (Problem f) \<and> valid_utf8 (Fix f) \<and>
     valid_utf8 (Category f) \<and> valid_utf8 (Evidence f) \<and> valid_utf8 (Reviewer f) \<and> list_all valid_utf8 (Reviewers f) \<and>
     valid_utf8 (Confidence f) \<and> valid_utf8 (Disagreement f) \<and>
     (case Verification f of None \<Rightarrow> True | Some v \<Rightarrow> valid_verification v)"

lemma ascii_valid: "is_ascii s \<Longrightarrow> valid_utf8 s"
proof (induction s)
  case (Cons c s)
  then have "decode_rune (c # s) = (byte c, 1)"
    by (simp add: is_ascii_def Let_def rune_width_def second_range_def)
  then show ?case using Cons by (simp add: is_ascii_def valid_utf8.simps)
qed (simp add: valid_utf8.simps)

lemma coerce_keys [simp]:
  "coerce ''severity'' = ''severity''" "coerce ''file'' = ''file''" "coerce ''line'' = ''line''"
  "coerce ''problem'' = ''problem''" "coerce ''fix'' = ''fix''" "coerce ''category'' = ''category''"
  "coerce ''est_minutes'' = ''est_minutes''" "coerce ''evidence'' = ''evidence''" "coerce ''reviewer'' = ''reviewer''"
  "coerce ''reviewers'' = ''reviewers''" "coerce ''confidence'' = ''confidence''"
  "coerce ''disagreement'' = ''disagreement''" "coerce ''verification'' = ''verification''"
  "coerce ''verdict'' = ''verdict''" "coerce ''skeptic'' = ''skeptic''" "coerce ''notes'' = ''notes''"
  "coerce ''challenge_survived'' = ''challenge_survived''" "coerce ''truncated'' = ''truncated''"
  by (rule coerce_valid [OF ascii_valid], simp add: is_ascii_def)+

lemma coerced_verification: "valid_verification v \<Longrightarrow> coerced (verification_json v) = verification_json v"
  by (simp add: verification_json_def opt_str_def opt_true_def valid_verification_def coerce_valid)

lemma coerced_finding:
  assumes "valid_finding f"
  shows "coerced (finding_json f) = finding_json f"
proof -
  have "map (coerced \<circ> JStr) (Reviewers f) = map JStr (Reviewers f)"
    using assms by (auto simp: valid_finding_def list_all_iff coerce_valid)
  then show ?thesis
    using assms coerced_verification
    by (simp add: finding_json_def finding_fields_def opt_str_def valid_finding_def coerce_valid split: option.splits)
qed

lemma json_ok_finding: "json_ok (finding_json f)"
  by (auto simp: finding_json_def finding_fields_def opt_str_def opt_true_def verification_json_def Itoa_num
      list_all_iff split: option.splits)

lemma verification_json_inj: "verification_json v = verification_json w \<Longrightarrow> v = w"
proof -
  assume eq: "verification_json v = verification_json w"
  have get: "map_of fs k = map_of gs k" if "JObj fs = verification_json v" "JObj gs = verification_json w" for fs gs k
    using that eq by (metis json.inject(5))
  note g = get [unfolded verification_json_def json.inject, OF refl refl]
  have "Verdict v = Verdict w" using g [of "''verdict''"] by simp
  moreover have "Skeptic v = Skeptic w" using g [of "''skeptic''"] by simp
  moreover have "Notes v = Notes w"
    using g [of "''notes''"] by (auto simp: opt_str_def opt_true_def split: if_splits)
  moreover have "ChallengeSurvived v = ChallengeSurvived w"
    using g [of "''challenge_survived''"] by (auto simp: opt_str_def opt_true_def split: if_splits)
  moreover have "Truncated v = Truncated w"
    using g [of "''truncated''"] by (auto simp: opt_str_def opt_true_def split: if_splits)
  ultimately show "v = w" by simp
qed

lemma finding_fields_get:
  "map_of (finding_fields f) ''severity'' = Some (JStr (Severity f))"
  "map_of (finding_fields f) ''file'' = Some (JStr (File f))"
  "map_of (finding_fields f) ''line'' = Some (JNum (Itoa (Line f)))"
  "map_of (finding_fields f) ''problem'' = Some (JStr (Problem f))"
  "map_of (finding_fields f) ''fix'' = Some (JStr (Fix f))"
  "map_of (finding_fields f) ''category'' = Some (JStr (Category f))"
  "map_of (finding_fields f) ''est_minutes'' = Some (JNum (Itoa (EstMinutes f)))"
  "map_of (finding_fields f) ''evidence'' = Some (JStr (Evidence f))"
  by (simp_all add: finding_fields_def)

lemma finding_fields_get_opt:
  "map_of (finding_fields f) ''reviewer'' = (if Reviewer f = [] then None else Some (JStr (Reviewer f)))"
  "map_of (finding_fields f) ''reviewers'' = (if Reviewers f = [] then None else Some (JArr (map JStr (Reviewers f))))"
  "map_of (finding_fields f) ''confidence'' = (if Confidence f = [] then None else Some (JStr (Confidence f)))"
  "map_of (finding_fields f) ''disagreement'' = (if Disagreement f = [] then None else Some (JStr (Disagreement f)))"
  "map_of (finding_fields f) ''verification'' = map_option verification_json (Verification f)"
  by (simp_all add: finding_fields_def opt_str_def split: option.splits)

lemma finding_fields_inj:
  assumes "finding_fields f = finding_fields g"
  shows "f = g"
proof -
  have eq: "map_of (finding_fields f) k = map_of (finding_fields g) k" for k using assms by simp
  have inj: "inj JStr" by (simp add: inj_def)
  have "Severity f = Severity g" using eq [of "''severity''"] by (simp add: finding_fields_get)
  moreover have "File f = File g" using eq [of "''file''"] by (simp add: finding_fields_get)
  moreover have "Line f = Line g" using eq [of "''line''"] by (simp add: finding_fields_get Itoa_inj)
  moreover have "Problem f = Problem g" using eq [of "''problem''"] by (simp add: finding_fields_get)
  moreover have "Fix f = Fix g" using eq [of "''fix''"] by (simp add: finding_fields_get)
  moreover have "Category f = Category g" using eq [of "''category''"] by (simp add: finding_fields_get)
  moreover have "EstMinutes f = EstMinutes g" using eq [of "''est_minutes''"] by (simp add: finding_fields_get Itoa_inj)
  moreover have "Evidence f = Evidence g" using eq [of "''evidence''"] by (simp add: finding_fields_get)
  moreover have "Reviewer f = Reviewer g"
    using eq [of "''reviewer''"] by (simp add: finding_fields_get_opt split: if_splits)
  moreover have "Reviewers f = Reviewers g"
    using eq [of "''reviewers''"] by (simp add: finding_fields_get_opt inj_map_eq_map [OF inj] split: if_splits)
  moreover have "Confidence f = Confidence g"
    using eq [of "''confidence''"] by (simp add: finding_fields_get_opt split: if_splits)
  moreover have "Disagreement f = Disagreement g"
    using eq [of "''disagreement''"] by (simp add: finding_fields_get_opt split: if_splits)
  moreover have "Verification f = Verification g"
    using eq [of "''verification''"] verification_json_inj
    by (cases "Verification f"; cases "Verification g") (auto simp: finding_fields_get_opt)
  ultimately show ?thesis by simp
qed

lemma marshal_finding_inj:
  assumes "valid_finding f" "valid_finding g" "marshal (finding_json f) = marshal (finding_json g)"
  shows "f = g"
proof -
  have "coerced (finding_json f) = coerced (finding_json g)"
    using marshal_unique [OF json_ok_finding [of f] json_ok_finding [of g], of "[]" "[]"] assms(3)
    by (simp add: stops_def)
  then have "finding_fields f = finding_fields g"
    using coerced_finding [OF assms(1)] coerced_finding [OF assms(2)] by (simp add: finding_json_def)
  then show ?thesis by (rule finding_fields_inj)
qed

end
