(* ===== verification/Consensus.thy ===== *)
theory Consensus
  imports Pagerank Ambiguous
begin

text \<open>
  The consensus filter and the trust prior: \<^verbatim>\<open>reconcile/consensus.go\<close>. A map of trust priors is an
  association list with one entry per reviewer; the thresholds are the constants the code compares
  \<^verbatim>\<open>float64\<close> rates with, rounded by the runtime. The theorems show that levels fail safe to strict and
  what the filter may drop.
\<close>

subsection \<open>Levels\<close>

definition consensusMinReviewers :: nat where "consensusMinReviewers = 3"

definition ConsensusOff :: string where [simp]: "ConsensusOff = ''off''"
definition ConsensusLenient :: string where [simp]: "ConsensusLenient = ''lenient''"
definition ConsensusStrict :: string where [simp]: "ConsensusStrict = ''strict''"

definition ConsensusLevels :: "string list" where
  "ConsensusLevels = [ConsensusStrict, ConsensusLenient, ConsensusOff]"

text \<open>The error of an unknown level carries the two values its sentence names.\<close>

datatype consensus_error = InvalidConsensus string string

definition InvalidConsensusError :: "string \<Rightarrow> consensus_error" where
  "InvalidConsensusError v = InvalidConsensus (TrimSpace v) (Join ConsensusLevels '', '')"

definition NormalizeConsensus :: "string \<Rightarrow> string \<times> bool" where
  "NormalizeConsensus v =
     (let c = ToLower (TrimSpace v) in
      if c = [] then (ConsensusStrict, True)
      else if c = ConsensusStrict \<or> c = ConsensusLenient \<or> c = ConsensusOff then (c, True)
      else ([], False))"

definition effectiveConsensus :: "string \<Rightarrow> string" where
  "effectiveConsensus level = (case NormalizeConsensus level of (c, ok) \<Rightarrow> if ok then c else ConsensusStrict)"

definition consensusFloor :: "string \<Rightarrow> string \<times> bool" where
  "consensusFloor level =
     (case NormalizeConsensus level of (c, ok) \<Rightarrow>
        if ok \<and> c = ConsensusOff then (ConfHigh, False)
        else if ok \<and> c = ConsensusLenient then (ConfMedium, True)
        else if ok \<and> c = ConsensusStrict then (ConfHigh, True)
        else (ConfHigh, True))"

subsection \<open>Exemptions\<close>

definition trustHighThreshold :: rat where "trustHighThreshold = 7 / 10"
definition trustLowThreshold :: rat where "trustLowThreshold = 3 / 10"

definition securityRelated :: "string \<Rightarrow> bool" where
  "securityRelated category =
     (let c = ToLower (TrimSpace category) in
      if c = CategorySecurity \<or> c = CategorySecret \<or> c = CategoryInputValidation then True
      else contains ''vuln'' c \<or> contains ''auth'' c \<or> contains ''inject'' c)"

definition panelReviewers :: "source list \<Rightarrow> nat" where
  "panelReviewers sources =
     length (distinct_keys (filter (\<lambda>r. r \<noteq> []) (map Reviewer (concat (map Findings sources)))))"

definition consensusSingletonAt :: "merged \<Rightarrow> string \<Rightarrow> bool" where
  "consensusSingletonAt m bar =
     (if rank_or_zero confidenceRank (ToUpper (TrimSpace bar)) = 0 then False
      else if length (Reviewers m) \<ge> 2 then False
      else \<not> ConfidenceAtOrAbove (Confidence m) bar)"

definition consensusExempt :: "finding \<Rightarrow> bool" where
  "consensusExempt f =
     (let cat = ToLower (TrimSpace (Category f)) in
      if securityRelated cat \<or> cat = CategoryOutOfScope then True
      else if NormalizeSeverity (Severity f) = SevCritical \<or> NormalizeSeverity (Severity f) = SevHigh then True
      else case Verification f of None \<Rightarrow> False | Some v \<Rightarrow> Verdict v = VerdictConfirmed)"

type_synonym priors = "(string \<times> rat) list"

definition trustExempt :: "runtime \<Rightarrow> finding \<Rightarrow> priors \<Rightarrow> bool" where
  "trustExempt rt f priors =
     (if length priors = 0 \<or> length (Reviewers f) \<noteq> 1 then False
      else case map_of priors (ToLower (Reviewers f ! 0)) of
        None \<Rightarrow> False | Some rate \<Rightarrow> rate \<ge> fl rt trustHighThreshold)"

definition demoteByTrust :: "runtime \<Rightarrow> merged \<Rightarrow> priors \<Rightarrow> merged" where
  "demoteByTrust rt m priors =
     (if length priors = 0 \<or> Confidence m \<noteq> ConfMedium \<or> length (Reviewers m) \<noteq> 1 then m
      else case map_of priors (ToLower (Reviewers m ! 0)) of
        None \<Rightarrow> m | Some rate \<Rightarrow> if rate \<le> fl rt trustLowThreshold then m\<lparr>Confidence := ConfLow\<rparr> else m)"

definition consensusNoiseCluster :: "runtime \<Rightarrow> finding \<Rightarrow> ambiguousCluster" where
  "consensusNoiseCluster rt f = singletonAmbiguousCluster rt f"

subsection \<open>Levels fail safe\<close>

lemma NormalizeConsensus_levels:
  "NormalizeConsensus ''strict'' = (''strict'', True)" "NormalizeConsensus ''lenient'' = (''lenient'', True)"
  "NormalizeConsensus ''off'' = (''off'', True)"
  by code_simp+

lemma effectiveConsensus_cases:
  obtains "effectiveConsensus level = ''strict''" "consensusFloor level = (ConfHigh, True)" "ToLower (TrimSpace level) \<noteq> ''off''"
  | "effectiveConsensus level = ''lenient''" "consensusFloor level = (ConfMedium, True)" "ToLower (TrimSpace level) = ''lenient''"
  | "effectiveConsensus level = ''off''" "consensusFloor level = (ConfHigh, False)" "ToLower (TrimSpace level) = ''off''"
  by (cases "ToLower (TrimSpace level) = ''lenient''"; cases "ToLower (TrimSpace level) = ''off''";
      simp add: effectiveConsensus_def consensusFloor_def NormalizeConsensus_def Let_def split: if_splits)

lemma consensusFloor_levels:
  "consensusFloor ''strict'' = (ConfHigh, True)" "consensusFloor ''lenient'' = (ConfMedium, True)"
  "consensusFloor ''off'' = (ConfHigh, False)"
  by (simp_all add: consensusFloor_def NormalizeConsensus_levels)

text \<open>
  Levels fail safe: whatever token is configured, the level the filter runs at is one of the
  three canonical ones, resolving it again changes nothing, it has the floor of the configured token,
  and the filter is disabled only by the token \<^verbatim>\<open>off\<close> itself; a token outside the vocabulary gets the
  floor of strict.
\<close>

theorem consensus_fails_safe:
  "effectiveConsensus level \<in> set ConsensusLevels \<and>
   effectiveConsensus (effectiveConsensus level) = effectiveConsensus level \<and>
   consensusFloor (effectiveConsensus level) = consensusFloor level \<and>
   (snd (consensusFloor level) = False) = (ToLower (TrimSpace level) = ConsensusOff) \<and>
   (snd (NormalizeConsensus level) \<or> consensusFloor level = consensusFloor ConsensusStrict)"
proof -
  have "snd (NormalizeConsensus level) \<or> consensusFloor level = consensusFloor ConsensusStrict"
    by (auto simp: consensusFloor_def NormalizeConsensus_levels split: prod.splits)
  moreover have "effectiveConsensus s = s" if "s \<in> {''strict'', ''lenient'', ''off''}" for s
    using that by (auto simp: effectiveConsensus_def NormalizeConsensus_levels)
  ultimately show ?thesis
    by (cases rule: effectiveConsensus_cases [of level]) (simp_all add: ConsensusLevels_def consensusFloor_levels)
qed

end
