(* ===== verification/Cluster.thy ===== *)
theory Cluster
  imports Finding
begin

text \<open>
  Location clustering: \<^verbatim>\<open>reconcile/cluster.go\<close> and \<^verbatim>\<open>reconcile/grouper.go\<close>. The \<^verbatim>\<open>Grouper\<close> interface
  is a function from findings to keys, \<open>None\<close> when the caller supplies none; its implementation
  parses the reviewed source tree, so it stays an argument. Grouping by file reads a map whose
  values keep input order and visits its keys sorted.
\<close>

subsection \<open>Definitions\<close>

definition LineProximity :: int where
  "LineProximity = 3"

type_synonym grouper = "finding \<Rightarrow> string"

definition splitFileLevel :: "finding list \<Rightarrow> finding list \<times> finding list" where
  "splitFileLevel findings =
     (filter (\<lambda>f. Line f \<le> 0) findings, filter (\<lambda>f. \<not> Line f \<le> 0) findings)"

text \<open>The loop of \<^verbatim>\<open>proximityClusters\<close>: \<open>cur\<close> is the open cluster, \<open>prevLine\<close> the line before.\<close>

fun proximity_loop :: "finding list \<Rightarrow> int \<Rightarrow> finding list \<Rightarrow> finding list list" where
  "proximity_loop cur prevLine [] = (if cur \<noteq> [] then [cur] else [])"
| "proximity_loop cur prevLine (f # fs) =
     (if cur = [] then proximity_loop [f] (Line f) fs
      else if Line f - prevLine \<le> LineProximity then proximity_loop (cur @ [f]) (Line f) fs
      else cur # proximity_loop [f] (Line f) fs)"

definition proximityClusters :: "finding list \<Rightarrow> finding list list" where
  "proximityClusters lined = proximity_loop [] 0 lined"

definition files_of :: "finding list \<Rightarrow> string list" where
  "files_of findings = sort (distinct_keys (map File findings))"

definition byFile :: "finding list \<Rightarrow> string \<Rightarrow> finding list" where
  "byFile findings file = filter (\<lambda>f. File f = file) findings"

definition fileLevel_cluster :: "finding list \<Rightarrow> finding list list" where
  "fileLevel_cluster fileLevel = (if 0 < length fileLevel then [fileLevel] else [])"

text \<open>The body of the loop over the files, then the loop.\<close>

definition file_clusters :: "finding list \<Rightarrow> string \<Rightarrow> finding list list" where
  "file_clusters findings path =
     (let (fileLevel, lined) = splitFileLevel (byFile findings path)
      in fileLevel_cluster fileLevel @ proximityClusters (sort_key Line lined))"

definition Cluster :: "finding list \<Rightarrow> finding list list" where
  "Cluster findings = concat (map (file_clusters findings) (files_of findings))"

definition keyed_clusters :: "grouper \<Rightarrow> finding list \<Rightarrow> finding list list" where
  "keyed_clusters g lined =
     map (\<lambda>k. filter (\<lambda>f. g f = k) lined)
       (distinct_keys (filter (\<lambda>k. k \<noteq> []) (map g lined)))"

definition keyed_file_clusters :: "grouper \<Rightarrow> finding list \<Rightarrow> string \<Rightarrow> finding list list" where
  "keyed_file_clusters g findings path =
     (let (fileLevel, lined) = splitFileLevel (byFile findings path);
          lined = sort_key Line lined
      in fileLevel_cluster fileLevel @ keyed_clusters g lined @
         proximityClusters (filter (\<lambda>f. g f = []) lined))"

definition ClusterWith :: "finding list \<Rightarrow> grouper option \<Rightarrow> finding list list" where
  "ClusterWith findings grp =
     (case grp of
        None \<Rightarrow> Cluster findings
      | Some g \<Rightarrow> concat (map (keyed_file_clusters g findings) (files_of findings)))"

subsection \<open>One file's proximity clusters\<close>

lemma concat_proximity_loop: "concat (proximity_loop cur p fs) = cur @ fs"
  by (induction cur p fs rule: proximity_loop.induct) auto

lemma concat_proximityClusters [simp]: "concat (proximityClusters lined) = lined"
  by (simp add: proximityClusters_def concat_proximity_loop)

lemma proximity_loop_nonempty: "[] \<notin> set (proximity_loop cur p fs)"
  by (induction cur p fs rule: proximity_loop.induct) auto

lemma proximityClusters_nonempty: "[] \<notin> set (proximityClusters lined)"
  by (simp add: proximityClusters_def proximity_loop_nonempty)

definition near :: "finding \<Rightarrow> finding \<Rightarrow> bool" where
  "near f g \<longleftrightarrow> Line g - Line f \<le> LineProximity"

text \<open>Inside a cluster each finding is near the one before it.\<close>

lemma proximity_loop_chain:
  assumes "successively near cur" and "cur \<noteq> [] \<longrightarrow> p = Line (last cur)"
    and "cl \<in> set (proximity_loop cur p fs)"
  shows "successively near cl"
  using assms
proof (induction fs arbitrary: cur p)
  case Nil
  then show ?case by (simp split: if_splits)
next
  case (Cons f fs)
  have single: "cl \<in> set (proximity_loop [f] (Line f) fs) \<Longrightarrow> ?case"
    by (rule Cons.IH [of "[f]" "Line f"]) simp_all
  show ?case
  proof (cases "cur \<noteq> [] \<and> Line f - p \<le> LineProximity")
    case True
    then have "successively near (cur @ [f])"
      using Cons.prems(1,2) by (simp add: successively_append_iff near_def)
    with True Cons.prems(3) show ?thesis
      by (intro Cons.IH [of "cur @ [f]" "Line f"]) simp_all
  next
    case False
    with Cons.prems(1,3) show ?thesis
      by (auto intro: single split: if_splits)
  qed
qed

lemma proximityClusters_chain: "cl \<in> set (proximityClusters lined) \<Longrightarrow> successively near cl"
  unfolding proximityClusters_def by (rule proximity_loop_chain) auto

text \<open>On a line-sorted list every later cluster is farther away than \<open>LineProximity\<close>.\<close>

definition apart :: "finding list \<Rightarrow> finding list \<Rightarrow> bool" where
  "apart c d \<longleftrightarrow> (\<forall>f\<in>set c. \<forall>g\<in>set d. LineProximity < Line g - Line f)"

lemma proximity_loop_apart:
  assumes "sorted (map Line (cur @ fs))" and "cur \<noteq> [] \<longrightarrow> p = Line (last cur)"
  shows "sorted_wrt apart (proximity_loop cur p fs)"
  using assms
proof (induction fs arbitrary: cur p)
  case Nil
  then show ?case by simp
next
  case (Cons f fs)
  have single: "sorted_wrt apart (proximity_loop [f] (Line f) fs)"
    by (rule Cons.IH) (use Cons.prems(1) in \<open>simp_all add: sorted_append\<close>)
  show ?case
  proof (cases "cur \<noteq> [] \<and> \<not> Line f - p \<le> LineProximity")
    case True
    have "\<forall>x\<in>set cur. Line x \<le> p"
      using Cons.prems True sorted_map_last [of Line cur] by (auto simp: sorted_append)
    moreover have "\<forall>y\<in>set (f # fs). Line f \<le> Line y"
      using Cons.prems(1) by (auto simp: sorted_append)
    ultimately have "\<forall>x\<in>set cur. \<forall>y\<in>set (f # fs). LineProximity < Line y - Line x"
      using True by fastforce
    moreover have "\<Union> (set ` set (proximity_loop [f] (Line f) fs)) = set (f # fs)"
      by (simp flip: set_concat add: concat_proximity_loop)
    ultimately have "\<forall>c\<in>set (proximity_loop [f] (Line f) fs). apart cur c"
      unfolding apart_def by (metis UN_iff)
    then show ?thesis using True single by simp
  next
    case False
    show ?thesis
    proof (cases "cur = []")
      case True
      with single show ?thesis by simp
    next
      case cur: False
      have "sorted_wrt apart (proximity_loop (cur @ [f]) (Line f) fs)"
        by (rule Cons.IH) (use Cons.prems(1) in simp_all)
      with False cur show ?thesis by simp
    qed
  qed
qed

lemma proximityClusters_apart:
  "sorted (map Line lined) \<Longrightarrow> sorted_wrt apart (proximityClusters lined)"
  unfolding proximityClusters_def by (rule proximity_loop_apart) auto

subsection \<open>All files\<close>

lemma distinct_files_of [simp]: "distinct (files_of findings)"
  by (simp add: files_of_def)

lemma set_files_of [simp]: "set (files_of findings) = File ` set findings"
  by (simp add: files_of_def)

lemma concat_fileLevel_cluster [simp]: "concat (fileLevel_cluster fs) = fs"
  by (simp add: fileLevel_cluster_def)

lemma fileLevel_cluster_nonempty: "[] \<notin> set (fileLevel_cluster fs)"
  by (simp add: fileLevel_cluster_def)

lemma mset_keyed_clusters:
  "mset (concat (keyed_clusters g lined)) + mset (filter (\<lambda>f. g f = []) lined) = mset lined"
proof -
  let ?ks = "distinct_keys (filter (\<lambda>k. k \<noteq> []) (map g lined))"
  let ?keyed = "filter (\<lambda>f. g f \<noteq> []) lined"
  have "map (\<lambda>k. filter (\<lambda>f. g f = k) lined) ?ks = map (\<lambda>k. filter (\<lambda>f. g f = k) ?keyed) ?ks"
    by (auto intro!: filter_cong)
  then have "keyed_clusters g lined = map (\<lambda>k. filter (\<lambda>f. g f = k) ?keyed) ?ks"
    by (simp only: keyed_clusters_def)
  moreover have "mset (concat (map (\<lambda>k. filter (\<lambda>f. g f = k) ?keyed) ?ks)) = mset ?keyed"
    by (rule mset_concat_filter_keys) auto
  ultimately have "mset (concat (keyed_clusters g lined)) = mset ?keyed"
    by simp
  then show ?thesis
    using multiset_partition [of "mset lined" "\<lambda>f. g f = []"] by (simp add: add.commute)
qed

lemma keyed_clusters_nonempty: "[] \<notin> set (keyed_clusters g lined)"
  by (auto simp: keyed_clusters_def filter_empty_conv eq_commute [of "[]"])

lemma mset_splitFileLevel:
  "splitFileLevel fs = (a, b) \<Longrightarrow> mset a + mset b = mset fs"
  unfolding splitFileLevel_def using multiset_partition [of "mset fs" "\<lambda>f. Line f \<le> 0"] by auto

lemma file_clustersE:
  obtains a b where "splitFileLevel (byFile fs path) = (a, b)"
    and "file_clusters fs path = fileLevel_cluster a @ proximityClusters (sort_key Line b)"
    and "\<And>g. keyed_file_clusters g fs path = fileLevel_cluster a @
      keyed_clusters g (sort_key Line b) @ proximityClusters (filter (\<lambda>f. g f = []) (sort_key Line b))"
  by (cases "splitFileLevel (byFile fs path)")
    (simp add: file_clusters_def keyed_file_clusters_def Let_def)

lemma mset_file_clusters:
  shows "mset (concat (file_clusters fs path)) = mset (byFile fs path)"
    and "mset (concat (keyed_file_clusters g fs path)) = mset (byFile fs path)"
proof -
  obtain a b where ab: "splitFileLevel (byFile fs path) = (a, b)"
    and eq: "file_clusters fs path = fileLevel_cluster a @ proximityClusters (sort_key Line b)"
    and eqk: "\<And>g. keyed_file_clusters g fs path = fileLevel_cluster a @
      keyed_clusters g (sort_key Line b) @ proximityClusters (filter (\<lambda>f. g f = []) (sort_key Line b))"
    by (rule file_clustersE [of fs path]) blast
  have sum: "mset a + mset b = mset (byFile fs path)"
    by (rule mset_splitFileLevel [OF ab])
  show "mset (concat (file_clusters fs path)) = mset (byFile fs path)"
    using sum by (simp add: eq)
  have "mset (concat (keyed_clusters g (sort_key Line b))) +
      mset (filter (\<lambda>f. g f = []) (sort_key Line b)) = mset b"
    by (simp only: mset_keyed_clusters mset_sort)
  with sum show "mset (concat (keyed_file_clusters g fs path)) = mset (byFile fs path)"
    by (simp only: eqk concat_append mset_append concat_fileLevel_cluster concat_proximityClusters)
qed

lemma mset_concat_by_file:
  assumes "\<And>file. mset (concat (F file)) = mset (byFile findings file)"
  shows "mset (concat (concat (map F (files_of findings)))) = mset findings"
proof -
  have "mset (concat (concat (map F fs))) =
      mset (concat (map (\<lambda>k. filter (\<lambda>f. File f = k) findings) fs))" for fs
    using assms by (induction fs) (auto simp: byFile_def)
  also have "mset (concat (map (\<lambda>k. filter (\<lambda>f. File f = k) findings) (files_of findings))) =
      mset findings"
    by (rule mset_concat_filter_keys) simp_all
  finally show ?thesis .
qed

lemma mset_ClusterWith [partition_facts]: "mset (concat (ClusterWith findings grp)) = mset findings"
  by (cases grp) (simp_all add: ClusterWith_def Cluster_def mset_concat_by_file mset_file_clusters)

lemma file_clusters_nonempty:
  "[] \<notin> set (file_clusters fs path)" "[] \<notin> set (keyed_file_clusters g fs path)"
  by (rule_tac file_clustersE [of fs path], simp add: fileLevel_cluster_nonempty
      proximityClusters_nonempty keyed_clusters_nonempty)+

lemma ClusterWith_nonempty: "[] \<notin> set (ClusterWith findings grp)"
  by (cases grp) (auto simp: ClusterWith_def Cluster_def file_clusters_nonempty)

subsection \<open>What the clusters promise\<close>

text \<open>
  The contract of single-linkage clustering. Within a cluster the findings are on one file, and
  are either all file-level or all line-specific in ascending line order, each within
  \<open>LineProximity\<close> of the one before. Between an earlier and a later cluster of one file either the
  earlier is the file-level one, or every line of the later is farther than \<open>LineProximity\<close>.
\<close>

definition linked :: "finding list \<Rightarrow> bool" where
  "linked cl \<longleftrightarrow>
     list_all (\<lambda>f. File f = File (hd cl)) cl \<and>
     (list_all (\<lambda>f. Line f \<le> 0) cl \<or>
      list_all (\<lambda>f. 0 < Line f) cl \<and> sorted (map Line cl) \<and> successively near cl)"

definition separated :: "finding list \<Rightarrow> finding list \<Rightarrow> bool" where
  "separated c d \<longleftrightarrow>
     list_all (\<lambda>f. list_all (\<lambda>g. File f \<noteq> File g \<or> Line f \<le> 0 \<and> 0 < Line g \<or>
       0 < Line f \<and> LineProximity < Line g - Line f) d) c"

lemma sorted_proximityClusters:
  assumes "sorted (map Line lined)" and "cl \<in> set (proximityClusters lined)"
  shows "sorted (map Line cl)"
proof -
  have "sorted (map Line (concat (proximityClusters lined)))" using assms(1) by simp
  moreover obtain a b where "proximityClusters lined = a @ cl # b"
    using assms(2) by (meson split_list)
  ultimately show ?thesis by (simp add: sorted_append)
qed

lemma set_proximityClusters:
  "cl \<in> set (proximityClusters lined) \<Longrightarrow> f \<in> set cl \<Longrightarrow> f \<in> set lined"
  by (metis concat_proximityClusters UN_I set_concat)

lemma file_clusters_members:
  assumes "cl \<in> set (file_clusters fs path)" and "f \<in> set cl"
  shows "File f = path"
proof (rule file_clustersE [of fs path])
  fix a b
  assume "splitFileLevel (byFile fs path) = (a, b)"
    and "file_clusters fs path = fileLevel_cluster a @ proximityClusters (sort_key Line b)"
  then show ?thesis
    using assms set_proximityClusters [of cl "sort_key Line b" f]
    by (auto simp: splitFileLevel_def byFile_def fileLevel_cluster_def split: if_splits)
qed

lemma file_clusters_linked:
  assumes "cl \<in> set (file_clusters fs path)"
  shows "linked cl"
proof (rule file_clustersE [of fs path])
  fix a b
  assume ab: "splitFileLevel (byFile fs path) = (a, b)"
    and eq: "file_clusters fs path = fileLevel_cluster a @ proximityClusters (sort_key Line b)"
  have "cl \<noteq> []"
    using assms file_clusters_nonempty(1) [of fs path] by auto
  then have one: "list_all (\<lambda>f. File f = File (hd cl)) cl"
    using file_clusters_members [OF assms] by (auto simp: list_all_iff)
  from assms eq consider "cl \<in> set (fileLevel_cluster a)"
    | "cl \<in> set (proximityClusters (sort_key Line b))" by auto
  then show ?thesis
  proof cases
    case 1
    with ab have "list_all (\<lambda>f. Line f \<le> 0) cl"
      by (auto simp: fileLevel_cluster_def splitFileLevel_def list_all_iff split: if_splits)
    with one show ?thesis by (simp add: linked_def)
  next
    case 2
    then have "list_all (\<lambda>f. 0 < Line f) cl"
      using ab set_proximityClusters [OF 2] by (force simp: splitFileLevel_def list_all_iff)
    with one 2 show ?thesis
      using sorted_proximityClusters [OF sorted_sort_key 2]
      by (simp add: linked_def proximityClusters_chain)
  qed
qed

lemma file_clusters_separated: "sorted_wrt separated (file_clusters fs path)"
proof (rule file_clustersE [of fs path])
  fix a b
  assume ab: "splitFileLevel (byFile fs path) = (a, b)"
    and eq: "file_clusters fs path = fileLevel_cluster a @ proximityClusters (sort_key Line b)"
  have pos: "0 < Line f" if "cl \<in> set (proximityClusters (sort_key Line b))" "f \<in> set cl" for cl f
    using ab set_proximityClusters [OF that] by (auto simp: splitFileLevel_def)
  have "sorted_wrt apart (proximityClusters (sort_key Line b))"
    by (rule proximityClusters_apart) simp
  then have "sorted_wrt separated (proximityClusters (sort_key Line b))"
    by (rule sorted_wrt_mono_rel [rotated]) (auto simp: apart_def separated_def list_all_iff pos)
  moreover have "sorted_wrt separated (fileLevel_cluster a)"
    by (simp add: fileLevel_cluster_def)
  moreover have "separated c d"
    if "c \<in> set (fileLevel_cluster a)" "d \<in> set (proximityClusters (sort_key Line b))" for c d
    using that ab pos [OF that(2)]
    by (auto simp: separated_def list_all_iff fileLevel_cluster_def splitFileLevel_def
        split: if_splits)
  ultimately show ?thesis by (simp add: sorted_wrt_append eq)
qed

text \<open>
  Single linkage as a relation: two findings of the input are adjacent when they are of one file and both
  file-level, or both line-specific and at most \<open>LineProximity\<close> lines apart.
\<close>

definition adjacent :: "finding list \<Rightarrow> finding \<Rightarrow> finding \<Rightarrow> bool" where
  "adjacent findings f g \<longleftrightarrow> f \<in> set findings \<and> g \<in> set findings \<and> File f = File g \<and>
     (Line f \<le> 0 \<and> Line g \<le> 0 \<or> 0 < Line f \<and> 0 < Line g \<and> \<bar>Line g - Line f\<bar> \<le> LineProximity)"

lemma symp_adjacent: "symp (adjacent findings)"
  by (auto simp: symp_def adjacent_def)

lemma successively_reach: "successively R xs \<Longrightarrow> x \<in> set xs \<Longrightarrow> R\<^sup>*\<^sup>* (hd xs) x"
proof (induction xs)
  case (Cons y ys)
  show ?case
  proof (cases "x = y \<or> ys = []")
    case False
    then have "R y (hd ys)" "R\<^sup>*\<^sup>* (hd ys) x" using Cons by (auto simp: successively_Cons)
    then show ?thesis by (simp add: converse_rtranclp_into_rtranclp)
  qed (use Cons.prems in auto)
qed simp

lemma linked_reach:
  assumes "linked cl" "set cl \<subseteq> set findings" "f \<in> set cl" "g \<in> set cl"
  shows "(adjacent findings)\<^sup>*\<^sup>* f g"
proof (cases "list_all (\<lambda>f. Line f \<le> 0) cl")
  case True
  then have "adjacent findings f g" using assms by (auto simp: linked_def adjacent_def list_all_iff)
  then show ?thesis by blast
next
  case False
  then have pos: "list_all (\<lambda>f. 0 < Line f) cl" and asc: "sorted (map Line cl)" and near: "successively near cl"
    and path: "list_all (\<lambda>f. File f = File (hd cl)) cl"
    using assms(1) by (auto simp: linked_def)
  have "adjacent findings (cl ! k) (cl ! Suc k)" if k: "Suc k < length cl" for k
  proof -
    have mem: "cl ! k \<in> set cl" "cl ! Suc k \<in> set cl" using k by (simp_all del: nth_mem add: nth_mem)
    have "Line (cl ! k) \<le> Line (cl ! Suc k)" using sorted_nth_mono [OF asc, of k "Suc k"] k by simp
    moreover have "Line (cl ! Suc k) - Line (cl ! k) \<le> LineProximity"
      using near k by (simp add: successively_conv_nth near_def)
    ultimately have "\<bar>Line (cl ! Suc k) - Line (cl ! k)\<bar> \<le> LineProximity" by simp
    moreover have "0 < Line (cl ! k)" "0 < Line (cl ! Suc k)" "File (cl ! k) = File (cl ! Suc k)"
      using pos path mem unfolding list_all_iff by simp_all
    ultimately show ?thesis using mem assms(2) unfolding adjacent_def by blast
  qed
  then have chain: "successively (adjacent findings) cl" by (simp add: successively_conv_nth)
  have "(adjacent findings)\<^sup>*\<^sup>* f (hd cl)"
    by (rule sympD [OF symp_rtranclp [OF symp_adjacent] successively_reach [OF chain assms(3)]])
  also have "(adjacent findings)\<^sup>*\<^sup>* (hd cl) g" by (rule successively_reach [OF chain assms(4)])
  finally show ?thesis .
qed

lemma separated_stay:
  assumes "sorted_wrt separated C" "cl \<in> set C" "d \<in> set C" "x \<in> set cl" "y \<in> set d" "adjacent findings x y"
  shows "y \<in> set cl"
proof -
  obtain a b where ab: "a < length C" "C ! a = cl" "b < length C" "C ! b = d" using assms(2,3) by (metis in_set_conv_nth)
  have "\<not> separated cl d" "\<not> separated d cl" using assms(4-6) by (force simp: separated_def list_all_iff adjacent_def)+
  then have "a = b" using assms(1) ab unfolding sorted_wrt_iff_nth_less by (metis linorder_neqE_nat)
  then show ?thesis using ab assms(5) by simp
qed

text \<open>
  C18. Location clustering (\<^verbatim>\<open>Cluster\<close>, and \<^verbatim>\<open>ClusterWith\<close> without a grouper) is exactly single
  linkage: the clusters are a partition of the findings into non-empty groups, and two findings share a cluster
  precisely when a chain of findings leads from one to the other, each of the same file as the one before and at most three
  lines from it, or both file-level. Every cluster is one file's file-level findings or is in ascending line order, and of
  two clusters of one file the later holds no line within three of the earlier.
\<close>

theorem Cluster_single_linkage:
  "mset (concat (Cluster findings)) = mset findings \<and> [] \<notin> set (Cluster findings) \<and>
   list_all linked (Cluster findings) \<and> sorted_wrt separated (Cluster findings) \<and>
   (\<forall>f \<in> set findings. \<forall>g \<in> set findings.
      (\<exists>cl \<in> set (Cluster findings). f \<in> set cl \<and> g \<in> set cl) \<longleftrightarrow> (adjacent findings)\<^sup>*\<^sup>* f g)"
proof -
  let ?C = "Cluster findings"
  have C: "ClusterWith findings None = ?C" by (simp add: ClusterWith_def)
  have part: "mset (concat ?C) = mset findings" "[] \<notin> set ?C"
    using mset_ClusterWith [of findings None] ClusterWith_nonempty [of findings None] unfolding C by simp_all
  have linked: "list_all linked ?C" by (auto simp: Cluster_def list_all_iff file_clusters_linked)
  have sep: "sorted_wrt separated ?C"
    unfolding Cluster_def
    by (rule sorted_wrt_concat_map)
      (auto simp: file_clusters_separated separated_def list_all_iff dest!: file_clusters_members)
  have mem: "set (concat ?C) = set findings" using part(1) by (metis set_mset_mset)
  have "(\<exists>cl \<in> set ?C. f \<in> set cl \<and> g \<in> set cl) \<longleftrightarrow> (adjacent findings)\<^sup>*\<^sup>* f g" if f: "f \<in> set findings" for f g
  proof
    assume "\<exists>cl \<in> set ?C. f \<in> set cl \<and> g \<in> set cl"
    then obtain cl where cl: "cl \<in> set ?C" "f \<in> set cl" "g \<in> set cl" by blast
    then show "(adjacent findings)\<^sup>*\<^sup>* f g"
      using linked mem by (intro linked_reach [of cl]) (auto simp: list_all_iff)
  next
    obtain cl where cl: "cl \<in> set ?C" "f \<in> set cl" using f mem by auto
    assume "(adjacent findings)\<^sup>*\<^sup>* f g"
    then have "g \<in> set cl"
    proof (induction rule: rtranclp_induct)
      case (step y z)
      then obtain d where "d \<in> set ?C" "z \<in> set d" using mem unfolding adjacent_def by auto
      then show ?case using separated_stay [OF sep cl(1) _ step.IH _ step.hyps(2)] by blast
    qed (rule cl(2))
    then show "\<exists>cl \<in> set ?C. f \<in> set cl \<and> g \<in> set cl" using cl by blast
  qed
  then show ?thesis using part linked sep by simp
qed

text \<open>Two findings three lines apart share a cluster; the file-level finding beside them does not.\<close>

theorem Cluster_single_linkage_witness:
  "(\<exists>cl \<in> set (Cluster [zero_finding\<lparr>Line := 4\<rparr>, zero_finding, zero_finding\<lparr>Line := 7\<rparr>]).
      zero_finding\<lparr>Line := 4\<rparr> \<in> set cl \<and> zero_finding\<lparr>Line := 7\<rparr> \<in> set cl) \<and>
   mset (concat (Cluster [zero_finding\<lparr>Line := 4\<rparr>, zero_finding, zero_finding\<lparr>Line := 7\<rparr>])) =
     {#zero_finding\<lparr>Line := 4\<rparr>, zero_finding, zero_finding\<lparr>Line := 7\<rparr>#}"
proof -
  let ?fs = "[zero_finding\<lparr>Line := 4\<rparr>, zero_finding, zero_finding\<lparr>Line := 7\<rparr>]"
  have "adjacent ?fs (zero_finding\<lparr>Line := 4\<rparr>) (zero_finding\<lparr>Line := 7\<rparr>)" by (simp add: adjacent_def LineProximity_def)
  then have "(adjacent ?fs)\<^sup>*\<^sup>* (zero_finding\<lparr>Line := 4\<rparr>) (zero_finding\<lparr>Line := 7\<rparr>)" by blast
  then show ?thesis using Cluster_single_linkage [of ?fs] by simp
qed

text \<open>
  Clustering loses and invents nothing: with any grouper, the clusters together hold exactly
  the input findings, with their multiplicities, and no cluster is empty.
\<close>

theorem ClusterWith_partition:
  "mset (concat (ClusterWith findings grp)) = mset findings \<and> [] \<notin> set (ClusterWith findings grp)"
  by (simp add: mset_ClusterWith ClusterWith_nonempty)

text \<open>
  With a grouper, two line-specific findings of one file that share a non-empty structural key
  are in one cluster whatever their line distance, and that cluster holds no finding with another
  key or of another file.
\<close>

theorem ClusterWith_same_key:
  assumes "f \<in> set findings" and "h \<in> set findings" and "File f = File h"
    and "0 < Line f" and "0 < Line h" and "g f = g h" and "g f \<noteq> []"
  shows "\<exists>cl \<in> set (ClusterWith findings (Some g)).
    f \<in> set cl \<and> h \<in> set cl \<and> (\<forall>x \<in> set cl. g x = g f \<and> File x = File f)"
proof (rule file_clustersE [of findings "File f"])
  fix a b
  assume ab: "splitFileLevel (byFile findings (File f)) = (a, b)"
    and eq: "\<And>g. keyed_file_clusters g findings (File f) = fileLevel_cluster a @
      keyed_clusters g (sort_key Line b) @ proximityClusters (filter (\<lambda>f. g f = []) (sort_key Line b))"
  let ?cl = "filter (\<lambda>x. g x = g f) (sort_key Line b)"
  have mem: "f \<in> set b" "h \<in> set b" and path: "\<forall>x\<in>set b. File x = File f"
    using ab assms by (auto simp: splitFileLevel_def byFile_def)
  have "?cl \<in> set (keyed_clusters g (sort_key Line b))"
    using mem assms(7) by (auto simp: keyed_clusters_def)
  then have "?cl \<in> set (keyed_file_clusters g findings (File f))"
    by (simp add: eq)
  then have "?cl \<in> set (ClusterWith findings (Some g))"
    using assms(1) by (auto simp: ClusterWith_def)
  moreover have "f \<in> set ?cl" "h \<in> set ?cl"
    using mem assms(6) by simp_all
  moreover have "\<forall>x\<in>set ?cl. g x = g f \<and> File x = File f"
    using path by (simp only: set_filter set_sort) blast
  ultimately show ?thesis by blast
qed

theorem ClusterWith_same_key_witness:
  "\<exists>cl \<in> set (ClusterWith [zero_finding\<lparr>Line := 2\<rparr>, zero_finding\<lparr>Line := 90\<rparr>] (Some (\<lambda>_. ''k''))).
     zero_finding\<lparr>Line := 2\<rparr> \<in> set cl \<and> zero_finding\<lparr>Line := 90\<rparr> \<in> set cl \<and>
     (\<forall>x \<in> set cl. ''k'' = ''k'' \<and> File x = File (zero_finding\<lparr>Line := 2\<rparr>))"
  by (rule ClusterWith_same_key [where g = "\<lambda>_. ''k''"]) simp_all

end
