(* ===== verification/Hungarian.thy ===== *)
theory Hungarian
  imports Similarity
begin

text \<open>
  The assignment solver of \<^verbatim>\<open>reconcile/bipartite.go\<close>: \<^verbatim>\<open>hungarian\<close> (Kuhn-Munkres with potentials in the
  shortest-augmenting-path form) and \<^verbatim>\<open>hungarianAssign\<close>, its rectangular front end.

  The slices \<^verbatim>\<open>u\<close>, \<^verbatim>\<open>v\<close>, \<^verbatim>\<open>p\<close>, \<^verbatim>\<open>way\<close>, \<^verbatim>\<open>minv\<close>, \<^verbatim>\<open>used\<close> are lists of length \<open>n + 1\<close>, the loops over columns
  folds, the path search a recursion that the iteration bound of the code ends, and the final walk
  along \<^verbatim>\<open>way\<close> a \<open>partial_function\<close>. \<open>None\<close> is a panic (the size limit, the iteration bound, an index
  out of range) or a walk that does not end. The proof shows that in exact arithmetic none of these
  happens and that the assignment is a permutation of minimum cost.
\<close>

subsection \<open>Definitions\<close>

definition noMatchSentinel :: rat where
  "noMatchSentinel = distanceCeiling + 1"

definition maxHungarianN :: nat where
  "maxHungarianN = 500"

definition visit_col ::
  "runtime \<Rightarrow> rat list list \<Rightarrow> rat list \<Rightarrow> rat list \<Rightarrow> bool list \<Rightarrow> nat \<Rightarrow> nat \<Rightarrow> nat \<Rightarrow>
   rat list \<times> nat list \<times> rat \<times> nat option \<Rightarrow> rat list \<times> nat list \<times> rat \<times> nat option" where
  "visit_col rt cost u v used i0 j0 j st =
     (case st of (minv, way, delta, j1) \<Rightarrow>
        if used ! j then (minv, way, delta, j1)
        else let cur = fl rt (fl rt (cost ! (i0 - 1) ! (j - 1) - u ! i0) - v ! j);
                 (minv, way) = (if cur < minv ! j then (minv[j := cur], way[j := j0]) else (minv, way))
             in if minv ! j < delta then (minv, way, minv ! j, Some j) else (minv, way, delta, j1))"

definition scan_cols ::
  "runtime \<Rightarrow> rat list list \<Rightarrow> rat list \<Rightarrow> rat list \<Rightarrow> bool list \<Rightarrow> nat \<Rightarrow> nat \<Rightarrow> rat list \<Rightarrow> nat list \<Rightarrow>
   rat list \<times> nat list \<times> rat \<times> nat option" where
  "scan_cols rt cost u v used i0 j0 minv way =
     fold (visit_col rt cost u v used i0 j0) [1..<length cost + 1] (minv, way, MaxFloat64, None)"

definition shift_col ::
  "runtime \<Rightarrow> nat list \<Rightarrow> bool list \<Rightarrow> rat \<Rightarrow> nat \<Rightarrow> rat list \<times> rat list \<times> rat list \<Rightarrow>
   rat list \<times> rat list \<times> rat list" where
  "shift_col rt p used delta j st =
     (case st of (u, v, minv) \<Rightarrow>
        if used ! j then (u[p ! j := fl rt (u ! (p ! j) + delta)], v[j := fl rt (v ! j - delta)], minv)
        else (u, v, minv[j := fl rt (minv ! j - delta)]))"

definition shift_cols ::
  "runtime \<Rightarrow> nat \<Rightarrow> nat list \<Rightarrow> bool list \<Rightarrow> rat \<Rightarrow> rat list \<Rightarrow> rat list \<Rightarrow> rat list \<Rightarrow>
   rat list \<times> rat list \<times> rat list" where
  "shift_cols rt n p used delta u v minv = fold (shift_col rt p used delta) [0..<n + 1] (u, v, minv)"

text \<open>
  The search for an augmenting path: \<^verbatim>\<open>for iter := 0; ; iter++\<close>. It returns the free column it reached,
  the potentials and \<^verbatim>\<open>way\<close>.
\<close>

function hung_path ::
  "runtime \<Rightarrow> rat list list \<Rightarrow> nat list \<Rightarrow> nat \<Rightarrow> nat \<Rightarrow> rat list \<Rightarrow> rat list \<Rightarrow> rat list \<Rightarrow> nat list \<Rightarrow> bool list \<Rightarrow>
   (nat \<times> rat list \<times> rat list \<times> nat list) option" where
  "hung_path rt cost p iter j0 u v minv way used =
     (if length cost < iter then None
      else let used = used[j0 := True];
               (minv, way, delta, j1) = scan_cols rt cost u v used (p ! j0) j0 minv way;
               (u, v, minv) = shift_cols rt (length cost) p used delta u v minv
           in case j1 of
                None \<Rightarrow> None
              | Some j0 \<Rightarrow>
                  if p ! j0 = 0 then Some (j0, u, v, way)
                  else hung_path rt cost p (iter + 1) j0 u v minv way used)"
  by pat_completeness auto
termination
  by (relation "measure (\<lambda>(rt, cost, p, iter, _). length cost + 1 - iter)") auto

declare hung_path.simps [simp del]

text \<open>\<^verbatim>\<open>for j0 != 0\<close>: shift the matching along the path.\<close>

partial_function (option) augment :: "nat list \<Rightarrow> nat list \<Rightarrow> nat \<Rightarrow> nat list option" where
  "augment way p j0 =
     (if j0 = 0 then Some p else augment way (p[j0 := p ! (way ! j0)]) (way ! j0))"

declare augment.simps [code]

type_synonym hung_state = "rat list \<times> rat list \<times> nat list \<times> nat list"

definition hung_row :: "runtime \<Rightarrow> rat list list \<Rightarrow> nat \<Rightarrow> hung_state \<Rightarrow> hung_state option" where
  "hung_row rt cost i st =
     (case st of (u, v, p, way) \<Rightarrow>
        let n = length cost; p = p[0 := i] in
        case hung_path rt cost p 0 0 u v (replicate (n + 1) MaxFloat64) way (replicate (n + 1) False) of
          None \<Rightarrow> None
        | Some (j0, u, v, way) \<Rightarrow>
            (case augment way p j0 of None \<Rightarrow> None | Some p \<Rightarrow> Some (u, v, p, way)))"

fun hung_rows :: "runtime \<Rightarrow> rat list list \<Rightarrow> nat list \<Rightarrow> hung_state \<Rightarrow> hung_state option" where
  "hung_rows rt cost [] st = Some st"
| "hung_rows rt cost (i # is) st =
     (case hung_row rt cost i st of None \<Rightarrow> None | Some st \<Rightarrow> hung_rows rt cost is st)"

definition read_assign :: "nat \<Rightarrow> nat list \<Rightarrow> nat list" where
  "read_assign n p =
     fold (\<lambda>j assign. if p ! j \<ge> 1 then assign[p ! j - 1 := j - 1] else assign) [1..<n + 1] (replicate n 0)"

text \<open>
  Row \<open>i\<close> of the matrix is read at every column in the first iteration for \<open>i\<close>, so a row that is
  too short panics; the test is made once, before the loop.
\<close>

definition hungarian :: "runtime \<Rightarrow> rat list list \<Rightarrow> nat list option" where
  "hungarian rt cost =
     (let n = length cost in
      if n = 0 then Some []
      else if n > maxHungarianN then None
      else if \<not> list_all (\<lambda>row. n \<le> length row) cost then None
      else case hung_rows rt cost [1..<n + 1]
                  (replicate (n + 1) 0, replicate (n + 1) 0, replicate (n + 1) 0, replicate (n + 1) 0) of
             None \<Rightarrow> None
           | Some (u, v, p, way) \<Rightarrow> Some (read_assign n p))"

text \<open>The two argmin loops: the first index of a minimum.\<close>

fun argmin_loop :: "(nat \<Rightarrow> rat) \<Rightarrow> nat list \<Rightarrow> rat \<Rightarrow> nat \<Rightarrow> nat" where
  "argmin_loop f [] best bestI = bestI"
| "argmin_loop f (i # is) best bestI =
     (if f i < best then argmin_loop f is (f i) i else argmin_loop f is best bestI)"

text \<open>\<open>None\<close> as an entry of the result is the code's \<open>-1\<close>.\<close>

definition hungarianAssign :: "runtime \<Rightarrow> nat \<Rightarrow> nat \<Rightarrow> (nat \<Rightarrow> nat \<Rightarrow> rat) \<Rightarrow> nat option list option" where
  "hungarianAssign rt rows cols cost =
     (let assign = replicate rows None in
      if rows = 0 \<or> cols = 0 then Some assign
      else if rows = 1 then Some (assign[0 := Some (argmin_loop (cost 0) [1..<cols] (cost 0 0) 0)])
      else if cols = 1 then
        Some (assign[argmin_loop (\<lambda>r. cost r 0) [1..<rows] (cost 0 0) 0 := Some 0])
      else let n = (if cols > rows then cols else rows);
               square = map (\<lambda>r. map (\<lambda>c. if r < rows \<and> c < cols then cost r c else noMatchSentinel) [0..<n]) [0..<n]
           in case hungarian rt square of
                None \<Rightarrow> None
              | Some full \<Rightarrow> Some (map (\<lambda>r. if full ! r < cols then Some (full ! r) else None) [0..<rows]))"

subsection \<open>What the column loops compute\<close>

text \<open>The reduced cost of a row and a column, both counted from 1.\<close>

definition red :: "rat list list \<Rightarrow> rat list \<Rightarrow> rat list \<Rightarrow> nat \<Rightarrow> nat \<Rightarrow> rat" where
  "red cost u v i j = cost ! (i - 1) ! (j - 1) - u ! i - v ! j"

text \<open>The reduced cost as the code computes it, with two roundings.\<close>

definition cur_of :: "runtime \<Rightarrow> rat list list \<Rightarrow> rat list \<Rightarrow> rat list \<Rightarrow> nat \<Rightarrow> nat \<Rightarrow> rat" where
  "cur_of rt cost u v i j = fl rt (fl rt (cost ! (i - 1) ! (j - 1) - u ! i) - v ! j)"

lemma cur_of_exact: "fl rt = id \<Longrightarrow> cur_of rt cost u v = red cost u v"
  by (simp add: fun_eq_iff cur_of_def red_def)

definition scanned ::
  "nat \<Rightarrow> (nat \<Rightarrow> rat) \<Rightarrow> bool list \<Rightarrow> nat \<Rightarrow> rat list \<Rightarrow> nat list \<Rightarrow> rat list \<Rightarrow> nat list \<Rightarrow> bool" where
  "scanned m cur used j0 minv way minv' way' \<longleftrightarrow>
     length minv' = length minv \<and> length way' = length way \<and>
     (\<forall>j < length minv. minv' ! j = (if 1 \<le> j \<and> j < m \<and> \<not> used ! j then min (minv ! j) (cur j) else minv ! j)) \<and>
     (\<forall>j < length way. way' ! j = (if 1 \<le> j \<and> j < m \<and> \<not> used ! j \<and> cur j < minv ! j then j0 else way ! j))"

definition best_so_far :: "nat \<Rightarrow> bool list \<Rightarrow> rat list \<Rightarrow> rat \<Rightarrow> nat option \<Rightarrow> bool" where
  "best_so_far m used minv delta j1 \<longleftrightarrow>
     (\<forall>j. 1 \<le> j \<and> j < m \<and> \<not> used ! j \<longrightarrow> delta \<le> minv ! j) \<and>
     (case j1 of None \<Rightarrow> delta = MaxFloat64
      | Some k \<Rightarrow> 1 \<le> k \<and> k < m \<and> \<not> used ! k \<and> delta = minv ! k)"

lemma scan_upto:
  assumes m: "1 \<le> m" "m \<le> n + 1" and len: "length minv = n + 1" "length way = n + 1"
  shows "case fold (visit_col rt cost u v used i0 j0) [1..<m] (minv, way, MaxFloat64, None) of
    (minv', way', delta, j1) \<Rightarrow>
      scanned m (cur_of rt cost u v i0) used j0 minv way minv' way' \<and> best_so_far m used minv' delta j1"
  using m
proof (induction m rule: dec_induct)
  case base
  then show ?case by (simp add: scanned_def best_so_far_def)
next
  case (step m)
  obtain minv1 way1 delta1 j1 where st: "fold (visit_col rt cost u v used i0 j0) [1..<m] (minv, way, MaxFloat64, None) =
      (minv1, way1, delta1, j1)" by (metis prod_cases4)
  have sc: "scanned m (cur_of rt cost u v i0) used j0 minv way minv1 way1"
    and bs: "best_so_far m used minv1 delta1 j1"
    using step st by auto
  have mn: "m < n + 1" using step by simp
  have l1: "length minv1 = n + 1" "length way1 = n + 1" using sc len by (auto simp: scanned_def)
  have at: "minv1 ! m = minv ! m" "way1 ! m = way ! m" using sc mn len by (auto simp: scanned_def)
  have eq: "fold (visit_col rt cost u v used i0 j0) [1..<Suc m] (minv, way, MaxFloat64, None) =
      visit_col rt cost u v used i0 j0 m (minv1, way1, delta1, j1)"
    using st step.hyps by simp
  show ?case
  proof (cases "used ! m")
    case True
    have lt: "x < Suc m \<and> \<not> used ! x \<longleftrightarrow> x < m \<and> \<not> used ! x" for x using True by (auto simp: less_Suc_eq)
    have "visit_col rt cost u v used i0 j0 m (minv1, way1, delta1, j1) = (minv1, way1, delta1, j1)"
      using True by (simp add: visit_col_def)
    moreover have "scanned (Suc m) (cur_of rt cost u v i0) used j0 minv way minv1 way1"
    proof -
      have "1 \<le> x \<and> x < Suc m \<and> \<not> used ! x \<longleftrightarrow> 1 \<le> x \<and> x < m \<and> \<not> used ! x"
        "1 \<le> x \<and> x < Suc m \<and> \<not> used ! x \<and> q \<longleftrightarrow> 1 \<le> x \<and> x < m \<and> \<not> used ! x \<and> q" for x q
        using lt [of x] by blast+
      then show ?thesis using sc unfolding scanned_def by presburger
    qed
    moreover have "best_so_far (Suc m) used minv1 delta1 j1"
      using bs lt unfolding best_so_far_def by (cases j1) (auto simp: lt)
    ultimately show ?thesis using eq by simp
  next
    case False
    define cur where "cur = cur_of rt cost u v i0 m"
    define minv2 where "minv2 = (if cur < minv ! m then minv1[m := cur] else minv1)"
    define way2 where "way2 = (if cur < minv ! m then way1[m := j0] else way1)"
    have v: "visit_col rt cost u v used i0 j0 m (minv1, way1, delta1, j1) =
        (minv2, way2, if minv2 ! m < delta1 then minv2 ! m else delta1, if minv2 ! m < delta1 then Some m else j1)"
      using False at by (simp add: visit_col_def Let_def minv2_def way2_def cur_def cur_of_def)
    have m2: "minv2 ! j = (if j = m then min (minv ! m) cur else minv1 ! j)" if "j < n + 1" for j
      using that l1 mn at by (simp add: minv2_def min_def)
    have w2: "way2 ! j = (if j = m \<and> cur < minv ! m then j0 else way1 ! j)" if "j < n + 1" for j
      using that l1 mn by (simp add: way2_def)
    have "scanned (Suc m) (cur_of rt cost u v i0) used j0 minv way minv2 way2"
      unfolding scanned_def
    proof (intro conjI allI impI)
      show "length minv2 = length minv" "length way2 = length way"
        using l1 len by (simp_all add: minv2_def way2_def)
      show "minv2 ! j = (if 1 \<le> j \<and> j < Suc m \<and> \<not> used ! j then min (minv ! j) (cur_of rt cost u v i0 j) else minv ! j)"
        if "j < length minv" for j
        using that sc m2 [of j] len False step.hyps by (cases "j = m") (auto simp: scanned_def cur_def)
      show "way2 ! j = (if 1 \<le> j \<and> j < Suc m \<and> \<not> used ! j \<and> cur_of rt cost u v i0 j < minv ! j then j0 else way ! j)"
        if "j < length way" for j
        using that sc w2 [of j] len False step.hyps by (cases "j = m") (auto simp: scanned_def cur_def)
    qed
    moreover have "best_so_far (Suc m) used minv2 (if minv2 ! m < delta1 then minv2 ! m else delta1)
        (if minv2 ! m < delta1 then Some m else j1)"
    proof -
      have "delta1 \<le> minv2 ! j" if "1 \<le> j" "j < m" "\<not> used ! j" for j
        using bs that m2 [of j] mn by (simp add: best_so_far_def)
      then have "(if minv2 ! m < delta1 then minv2 ! m else delta1) \<le> minv2 ! j"
        if "1 \<le> j \<and> j < Suc m \<and> \<not> used ! j" for j
        using that by (cases "j = m") force+
      moreover have "case j1 of None \<Rightarrow> delta1 = MaxFloat64 | Some k \<Rightarrow> 1 \<le> k \<and> k < m \<and> \<not> used ! k \<and> delta1 = minv2 ! k"
        using bs m2 mn by (auto simp: best_so_far_def split: option.splits)
      ultimately show ?thesis
        unfolding best_so_far_def using False step.hyps by (cases j1) auto
    qed
    ultimately show ?thesis using eq v by simp
  qed
qed

lemma scan_cols_spec:
  assumes n: "n = length cost" and len: "length minv = n + 1" "length way = n + 1"
    and sc: "scan_cols rt cost u v used i0 j0 minv way = (minv', way', delta, j1)"
  shows "scanned (n + 1) (cur_of rt cost u v i0) used j0 minv way minv' way'" "best_so_far (n + 1) used minv' delta j1"
  using scan_upto [OF _ order_refl len, where cost = cost and u = u and v = v and used = used and ?i0.0 = i0 and ?j0.0 = j0 and rt = rt] sc n by (auto simp: scan_cols_def)

lemma shift_upto:
  assumes m: "m \<le> n + 1" and len: "length u = n + 1" "length v = n + 1" "length minv = n + 1"
    and p: "\<forall>j \<le> n. used ! j \<longrightarrow> p ! j \<le> n" and inj: "inj_on ((!) p) {j. j \<le> n \<and> used ! j}"
  shows "case fold (shift_col rt p used delta) [0..<m] (u, v, minv) of (u', v', minv') \<Rightarrow>
    length u' = n + 1 \<and> length v' = n + 1 \<and> length minv' = n + 1 \<and>
    (\<forall>r \<le> n. u' ! r = (if \<exists>j < m. used ! j \<and> p ! j = r then fl rt (u ! r + delta) else u ! r)) \<and>
    (\<forall>j \<le> n. v' ! j = (if j < m \<and> used ! j then fl rt (v ! j - delta) else v ! j)) \<and>
    (\<forall>j \<le> n. minv' ! j = (if j < m \<and> \<not> used ! j then fl rt (minv ! j - delta) else minv ! j))"
  using m
proof (induction m)
  case 0
  then show ?case using len by simp
next
  case (Suc m)
  obtain u1 v1 minv1 where st: "fold (shift_col rt p used delta) [0..<m] (u, v, minv) = (u1, v1, minv1)"
    by (metis prod_cases3)
  have l1: "length u1 = n + 1" "length v1 = n + 1" "length minv1 = n + 1"
    and u1: "\<And>r. r \<le> n \<Longrightarrow> u1 ! r = (if \<exists>j < m. used ! j \<and> p ! j = r then fl rt (u ! r + delta) else u ! r)"
    and v1: "\<And>j. j \<le> n \<Longrightarrow> v1 ! j = (if j < m \<and> used ! j then fl rt (v ! j - delta) else v ! j)"
    and m1: "\<And>j. j \<le> n \<Longrightarrow> minv1 ! j = (if j < m \<and> \<not> used ! j then fl rt (minv ! j - delta) else minv ! j)"
    using Suc st by auto
  have mn: "m \<le> n" using Suc.prems by simp
  have eq: "fold (shift_col rt p used delta) [0..<Suc m] (u, v, minv) = shift_col rt p used delta m (u1, v1, minv1)"
    using st by simp
  show ?case
  proof (cases "used ! m")
    case True
    have fresh: "\<not> (\<exists>j < m. used ! j \<and> p ! j = p ! m)"
      using inj_onD [OF inj, of _ m] True mn by fastforce
    have "u1[p ! m := fl rt (u1 ! (p ! m) + delta)] ! r =
        (if \<exists>j < Suc m. used ! j \<and> p ! j = r then fl rt (u ! r + delta) else u ! r)" if r: "r \<le> n" for r
    proof (cases "r = p ! m")
      case eqr: True
      then have "\<exists>j < Suc m. used ! j \<and> p ! j = r" using True by blast
      then show ?thesis using eqr u1 [OF r] fresh l1 r by simp
    next
      case False
      then have "(\<exists>j < Suc m. used ! j \<and> p ! j = r) \<longleftrightarrow> (\<exists>j < m. used ! j \<and> p ! j = r)"
        by (auto simp: less_Suc_eq)
      then show ?thesis using False u1 [OF r] by simp
    qed
    moreover have "v1[m := fl rt (v1 ! m - delta)] ! j = (if j < Suc m \<and> used ! j then fl rt (v ! j - delta) else v ! j)"
      if "j \<le> n" for j
      using v1 [OF that] v1 [OF mn] True that l1 le_imp_less_Suc [OF mn] by (cases "j = m") (auto simp: less_Suc_eq)
    moreover have "minv1 ! j = (if j < Suc m \<and> \<not> used ! j then fl rt (minv ! j - delta) else minv ! j)" if "j \<le> n" for j
      using m1 [OF that] True by (auto simp: less_Suc_eq)
    moreover have "shift_col rt p used delta m (u1, v1, minv1) =
        (u1[p ! m := fl rt (u1 ! (p ! m) + delta)], v1[m := fl rt (v1 ! m - delta)], minv1)"
      using True by (simp add: shift_col_def)
    ultimately show ?thesis
      unfolding eq using l1 by simp
  next
    case False
    have "(\<exists>j < Suc m. used ! j \<and> p ! j = r) \<longleftrightarrow> (\<exists>j < m. used ! j \<and> p ! j = r)" for r
      using False by (auto simp: less_Suc_eq)
    moreover have "v1 ! j = (if j < Suc m \<and> used ! j then fl rt (v ! j - delta) else v ! j)" if "j \<le> n" for j
      using v1 [OF that] False by (auto simp: less_Suc_eq)
    moreover have "minv1[m := fl rt (minv1 ! m - delta)] ! j = (if j < Suc m \<and> \<not> used ! j then fl rt (minv ! j - delta) else minv ! j)"
      if "j \<le> n" for j
      using m1 [OF that] m1 [OF mn] False that l1 le_imp_less_Suc [OF mn] by (cases "j = m") (auto simp: less_Suc_eq)
    moreover have "shift_col rt p used delta m (u1, v1, minv1) = (u1, v1, minv1[m := fl rt (minv1 ! m - delta)])"
      using False by (simp add: shift_col_def)
    ultimately show ?thesis
      unfolding eq using l1 u1 by simp
  qed
qed

lemma shift_cols_spec:
  assumes len: "length u = n + 1" "length v = n + 1" "length minv = n + 1"
    and p: "\<forall>j \<le> n. used ! j \<longrightarrow> p ! j \<le> n" and inj: "inj_on ((!) p) {j. j \<le> n \<and> used ! j}"
    and sh: "shift_cols rt n p used delta u v minv = (u', v', minv')"
  shows "length u' = n + 1" "length v' = n + 1" "length minv' = n + 1"
    and "\<And>r. r \<le> n \<Longrightarrow> u' ! r = (if r \<in> (!) p ` {j. j \<le> n \<and> used ! j} then fl rt (u ! r + delta) else u ! r)"
    and "\<And>j. j \<le> n \<Longrightarrow> v' ! j = (if used ! j then fl rt (v ! j - delta) else v ! j)"
    and "\<And>j. j \<le> n \<Longrightarrow> minv' ! j = (if used ! j then minv ! j else fl rt (minv ! j - delta))"
proof -
  have img: "r \<in> (!) p ` {j. j \<le> n \<and> used ! j} \<longleftrightarrow> (\<exists>j < n + 1. used ! j \<and> p ! j = r)" for r
    by (auto simp: image_iff less_Suc_eq_le)
  note up = shift_upto [OF order_refl len p inj, where rt = rt and delta = delta]
  show "length u' = n + 1" "length v' = n + 1" "length minv' = n + 1"
    and "\<And>r. r \<le> n \<Longrightarrow> u' ! r = (if r \<in> (!) p ` {j. j \<le> n \<and> used ! j} then fl rt (u ! r + delta) else u ! r)"
    and "\<And>j. j \<le> n \<Longrightarrow> v' ! j = (if used ! j then fl rt (v ! j - delta) else v ! j)"
    and "\<And>j. j \<le> n \<Longrightarrow> minv' ! j = (if used ! j then minv ! j else fl rt (minv ! j - delta))"
    using up sh unfolding shift_cols_def img by auto
qed

subsection \<open>Invariants of the path search\<close>

definition dual_ok :: "rat list list \<Rightarrow> rat \<Rightarrow> nat \<Rightarrow> rat \<Rightarrow> rat list \<Rightarrow> rat list \<Rightarrow> nat list \<Rightarrow> bool" where
  "dual_ok cost C i D u v p \<longleftrightarrow>
     length u = length cost + 1 \<and> length v = length cost + 1 \<and>
     (\<forall>r \<in> {1..length cost}. \<forall>j \<in> {1..length cost}. 0 \<le> red cost u v r j) \<and>
     (\<forall>j \<in> {1..length cost}. p ! j \<noteq> 0 \<longrightarrow> red cost u v (p ! j) j = 0) \<and>
     (\<forall>j \<in> {1..length cost}. v ! j \<le> 0 \<and> (p ! j = 0 \<longrightarrow> v ! j = 0) \<and> - (C * of_nat (i - 1)) - D \<le> v ! j) \<and>
     (\<forall>r \<in> {1..length cost}. 0 \<le> u ! r \<and> (i < r \<longrightarrow> u ! r = 0))"

definition matching :: "nat \<Rightarrow> nat \<Rightarrow> nat list \<Rightarrow> bool" where
  "matching n i p \<longleftrightarrow> length p = n + 1 \<and> p ! 0 = i \<and> 1 \<le> i \<and> i \<le> n \<and> bij_betw ((!) p) {j. j \<le> n \<and> p ! j \<noteq> 0} {1..i}"

text \<open>
  The tree of the search, its newest column first: every column but the first has its parent \<open>way ! j\<close> among
  the older ones, and the edge from the parent's row to it is tight. What tight means is an argument.
\<close>

fun tree_ok :: "(nat \<Rightarrow> nat \<Rightarrow> bool) \<Rightarrow> nat list \<Rightarrow> nat list \<Rightarrow> nat list \<Rightarrow> bool" where
  "tree_ok T p way [] \<longleftrightarrow> True"
| "tree_ok T p way (j # js) \<longleftrightarrow>
     (if js = [] then j = 0 else j \<noteq> 0 \<and> way ! j \<in> set js \<and> T (p ! (way ! j)) j) \<and> tree_ok T p way js"

definition tight :: "rat list list \<Rightarrow> rat list \<Rightarrow> rat list \<Rightarrow> nat \<Rightarrow> nat \<Rightarrow> bool" where
  "tight cost u v i j \<longleftrightarrow> red cost u v i j = 0"

definition frontier_ok ::
  "rat list list \<Rightarrow> rat \<Rightarrow> nat list \<Rightarrow> rat list \<Rightarrow> rat list \<Rightarrow> nat list \<Rightarrow> rat list \<Rightarrow> nat list \<Rightarrow> bool" where
  "frontier_ok cost B js u v p minv way \<longleftrightarrow>
     (\<forall>x \<in> {1..length cost} - set js.
        0 \<le> minv ! x \<and> (p ! x = 0 \<longrightarrow> minv ! x \<le> B) \<and> way ! x \<in> set js \<and>
        minv ! x = red cost u v (p ! (way ! x)) x \<and> (\<forall>y \<in> set js. minv ! x \<le> red cost u v (p ! y) x))"

definition path_inv where
  "path_inv cost C i D p js j0 u v minv way used \<longleftrightarrow>
     length minv = length cost + 1 \<and> length way = length cost + 1 \<and> length used = length cost + 1 \<and>
     (\<forall>x \<le> length cost. used ! x \<longleftrightarrow> x \<in> set js) \<and> distinct (j0 # js) \<and>
     (\<forall>x \<in> set (j0 # js). x \<le> length cost \<and> p ! x \<noteq> 0) \<and>
     dual_ok cost C i D u v p \<and> tree_ok (tight cost u v) p way (j0 # js) \<and>
     (if js = [] then D = 0 \<and> u ! i = 0 \<and> (\<forall>x \<in> {1..length cost}. minv ! x = MaxFloat64)
      else frontier_ok cost (C - D) js u v p minv way)"

lemma matching_row: "matching n i p \<Longrightarrow> j \<le> n \<Longrightarrow> p ! j \<noteq> 0 \<Longrightarrow> p ! j \<in> {1..n} \<and> p ! j \<le> i"
  using bij_betw_apply [of "(!) p" "{j. j \<le> n \<and> p ! j \<noteq> 0}" "{1..i}" j] by (auto simp: matching_def)

lemma matching_inj: "matching n i p \<Longrightarrow> S \<subseteq> {j. j \<le> n \<and> p ! j \<noteq> 0} \<Longrightarrow> inj_on ((!) p) S"
  unfolding matching_def bij_betw_def by (blast intro: inj_on_subset)

lemma matching_free: 
  assumes "matching n i p"
  shows "\<exists>f \<in> {1..n}. p ! f = 0"
proof (rule ccontr)
  assume "\<not> ?thesis"
  then have "{j. j \<le> n \<and> p ! j \<noteq> 0} = {0..n}"
    using assms by (auto simp: matching_def) (metis atLeastAtMost_iff gr0I less_eq_Suc_le not_gr0 One_nat_def)
  then have "card {0..n} = card {1..i}"
    using assms by (metis (no_types, lifting) bij_betw_same_card matching_def)
  then show False using assms by (simp add: matching_def)
qed

lemma red_upper:
  assumes dual: "dual_ok cost C i D u v p" and C: "0 \<le> C" "\<forall>r < length cost. \<forall>c < length cost. cost ! r ! c \<le> C"
    and D: "D \<le> C" and i: "1 \<le> i" "i \<le> length cost" and rj: "r \<in> {1..length cost}" "j \<in> {1..length cost}"
  shows "red cost u v r j \<le> C * of_nat (length cost + 1)"
proof -
  have c: "cost ! (r - 1) ! (j - 1) \<le> C" using C(2) rj by auto
  have uv: "0 \<le> u ! r" "- (C * of_nat (i - 1)) - D \<le> v ! j" using dual rj by (auto simp: dual_ok_def)
  have "C * of_nat (i - 1) \<le> C * (of_nat (length cost) - 1)"
    using C(1) i by (intro mult_left_mono) (auto simp: of_nat_diff)
  then show ?thesis using c uv D by (simp add: red_def algebra_simps)
qed

text \<open>After the scan the frontier holds for the tree with \<^verbatim>\<open>j0\<close> in it.\<close>

lemma scan_frontier:
  assumes inv: "path_inv cost C i D p js j0 u v minv way used" and mt: "matching (length cost) i p"
    and C: "0 \<le> C" "\<forall>r < length cost. \<forall>c < length cost. cost ! r ! c \<le> C"
    and D: "D \<le> C" and big: "C * of_nat (length cost + 1) < MaxFloat64"
    and sc: "scanned (length cost + 1) (red cost u v (p ! j0)) (used[j0 := True]) j0 minv way minv1 way1"
  shows "frontier_ok cost (C - D) (j0 # js) u v p minv1 way1"
  unfolding frontier_ok_def
proof (rule ballI)
  fix x assume x: "x \<in> {1..length cost} - set (j0 # js)"
  have dual: "dual_ok cost C i D u v p" and j0: "j0 \<le> length cost" "p ! j0 \<noteq> 0"
    and len: "length minv = length cost + 1" "length way = length cost + 1" "length used = length cost + 1"
    and us: "\<not> used ! x"
    using inv x by (auto simp: path_inv_def)
  have r0: "p ! j0 \<in> {1..length cost}" using matching_row [OF mt j0] by simp
  have cur: "0 \<le> red cost u v (p ! j0) x" using dual r0 x by (auto simp: dual_ok_def)
  have un: "\<not> used[j0 := True] ! x" using x us len by auto
  have m1: "minv1 ! x = min (minv ! x) (red cost u v (p ! j0) x)"
    and w1: "way1 ! x = (if red cost u v (p ! j0) x < minv ! x then j0 else way ! x)"
    using sc x un len by (auto simp: scanned_def)
  show "0 \<le> minv1 ! x \<and> (p ! x = 0 \<longrightarrow> minv1 ! x \<le> C - D) \<and> way1 ! x \<in> set (j0 # js) \<and>
      minv1 ! x = red cost u v (p ! (way1 ! x)) x \<and> (\<forall>y \<in> set (j0 # js). minv1 ! x \<le> red cost u v (p ! y) x)"
  proof (cases "js = []")
    case True
    have j00: "j0 = 0" "D = 0" "u ! i = 0" "minv ! x = MaxFloat64"
      using inv x True by (auto simp: path_inv_def)
    have i: "p ! j0 = i" "i \<in> {1..length cost}" using mt j00 by (auto simp: matching_def)
    have lt: "red cost u v i x < MaxFloat64"
      using red_upper [OF dual C D, of i x] big i x by simp
    have "red cost u v i x \<le> C" if "p ! x = 0"
    proof -
      have "v ! x = 0" using dual x that by (simp add: dual_ok_def)
      moreover have "cost ! (i - 1) ! (x - 1) \<le> C" using C(2) i x by auto
      ultimately show ?thesis using j00 by (simp add: red_def)
    qed
    then show ?thesis using m1 w1 lt cur True j00 i by (simp add: min_def)
  next
    case False
    then have "frontier_ok cost (C - D) js u v p minv way" using inv by (simp add: path_inv_def)
    then have "0 \<le> minv ! x \<and> (p ! x = 0 \<longrightarrow> minv ! x \<le> C - D) \<and> way ! x \<in> set js \<and>
        minv ! x = red cost u v (p ! (way ! x)) x \<and> (\<forall>y \<in> set js. minv ! x \<le> red cost u v (p ! y) x)"
      unfolding frontier_ok_def by (rule bspec) (use x in simp)
    then have fr: "0 \<le> minv ! x" "p ! x = 0 \<Longrightarrow> minv ! x \<le> C - D" "way ! x \<in> set js"
      "minv ! x = red cost u v (p ! (way ! x)) x" "\<And>y. y \<in> set js \<Longrightarrow> minv ! x \<le> red cost u v (p ! y) x"
      by blast+
    show ?thesis
    proof (cases "red cost u v (p ! j0) x < minv ! x")
      case True
      then show ?thesis using m1 w1 fr cur by (auto intro: less_imp_le order_trans)
    next
      case False
      then show ?thesis using m1 w1 fr cur by auto
    qed
  qed
qed

text \<open>Shifting by \<open>delta\<close> changes the reduced costs between the tree and the rest only.\<close>

definition shifted :: "nat \<Rightarrow> nat list \<Rightarrow> nat list \<Rightarrow> rat \<Rightarrow> rat list \<Rightarrow> rat list \<Rightarrow> rat list \<Rightarrow> rat list \<Rightarrow> bool" where
  "shifted n p js delta u v u' v' \<longleftrightarrow>
     (\<forall>r \<le> n. u' ! r = (if r \<in> (!) p ` set js then u ! r + delta else u ! r)) \<and>
     (\<forall>j \<le> n. v' ! j = (if j \<in> set js then v ! j - delta else v ! j))"

lemma red_shift:
  assumes "shifted n p js delta u v u' v'" and "r \<le> n" "j \<le> n"
  shows "red cost u' v' r j =
    red cost u v r j - (if r \<in> (!) p ` set js then delta else 0) + (if j \<in> set js then delta else 0)"
  using assms by (simp add: red_def shifted_def)

lemma shift_dual:
  assumes dual: "dual_ok cost C i D u v p" and mt: "matching (length cost) i p"
    and fr: "frontier_ok cost B js u v p minv way"
    and js: "\<forall>x \<in> set js. x \<le> length cost \<and> p ! x \<noteq> 0"
    and delta: "0 \<le> delta" "\<And>x. x \<in> {1..length cost} - set js \<Longrightarrow> delta \<le> minv ! x"
    and len: "length u' = length cost + 1" "length v' = length cost + 1"
    and sh: "shifted (length cost) p js delta u v u' v'"
  shows "dual_ok cost C i (D + delta) u' v' p"
  unfolding dual_ok_def
proof (intro conjI ballI impI)
  let ?n = "length cost"
  note rs = red_shift [OF sh]
  have u: "u' ! r = (if r \<in> (!) p ` set js then u ! r + delta else u ! r)" if "r \<le> ?n" for r
    using sh that by (simp add: shifted_def)
  have v: "v' ! j = (if j \<in> set js then v ! j - delta else v ! j)" if "j \<le> ?n" for j
    using sh that by (simp add: shifted_def)
  show "length u' = ?n + 1" "length v' = ?n + 1" by fact+
  show "0 \<le> red cost u' v' r j" if "r \<in> {1..?n}" "j \<in> {1..?n}" for r j
  proof -
    have old: "0 \<le> red cost u v r j" using dual that by (simp add: dual_ok_def)
    have "delta \<le> red cost u v r j" if "r \<in> (!) p ` set js" "j \<notin> set js"
    proof -
      from that(1) obtain y where y: "y \<in> set js" "r = p ! y" by auto
      have "j \<in> {1..?n} - set js" using that \<open>j \<in> {1..?n}\<close> by simp
      then have "minv ! j \<le> red cost u v (p ! y) j" using fr y(1) unfolding frontier_ok_def by blast
      then show ?thesis using delta(2) [OF \<open>j \<in> {1..?n} - set js\<close>] y(2) by simp
    qed
    then show ?thesis using rs [of r j cost] old that delta(1) by auto
  qed
  show "red cost u' v' (p ! j) j = 0" if "j \<in> {1..?n}" "p ! j \<noteq> 0" for j
  proof -
    have pj: "p ! j \<le> ?n" using matching_row [OF mt] that by auto
    have "p ! j \<in> (!) p ` set js \<longleftrightarrow> j \<in> set js"
      using matching_inj [OF mt order_refl] js that by (auto simp: inj_on_def)
    then show ?thesis using rs [OF pj, of j cost] dual that by (auto simp: dual_ok_def)
  qed
  show "v' ! j \<le> 0" "- (C * rat_of_nat (i - 1)) - (D + delta) \<le> v' ! j" if "j \<in> {1..?n}" for j
  proof -
    have "v ! j \<le> 0" "- (C * rat_of_nat (i - 1)) - D \<le> v ! j" using dual that by (auto simp: dual_ok_def)
    then show "v' ! j \<le> 0" "- (C * rat_of_nat (i - 1)) - (D + delta) \<le> v' ! j"
      using v [of j] that delta(1) by auto
  qed
  show "v' ! j = 0" if "j \<in> {1..?n}" "p ! j = 0" for j
    using v [of j] dual js that by (auto simp: dual_ok_def)
  show "0 \<le> u' ! r" if "r \<in> {1..?n}" for r
    using u [of r] dual that delta(1) by (auto simp: dual_ok_def)
  show "u' ! r = 0" if "r \<in> {1..?n}" "i < r" for r
  proof -
    have "r \<notin> (!) p ` set js" using js matching_row [OF mt] that(2) by fastforce
    then show ?thesis using u [of r] dual that by (simp add: dual_ok_def)
  qed
qed

lemma shift_tree:
  assumes sub: "set ks \<subseteq> set js" and js: "\<forall>x \<in> set js. x \<le> length cost \<and> p ! x \<le> length cost"
    and way: "\<forall>x \<in> set js. way' ! x = way ! x"
    and sh: "shifted (length cost) p js delta u v u' v'"
  shows "tree_ok (tight cost u v) p way ks \<Longrightarrow> tree_ok (tight cost u' v') p way' ks"
  using sub
proof (induction ks)
  case (Cons k ks)
  have "red cost u' v' (p ! (way ! k)) k = red cost u v (p ! (way ! k)) k" if "way ! k \<in> set ks"
    using red_shift [OF sh, of "p ! (way ! k)" k cost] js that Cons.prems(2) by auto
  then show ?case using Cons way by (auto simp: tight_def)
qed simp

lemma shift_frontier:
  assumes fr: "frontier_ok cost B js u v p minv way"
    and js: "\<forall>x \<in> set js. x \<le> length cost \<and> p ! x \<le> length cost"
    and delta: "\<And>x. x \<in> {1..length cost} - set js \<Longrightarrow> delta \<le> minv ! x"
    and minv: "\<And>j. j \<le> length cost \<Longrightarrow> j \<notin> set js \<Longrightarrow> minv' ! j = minv ! j - delta"
    and sh: "shifted (length cost) p js delta u v u' v'"
  shows "frontier_ok cost (B - delta) js u' v' p minv' way"
  unfolding frontier_ok_def
proof (rule ballI)
  fix x assume x: "x \<in> {1..length cost} - set js"
  have old: "0 \<le> minv ! x \<and> (p ! x = 0 \<longrightarrow> minv ! x \<le> B) \<and> way ! x \<in> set js \<and>
      minv ! x = red cost u v (p ! (way ! x)) x \<and> (\<forall>y \<in> set js. minv ! x \<le> red cost u v (p ! y) x)"
    using fr x unfolding frontier_ok_def by (rule bspec)
  have eq: "red cost u' v' (p ! y) x = red cost u v (p ! y) x - delta" if "y \<in> set js" for y
    using red_shift [OF sh, of "p ! y" x cost] js that x by auto
  show "0 \<le> minv' ! x \<and> (p ! x = 0 \<longrightarrow> minv' ! x \<le> B - delta) \<and> way ! x \<in> set js \<and>
      minv' ! x = red cost u' v' (p ! (way ! x)) x \<and> (\<forall>y \<in> set js. minv' ! x \<le> red cost u' v' (p ! y) x)"
  proof (intro conjI ballI impI)
    have m: "minv' ! x = minv ! x - delta" using minv [of x] x by simp
    show "0 \<le> minv' ! x" using m delta [OF x] by simp
    show "minv' ! x \<le> B - delta" if "p ! x = 0" using m old that by simp
    show w: "way ! x \<in> set js" using old by simp
    show "minv' ! x = red cost u' v' (p ! (way ! x)) x" using m old eq [OF w] by simp
    show "minv' ! x \<le> red cost u' v' (p ! y) x" if y: "y \<in> set js" for y
      using old y eq [OF y] unfolding m by (metis diff_right_mono)
  qed
qed

subsection \<open>One iteration, and the whole search\<close>

lemma path_step:
  assumes ex: "fl rt = id" and inv: "path_inv cost C i D p js j0 u v minv way used"
    and mt: "matching (length cost) i p"
    and C: "0 \<le> C" "\<forall>r < length cost. \<forall>c < length cost. cost ! r ! c \<le> C"
    and D: "D \<le> C" and big: "C * of_nat (length cost + 1) < MaxFloat64"
    and sc: "scan_cols rt cost u v (used[j0 := True]) (p ! j0) j0 minv way = (minv1, way1, delta, j1)"
    and sh: "shift_cols rt (length cost) p (used[j0 := True]) delta u v minv1 = (u', v', minv')"
  shows "\<exists>x. j1 = Some x \<and> x \<in> {1..length cost} \<and> D + delta \<le> C \<and>
    dual_ok cost C i (D + delta) u' v' p \<and> tree_ok (tight cost u' v') p way1 (x # j0 # js) \<and>
    length way1 = length cost + 1 \<and> distinct (x # j0 # js) \<and>
    (p ! x \<noteq> 0 \<longrightarrow> path_inv cost C i (D + delta) p (j0 # js) x u' v' minv' way1 (used[j0 := True]))"
proof -
  let ?n = "length cost" and ?js = "j0 # js" and ?used = "used[j0 := True]"
  have len: "length minv = ?n + 1" "length way = ?n + 1" "length used = ?n + 1"
    and dual: "dual_ok cost C i D u v p" and tree: "tree_ok (tight cost u v) p way ?js"
    and dist: "distinct ?js" and js: "\<forall>x \<in> set ?js. x \<le> ?n \<and> p ! x \<noteq> 0"
    and us0: "\<And>x. x \<le> ?n \<Longrightarrow> used ! x \<longleftrightarrow> x \<in> set js"
    using inv unfolding path_inv_def by auto
  have us: "?used ! x \<longleftrightarrow> x \<in> set ?js" if "x \<le> ?n" for x
    using us0 [OF that] that len by (cases "x = j0") auto
  have usd: "{j. j \<le> ?n \<and> ?used ! j} = set ?js" using us js by blast
  have jsp: "\<forall>x \<in> set ?js. x \<le> ?n \<and> p ! x \<le> ?n" using js matching_row [OF mt] by auto
  have scd: "scanned (?n + 1) (red cost u v (p ! j0)) ?used j0 minv way minv1 way1"
    and best: "best_so_far (?n + 1) ?used minv1 delta j1"
    using scan_cols_spec [OF refl len(1,2) sc] cur_of_exact [OF ex] by auto
  have l1: "length minv1 = ?n + 1" "length way1 = ?n + 1" using scd len by (auto simp: scanned_def)
  have fr: "frontier_ok cost (C - D) ?js u v p minv1 way1"
    by (rule scan_frontier [OF inv mt C D big scd])
  obtain f where f: "f \<in> {1..?n}" "p ! f = 0" using matching_free [OF mt] by blast
  have fout: "f \<in> {1..?n} - set ?js" using f js by auto
  have "minv1 ! f \<le> C - D" using fr fout f(2) unfolding frontier_ok_def by blast
  moreover have dle: "delta \<le> minv1 ! y" if "y \<in> {1..?n} - set ?js" for y
    using best that us [of y] by (auto simp: best_so_far_def)
  ultimately have dC: "delta \<le> C - D" using dle [OF fout] by simp
  have small: "minv1 ! f < MaxFloat64"
  proof -
    have w: "way1 ! f \<in> set ?js" "minv1 ! f = red cost u v (p ! (way1 ! f)) f"
      using fr fout unfolding frontier_ok_def by blast+
    have i: "1 \<le> i" "i \<le> ?n" using mt by (auto simp: matching_def)
    have "p ! (way1 ! f) \<in> {1..?n}" using matching_row [OF mt] js w(1) by blast
    then show ?thesis using red_upper [OF dual C D i _ f(1)] big w(2) by fastforce
  qed
  then obtain x where j1: "j1 = Some x"
    using best dle [OF fout] by (cases j1) (auto simp: best_so_far_def)
  have x: "x \<in> {1..?n}" "x \<notin> set ?js" "delta = minv1 ! x"
    using best us [of x] by (auto simp: best_so_far_def j1)
  have d0: "0 \<le> delta" using fr x(1,2) unfolding frontier_ok_def x(3) by blast
  have lu: "length u = ?n + 1" "length v = ?n + 1" using dual by (auto simp: dual_ok_def)
  have pl: "\<forall>j \<le> ?n. ?used ! j \<longrightarrow> p ! j \<le> ?n" using us jsp by blast
  have inj: "inj_on ((!) p) {j. j \<le> ?n \<and> ?used ! j}"
    by (rule matching_inj [OF mt]) (use usd js in blast)
  note sp = shift_cols_spec [OF lu l1(1) pl inj sh, unfolded usd ex id_apply]
  have shd: "shifted ?n p ?js delta u v u' v'" using sp(4,5) us by (simp add: shifted_def)
  have minv': "minv' ! j = minv1 ! j - delta" if "j \<le> ?n" "j \<notin> set ?js" for j
    using sp(6) [OF that(1)] us [OF that(1)] that(2) by simp
  have dual': "dual_ok cost C i (D + delta) u' v' p"
    by (rule shift_dual [OF dual mt fr js d0 dle sp(1,2) shd])
  have fr': "frontier_ok cost (C - D - delta) ?js u' v' p minv' way1"
    by (rule shift_frontier [OF fr jsp dle minv' shd])
  have "way1 ! y = way ! y" if "y \<in> set ?js" for y
    using scd that us js len by (auto simp: scanned_def)
  then have tree': "tree_ok (tight cost u' v') p way1 ?js"
    by (intro shift_tree [OF order_refl jsp _ shd tree]) blast
  have wx: "way1 ! x \<in> set ?js" "tight cost u' v' (p ! (way1 ! x)) x"
  proof -
    have xin: "x \<in> {1..?n} - set ?js" using x by simp
    then show "way1 ! x \<in> set ?js" using fr' unfolding frontier_ok_def by blast
    have "minv' ! x = red cost u' v' (p ! (way1 ! x)) x" using fr' xin unfolding frontier_ok_def by blast
    then show "tight cost u' v' (p ! (way1 ! x)) x" using minv' [of x] x by (simp add: tight_def)
  qed
  have tr: "tree_ok (tight cost u' v') p way1 (x # ?js)" using tree' wx x(1) by simp
  have di: "distinct (x # ?js)" using dist x(2) by simp
  have "path_inv cost C i (D + delta) p ?js x u' v' minv' way1 ?used" if "p ! x \<noteq> 0"
    unfolding path_inv_def
    using sp(3) l1(2) len(3) us di js x(1) that dual' tr fr' by (simp add: diff_diff_eq)
  then show ?thesis using j1 x(1) dC dual' tr l1(2) di by simp
qed

lemma hung_path_correct:
  assumes ex: "fl rt = id" and mt: "matching (length cost) i p"
    and C: "0 \<le> C" "\<forall>r < length cost. \<forall>c < length cost. cost ! r ! c \<le> C"
    and big: "C * of_nat (length cost + 1) < MaxFloat64"
  shows "path_inv cost C i D p js j0 u v minv way used \<Longrightarrow> D \<le> C \<Longrightarrow> iter = length js \<Longrightarrow>
    \<exists>x u' v' way' D' js'. hung_path rt cost p iter j0 u v minv way used = Some (x, u', v', way') \<and>
      x \<in> {1..length cost} \<and> p ! x = 0 \<and> D' \<le> C \<and> dual_ok cost C i D' u' v' p \<and>
      tree_ok (tight cost u' v') p way' (x # js') \<and> js' \<noteq> [] \<and> distinct (x # js') \<and> length way' = length cost + 1 \<and>
      (\<forall>y \<in> set js'. y \<le> length cost \<and> p ! y \<noteq> 0)"
proof (induction "length cost + 1 - iter" arbitrary: iter D js j0 u v minv way used rule: less_induct)
  case less
  let ?n = "length cost"
  have js: "distinct (j0 # js)" "\<forall>x \<in> set (j0 # js). x \<le> ?n \<and> p ! x \<noteq> 0"
    using less.prems(1) unfolding path_inv_def by auto
  have "set (j0 # js) \<subseteq> {..?n}" using js(2) by auto
  then have "length (j0 # js) \<le> card {..?n}"
    using js(1) by (metis card_mono distinct_card finite_atMost)
  then have it: "iter \<le> ?n" using less.prems(3) by simp
  obtain minv1 way1 delta j1 where sc:
    "scan_cols rt cost u v (used[j0 := True]) (p ! j0) j0 minv way = (minv1, way1, delta, j1)"
    by (metis prod_cases4)
  obtain u1 v1 minv2 where sh: "shift_cols rt ?n p (used[j0 := True]) delta u v minv1 = (u1, v1, minv2)"
    by (metis prod_cases3)
  obtain x where x: "j1 = Some x" "x \<in> {1..?n}" "D + delta \<le> C" "dual_ok cost C i (D + delta) u1 v1 p"
      "tree_ok (tight cost u1 v1) p way1 (x # j0 # js)" "length way1 = ?n + 1" "distinct (x # j0 # js)"
    and cont: "p ! x \<noteq> 0 \<Longrightarrow> path_inv cost C i (D + delta) p (j0 # js) x u1 v1 minv2 way1 (used[j0 := True])"
    using path_step [OF ex less.prems(1) mt C less.prems(2) big sc sh] by blast
  have step: "hung_path rt cost p iter j0 u v minv way used =
      (if p ! x = 0 then Some (x, u1, v1, way1)
       else hung_path rt cost p (iter + 1) x u1 v1 minv2 way1 (used[j0 := True]))"
    using it by (simp add: hung_path.simps [of rt cost p iter] Let_def sc sh x(1))
  show ?case
  proof (cases "p ! x = 0")
    case True
    then have "hung_path rt cost p iter j0 u v minv way used = Some (x, u1, v1, way1)" using step by simp
    with True x js(2) show ?thesis by blast
  next
    case False
    have "?n + 1 - (iter + 1) < ?n + 1 - iter" using it by simp
    from less.hyps [OF this cont [OF False] x(3)] less.prems(3) False show ?thesis
      unfolding step by simp
  qed
qed

subsection \<open>Augmentation\<close>

lemma tree_ok_suffix: "tree_ok T p way (ks @ js) \<Longrightarrow> js \<noteq> [] \<Longrightarrow> tree_ok T p way js"
  by (induction ks) auto

lemma tree_ok_cong:
  "(\<And>y. y \<in> set js \<Longrightarrow> p' ! y = p ! y) \<Longrightarrow> tree_ok T p way (x # js) \<Longrightarrow> tree_ok T p' way (x # js)"
proof (induction js arbitrary: x)
  case (Cons k ks)
  have "tree_ok T p' way (k # ks)" using Cons.IH [of k] Cons.prems by simp
  moreover have "p' ! (way ! x) = p ! (way ! x)" if "way ! x \<in> set (k # ks)" using Cons.prems(1) that by simp
  ultimately show ?case using Cons.prems(2) by auto
qed simp

lemma bij_move_hole:
  assumes bij: "bij_betw ((!) p) (S - {x}) R" and x: "x \<in> S" "x < length p" and w: "w \<in> S" "w \<noteq> x"
  shows "bij_betw ((!) (p[x := p ! w])) (S - {w}) R"
proof -
  have "bij_betw (\<lambda>y. if y = x then w else y) (S - {w}) (S - {x})"
    using x(1) w by (intro bij_betw_byWitness [where f' = "\<lambda>y. if y = w then x else y"]) auto
  from bij_betw_trans [OF this bij] show ?thesis
    by (rule bij_betw_cong [THEN iffD1, rotated]) (use x(2) in auto)
qed

lemma augment_correct:
  assumes "tree_ok T p way (x # js)" "distinct (x # js)" "set (x # js) \<subseteq> S" "S \<subseteq> {..n}"
    and "length p = n + 1" "bij_betw ((!) p) (S - {x}) R" "\<forall>y \<in> S - {x} - {0}. T (p ! y) y"
  shows "\<exists>p'. augment way p x = Some p' \<and> length p' = n + 1 \<and> bij_betw ((!) p') (S - {0}) R \<and>
    (\<forall>y \<in> S - {0}. T (p' ! y) y) \<and> (\<forall>y. y \<notin> S \<longrightarrow> p' ! y = p ! y)"
  using assms
proof (induction "length js" arbitrary: x js p rule: less_induct)
  case less
  show ?case
  proof (cases "js = []")
    case True
    then have "x = 0" using less.prems(1) by simp
    then show ?thesis using less.prems by (simp add: augment.simps)
  next
    case False
    define w where "w = way ! x"
    define p1 where "p1 = p[x := p ! w]"
    have x0: "x \<noteq> 0" and w: "w \<in> set js" and tight: "T (p ! w) x"
      using less.prems(1) False by (auto simp: w_def)
    obtain as bs where js: "js = as @ w # bs" using w by (auto simp: in_set_conv_decomp)
    have wx: "w \<noteq> x" "w \<in> S" using w less.prems(2,3) by auto
    have xl: "x \<in> S" "x < length p" using less.prems(3,4,5) by auto
    have p1: "p1 ! y = (if y = x then p ! w else p ! y)" for y using xl by (simp add: p1_def)
    have "tree_ok T p way (w # bs)"
      by (rule tree_ok_suffix [of T p way "x # as"]) (use less.prems(1) in \<open>simp_all add: js\<close>)
    then have "tree_ok T p1 way (w # bs)"
      by (rule tree_ok_cong [rotated]) (use less.prems(2) in \<open>auto simp: p1 js\<close>)
    moreover have "distinct (w # bs)" "set (w # bs) \<subseteq> S" "length bs < length js"
      using less.prems(2,3) by (auto simp: js)
    moreover have "bij_betw ((!) p1) (S - {w}) R"
      unfolding p1_def by (rule bij_move_hole) (use less.prems(6) xl wx in simp_all)
    moreover have "\<forall>y \<in> S - {w} - {0}. T (p1 ! y) y"
      using less.prems(7) tight by (simp add: p1)
    moreover have "length p1 = n + 1" using less.prems(5) by (simp add: p1_def)
    ultimately obtain p' where p': "augment way p1 w = Some p'" "length p' = n + 1" "bij_betw ((!) p') (S - {0}) R"
      "\<forall>y \<in> S - {0}. T (p' ! y) y" "\<forall>y. y \<notin> S \<longrightarrow> p' ! y = p1 ! y"
      using less.hyps [of bs p1 w] less.prems(4) by blast
    have "augment way p x = Some p'" using x0 p'(1) by (simp add: augment.simps [of way p x] w_def p1_def)
    then show ?thesis using p' p1 xl(1) by (metis (no_types, lifting))
  qed
qed

subsection \<open>Rows\<close>

definition rows_ok :: "rat list list \<Rightarrow> rat \<Rightarrow> nat \<Rightarrow> rat list \<Rightarrow> rat list \<Rightarrow> nat list \<Rightarrow> bool" where
  "rows_ok cost C i u v p \<longleftrightarrow>
     length p = length cost + 1 \<and> bij_betw ((!) p) {j \<in> {1..length cost}. p ! j \<noteq> 0} {1..<i} \<and>
     dual_ok cost C i 0 u v p \<and> (i \<le> length cost \<longrightarrow> u ! i = 0)"

lemma matching_start:
  assumes len: "length p = n + 1" and bij: "bij_betw ((!) p) {j \<in> {1..n}. p ! j \<noteq> 0} {1..<i}" and i: "1 \<le> i" "i \<le> n"
  shows "matching n i (p[0 := i])"
proof -
  let ?M = "{j \<in> {1..n}. p ! j \<noteq> 0}" and ?p = "p[0 := i]"
  have at: "?p ! j = (if j = 0 then i else p ! j)" for j using len by simp
  have "bij_betw ((!) ?p) ?M {1..<i}"
    by (rule bij_betw_cong [THEN iffD1, OF _ bij]) (simp add: at)
  then have "bij_betw ((!) ?p) (?M \<union> {0}) ({1..<i} \<union> {?p ! 0})"
    by (intro notIn_Un_bij_betw) (simp_all add: at)
  moreover have "?M \<union> {0} = {j. j \<le> n \<and> ?p ! j \<noteq> 0}" using i by (auto simp: at)
  moreover have "{1..<i} \<union> {?p ! 0} = {1..i}" using i by (auto simp: at)
  ultimately show ?thesis using len i by (simp add: matching_def at)
qed

lemma rows_ok_matching: "rows_ok cost C i u v p \<Longrightarrow> 1 \<le> i \<Longrightarrow> i \<le> length cost \<Longrightarrow> matching (length cost) i (p[0 := i])"
  by (rule matching_start) (simp_all add: rows_ok_def)

lemma dual_ok_cong:
  "dual_ok cost C i D u v p \<Longrightarrow> (\<And>j. j \<in> {1..length cost} \<Longrightarrow> p' ! j = p ! j) \<Longrightarrow> dual_ok cost C i D u v p'"
  unfolding dual_ok_def by simp

lemma path_inv_start:
  assumes ok: "rows_ok cost C i u v p" and i: "1 \<le> i" "i \<le> length cost" and way: "length way = length cost + 1"
  shows "path_inv cost C i 0 (p[0 := i]) [] 0 u v (replicate (length cost + 1) MaxFloat64) way
    (replicate (length cost + 1) False)"
proof -
  have "dual_ok cost C i 0 u v (p[0 := i])"
    by (rule dual_ok_cong) (use ok in \<open>auto simp: rows_ok_def\<close>)
  then show ?thesis
    using ok i way unfolding path_inv_def rows_ok_def by (auto simp: nth_Cons')
qed

lemma hung_row_correct:
  assumes ex: "fl rt = id" and ok: "rows_ok cost C i u v p" and i: "1 \<le> i" "i \<le> length cost"
    and way: "length way = length cost + 1"
    and C: "0 \<le> C" "\<forall>r < length cost. \<forall>c < length cost. cost ! r ! c \<le> C"
    and big: "C * of_nat (length cost + 1) < MaxFloat64"
  shows "\<exists>u' v' p' way'. hung_row rt cost i (u, v, p, way) = Some (u', v', p', way') \<and>
    rows_ok cost C (i + 1) u' v' p' \<and> length way' = length cost + 1"
proof -
  let ?n = "length cost" and ?p = "p[0 := i]"
  have mt: "matching ?n i ?p" by (rule rows_ok_matching [OF ok i])
  obtain x u' v' way' D js where path: "hung_path rt cost ?p 0 0 u v (replicate (?n + 1) MaxFloat64) way
        (replicate (?n + 1) False) = Some (x, u', v', way')"
    and x: "x \<in> {1..?n}" "?p ! x = 0" and D: "D \<le> C" and dual: "dual_ok cost C i D u' v' ?p"
    and tree: "tree_ok (tight cost u' v') ?p way' (x # js)" "distinct (x # js)"
    and way': "length way' = ?n + 1" and js: "\<forall>y \<in> set js. y \<le> ?n \<and> ?p ! y \<noteq> 0"
    using hung_path_correct [OF ex mt C big path_inv_start [OF ok i way] C(1) list.size(3) [symmetric]] by blast
  let ?M = "{j. j \<le> ?n \<and> ?p ! j \<noteq> 0}" and ?S = "insert x {j. j \<le> ?n \<and> ?p ! j \<noteq> 0}"
  have SM: "?S - {x} = ?M" using x(2) by auto
  have "bij_betw ((!) ?p) (?S - {x}) {1..i}" "length ?p = ?n + 1" "?p ! 0 = i"
    unfolding SM using mt by (simp_all add: matching_def)
  moreover have "red cost u' v' (?p ! y) y = 0" if "y \<in> ?M" "y \<noteq> 0" for y
  proof -
    have "y \<in> {1..?n}" using that by simp
    then show ?thesis using dual that(1) unfolding dual_ok_def by blast
  qed
  then have "\<forall>y \<in> ?S - {x} - {0}. tight cost u' v' (?p ! y) y" unfolding SM tight_def by blast
  moreover have "set (x # js) \<subseteq> ?S" "?S \<subseteq> {..?n}" using js x by auto
  ultimately obtain p' where aug: "augment way' ?p x = Some p'" and len: "length p' = ?n + 1"
    and bij: "bij_betw ((!) p') (?S - {0}) {1..i}" and tight: "\<forall>y \<in> ?S - {0}. tight cost u' v' (p' ! y) y"
    and out: "\<forall>y. y \<notin> ?S \<longrightarrow> p' ! y = ?p ! y"
    using augment_correct [OF tree, of ?S ?n "{1..i}"] by blast
  have nz: "p' ! y \<noteq> 0" if "y \<in> ?S - {0}" for y using bij_betw_apply [OF bij that] by simp
  have S: "{j \<in> {1..?n}. p' ! j \<noteq> 0} = ?S - {0}"
    using nz out x(1) by (auto simp: Suc_le_eq)
  have free: "?p ! j = 0" if "j \<in> {1..?n}" "p' ! j = 0" for j using nz [of j] that by auto
  have "dual_ok cost C (i + 1) 0 u' v' p'"
  proof -
    have "p' ! j \<noteq> 0 \<Longrightarrow> red cost u' v' (p' ! j) j = 0" if "j \<in> {1..?n}" for j
      using tight S that unfolding tight_def by blast
    moreover have "- (C * rat_of_nat i) \<le> - (C * rat_of_nat (i - 1)) - D"
      using D i by (simp add: of_nat_diff algebra_simps)
    ultimately show ?thesis
      using dual free unfolding dual_ok_def by (auto intro: order_trans)
  qed
  moreover have "i + 1 \<le> ?n \<longrightarrow> u' ! (i + 1) = 0" using dual by (simp add: dual_ok_def)
  moreover have "{1..<i + 1} = {1..i}" by auto
  ultimately have "rows_ok cost C (i + 1) u' v' p'"
    unfolding rows_ok_def S using len bij by simp
  then show ?thesis using path aug way' by (simp add: hung_row_def Let_def)
qed

lemma hung_rows_correct:
  assumes ex: "fl rt = id"
    and C: "0 \<le> C" "\<forall>r < length cost. \<forall>c < length cost. cost ! r ! c \<le> C"
    and big: "C * of_nat (length cost + 1) < MaxFloat64"
  shows "rows_ok cost C i u v p \<Longrightarrow> length way = length cost + 1 \<Longrightarrow> 1 \<le> i \<Longrightarrow> i \<le> length cost + 1 \<Longrightarrow>
    \<exists>u' v' p' way'. hung_rows rt cost [i..<length cost + 1] (u, v, p, way) = Some (u', v', p', way') \<and>
      rows_ok cost C (length cost + 1) u' v' p'"
proof (induction "length cost + 1 - i" arbitrary: i u v p way)
  case 0
  then have "i = length cost + 1" by simp
  with 0 show ?case by auto
next
  case (Suc k)
  then have i: "i \<le> length cost" by simp
  obtain u1 v1 p1 way1 where row: "hung_row rt cost i (u, v, p, way) = Some (u1, v1, p1, way1)"
    "rows_ok cost C (i + 1) u1 v1 p1" "length way1 = length cost + 1"
    using hung_row_correct [OF ex Suc.prems(1,3) i Suc.prems(2) C big] by blast
  have "[i..<length cost + 1] = i # [i + 1..<length cost + 1]" using i by (simp add: upt_conv_Cons)
  then show ?case using Suc.hyps(1) [OF _ row(2,3)] Suc.hyps(2) i row(1) by simp
qed

subsection \<open>The assignment is a permutation of minimum cost\<close>

definition assign_cost :: "rat list list \<Rightarrow> nat list \<Rightarrow> rat" where
  "assign_cost cost a = sum_list (map (\<lambda>r. cost ! r ! (a ! r)) [0..<length cost])"

lemma rows_ok_start:
  assumes "\<forall>r < length cost. \<forall>c < length cost. 0 \<le> cost ! r ! c" and "length cost \<noteq> 0"
  shows "rows_ok cost C 1 (replicate (length cost + 1) 0) (replicate (length cost + 1) 0) (replicate (length cost + 1) 0)"
proof -
  have z: "replicate (length cost + 1) (0 :: rat) ! j = 0" "replicate (length cost + 1) (0 :: nat) ! j = 0"
    if "j \<le> length cost" for j
    using that by (auto simp del: replicate_Suc)
  have none: "{j \<in> {1..length cost}. replicate (length cost + 1) (0 :: nat) ! j \<noteq> 0} = {}"
    using z by (auto simp del: replicate_Suc)
  have "dual_ok cost C 1 0 (replicate (length cost + 1) 0) (replicate (length cost + 1) 0) (replicate (length cost + 1) 0)"
    unfolding dual_ok_def red_def using assms(1) z by (auto simp del: replicate_Suc simp: Suc_le_eq)
  then show ?thesis
    unfolding rows_ok_def none using assms(2) z(1) [of 1] by (simp add: bij_betw_def del: replicate_Suc)
qed

lemma read_assign_upto:
  assumes inj: "inj_on ((!) p) {1..n}" and rng: "\<forall>j \<in> {1..n}. 1 \<le> p ! j \<and> p ! j \<le> n" and "m \<le> n"
  shows "let a = fold (\<lambda>j assign. if p ! j \<ge> 1 then assign[p ! j - 1 := j - 1] else assign) [1..<m + 1] (replicate n 0)
    in length a = n \<and> (\<forall>j \<in> {1..m}. a ! (p ! j - 1) = j - 1)"
  using assms(3)
proof (induction m)
  case (Suc m)
  let ?f = "\<lambda>j assign. if p ! j \<ge> 1 then assign[p ! j - 1 := j - 1] else assign"
  define a where "a = fold ?f [1..<m + 1] (replicate n 0)"
  have a: "length a = n" "\<And>j. j \<in> {1..m} \<Longrightarrow> a ! (p ! j - 1) = j - 1"
    using Suc by (simp_all add: Let_def a_def)
  have pm: "1 \<le> p ! Suc m" "p ! Suc m \<le> n" using rng Suc.prems by auto
  have eq: "fold ?f [1..<Suc m + 1] (replicate n 0) = a[p ! Suc m - 1 := m]" using pm by (simp add: a_def)
  have neq: "p ! Suc m - 1 \<noteq> p ! j - 1" if "j \<in> {1..m}" for j
  proof -
    have "p ! j \<noteq> p ! Suc m" using inj_onD [OF inj, of j "Suc m"] that Suc.prems by auto
    moreover have "1 \<le> p ! j" using rng that Suc.prems by auto
    ultimately show ?thesis using pm by arith
  qed
  have "a[p ! Suc m - 1 := m] ! (p ! j - 1) = j - 1" if "j \<in> {1..Suc m}" for j
  proof (cases "j = Suc m")
    case True
    then show ?thesis using a(1) pm by simp
  next
    case False
    then have j: "j \<in> {1..m}" using that by simp
    then show ?thesis using a(2) neq [OF j] by simp
  qed
  then show ?case unfolding eq Let_def using a(1) by simp
qed simp

lemma rows_ok_all:
  assumes "rows_ok cost C (length cost + 1) u v p"
  shows "bij_betw ((!) p) {1..length cost} {1..length cost}"
    and "\<And>j. j \<in> {1..length cost} \<Longrightarrow> red cost u v (p ! j) j = 0"
    and "\<And>r j. r \<in> {1..length cost} \<Longrightarrow> j \<in> {1..length cost} \<Longrightarrow> 0 \<le> red cost u v r j"
proof -
  let ?n = "length cost"
  have "{1..<?n + 1} = {1..?n}" by auto
  then have bij: "bij_betw ((!) p) {j \<in> {1..?n}. p ! j \<noteq> 0} {1..?n}" and dual: "dual_ok cost C (?n + 1) 0 u v p"
    using assms by (auto simp: rows_ok_def)
  have "card {j \<in> {1..?n}. p ! j \<noteq> 0} = card {1..?n}" using bij_betw_same_card [OF bij] .
  then have all: "{j \<in> {1..?n}. p ! j \<noteq> 0} = {1..?n}" by (intro card_subset_eq) auto
  then show "bij_betw ((!) p) {1..?n} {1..?n}" using bij by simp
  show "red cost u v (p ! j) j = 0" if "j \<in> {1..?n}" for j
    using dual that all unfolding dual_ok_def by blast
  show "0 \<le> red cost u v r j" if "r \<in> {1..?n}" "j \<in> {1..?n}" for r j
    using dual that unfolding dual_ok_def by blast
qed

lemma read_assign_perm:
  assumes bij: "bij_betw ((!) p) {1..n} {1..n}"
  shows "length (read_assign n p) = n" "mset (read_assign n p) = mset [0..<n]"
    and "\<And>r. r < n \<Longrightarrow> \<exists>j \<in> {1..n}. p ! j = r + 1 \<and> read_assign n p ! r = j - 1"
proof -
  let ?a = "read_assign n p"
  have "inj_on ((!) p) {1..n}" "\<forall>j \<in> {1..n}. 1 \<le> p ! j \<and> p ! j \<le> n"
    using bij by (auto simp: bij_betw_def)
  from read_assign_upto [OF this order_refl] have len: "length ?a = n" and at: "\<And>j. j \<in> {1..n} \<Longrightarrow> ?a ! (p ! j - 1) = j - 1"
    by (simp_all add: Let_def read_assign_def)
  have ex: "\<exists>j \<in> {1..n}. p ! j = r + 1 \<and> ?a ! r = j - 1" if "r < n" for r
  proof -
    have "r + 1 \<in> (!) p ` {1..n}" using bij that by (simp add: bij_betw_def)
    then obtain j where "j \<in> {1..n}" "p ! j = r + 1" by auto
    then show ?thesis using at [of j] by auto
  qed
  show "length ?a = n" by fact
  show "\<exists>j \<in> {1..n}. p ! j = r + 1 \<and> ?a ! r = j - 1" if "r < n" for r using ex [OF that] .
  have "set ?a = {0..<n}"
  proof (intro equalityI subsetI)
    fix c assume "c \<in> set ?a"
    then obtain r where "r < n" "?a ! r = c" using len by (auto simp: in_set_conv_nth)
    with ex [of r] show "c \<in> {0..<n}" by auto
  next
    fix c assume "c \<in> {0..<n}"
    then have c: "c + 1 \<in> {1..n}" by simp
    then have "p ! (c + 1) - 1 < n" "1 \<le> p ! (c + 1)" using bij_betw_apply [OF bij c] by auto
    with at [OF c] len show "c \<in> set ?a" by (metis add_diff_cancel_right' nth_mem)
  qed
  moreover have "distinct ?a" using calculation len by (simp add: card_distinct)
  ultimately show "mset ?a = mset [0..<n]" using set_eq_iff_mset_eq_distinct [of ?a "[0..<n]"] by simp
qed

lemma perm_sum:
  fixes f :: "nat \<Rightarrow> 'a::comm_monoid_add"
  assumes "mset a = mset [0..<n]"
  shows "sum_list (map (\<lambda>r. f (a ! r)) [0..<n]) = sum_list (map f [0..<n])"
proof -
  have "length a = n" using assms by (metis length_upt minus_nat.diff_0 size_mset)
  then have "map (\<lambda>r. f (a ! r)) [0..<n] = map f a" by (auto intro: nth_equalityI)
  moreover have "sum_list (map f xs) = sum_mset (image_mset f (mset xs))" for xs
    by (metis mset_map sum_mset_sum_list)
  ultimately show ?thesis using assms by simp
qed

lemma dual_bound:
  assumes a: "mset a = mset [0..<length cost]"
  shows "assign_cost cost a - sum_list (map (\<lambda>r. red cost u v (r + 1) (a ! r + 1)) [0..<length cost]) =
    sum_list (map (\<lambda>r. u ! (r + 1)) [0..<length cost]) + sum_list (map (\<lambda>c. v ! (c + 1)) [0..<length cost])"
  unfolding assign_cost_def perm_sum [OF a, of "\<lambda>c. v ! (c + 1)", symmetric]
  by (simp add: red_def sum_list_subtractf sum_list_addf)

lemma rows_ok_optimal:
  assumes ok: "rows_ok cost C (length cost + 1) u v p" and a: "mset a = mset [0..<length cost]"
  shows "assign_cost cost (read_assign (length cost) p) \<le> assign_cost cost a"
proof -
  let ?n = "length cost" and ?b = "read_assign (length cost) p"
  let ?R = "\<lambda>a. sum_list (map (\<lambda>r. red cost u v (r + 1) (a ! r + 1)) [0..<length cost])"
  note all = rows_ok_all [OF ok]
  note rp = read_assign_perm [OF all(1)]
  have "red cost u v (r + 1) (?b ! r + 1) = 0" if "r < ?n" for r
    using rp(3) [OF that] all(2) by fastforce
  then have "map (\<lambda>r. red cost u v (r + 1) (?b ! r + 1)) [0..<?n] = map (\<lambda>_. 0) [0..<?n]"
    by (intro map_cong) auto
  then have "?R ?b = 0" by (simp only: sum_list_0)
  moreover have "0 \<le> ?R a"
  proof (rule sum_list_nonneg)
    fix x assume "x \<in> set (map (\<lambda>r. red cost u v (r + 1) (a ! r + 1)) [0..<?n])"
    then obtain r where r: "r < ?n" "x = red cost u v (r + 1) (a ! r + 1)" by auto
    have "length a = ?n" "set a = {0..<?n}" using a by (metis length_upt minus_nat.diff_0 size_mset, metis atLeast_upt lessThan_atLeast0 set_mset_mset)
    then have "a ! r < ?n" using r(1) nth_mem by fastforce
    then show "0 \<le> x" using all(3) r by simp
  qed
  ultimately show ?thesis
    using dual_bound [OF rp(2), of u v] dual_bound [OF a, of u v] by linarith
qed

lemma hungarian_correct:
  assumes ex: "fl rt = id" and n: "length cost \<le> 500" and sq: "\<forall>row \<in> set cost. length row = length cost"
    and c: "\<forall>r < length cost. \<forall>c < length cost. 0 \<le> cost ! r ! c \<and> cost ! r ! c \<le> 2"
  shows "\<exists>a. hungarian rt cost = Some a \<and> mset a = mset [0..<length cost] \<and>
    (\<forall>b. mset b = mset [0..<length cost] \<longrightarrow> assign_cost cost a \<le> assign_cost cost b)"
proof (cases "length cost = 0")
  case True
  then show ?thesis by (simp add: hungarian_def assign_cost_def)
next
  case False
  let ?n = "length cost"
  have "2 * of_nat (?n + 1) < MaxFloat64"
  proof -
    have "2 * of_nat (?n + 1) \<le> (1002 :: rat)" using n by simp
    also have "\<dots> < MaxFloat64" by (simp add: MaxFloat64_def)
    finally show ?thesis .
  qed
  note big = this
  have C: "\<forall>r < ?n. \<forall>c < ?n. cost ! r ! c \<le> 2" using c by simp
  have start: "rows_ok cost 2 1 (replicate (?n + 1) 0)
      (replicate (?n + 1) 0) (replicate (?n + 1) 0)"
    by (rule rows_ok_start) (use c False in auto)
  have "\<exists>u v p way. hung_rows rt cost [1..<?n + 1] (replicate (?n + 1) 0, replicate (?n + 1) 0,
      replicate (?n + 1) 0, replicate (?n + 1) 0) = Some (u, v, p, way) \<and> rows_ok cost 2 (?n + 1) u v p"
    by (rule hung_rows_correct [OF ex _ C big start]) simp_all
  then obtain u v p way where rows: "hung_rows rt cost [1..<?n + 1]
      (replicate (?n + 1) 0, replicate (?n + 1) 0, replicate (?n + 1) 0, replicate (?n + 1) 0) = Some (u, v, p, way)"
    and ok: "rows_ok cost 2 (?n + 1) u v p"
    by blast
  have "hungarian rt cost = Some (read_assign ?n p)"
    using False n sq rows by (simp add: hungarian_def Let_def maxHungarianN_def list_all_iff del: replicate_Suc)
  then show ?thesis
    using read_assign_perm(2) [OF rows_ok_all(1) [OF ok]] rows_ok_optimal [OF ok] by auto
qed

text \<open>
  C36. In exact arithmetic \<^verbatim>\<open>hungarian\<close> does not panic on a square matrix of at most
  \<^verbatim>\<open>maxHungarianN\<close> rows with entries between 0 and \<^verbatim>\<open>noMatchSentinel\<close>: it returns a permutation of the
  columns, and no other permutation costs less.
\<close>

theorem hungarian_optimal:
  assumes "fl rt = id" and "length cost \<le> maxHungarianN"
    and "list_all (\<lambda>row. length row = length cost \<and> list_all (\<lambda>c. 0 \<le> c \<and> c \<le> noMatchSentinel) row) cost"
  shows "\<exists>assign. hungarian rt cost = Some assign \<and> mset assign = mset [0..<length cost] \<and>
    (\<forall>other. mset other = mset [0..<length cost] \<longrightarrow> assign_cost cost assign \<le> assign_cost cost other)"
proof (rule hungarian_correct)
  show "\<forall>r < length cost. \<forall>c < length cost. 0 \<le> cost ! r ! c \<and> cost ! r ! c \<le> 2"
    using assms(3) by (auto simp: list_all_length noMatchSentinel_def)
qed (use assms in \<open>auto simp: list_all_iff maxHungarianN_def\<close>)

theorem hungarian_optimal_witness:
  "\<exists>assign. hungarian exact_runtime [[1 / 2, 1 / 4], [1 / 4, 3 / 4]] = Some assign \<and>
     mset assign = mset [0..<2] \<and>
     assign_cost [[1 / 2, 1 / 4], [1 / 4, 3 / 4]] assign \<le> assign_cost [[1 / 2, 1 / 4], [1 / 4, 3 / 4]] [1, 0]"
proof -
  obtain a where a: "hungarian exact_runtime [[1 / 2, 1 / 4], [1 / 4, 3 / 4]] = Some a" "mset a = mset [0..<2]"
    and opt: "\<forall>other. mset other = mset [0..<2] \<longrightarrow>
      assign_cost [[1 / 2, 1 / 4], [1 / 4, 3 / 4]] a \<le> assign_cost [[1 / 2, 1 / 4], [1 / 4, 3 / 4]] other"
    using hungarian_optimal [of exact_runtime "[[1 / 2, 1 / 4], [1 / 4, 3 / 4]]"]
    by (auto simp: maxHungarianN_def noMatchSentinel_def numeral_2_eq_2)
  have "mset [1, 0] = mset [0..<2 :: nat]" by (simp add: numeral_2_eq_2)
  with a opt show ?thesis by blast
qed

end
