(* ===== verification/HungarianFloat.thy ===== *)
theory HungarianFloat
  imports Hungarian
begin

text \<open>
  The assignment solver under floating-point rounding. \<^verbatim>\<open>hungarian\<close> computes its potentials in \<^verbatim>\<open>float64\<close>, so
  reduced costs that are zero in exact arithmetic are only almost zero. This theory shows for every accurate
  rounding, that of IEEE 754 among them, that the search still finds a free column and the result is a permutation.

  The argument bounds the potentials. Matched edges and edges of the search tree stay tight up to a tolerance
  that grows by at most five roundings per iteration; along the tree the potential of a column differs from that of its
  parent by a difference of costs, so all of them are close to the potential of the root row, and that one
  is pinned by a column the search has not touched, in the end by a free column, whose potential is zero.
  No error accumulates from row to row, so the values never leave the range where the rounding is accurate.
\<close>

subsection \<open>Almost tight edges\<close>

definition rounding_error :: rat where "rounding_error = 1 / 2 ^ 37"

definition almost :: "rat list list \<Rightarrow> rat \<Rightarrow> rat list \<Rightarrow> rat list \<Rightarrow> nat \<Rightarrow> nat \<Rightarrow> bool" where
  "almost cost t u v i j \<longleftrightarrow> \<bar>red cost u v i j\<bar> \<le> t"

definition small_costs :: "rat list list \<Rightarrow> bool" where
  "small_costs cost \<longleftrightarrow> length cost \<le> 500 \<and> (\<forall>r < length cost. \<forall>c < length cost. \<bar>cost ! r ! c\<bar> \<le> 2)"

lemma rounded: "accurate f \<Longrightarrow> \<bar>x\<bar> \<le> 65536 \<Longrightarrow> \<bar>f x - x\<bar> \<le> rounding_error"
  using accurateD [of f x] by (simp add: rounding_error_def)

lemma rounding_error_bounds: "0 < rounding_error" "rounding_error \<le> 1 / 8" "5 * rounding_error * 251001 \<le> 1 / 2"
  by (simp_all add: rounding_error_def)

lemma small_cost: "small_costs cost \<Longrightarrow> r \<in> {1..length cost} \<Longrightarrow> j \<in> {1..length cost} \<Longrightarrow> \<bar>cost ! (r - 1) ! (j - 1)\<bar> \<le> 2"
  unfolding small_costs_def by auto

lemma close_column:
  fixes c :: rat
  assumes "\<bar>c\<bar> \<le> 2" "\<bar>d\<bar> \<le> 2" "\<bar>c - a - x\<bar> \<le> t" "\<bar>d - a - w\<bar> \<le> t" "t \<le> 1 / 2"
  shows "\<bar>x - w\<bar> \<le> 5"
  using assms unfolding abs_le_iff by linarith

text \<open>Along the tree the potentials of the columns stay close to that of the root row.\<close>

lemma chain_bound:
  assumes "small_costs cost" and "t \<le> 1 / 2" and "p ! 0 = i"
  shows "tree_ok (almost cost t u v) p way (x # ks) \<Longrightarrow> x \<le> length cost \<Longrightarrow>
    \<forall>w \<in> set ks. w \<le> length cost \<and> p ! w \<in> {1..length cost} \<and> (w \<noteq> 0 \<longrightarrow> almost cost t u v (p ! w) w) \<Longrightarrow>
    \<forall>k \<in> set (x # ks). k \<noteq> 0 \<longrightarrow> \<bar>v ! k + u ! i\<bar> \<le> 5 * of_nat (length ks)"
proof (induction ks arbitrary: x)
  case (Cons y ys)
  define w where "w = way ! x"
  have x: "x \<noteq> 0" "w \<in> set (y # ys)" "almost cost t u v (p ! w) x" and rest: "tree_ok (almost cost t u v) p way (y # ys)"
    using Cons.prems(1) by (simp_all add: w_def)
  have IH: "\<forall>k \<in> set (y # ys). k \<noteq> 0 \<longrightarrow> \<bar>v ! k + u ! i\<bar> \<le> 5 * of_nat (length ys)"
    using Cons.IH [OF rest] Cons.prems(3) by simp
  have w: "w \<le> length cost" "p ! w \<in> {1..length cost}" "w \<noteq> 0 \<longrightarrow> almost cost t u v (p ! w) w"
    using Cons.prems(3) x(2) by blast+
  have c: "\<bar>cost ! (p ! w - 1) ! (x - 1)\<bar> \<le> 2"
    using small_cost [OF assms(1) w(2), of x] x(1) Cons.prems(2) by simp
  have "\<bar>v ! x + u ! i\<bar> \<le> 5 * of_nat (length ys) + 5"
  proof (cases "w = 0")
    case True
    then have "\<bar>cost ! (i - 1) ! (x - 1) - u ! i - v ! x\<bar> \<le> t" "\<bar>cost ! (i - 1) ! (x - 1)\<bar> \<le> 2"
      using x(3) c assms(3) by (simp_all add: almost_def red_def)
    then have "\<bar>v ! x + u ! i\<bar> \<le> 5" using assms(2) by linarith
    then show ?thesis by (simp add: add_increasing)
  next
    case False
    have c': "\<bar>cost ! (p ! w - 1) ! (w - 1)\<bar> \<le> 2" using small_cost [OF assms(1) w(2), of w] False w(1) by simp
    have "\<bar>cost ! (p ! w - 1) ! (x - 1) - u ! (p ! w) - v ! x\<bar> \<le> t" "\<bar>cost ! (p ! w - 1) ! (w - 1) - u ! (p ! w) - v ! w\<bar> \<le> t"
      using x(3) w(3) False by (simp_all add: almost_def red_def)
    then have "\<bar>v ! x - v ! w\<bar> \<le> 5" using close_column [OF c c'] assms(2) by blast
    moreover have "\<bar>v ! w + u ! i\<bar> \<le> 5 * of_nat (length ys)" using IH x(2) False by blast
    ultimately show ?thesis unfolding abs_le_iff by linarith
  qed
  moreover have "\<bar>v ! k + u ! i\<bar> \<le> 5 * of_nat (length ys) + 5" if "k \<in> set (y # ys)" "k \<noteq> 0" for k
    using IH that by fastforce
  ultimately show ?case by (auto simp: algebra_simps)
qed simp

subsection \<open>The invariant of the search\<close>

text \<open>
  \<open>js\<close> are the columns in the tree, newest first, \<open>j0\<close> the column found last, \<open>t\<close> the tolerance. Columns outside the
  tree keep the potential they had when the row was started.
\<close>

definition float_inv where
  "float_inv cost i p t js j0 u v minv way used \<longleftrightarrow>
     length u = length cost + 1 \<and> length v = length cost + 1 \<and> length minv = length cost + 1 \<and>
     length way = length cost + 1 \<and> length used = length cost + 1 \<and>
     (\<forall>x \<le> length cost. used ! x \<longleftrightarrow> x \<in> set js) \<and> distinct (j0 # js) \<and> j0 \<le> length cost \<and>
     (\<forall>x \<in> set js. x \<le> length cost \<and> p ! x \<noteq> 0) \<and>
     (\<forall>j \<in> {1..length cost}. p ! j \<noteq> 0 \<longrightarrow> almost cost t u v (p ! j) j) \<and>
     (\<forall>j \<in> {1..length cost} - set js. \<bar>v ! j\<bar> \<le> 5010 \<and> (p ! j = 0 \<longrightarrow> v ! j = 0)) \<and>
     (\<forall>r \<in> {1..length cost}. i < r \<longrightarrow> u ! r = 0) \<and>
     tree_ok (almost cost t u v) p way (j0 # js) \<and>
     (if js = [] then u ! i = 0 \<and> (\<forall>x \<in> {1..length cost}. minv ! x = MaxFloat64)
      else \<forall>x \<in> {1..length cost} - set js. way ! x \<in> set js \<and> \<bar>minv ! x - red cost u v (p ! (way ! x)) x\<bar> \<le> t)"

lemma float_inv_length:
  assumes "float_inv cost i p t js j0 u v minv way used"
  shows "length js \<le> length cost"
proof -
  have "set (j0 # js) \<subseteq> {..length cost}" "distinct (j0 # js)" using assms unfolding float_inv_def by auto
  then have "length (j0 # js) \<le> card {..length cost}" by (metis card_mono distinct_card finite_atMost)
  then show ?thesis by simp
qed

lemma tree_close:
  assumes inv: "float_inv cost i p t js j0 u v minv way used" and mt: "matching (length cost) i p"
    and small: "small_costs cost" and t: "t \<le> 1 / 2" and k: "k \<in> set (j0 # js)" "k \<noteq> 0"
  shows "\<bar>v ! k + u ! i\<bar> \<le> 2500"
proof -
  have js: "\<forall>w \<in> set js. w \<le> length cost \<and> p ! w \<noteq> 0" and j0: "j0 \<le> length cost"
    and tight: "\<forall>j \<in> {1..length cost}. p ! j \<noteq> 0 \<longrightarrow> almost cost t u v (p ! j) j"
    and tree: "tree_ok (almost cost t u v) p way (j0 # js)"
    using inv unfolding float_inv_def by blast+
  have "w \<le> length cost \<and> p ! w \<in> {1..length cost} \<and> (w \<noteq> 0 \<longrightarrow> almost cost t u v (p ! w) w)" if "w \<in> set js" for w
    using that js tight matching_row [OF mt, of w] by (cases "w = 0") auto
  moreover have "p ! 0 = i" using mt by (simp add: matching_def)
  ultimately have "\<bar>v ! k + u ! i\<bar> \<le> 5 * of_nat (length js)"
    using chain_bound [OF small t _ tree j0] k by blast
  also have "5 * rat_of_nat (length js) \<le> 2500"
    using float_inv_length [OF inv] small by (simp add: small_costs_def)
  finally show ?thesis .
qed

lemma potential_bounds:
  assumes inv: "float_inv cost i p t js j0 u v minv way used" and mt: "matching (length cost) i p"
    and small: "small_costs cost" and t: "t \<le> 1 / 2" and p0: "p ! j0 \<noteq> 0"
  shows "\<And>j. j \<in> {1..length cost} \<Longrightarrow> \<bar>v ! j\<bar> \<le> 10010"
    and "\<And>k. k \<in> set (j0 # js) \<Longrightarrow> \<bar>u ! (p ! k)\<bar> \<le> 10013"
proof -
  have out: "\<And>j. j \<in> {1..length cost} - set js \<Longrightarrow> \<bar>v ! j\<bar> \<le> 5010" and j0: "j0 \<le> length cost" "j0 \<notin> set js"
    and js: "\<forall>w \<in> set js. w \<le> length cost \<and> p ! w \<noteq> 0"
    and tight: "\<And>j. j \<in> {1..length cost} \<Longrightarrow> p ! j \<noteq> 0 \<Longrightarrow> almost cost t u v (p ! j) j"
    and tree: "tree_ok (almost cost t u v) p way (j0 # js)"
    using inv unfolding float_inv_def by auto
  note close = tree_close [OF inv mt small t]
  have ui: "\<bar>u ! i\<bar> \<le> 7510"
  proof (cases "j0 = 0")
    case True
    then have "js = []" using tree by (cases js) auto
    then show ?thesis using inv by (simp add: float_inv_def)
  next
    case False
    then show ?thesis using close [of j0] out [of j0] j0 by simp
  qed
  show v: "\<bar>v ! j\<bar> \<le> 10010" if "j \<in> {1..length cost}" for j
  proof (cases "j \<in> set js")
    case True
    then show ?thesis using close [of j] ui that by simp
  next
    case False
    then show ?thesis using out [of j] that by simp
  qed
  show "\<bar>u ! (p ! k)\<bar> \<le> 10013" if k: "k \<in> set (j0 # js)" for k
  proof (cases "k = 0")
    case True
    then show ?thesis using ui mt by (simp add: matching_def)
  next
    case False
    have kn: "k \<in> {1..length cost}" "p ! k \<noteq> 0" using k js j0 p0 False by auto
    then have "p ! k \<in> {1..length cost}" using matching_row [OF mt, of k] by simp
    then have "\<bar>cost ! (p ! k - 1) ! (k - 1)\<bar> \<le> 2" using small_cost [OF small _ kn(1)] by simp
    moreover have "\<bar>cost ! (p ! k - 1) ! (k - 1) - u ! (p ! k) - v ! k\<bar> \<le> t"
      using tight [OF kn] by (simp add: almost_def red_def)
    ultimately show ?thesis using v [OF kn(1)] t unfolding abs_le_iff by linarith
  qed
qed
subsection \<open>One iteration\<close>

lemma big_max: "30000 < MaxFloat64"
  by (simp add: MaxFloat64_def)

lemma rounded_twice:
  assumes "accurate f" "\<bar>c\<bar> \<le> 2" "\<bar>a\<bar> \<le> 10013" "\<bar>b\<bar> \<le> 10010"
  shows "\<bar>f (f (c - a) - b) - (c - a - b)\<bar> \<le> 2 * rounding_error" "\<bar>f (f (c - a) - b)\<bar> \<le> 20026"
proof -
  have "\<bar>c - a\<bar> \<le> 10015" using assms(2,3) unfolding abs_le_iff by linarith
  then have 1: "\<bar>f (c - a) - (c - a)\<bar> \<le> rounding_error" by (intro rounded [OF assms(1)]) linarith
  have 2: "\<bar>f (c - a) - b\<bar> \<le> 20026 - rounding_error"
    using 1 \<open>\<bar>c - a\<bar> \<le> 10015\<close> assms(4) rounding_error_bounds(2) unfolding abs_le_iff by linarith
  then have 3: "\<bar>f (f (c - a) - b) - (f (c - a) - b)\<bar> \<le> rounding_error"
    using rounding_error_bounds(1) by (intro rounded [OF assms(1)]) linarith
  show "\<bar>f (f (c - a) - b) - (c - a - b)\<bar> \<le> 2 * rounding_error" using 1 3 unfolding abs_le_iff by linarith
  show "\<bar>f (f (c - a) - b)\<bar> \<le> 20026" using 2 3 unfolding abs_le_iff by linarith
qed

text \<open>After the scan every column outside the tree knows a parent in it and its almost exact reduced cost.\<close>

lemma float_scan:
  assumes acc: "accurate (fl rt)" and inv: "float_inv cost i p t js j0 u v minv way used" and mt: "matching (length cost) i p"
    and small: "small_costs cost" and t: "0 \<le> t" "t \<le> 1 / 2" and p0: "p ! j0 \<noteq> 0"
    and sc: "scanned (length cost + 1) (cur_of rt cost u v (p ! j0)) (used[j0 := True]) j0 minv way minv1 way1"
    and x: "x \<in> {1..length cost} - set (j0 # js)"
  shows "way1 ! x \<in> set (j0 # js)" "\<bar>minv1 ! x - red cost u v (p ! (way1 ! x)) x\<bar> \<le> t + 2 * rounding_error"
    "\<bar>red cost u v (p ! (way1 ! x)) x\<bar> \<le> 20025"
proof -
  have len: "length minv = length cost + 1" "length way = length cost + 1" "length used = length cost + 1"
    and us: "\<not> used ! x" and j0: "j0 \<le> length cost" and js: "\<forall>w \<in> set js. w \<le> length cost \<and> p ! w \<noteq> 0"
    using inv x unfolding float_inv_def by auto
  note pb = potential_bounds [OF inv mt small t(2) p0]
  have row: "p ! k \<in> {1..length cost}" if "k \<in> set (j0 # js)" for k
    using that js j0 p0 matching_row [OF mt, of k] by auto
  have red: "\<bar>red cost u v (p ! k) x\<bar> \<le> 20025" if k: "k \<in> set (j0 # js)" for k
  proof -
    have "\<bar>cost ! (p ! k - 1) ! (x - 1)\<bar> \<le> 2" using small_cost [OF small row [OF k]] x by simp
    moreover have "\<bar>v ! x\<bar> \<le> 10010" using pb(1) x by simp
    ultimately show ?thesis using pb(2) [OF k] unfolding red_def abs_le_iff by linarith
  qed
  have un: "\<not> used[j0 := True] ! x" using x us len by auto
  define cur where "cur = cur_of rt cost u v (p ! j0) x"
  have "\<bar>cost ! (p ! j0 - 1) ! (x - 1)\<bar> \<le> 2" using small_cost [OF small row] x by simp
  then have cur: "\<bar>cur - red cost u v (p ! j0) x\<bar> \<le> 2 * rounding_error" "\<bar>cur\<bar> \<le> 20026"
    using rounded_twice [OF acc, of "cost ! (p ! j0 - 1) ! (x - 1)" "u ! (p ! j0)" "v ! x"] pb(1) [of x] pb(2) [of j0] x
    unfolding cur_def cur_of_def red_def by simp_all
  have m1: "minv1 ! x = min (minv ! x) cur" and w1: "way1 ! x = (if cur < minv ! x then j0 else way ! x)"
    using sc x un len by (auto simp: scanned_def cur_def)
  have "way1 ! x \<in> set (j0 # js) \<and> \<bar>minv1 ! x - red cost u v (p ! (way1 ! x)) x\<bar> \<le> t + 2 * rounding_error"
  proof (cases "cur < minv ! x")
    case True
    then show ?thesis using m1 w1 cur(1) t(1) by (simp add: min_def)
  next
    case False
    have "js \<noteq> []"
    proof
      assume "js = []"
      then have "minv ! x = MaxFloat64" using inv x by (simp add: float_inv_def)
      then show False using False cur(2) big_max unfolding abs_le_iff by linarith
    qed
    then have "way ! x \<in> set js" "\<bar>minv ! x - red cost u v (p ! (way ! x)) x\<bar> \<le> t"
      using inv x unfolding float_inv_def by auto
    then show ?thesis using False m1 w1 rounding_error_bounds(1) by (simp add: min_def)
  qed
  then show "way1 ! x \<in> set (j0 # js)" "\<bar>minv1 ! x - red cost u v (p ! (way1 ! x)) x\<bar> \<le> t + 2 * rounding_error"
    "\<bar>red cost u v (p ! (way1 ! x)) x\<bar> \<le> 20025" using red by blast+
qed

text \<open>The shift moves tree rows up and tree columns down by \<open>delta\<close>, each with one rounding.\<close>

definition shifted_near :: "nat \<Rightarrow> nat list \<Rightarrow> nat list \<Rightarrow> rat \<Rightarrow> rat list \<Rightarrow> rat list \<Rightarrow> rat list \<Rightarrow> rat list \<Rightarrow> bool" where
  "shifted_near n p js delta u v u' v' \<longleftrightarrow>
     (\<forall>r \<le> n. if r \<in> (!) p ` set js then \<bar>u' ! r - (u ! r + delta)\<bar> \<le> rounding_error else u' ! r = u ! r) \<and>
     (\<forall>j \<in> {1..n}. if j \<in> set js then \<bar>v' ! j - (v ! j - delta)\<bar> \<le> rounding_error else v' ! j = v ! j)"

lemma red_shift_near:
  assumes "shifted_near n p js delta u v u' v'" and "r \<le> n" "j \<in> {1..n}"
  shows "\<bar>red cost u' v' r j - (red cost u v r j - (if r \<in> (!) p ` set js then delta else 0) + (if j \<in> set js then delta else 0))\<bar>
    \<le> 2 * rounding_error"
proof -
  have "\<bar>u' ! r - (u ! r + (if r \<in> (!) p ` set js then delta else 0))\<bar> \<le> rounding_error"
    "\<bar>v' ! j - (v ! j - (if j \<in> set js then delta else 0))\<bar> \<le> rounding_error"
    using assms rounding_error_bounds(1) unfolding shifted_near_def by (auto split: if_splits)
  then show ?thesis unfolding red_def abs_le_iff by linarith
qed

lemma almost_shift:
  assumes "shifted_near n p js delta u v u' v'" and "r \<le> n" "j \<in> {1..n}" and "r \<in> (!) p ` set js \<longleftrightarrow> j \<in> set js"
    and "almost cost t u v r j"
  shows "almost cost (t + 5 * rounding_error) u' v' r j"
proof -
  have "\<bar>red cost u' v' r j - red cost u v r j\<bar> \<le> 2 * rounding_error"
    using red_shift_near [OF assms(1-3), of cost] assms(4) by (cases "j \<in> set js") simp_all
  then show ?thesis using assms(5) rounding_error_bounds(1) unfolding almost_def abs_le_iff by linarith
qed

lemma shift_is_near:
  assumes acc: "accurate (fl rt)" and delta: "\<bar>delta\<bar> \<le> 20027" and v: "\<And>j. j \<in> {1..n} \<Longrightarrow> \<bar>v ! j\<bar> \<le> 10010"
    and u: "\<And>k. k \<in> set js \<Longrightarrow> \<bar>u ! (p ! k)\<bar> \<le> 10013"
    and u': "\<And>r. r \<le> n \<Longrightarrow> u' ! r = (if r \<in> (!) p ` set js then fl rt (u ! r + delta) else u ! r)"
    and v': "\<And>j. j \<le> n \<Longrightarrow> v' ! j = (if j \<in> set js then fl rt (v ! j - delta) else v ! j)"
  shows "shifted_near n p js delta u v u' v'"
  unfolding shifted_near_def
proof (intro conjI allI ballI impI)
  show "if r \<in> (!) p ` set js then \<bar>u' ! r - (u ! r + delta)\<bar> \<le> rounding_error else u' ! r = u ! r" if r: "r \<le> n" for r
  proof (cases "r \<in> (!) p ` set js")
    case True
    then have "\<bar>u ! r + delta\<bar> \<le> 65536" using u delta unfolding abs_le_iff by fastforce
    then show ?thesis using rounded [OF acc] u' [OF r] True by simp
  qed (simp add: u' [OF r])
  show "if j \<in> set js then \<bar>v' ! j - (v ! j - delta)\<bar> \<le> rounding_error else v' ! j = v ! j" if j: "j \<in> {1..n}" for j
  proof -
    have "\<bar>v ! j - delta\<bar> \<le> 65536" using v [OF j] delta unfolding abs_le_iff by linarith
    then show ?thesis using rounded [OF acc] v' [of j] j by simp
  qed
qed

text \<open>Between a row of the tree and a column outside it the shift lowers the reduced cost by \<open>delta\<close>.\<close>

lemma red_leaving:
  assumes "shifted_near n p js delta u v u' v'" and "k \<in> set js" "p ! k \<le> n" "y \<in> {1..n} - set js"
  shows "\<bar>red cost u' v' (p ! k) y - (red cost u v (p ! k) y - delta)\<bar> \<le> 2 * rounding_error"
  using red_shift_near [OF assms(1,3), of y cost] assms(2,4) by simp

lemma tree_ok_mono:
  assumes "\<And>x w. x \<in> set ks \<Longrightarrow> w \<in> set ks \<Longrightarrow> x \<noteq> 0 \<Longrightarrow> T (p ! w) x \<Longrightarrow> T' (p ! w) x"
    and "\<And>x. x \<in> set ks \<Longrightarrow> way' ! x = way ! x"
  shows "tree_ok T p way ks \<Longrightarrow> tree_ok T' p way' ks"
  using assms
proof (induction ks)
  case (Cons k ks)
  have "tree_ok T' p way' ks" using Cons by simp
  moreover have "T' (p ! (way ! k)) k" if "way ! k \<in> set ks" "k \<noteq> 0" "T (p ! (way ! k)) k"
    using Cons.prems(2) [of k "way ! k"] that by simp
  ultimately show ?case using Cons.prems(1,3) by (auto split: if_splits)
qed simp
lemma float_step:
  assumes acc: "accurate (fl rt)" and inv: "float_inv cost i p t js j0 u v minv way used" and mt: "matching (length cost) i p"
    and small: "small_costs cost" and t: "0 \<le> t" "t \<le> 1 / 2" and p0: "p ! j0 \<noteq> 0"
    and sc: "scan_cols rt cost u v (used[j0 := True]) (p ! j0) j0 minv way = (minv1, way1, delta, j1)"
    and sh: "shift_cols rt (length cost) p (used[j0 := True]) delta u v minv1 = (u', v', minv')"
  shows "\<exists>x. j1 = Some x \<and> x \<noteq> 0 \<and>
    float_inv cost i p (t + 5 * rounding_error) (j0 # js) x u' v' minv' way1 (used[j0 := True])"
proof -
  let ?n = "length cost" and ?js = "j0 # js" and ?used = "used[j0 := True]" and ?t = "t + 5 * rounding_error"
  have len: "length u = ?n + 1" "length v = ?n + 1" "length minv = ?n + 1" "length way = ?n + 1" "length used = ?n + 1"
    and us0: "\<And>x. x \<le> ?n \<Longrightarrow> used ! x \<longleftrightarrow> x \<in> set js" and dist: "distinct ?js" and j0: "j0 \<le> ?n"
    and js0: "\<forall>x \<in> set js. x \<le> ?n \<and> p ! x \<noteq> 0"
    and tight: "\<And>j. j \<in> {1..?n} \<Longrightarrow> p ! j \<noteq> 0 \<Longrightarrow> almost cost t u v (p ! j) j"
    and out: "\<And>j. j \<in> {1..?n} - set js \<Longrightarrow> \<bar>v ! j\<bar> \<le> 5010 \<and> (p ! j = 0 \<longrightarrow> v ! j = 0)"
    and later: "\<And>r. r \<in> {1..?n} \<Longrightarrow> i < r \<Longrightarrow> u ! r = 0" and tree: "tree_ok (almost cost t u v) p way ?js"
    using inv unfolding float_inv_def by auto
  have js: "\<forall>x \<in> set ?js. x \<le> ?n \<and> p ! x \<noteq> 0" using js0 j0 p0 by simp
  have us: "?used ! x \<longleftrightarrow> x \<in> set ?js" if "x \<le> ?n" for x
    using us0 [OF that] that len by (cases "x = j0") auto
  have usd: "{j. j \<le> ?n \<and> ?used ! j} = set ?js" using us js by blast
  have scd: "scanned (?n + 1) (cur_of rt cost u v (p ! j0)) ?used j0 minv way minv1 way1"
    and best: "best_so_far (?n + 1) ?used minv1 delta j1"
    using scan_cols_spec [OF refl len(3,4) sc] by auto
  have l1: "length minv1 = ?n + 1" "length way1 = ?n + 1" using scd len by (auto simp: scanned_def)
  note fs = float_scan [OF acc inv mt small t p0 scd]
  have mb: "\<bar>minv1 ! x\<bar> \<le> 20027" if "x \<in> {1..?n} - set ?js" for x
    using fs(2,3) [OF that] t(2) rounding_error_bounds(2) unfolding abs_le_iff by linarith
  obtain f where f: "f \<in> {1..?n}" "p ! f = 0" using matching_free [OF mt] by blast
  have fout: "f \<in> {1..?n} - set ?js" using f js by auto
  have "delta \<le> minv1 ! f" using best fout us [of f] by (auto simp: best_so_far_def)
  then have "delta < MaxFloat64" using mb [OF fout] big_max unfolding abs_le_iff by linarith
  then obtain x where j1: "j1 = Some x" using best by (cases j1) (auto simp: best_so_far_def)
  have x: "x \<in> {1..?n} - set ?js" "delta = minv1 ! x" using best us [of x] by (auto simp: best_so_far_def j1)
  have db: "\<bar>delta\<bar> \<le> 20027" using mb [OF x(1)] x(2) by simp
  have pl: "\<forall>j \<le> ?n. ?used ! j \<longrightarrow> p ! j \<le> ?n" using us js matching_row [OF mt] by auto
  have inj: "inj_on ((!) p) {j. j \<le> ?n \<and> ?used ! j}" by (rule matching_inj [OF mt]) (use usd js in blast)
  note sp = shift_cols_spec [OF len(1,2) l1(1) pl inj sh, unfolded usd]
  have row: "p ! k \<le> ?n" if "k \<in> set ?js" for k using that js matching_row [OF mt, of k] by auto
  have shn: "shifted_near ?n p ?js delta u v u' v'"
    by (rule shift_is_near [OF acc db potential_bounds [OF inv mt small t(2) p0]]) (use sp(4,5) us in simp_all)
  note as = almost_shift [OF shn] and leaving = red_leaving [OF shn fs(1) row [OF fs(1)]]
  have tight': "almost cost ?t u' v' (p ! j) j" if "j \<in> {1..?n}" "p ! j \<noteq> 0" for j
  proof (rule as)
    show "p ! j \<le> ?n" using matching_row [OF mt, of j] that by simp
    show "p ! j \<in> (!) p ` set ?js \<longleftrightarrow> j \<in> set ?js"
      using matching_inj [OF mt order_refl] js that by (auto simp: inj_on_def)
  qed (use that tight in auto)
  have "tree_ok (almost cost ?t u' v') p way1 ?js"
  proof (rule tree_ok_mono [OF _ _ tree])
    show "almost cost ?t u' v' (p ! w) k" if "k \<in> set ?js" "w \<in> set ?js" "k \<noteq> 0" "almost cost t u v (p ! w) k" for k w
      by (rule as) (use that js row [of w] in auto)
    show "way1 ! k = way ! k" if "k \<in> set ?js" for k using scd that us js len by (auto simp: scanned_def)
  qed
  moreover have fr': "\<bar>minv' ! y - red cost u' v' (p ! (way1 ! y)) y\<bar> \<le> ?t" if y: "y \<in> {1..?n} - set ?js" for y
  proof -
    have "\<bar>minv1 ! y - delta\<bar> \<le> 65536" using mb [OF y] db unfolding abs_le_iff by linarith
    then have "\<bar>minv' ! y - (minv1 ! y - delta)\<bar> \<le> rounding_error" using rounded [OF acc] sp(6) [of y] us [of y] y by simp
    then show ?thesis using leaving [OF y y y, of cost] fs(2) [OF y] unfolding abs_le_iff by linarith
  qed
  moreover have "almost cost ?t u' v' (p ! (way1 ! x)) x"
    using leaving [OF x(1) x(1) x(1), of cost] fs(2) [OF x(1)] rounding_error_bounds(1) unfolding x(2) almost_def abs_le_iff by linarith
  ultimately have tr: "tree_ok (almost cost ?t u' v') p way1 (x # ?js)" using fs(1) [OF x(1)] x(1) by simp
  have "\<bar>v' ! j\<bar> \<le> 5010 \<and> (p ! j = 0 \<longrightarrow> v' ! j = 0)" if "j \<in> {1..?n} - set ?js" for j
    using out [of j] sp(5) [of j] us [of j] that by simp
  moreover have "u' ! r = 0" if "r \<in> {1..?n}" "i < r" for r
  proof -
    have "r \<notin> (!) p ` set ?js" using js matching_row [OF mt] that(2) by fastforce
    then show ?thesis using sp(4) [of r] later that by simp
  qed
  ultimately have "float_inv cost i p ?t ?js x u' v' minv' way1 ?used"
    unfolding float_inv_def using sp(1-3) l1(2) len(5) us dist x(1) js tight' tr fs(1) fr' by simp
  then show ?thesis using j1 x(1) by auto
qed
subsection \<open>The whole search, and all rows\<close>

lemma float_path:
  assumes acc: "accurate (fl rt)" and mt: "matching (length cost) i p" and small: "small_costs cost"
  shows "float_inv cost i p t js j0 u v minv way used \<Longrightarrow> p ! j0 \<noteq> 0 \<Longrightarrow> 0 \<le> t \<Longrightarrow>
    t + 5 * rounding_error * of_nat (length cost + 1 - iter) \<le> 1 / 2 \<Longrightarrow> iter = length js \<Longrightarrow>
    \<exists>x u' v' way' t' js' minv' used'. hung_path rt cost p iter j0 u v minv way used = Some (x, u', v', way') \<and>
      p ! x = 0 \<and> x \<noteq> 0 \<and> t' \<le> t + 5 * rounding_error * of_nat (length cost + 1 - iter) \<and>
      0 \<le> t' \<and> float_inv cost i p t' js' x u' v' minv' way' used'"
proof (induction "length cost + 1 - iter" arbitrary: iter t js j0 u v minv way used rule: less_induct)
  case less
  let ?n = "length cost" and ?e = rounding_error
  have it: "iter \<le> ?n" using float_inv_length [OF less.prems(1)] less.prems(5) by simp
  have e: "0 \<le> ?e" using rounding_error_bounds(1) by simp
  have step_t: "5 * ?e * of_nat (?n + 1 - iter) = 5 * ?e + 5 * ?e * of_nat (?n + 1 - (iter + 1))"
    using it by (simp add: of_nat_diff algebra_simps)
  have "0 \<le> 5 * ?e * rat_of_nat (?n + 1 - iter)" using e by simp
  then have t2: "t \<le> 1 / 2" using less.prems(4) by linarith
  obtain minv1 way1 delta j1 where sc:
    "scan_cols rt cost u v (used[j0 := True]) (p ! j0) j0 minv way = (minv1, way1, delta, j1)" by (metis prod_cases4)
  obtain u1 v1 minv2 where sh: "shift_cols rt ?n p (used[j0 := True]) delta u v minv1 = (u1, v1, minv2)" by (metis prod_cases3)
  obtain x where x: "j1 = Some x" "x \<noteq> 0" and inv: "float_inv cost i p (t + 5 * ?e) (j0 # js) x u1 v1 minv2 way1 (used[j0 := True])"
    using float_step [OF acc less.prems(1) mt small less.prems(3) t2 less.prems(2) sc sh] by blast
  have step: "hung_path rt cost p iter j0 u v minv way used =
      (if p ! x = 0 then Some (x, u1, v1, way1)
       else hung_path rt cost p (iter + 1) x u1 v1 minv2 way1 (used[j0 := True]))"
    using it by (simp add: hung_path.simps [of rt cost p iter] Let_def sc sh x(1))
  have le: "t + 5 * ?e \<le> t + 5 * ?e * of_nat (?n + 1 - iter)" unfolding step_t using e by simp
  show ?case
  proof (cases "p ! x = 0")
    case True
    then have "hung_path rt cost p iter j0 u v minv way used = Some (x, u1, v1, way1)" using step by simp
    moreover have "0 \<le> t + 5 * ?e" using less.prems(3) e by simp
    ultimately show ?thesis using True x(2) inv le by blast
  next
    case False
    have lt: "?n + 1 - (iter + 1) < ?n + 1 - iter" using it by simp
    have t3: "(t + 5 * ?e) + 5 * ?e * of_nat (?n + 1 - (iter + 1)) = t + 5 * ?e * of_nat (?n + 1 - iter)"
      unfolding step_t by simp
    have "hung_path rt cost p iter j0 u v minv way used = hung_path rt cost p (iter + 1) x u1 v1 minv2 way1 (used[j0 := True])"
      using step False by simp
    then show ?thesis
      using less.hyps [OF lt inv False] less.prems(3-5) e unfolding t3 by simp
  qed
qed

definition rows_near :: "rat list list \<Rightarrow> rat \<Rightarrow> nat \<Rightarrow> rat list \<Rightarrow> rat list \<Rightarrow> nat list \<Rightarrow> bool" where
  "rows_near cost t i u v p \<longleftrightarrow>
     length p = length cost + 1 \<and> length u = length cost + 1 \<and> length v = length cost + 1 \<and>
     bij_betw ((!) p) {j \<in> {1..length cost}. p ! j \<noteq> 0} {1..<i} \<and>
     (\<forall>j \<in> {1..length cost}. p ! j \<noteq> 0 \<longrightarrow> almost cost t u v (p ! j) j) \<and>
     (\<forall>j \<in> {1..length cost}. \<bar>v ! j\<bar> \<le> 5010 \<and> (p ! j = 0 \<longrightarrow> v ! j = 0)) \<and>
     (\<forall>r \<in> {1..length cost}. i \<le> r \<longrightarrow> u ! r = 0)"

lemma float_inv_start:
  assumes "rows_near cost t i u v p" and "1 \<le> i" "i \<le> length cost" and "length way = length cost + 1"
  shows "float_inv cost i (p[0 := i]) t [] 0 u v (replicate (length cost + 1) MaxFloat64) way (replicate (length cost + 1) False)"
  using assms unfolding float_inv_def rows_near_def by (simp add: nth_Cons' del: replicate_Suc)

text \<open>The free column pins the root's potential, and with it those of the tree.\<close>

lemma float_inv_end:
  assumes inv: "float_inv cost i p t js x u v minv way used" and mt: "matching (length cost) i p" and small: "small_costs cost"
    and t: "t \<le> 1 / 2" and x: "p ! x = 0" "x \<noteq> 0" and j: "j \<in> {1..length cost}"
  shows "\<bar>v ! j\<bar> \<le> 5010"
proof (cases "j \<in> set js")
  case True
  have "x \<in> {1..length cost} - set js" using inv x(2) unfolding float_inv_def by auto
  then have "v ! x = 0" using inv x(1) unfolding float_inv_def by blast
  then have "\<bar>u ! i\<bar> \<le> 2500" using tree_close [OF inv mt small t, of x] x(2) by simp
  moreover have "\<bar>v ! j + u ! i\<bar> \<le> 2500" using tree_close [OF inv mt small t, of j] True j by simp
  ultimately show ?thesis unfolding abs_le_iff by linarith
next
  case False
  then show ?thesis using inv j unfolding float_inv_def by blast
qed

lemma float_row:
  assumes acc: "accurate (fl rt)" and small: "small_costs cost" and ok: "rows_near cost t i u v p"
    and i: "1 \<le> i" "i \<le> length cost" and way: "length way = length cost + 1"
    and t: "0 \<le> t" "t + 5 * rounding_error * of_nat (length cost + 1) \<le> 1 / 2"
  shows "\<exists>u' v' p' way' t'. hung_row rt cost i (u, v, p, way) = Some (u', v', p', way') \<and> 0 \<le> t' \<and>
    t' \<le> t + 5 * rounding_error * of_nat (length cost + 1) \<and> rows_near cost t' (i + 1) u' v' p' \<and> length way' = length cost + 1"
proof -
  let ?n = "length cost" and ?p = "p[0 := i]"
  have mt: "matching ?n i ?p" by (rule matching_start) (use ok i in \<open>simp_all add: rows_near_def\<close>)
  have p0: "?p ! 0 = i" using mt by (simp add: matching_def)
  obtain x u' v' way' t' js minv' used' where path: "hung_path rt cost ?p 0 0 u v (replicate (?n + 1) MaxFloat64) way
        (replicate (?n + 1) False) = Some (x, u', v', way')"
    and x: "?p ! x = 0" "x \<noteq> 0" and t': "t' \<le> t + 5 * rounding_error * of_nat (?n + 1)" "0 \<le> t'"
    and inv: "float_inv cost i ?p t' js x u' v' minv' way' used'"
    using float_path [OF acc mt small float_inv_start [OF ok i way] _ t(1)] t(2) i(1) p0 by auto
  have t2: "t' \<le> 1 / 2" using t'(1) t(2) by simp
  have xn: "x \<in> {1..?n}" and js: "\<forall>y \<in> set js. y \<le> ?n \<and> ?p ! y \<noteq> 0" and lens: "length u' = ?n + 1" "length v' = ?n + 1" "length way' = ?n + 1"
    and tight: "\<forall>j \<in> {1..?n}. ?p ! j \<noteq> 0 \<longrightarrow> almost cost t' u' v' (?p ! j) j"
    and free: "\<forall>j \<in> {1..?n} - set js. ?p ! j = 0 \<longrightarrow> v' ! j = 0" and later: "\<forall>r \<in> {1..?n}. i < r \<longrightarrow> u' ! r = 0"
    and tree: "tree_ok (almost cost t' u' v') ?p way' (x # js)" "distinct (x # js)"
    using inv x(2) unfolding float_inv_def by auto
  let ?M = "{j. j \<le> ?n \<and> ?p ! j \<noteq> 0}" and ?S = "insert x {j. j \<le> ?n \<and> ?p ! j \<noteq> 0}"
  have SM: "?S - {x} = ?M" using x(1) by auto
  have "bij_betw ((!) ?p) (?S - {x}) {1..i}" "length ?p = ?n + 1"
    unfolding SM using mt by (simp_all add: matching_def)
  moreover have "\<forall>y \<in> ?S - {x} - {0}. almost cost t' u' v' (?p ! y) y"
  proof
    fix y assume "y \<in> ?S - {x} - {0}"
    then have "y \<in> {1..?n}" "?p ! y \<noteq> 0" unfolding SM by auto
    then show "almost cost t' u' v' (?p ! y) y" using tight by blast
  qed
  moreover have "set (x # js) \<subseteq> ?S" "?S \<subseteq> {..?n}" using js xn by auto
  ultimately obtain p' where aug: "augment way' ?p x = Some p'" and len: "length p' = ?n + 1"
    and bij: "bij_betw ((!) p') (?S - {0}) {1..i}" and tight': "\<forall>y \<in> ?S - {0}. almost cost t' u' v' (p' ! y) y"
    and out: "\<forall>y. y \<notin> ?S \<longrightarrow> p' ! y = ?p ! y"
    using augment_correct [OF tree, of ?S ?n "{1..i}"] by blast
  have nz: "p' ! y \<noteq> 0" if "y \<in> ?S - {0}" for y using bij_betw_apply [OF bij that] by simp
  have S: "{j \<in> {1..?n}. p' ! j \<noteq> 0} = ?S - {0}" using nz out xn by (auto simp: Suc_le_eq)
  have "v' ! j = 0" if "j \<in> {1..?n}" "p' ! j = 0" for j
  proof -
    have "?p ! j = 0" "j \<notin> set js" using nz [of j] that js by auto
    then show ?thesis using free that(1) by simp
  qed
  moreover have "{1..<i + 1} = {1..i}" by auto
  moreover have "almost cost t' u' v' (p' ! j) j" if "j \<in> {1..?n}" "p' ! j \<noteq> 0" for j using tight' S that by blast
  ultimately have "rows_near cost t' (i + 1) u' v' p'"
    unfolding rows_near_def S using len lens bij later float_inv_end [OF inv mt small t2 x] by (simp add: Suc_le_eq)
  then show ?thesis using path aug lens t' by (auto simp: hung_row_def Let_def)
qed

lemma float_rows:
  assumes acc: "accurate (fl rt)" and small: "small_costs cost"
  shows "rows_near cost t i u v p \<Longrightarrow> length way = length cost + 1 \<Longrightarrow> 1 \<le> i \<Longrightarrow> i \<le> length cost + 1 \<Longrightarrow> 0 \<le> t \<Longrightarrow>
    t + 5 * rounding_error * of_nat ((length cost + 1 - i) * (length cost + 1)) \<le> 1 / 2 \<Longrightarrow>
    \<exists>u' v' p' way' t'. hung_rows rt cost [i..<length cost + 1] (u, v, p, way) = Some (u', v', p', way') \<and>
      rows_near cost t' (length cost + 1) u' v' p'"
proof (induction "length cost + 1 - i" arbitrary: i t u v p way)
  case 0
  then have "i = length cost + 1" by simp
  with 0 show ?case by auto
next
  case (Suc k)
  let ?n = "length cost" and ?e = rounding_error
  have i: "i \<le> ?n" using Suc(2) by simp
  have e: "0 \<le> ?e" using rounding_error_bounds(1) by simp
  have "?n + 1 - i = Suc (?n + 1 - (i + 1))" using i by simp
  then have split: "5 * ?e * of_nat ((?n + 1 - i) * (?n + 1)) =
      5 * ?e * of_nat (?n + 1) + 5 * ?e * of_nat ((?n + 1 - (i + 1)) * (?n + 1))"
    by (simp only: mult_Suc of_nat_add distrib_left)
  have nonneg: "0 \<le> 5 * ?e * rat_of_nat ((?n + 1 - (i + 1)) * (?n + 1))" using e by simp
  have t1: "t + 5 * ?e * of_nat (?n + 1) \<le> 1 / 2" using Suc.prems(6) nonneg unfolding split by linarith
  obtain u1 v1 p1 way1 t1 where row: "hung_row rt cost i (u, v, p, way) = Some (u1, v1, p1, way1)" "0 \<le> t1"
    "t1 \<le> t + 5 * ?e * of_nat (?n + 1)" "rows_near cost t1 (i + 1) u1 v1 p1" "length way1 = ?n + 1"
    using float_row [OF acc small Suc.prems(1,3) i Suc.prems(2,5) t1] by blast
  have "t1 + 5 * ?e * of_nat ((?n + 1 - (i + 1)) * (?n + 1)) \<le> 1 / 2"
    using row(3) Suc.prems(6) unfolding split by linarith
  moreover have "[i..<?n + 1] = i # [i + 1..<?n + 1]" using i by (simp add: upt_conv_Cons)
  ultimately show ?case using Suc.hyps(1) [OF _ row(4,5) _ _ row(2)] Suc.hyps(2) i row(1) by simp
qed

lemma hungarian_float:
  assumes acc: "accurate (fl rt)" and small: "small_costs cost" and sq: "\<forall>row \<in> set cost. length row = length cost"
  shows "\<exists>a. hungarian rt cost = Some a \<and> mset a = mset [0..<length cost]"
proof (cases "length cost = 0")
  case True
  then show ?thesis by (simp add: hungarian_def)
next
  case False
  let ?n = "length cost" and ?z = "replicate (length cost + 1) 0"
  have n: "?n \<le> 500" using small by (simp add: small_costs_def)
  have z: "replicate (?n + 1) (0 :: rat) ! j = 0" "replicate (?n + 1) (0 :: nat) ! j = 0" if "j \<le> ?n" for j
    using that by (auto simp del: replicate_Suc)
  have none: "{j \<in> {1..?n}. replicate (?n + 1) (0 :: nat) ! j \<noteq> 0} = {}" using z by (auto simp del: replicate_Suc)
  have start: "rows_near cost 0 1 ?z ?z ?z"
    unfolding rows_near_def none using z by (simp add: bij_betw_def del: replicate_Suc)
  have "?n * (?n + 1) \<le> 500 * 501" using n by (intro mult_mono) simp_all
  then have "?n * (?n + 1) \<le> 251001" by linarith
  then have "rat_of_nat (?n * (?n + 1)) \<le> rat_of_nat 251001" by (simp only: of_nat_le_iff)
  then have "rat_of_nat (?n * (?n + 1)) \<le> 251001" by (simp only: of_nat_numeral)
  then have "5 * rounding_error * of_nat (?n * (?n + 1)) \<le> 5 * rounding_error * 251001"
    using rounding_error_bounds(1) by (intro mult_left_mono) simp_all
  also have "\<dots> \<le> 1 / 2" by (rule rounding_error_bounds(3))
  finally have "0 + 5 * rounding_error * of_nat ((?n + 1 - 1) * (?n + 1)) \<le> 1 / 2" by simp
  then obtain u v p way t where rows: "hung_rows rt cost [1..<?n + 1] (?z, ?z, ?z, ?z) = Some (u, v, p, way)"
    and ok: "rows_near cost t (?n + 1) u v p"
    using float_rows [OF acc small start, of ?z] by fastforce
  have h: "hungarian rt cost = Some (read_assign ?n p)"
    using False n sq rows by (simp add: hungarian_def Let_def maxHungarianN_def list_all_iff del: replicate_Suc)
  have "{1..<?n + 1} = {1..?n}" by auto
  then have bij: "bij_betw ((!) p) {j \<in> {1..?n}. p ! j \<noteq> 0} {1..?n}" using ok by (simp add: rows_near_def)
  have "card {j \<in> {1..?n}. p ! j \<noteq> 0} = card {1..?n}" using bij_betw_same_card [OF bij] .
  then have "{j \<in> {1..?n}. p ! j \<noteq> 0} = {1..?n}" by (intro card_subset_eq) auto
  then show ?thesis using read_assign_perm(2) bij h by auto
qed

subsection \<open>The assignment contract\<close>

text \<open>What the grouping pass relies on: an assignment of distinct columns, in range.\<close>

definition one_to_one :: "nat \<Rightarrow> nat \<Rightarrow> nat option list \<Rightarrow> bool" where
  "one_to_one rows cols a \<longleftrightarrow> length a = rows \<and> (\<forall>r < rows. \<forall>c. a ! r = Some c \<longrightarrow> c < cols) \<and>
     (\<forall>r < rows. \<forall>s < rows. \<forall>c. a ! r = Some c \<longrightarrow> a ! s = Some c \<longrightarrow> r = s)"

locale assignment_solver =
  fixes solve :: "nat \<Rightarrow> nat \<Rightarrow> (nat \<Rightarrow> nat \<Rightarrow> rat) \<Rightarrow> nat option list option" and limit :: nat
  assumes solves: "rows \<le> limit \<Longrightarrow> cols \<le> limit \<Longrightarrow> \<forall>r < rows. \<forall>c < cols. - 1 \<le> cost r c \<and> cost r c \<le> 1 \<Longrightarrow>
    \<exists>a. solve rows cols cost = Some a \<and> one_to_one rows cols a"

lemma argmin_loop_in: "argmin_loop f is best b = b \<or> argmin_loop f is best b \<in> set is"
  by (induction f "is" best b rule: argmin_loop.induct) auto

lemma argmin_bound: "0 < n \<Longrightarrow> argmin_loop f [1..<n] best 0 < n"
  using argmin_loop_in [of f "[1..<n]" best 0] by auto

lemma one_to_one_single: "r < rows \<Longrightarrow> c < cols \<Longrightarrow> one_to_one rows cols ((replicate rows None)[r := Some c])"
  by (auto simp: one_to_one_def nth_list_update split: if_splits)

lemma one_to_one_perm:
  assumes "mset full = mset [0..<n]" "rows \<le> n"
  shows "one_to_one rows cols (map (\<lambda>r. if full ! r < cols then Some (full ! r) else None) [0..<rows])"
proof -
  have "distinct full" "length full = n"
    using assms(1) by (metis distinct_upt mset_eq_imp_distinct_iff, metis length_upt minus_nat.diff_0 size_mset)
  then show ?thesis
    using assms(2) by (auto simp: one_to_one_def nth_eq_iff_index_eq)
qed

lemma hungarianAssign_correct:
  assumes acc: "accurate (fl rt)" and lim: "rows \<le> maxHungarianN" "cols \<le> maxHungarianN"
    and cost: "\<forall>r < rows. \<forall>c < cols. - 1 \<le> cost r c \<and> cost r c \<le> 1"
  shows "\<exists>a. hungarianAssign rt rows cols cost = Some a \<and> one_to_one rows cols a"
proof -
  consider "rows = 0 \<or> cols = 0" | "rows = 1" "cols \<noteq> 0" | "rows \<noteq> 0" "rows \<noteq> 1" "cols = 1"
    | "rows \<noteq> 0" "rows \<noteq> 1" "cols \<noteq> 0" "cols \<noteq> 1" by blast
  then show ?thesis
  proof cases
    case 1
    then show ?thesis by (auto simp: hungarianAssign_def one_to_one_def)
  next
    case 2
    then show ?thesis
      using one_to_one_single [of 0 1 _ cols] argmin_bound [of cols "cost 0" "cost 0 0"] by (simp add: hungarianAssign_def)
  next
    case 3
    then show ?thesis
      using one_to_one_single [of _ rows 0 1] argmin_bound [of rows "\<lambda>r. cost r 0" "cost 0 0"]
      by (simp add: hungarianAssign_def)
  next
    case 4
    define n where "n = (if cols > rows then cols else rows)"
    define sq where "sq = map (\<lambda>r. map (\<lambda>c. if r < rows \<and> c < cols then cost r c else noMatchSentinel) [0..<n]) [0..<n]"
    have len: "length sq = n" "\<forall>row \<in> set sq. length row = length sq" by (auto simp: sq_def)
    have "small_costs sq"
      unfolding small_costs_def
    proof (intro conjI allI impI)
      show "length sq \<le> 500" using lim by (simp add: len n_def maxHungarianN_def)
      fix r c assume "r < length sq" "c < length sq"
      then have "sq ! r ! c = (if r < rows \<and> c < cols then cost r c else 2)"
        by (simp add: len sq_def noMatchSentinel_def)
      moreover have "\<bar>cost r c\<bar> \<le> 2" if "r < rows" "c < cols" using cost that unfolding abs_le_iff by fastforce
      ultimately show "\<bar>sq ! r ! c\<bar> \<le> 2" by simp
    qed
    then obtain full where full: "hungarian rt sq = Some full" "mset full = mset [0..<n]"
      using hungarian_float [OF acc _ len(2)] by (auto simp: len(1))
    have "hungarianAssign rt rows cols cost = Some (map (\<lambda>r. if full ! r < cols then Some (full ! r) else None) [0..<rows])"
      using 4 full(1) by (simp add: hungarianAssign_def Let_def n_def [symmetric] sq_def [symmetric])
    moreover have "rows \<le> n" by (simp add: n_def)
    ultimately show ?thesis using one_to_one_perm [OF full(2)] by blast
  qed
qed

lemma float_solver: "accurate (fl rt) \<Longrightarrow> assignment_solver (hungarianAssign rt) maxHungarianN"
  by unfold_locales (rule hungarianAssign_correct)

interpretation float_hungarian: assignment_solver "hungarianAssign go_runtime" maxHungarianN
  by (rule float_solver) (rule accurate_runtimes)

interpretation exact_hungarian: assignment_solver "hungarianAssign exact_runtime" maxHungarianN
  by (rule float_solver) (rule accurate_runtimes)

end
