(* ===== verification/Bipartite.thy ===== *)
theory Bipartite
  imports HungarianFloat
begin

text \<open>
  \<^verbatim>\<open>bipartiteGroups\<close> of \<^verbatim>\<open>reconcile/bipartite.go\<close>: the findings of a location cluster, as indices, are
  matched source by source against the groups built so far. The solver is an argument of
  \<open>bipartite_with\<close>; the code runs it with \<^verbatim>\<open>hungarianAssign\<close>. The groups are shown to be a partition of
  the indices with at most one member per source, any two members mergeable, in normal order.
\<close>

subsection \<open>Definitions\<close>

type_synonym solver = "nat \<Rightarrow> nat \<Rightarrow> (nat \<Rightarrow> nat \<Rightarrow> rat) \<Rightarrow> nat option list option"

definition bySource :: "string list \<Rightarrow> string \<Rightarrow> nat list" where
  "bySource srcKeys s = filter (\<lambda>i. srcKeys ! i = s) [0..<length srcKeys]"

definition link_cost :: "rat list list \<Rightarrow> nat list \<Rightarrow> nat \<Rightarrow> rat" where
  "link_cost dmat members cand =
     fold (\<lambda>gi m. if dmat ! gi ! cand < m then dmat ! gi ! cand else m) members distanceCeiling"

definition join_row ::
  "(nat \<Rightarrow> nat \<Rightarrow> bool) \<Rightarrow> nat list \<Rightarrow> nat option list \<Rightarrow> nat \<Rightarrow> nat list list \<times> bool list \<Rightarrow> nat list list \<times> bool list" where
  "join_row mergeable cands assign r st =
     (case st of (groups, used) \<Rightarrow>
        case assign ! r of
          None \<Rightarrow> (groups, used)
        | Some c \<Rightarrow>
            if list_all (\<lambda>gi. mergeable gi (cands ! c)) (groups ! r)
            then (groups[r := groups ! r @ [cands ! c]], used[c := True])
            else (groups, used))"

definition join_source ::
  "solver \<Rightarrow> rat list list \<Rightarrow> (nat \<Rightarrow> nat \<Rightarrow> bool) \<Rightarrow> nat list \<Rightarrow> nat list list \<Rightarrow> nat list list option" where
  "join_source solve dmat mergeable cands groups =
     (if groups = [] then Some (map (\<lambda>c. [c]) cands)
      else case solve (length groups) (length cands) (\<lambda>r c. link_cost dmat (groups ! r) (cands ! c)) of
             None \<Rightarrow> None
           | Some assign \<Rightarrow>
               let (groups, used) =
                 fold (join_row mergeable cands assign) [0..<length assign] (groups, replicate (length cands) False)
               in Some (groups @ map (\<lambda>ci. [cands ! ci]) (filter (\<lambda>ci. \<not> used ! ci) [0..<length cands])))"

fun join_sources ::
  "solver \<Rightarrow> string list \<Rightarrow> rat list list \<Rightarrow> (nat \<Rightarrow> nat \<Rightarrow> bool) \<Rightarrow> string list \<Rightarrow> nat list list \<Rightarrow> nat list list option" where
  "join_sources solve srcKeys dmat mergeable [] groups = Some groups"
| "join_sources solve srcKeys dmat mergeable (s # order) groups =
     (case join_source solve dmat mergeable (bySource srcKeys s) groups of
        None \<Rightarrow> None
      | Some groups \<Rightarrow> join_sources solve srcKeys dmat mergeable order groups)"

definition normalize_groups :: "nat list list \<Rightarrow> nat list list" where
  "normalize_groups groups = sort_key hd (map sort groups)"

definition bipartite_with ::
  "solver \<Rightarrow> string list \<Rightarrow> rat list list \<Rightarrow> (nat \<Rightarrow> nat \<Rightarrow> bool) \<Rightarrow> nat list list option" where
  "bipartite_with solve srcKeys dmat mergeable =
     map_option normalize_groups (join_sources solve srcKeys dmat mergeable (sort (distinct_keys srcKeys)) [])"

definition bipartiteGroups ::
  "runtime \<Rightarrow> string list \<Rightarrow> rat list list \<Rightarrow> (nat \<Rightarrow> nat \<Rightarrow> bool) \<Rightarrow> nat list list option" where
  "bipartiteGroups rt = bipartite_with (hungarianAssign rt)"

subsection \<open>Joining one source\<close>

lemma mset_concat_update:
  assumes "r < length G"
  shows "mset (concat (G[r := G ! r @ [x]])) = mset (concat G) + {#x#}"
proof -
  have "G = take r G @ G ! r # drop (Suc r) G" using assms by (rule id_take_nth_drop)
  moreover have "G[r := G ! r @ [x]] = take r G @ (G ! r @ [x]) # drop (Suc r) G"
    using assms by (rule upd_conv_take_nth_drop)
  moreover have "mset (concat (take r G @ (G ! r @ [x]) # drop (Suc r) G)) =
      mset (concat (take r G @ G ! r # drop (Suc r) G)) + {#x#}" by simp
  ultimately show ?thesis by metis
qed

lemma mset_filter_update:
  assumes "c < length used" "\<not> used ! c"
  shows "mset (map f (filter (\<lambda>i. used[c := True] ! i) [0..<length used])) =
    mset (map f (filter (\<lambda>i. used ! i) [0..<length used])) + {#f c#}"
proof -
  let ?n = "length used"
  have split: "[0..<?n] = [0..<c] @ c # [Suc c..<?n]"
    using assms(1) by (metis add_0 le_add_diff_inverse less_imp_le_nat upt_add_eq_append upt_conv_Cons zero_le)
  have "filter (\<lambda>i. used[c := True] ! i) [0..<c] = filter (\<lambda>i. used ! i) [0..<c]"
    "filter (\<lambda>i. used[c := True] ! i) [Suc c..<?n] = filter (\<lambda>i. used ! i) [Suc c..<?n]"
    by (auto intro!: filter_cong)
  then show ?thesis unfolding split using assms by simp
qed

lemma mset_used_split: "mset (map f (filter P xs)) + mset (map f (filter (\<lambda>x. \<not> P x) xs)) = mset (map f xs)"
  by (induction xs) auto

text \<open>The invariant of a group: its members come from different sources and are all mergeable.\<close>

definition coherent :: "string list \<Rightarrow> (nat \<Rightarrow> nat \<Rightarrow> bool) \<Rightarrow> nat list \<Rightarrow> bool" where
  "coherent srcKeys mergeable g \<longleftrightarrow>
     g \<noteq> [] \<and> (\<forall>a \<in> set g. \<forall>b \<in> set g. a \<noteq> b \<longrightarrow> srcKeys ! a \<noteq> srcKeys ! b \<and> mergeable a b)"

lemma coherent_single: "coherent srcKeys mergeable [i]"
  by (simp add: coherent_def)

lemma coherent_join:
  assumes "coherent srcKeys mergeable g" "\<forall>a \<in> set g. srcKeys ! a \<noteq> srcKeys ! c" "\<forall>a \<in> set g. mergeable a c"
    and "symp mergeable"
  shows "coherent srcKeys mergeable (g @ [c])"
  using assms unfolding coherent_def by (auto dest: sympD)

definition grouped ::
  "string list \<Rightarrow> (nat \<Rightarrow> nat \<Rightarrow> bool) \<Rightarrow> string set \<Rightarrow> nat list list \<Rightarrow> bool" where
  "grouped srcKeys mergeable S groups \<longleftrightarrow>
     list_all (coherent srcKeys mergeable) groups \<and> (\<forall>i \<in> set (concat groups). srcKeys ! i \<in> S)"

lemma join_rows_coherent:
  assumes sym: "symp mergeable" and c: "\<forall>c < length cands. srcKeys ! (cands ! c) = s" and s: "s \<notin> S"
    and rng: "\<forall>r < m. \<forall>c. assign ! r = Some c \<longrightarrow> c < length cands"
    and ok: "grouped srcKeys mergeable S groups" and m: "m \<le> length groups"
    and fd: "fold (join_row mergeable cands assign) [0..<m] (groups, used) = (groups', used')"
  shows "length groups' = length groups \<and> (\<forall>r. m \<le> r \<longrightarrow> groups' ! r = groups ! r) \<and>
    grouped srcKeys mergeable (insert s S) groups'"
  using rng m fd
proof (induction m arbitrary: groups' used')
  case 0
  then show ?case using ok by (auto simp: grouped_def)
next
  case (Suc m)
  obtain G U where st: "fold (join_row mergeable cands assign) [0..<m] (groups, used) = (G, U)" by fastforce
  have IH: "length G = length groups" "\<And>r. m \<le> r \<Longrightarrow> G ! r = groups ! r" "grouped srcKeys mergeable (insert s S) G"
    using Suc.IH [OF _ _ st] Suc.prems(1,2) less_SucI by (meson Suc_leD)+
  have eq: "(groups', used') = join_row mergeable cands assign m (G, U)" using Suc.prems(3) st by simp
  show ?case
  proof (cases "groups' = G")
    case True
    then show ?thesis using IH by simp
  next
    case False
    then obtain c where a: "assign ! m = Some c" and all: "list_all (\<lambda>gi. mergeable gi (cands ! c)) (G ! m)"
      and g': "groups' = G[m := G ! m @ [cands ! c]]"
      using eq by (auto simp: join_row_def split: option.splits if_splits)
    have cl: "c < length cands" using Suc.prems(1) a by blast
    have gm: "G ! m = groups ! m" "groups ! m \<in> set groups" using IH(2) Suc.prems(2) by auto
    then have src: "\<forall>x \<in> set (G ! m). srcKeys ! x \<in> S" and coh: "coherent srcKeys mergeable (G ! m)"
      using ok by (auto simp: grouped_def list_all_iff)
    have "coherent srcKeys mergeable (G ! m @ [cands ! c])"
      by (rule coherent_join [OF coh _ _ sym]) (use src s c cl all in \<open>auto simp: list_all_iff\<close>)
    moreover have "set groups' \<subseteq> insert (G ! m @ [cands ! c]) (set G)" using g' by (simp add: set_update_subset_insert)
    ultimately have "list_all (coherent srcKeys mergeable) groups'"
      using IH(3) by (auto simp: grouped_def list_all_iff)
    moreover have "\<forall>i \<in> set (concat groups'). srcKeys ! i \<in> insert s S"
      using \<open>set groups' \<subseteq> _\<close> IH(3) src c cl by (fastforce simp: grouped_def)
    ultimately show ?thesis using IH g' by (auto simp: grouped_def)
  qed
qed

lemma join_rows_mset:
  assumes inj: "one_to_one (length groups) (length cands) assign" and m: "m \<le> length groups"
    and fd: "fold (join_row mergeable cands assign) [0..<m] (groups, replicate (length cands) False) = (groups', used')"
  shows "length groups' = length groups \<and> length used' = length cands \<and>
    (\<forall>c < length cands. used' ! c \<longrightarrow> (\<exists>r < m. assign ! r = Some c)) \<and>
    mset (concat groups') =
      mset (concat groups) + mset (map ((!) cands) (filter (\<lambda>c. used' ! c) [0..<length cands]))"
  using m fd
proof (induction m arbitrary: groups' used')
  case 0
  have "filter (\<lambda>c. replicate (length cands) False ! c) [0..<length cands] = []" by (simp add: filter_empty_conv)
  with 0 show ?case by auto
next
  case (Suc m)
  obtain G U where st: "fold (join_row mergeable cands assign) [0..<m] (groups, replicate (length cands) False) = (G, U)"
    by fastforce
  have IH: "length G = length groups" "length U = length cands"
    "\<And>c. c < length cands \<Longrightarrow> U ! c \<Longrightarrow> \<exists>r < m. assign ! r = Some c"
    "mset (concat G) = mset (concat groups) + mset (map ((!) cands) (filter (\<lambda>c. U ! c) [0..<length cands]))"
    using Suc.IH [OF _ st] Suc.prems(1) by auto
  have eq: "(groups', used') = join_row mergeable cands assign m (G, U)" using Suc.prems(2) st by simp
  show ?case
  proof (cases "groups' = G \<and> used' = U")
    case True
    then show ?thesis using IH less_SucI by (metis (no_types, lifting))
  next
    case False
    then obtain c where a: "assign ! m = Some c"
      and g': "groups' = G[m := G ! m @ [cands ! c]]" "used' = U[c := True]"
      using eq by (auto simp: join_row_def split: option.splits if_splits)
    have cl: "c < length cands" using inj a Suc.prems(1) unfolding one_to_one_def by (metis Suc_le_lessD)
    have "\<not> U ! c"
    proof
      assume "U ! c"
      then obtain r where "r < m" "assign ! r = Some c" using IH(3) cl by blast
      then show False using inj a Suc.prems(1) unfolding one_to_one_def
        by (metis Suc_le_lessD less_irrefl less_trans)
    qed
    then have "mset (map ((!) cands) (filter (\<lambda>i. used' ! i) [0..<length cands])) =
        mset (map ((!) cands) (filter (\<lambda>i. U ! i) [0..<length cands])) + {#cands ! c#}"
      using mset_filter_update [of c U "(!) cands"] cl IH(2) g'(2) by simp
    moreover have "mset (concat groups') = mset (concat G) + {#cands ! c#}"
      using mset_concat_update [of m G] Suc.prems(1) IH(1) g'(1) by simp
    moreover have "\<exists>r < Suc m. assign ! r = Some k" if "k < length cands" "used' ! k" for k
    proof (cases "k = c")
      case True
      then show ?thesis using a by blast
    next
      case False
      then have "U ! k" using that(2) g'(2) by simp
      then show ?thesis using IH(3) [OF that(1)] less_SucI by blast
    qed
    ultimately show ?thesis using IH g' by simp
  qed
qed

lemma mset_concat_singles: "mset (concat (map (\<lambda>c. [f c]) xs)) = mset (map f xs)"
  by (induction xs) auto

lemma join_source_mset:
  assumes "groups = [] \<or> (\<forall>a. solve (length groups) (length cands) (\<lambda>r c. link_cost dmat (groups ! r) (cands ! c)) = Some a \<longrightarrow>
      one_to_one (length groups) (length cands) a)"
    and "join_source solve dmat mergeable cands groups = Some groups'"
  shows "mset (concat groups') = mset (concat groups) + mset cands"
proof (cases "groups = []")
  case True
  then show ?thesis using assms(2) mset_concat_singles [of "\<lambda>c. c" cands] by (simp add: join_source_def)
next
  case False
  then obtain a G U where a: "one_to_one (length groups) (length cands) a"
    and fd: "fold (join_row mergeable cands a) [0..<length a] (groups, replicate (length cands) False) = (G, U)"
    and g': "groups' = G @ map (\<lambda>ci. [cands ! ci]) (filter (\<lambda>ci. \<not> U ! ci) [0..<length cands])"
    using assms by (auto simp: join_source_def split: option.splits prod.splits)
  have la: "length a = length groups" using a by (simp add: one_to_one_def)
  have "mset (concat G) = mset (concat groups) + mset (map ((!) cands) (filter (\<lambda>c. U ! c) [0..<length cands]))"
    using join_rows_mset [OF a order_refl fd [unfolded la]] by blast
  moreover have "mset (concat groups') = mset (concat G) + mset (map ((!) cands) (filter (\<lambda>c. \<not> U ! c) [0..<length cands]))"
    unfolding g' concat_append mset_append using mset_concat_singles [of "(!) cands"] by simp
  moreover have "mset (map ((!) cands) [0..<length cands]) = mset cands" by (simp only: map_nth)
  ultimately show ?thesis
    using mset_used_split [of "(!) cands" "\<lambda>c. U ! c" "[0..<length cands]"] by (metis add.assoc)
qed

lemma join_source_grouped:
  assumes sym: "symp mergeable" and c: "\<forall>c < length cands. srcKeys ! (cands ! c) = s" and s: "s \<notin> S"
    and ok: "grouped srcKeys mergeable S groups"
    and rng: "\<forall>a. solve (length groups) (length cands) (\<lambda>r c. link_cost dmat (groups ! r) (cands ! c)) = Some a \<longrightarrow>
      length a = length groups \<and> (\<forall>r < length groups. \<forall>c. a ! r = Some c \<longrightarrow> c < length cands)"
    and js: "join_source solve dmat mergeable cands groups = Some groups'"
  shows "grouped srcKeys mergeable (insert s S) groups'"
proof (cases "groups = []")
  case True
  then have "groups' = map (\<lambda>c. [c]) cands" using js by (simp add: join_source_def)
  then show ?thesis using c by (auto simp: grouped_def coherent_single list_all_iff in_set_conv_nth)
next
  case False
  then obtain a G U where a: "length a = length groups" "\<forall>r < length groups. \<forall>c. a ! r = Some c \<longrightarrow> c < length cands"
    and fd: "fold (join_row mergeable cands a) [0..<length a] (groups, replicate (length cands) False) = (G, U)"
    and g': "groups' = G @ map (\<lambda>ci. [cands ! ci]) (filter (\<lambda>ci. \<not> U ! ci) [0..<length cands])"
    using js rng by (auto simp: join_source_def split: option.splits prod.splits)
  have "grouped srcKeys mergeable (insert s S) G"
    using join_rows_coherent [OF sym c s a(2) ok order_refl fd [unfolded a(1)]] by blast
  then show ?thesis using c by (auto simp: grouped_def g' coherent_single list_all_iff)
qed

subsection \<open>Normal order\<close>

lemma mset_normalize: "mset (concat (normalize_groups G)) = mset (concat G)"
proof -
  have "mset (concat (sort_key hd H)) = mset (concat H)" for H :: "nat list list"
    by (metis mset_concat mset_map mset_sort sum_mset_sum_list)
  moreover have "mset (concat (map sort G)) = mset (concat G)" by (induction G) auto
  ultimately show ?thesis by (simp add: normalize_groups_def)
qed

lemma set_normalize: "set (normalize_groups G) = sort ` set G"
  by (simp add: normalize_groups_def)

lemma coherent_sort: "coherent srcKeys mergeable (sort g) \<longleftrightarrow> coherent srcKeys mergeable g"
proof -
  have "sort g = [] \<longleftrightarrow> g = []" by (metis mset_sort mset_zero_iff)
  then show ?thesis by (simp add: coherent_def)
qed

definition normal_order :: "nat list list \<Rightarrow> bool" where
  "normal_order groups \<longleftrightarrow> list_all (\<lambda>g. g \<noteq> [] \<and> sorted g) groups \<and> sorted (map hd groups)"

lemma normal_order_normalize:
  "list_all (\<lambda>g. g \<noteq> []) G \<Longrightarrow> normal_order (normalize_groups G)"
proof -
  assume "list_all (\<lambda>g. g \<noteq> []) G"
  then have ne: "sort g \<noteq> []" if "g \<in> set G" for g
    using that unfolding list_all_iff by (metis mset_sort mset_zero_iff)
  have "sorted (map hd (normalize_groups G))" by (simp only: normalize_groups_def sorted_sort_key)
  moreover have "g \<noteq> [] \<and> sorted g" if "g \<in> set (normalize_groups G)" for g
    using that ne unfolding set_normalize by (metis imageE sorted_sort)
  ultimately show ?thesis unfolding normal_order_def list_all_iff by blast
qed

subsection \<open>All sources, with a solver that keeps its contract\<close>

lemma set_bySource: "set (bySource srcKeys s) = {i. i < length srcKeys \<and> srcKeys ! i = s}"
  by (auto simp: bySource_def)

lemma link_cost_bounds:
  assumes "\<forall>gi \<in> set g. - 1 \<le> dmat ! gi ! c"
  shows "- 1 \<le> link_cost dmat g c \<and> link_cost dmat g c \<le> 1"
proof -
  have "- 1 \<le> fold (\<lambda>gi m. if dmat ! gi ! c < m then dmat ! gi ! c else m) g m \<and>
      fold (\<lambda>gi m. if dmat ! gi ! c < m then dmat ! gi ! c else m) g m \<le> m" if "- 1 \<le> m" for m
    using assms that by (induction g arbitrary: m) (auto, force+)
  from this [of 1] show ?thesis by (simp add: link_cost_def)
qed

lemma length_le_concat: "list_all (\<lambda>g. g \<noteq> []) G \<Longrightarrow> length G \<le> length (concat G)"
proof (induction G)
  case (Cons g G)
  then have "1 \<le> length g" by (cases g) auto
  with Cons show ?case by simp
qed simp

definition placed :: "string list \<Rightarrow> string set \<Rightarrow> nat list" where
  "placed srcKeys S = filter (\<lambda>i. srcKeys ! i \<in> S) [0..<length srcKeys]"

lemma mset_filter_insert:
  "s \<notin> S \<Longrightarrow> mset (filter (\<lambda>i. f i \<in> S) xs) + mset (filter (\<lambda>i. f i = s) xs) = mset (filter (\<lambda>i. f i \<in> insert s S) xs)"
  by (induction xs) auto

lemma mset_placed_insert:
  "s \<notin> S \<Longrightarrow> mset (placed srcKeys S) + mset (bySource srcKeys s) = mset (placed srcKeys (insert s S))"
  unfolding placed_def bySource_def by (rule mset_filter_insert)

context assignment_solver
begin

lemma join_sources_total:
  assumes sym: "symp mergeable" and n: "length srcKeys \<le> limit"
    and dm: "\<forall>a < length srcKeys. \<forall>b < length srcKeys. - 1 \<le> dmat ! a ! b"
  shows "distinct order \<Longrightarrow> set order \<inter> S = {} \<Longrightarrow> grouped srcKeys mergeable S groups \<Longrightarrow>
    mset (concat groups) = mset (placed srcKeys S) \<Longrightarrow>
    \<exists>G. join_sources solve srcKeys dmat mergeable order groups = Some G \<and>
      grouped srcKeys mergeable (S \<union> set order) G \<and> mset (concat G) = mset (placed srcKeys (S \<union> set order))"
proof (induction order arbitrary: S groups)
  case Nil
  then show ?case by simp
next
  case (Cons s order)
  let ?cands = "bySource srcKeys s" and ?cost = "\<lambda>r c. link_cost dmat (groups ! r) (bySource srcKeys s ! c)"
  have s: "s \<notin> S" using Cons.prems(2) by auto
  have mem: "x < length srcKeys" if "x \<in> set (concat groups)" for x
    using that Cons.prems(4) by (metis atLeastLessThan_iff filter_is_subset placed_def set_mset_mset set_upt subsetD)
  have cl: "length ?cands \<le> limit"
    using n length_filter_le [of "\<lambda>i. srcKeys ! i = s" "[0..<length srcKeys]"] by (simp add: bySource_def)
  have "length (concat groups) \<le> length srcKeys"
    using Cons.prems(4) length_filter_le [of "\<lambda>i. srcKeys ! i \<in> S" "[0..<length srcKeys]"]
    by (metis diff_zero length_upt placed_def size_mset)
  moreover have "length groups \<le> length (concat groups)"
    using Cons.prems(3) by (intro length_le_concat) (auto simp: grouped_def coherent_def list_all_iff)
  ultimately have gl: "length groups \<le> limit" using n by simp
  have "- 1 \<le> ?cost r c \<and> ?cost r c \<le> 1" if "r < length groups" "c < length ?cands" for r c
  proof (rule link_cost_bounds)
    have "?cands ! c < length srcKeys" using nth_mem [OF that(2)] by (simp add: set_bySource)
    moreover have "gi < length srcKeys" if "gi \<in> set (groups ! r)" for gi
      by (rule mem) (use that nth_mem [OF \<open>r < length groups\<close>] in auto)
    ultimately show "\<forall>gi \<in> set (groups ! r). - 1 \<le> dmat ! gi ! (?cands ! c)" using dm by blast
  qed
  then obtain a where a: "solve (length groups) (length ?cands) ?cost = Some a" "one_to_one (length groups) (length ?cands) a"
    using solves [OF gl cl, of ?cost] by blast
  have "join_source solve dmat mergeable ?cands groups \<noteq> None"
    by (simp add: join_source_def a(1) split: prod.splits)
  then obtain G where G: "join_source solve dmat mergeable ?cands groups = Some G" by blast
  have "mset (concat G) = mset (concat groups) + mset ?cands"
    by (rule join_source_mset [OF _ G]) (use a in auto)
  then have m: "mset (concat G) = mset (placed srcKeys (insert s S))"
    using mset_placed_insert [OF s] Cons.prems(4) by simp
  have g: "grouped srcKeys mergeable (insert s S) G"
  proof (rule join_source_grouped [OF sym _ s Cons.prems(3) _ G])
    show "\<forall>c < length ?cands. srcKeys ! (?cands ! c) = s"
      using nth_mem [of _ ?cands] by (auto simp: set_bySource)
  qed (use a in \<open>auto simp: one_to_one_def\<close>)
  from Cons.IH [OF _ _ g m] Cons.prems(1,2) G show ?case by auto
qed

lemma groups_partition:
  assumes "symp mergeable" and "length srcKeys \<le> limit"
    and "\<forall>a < length srcKeys. \<forall>b < length srcKeys. - 1 \<le> dmat ! a ! b"
  shows "\<exists>G. bipartite_with solve srcKeys dmat mergeable = Some G \<and> mset (concat G) = mset [0..<length srcKeys] \<and>
    list_all (coherent srcKeys mergeable) G \<and> normal_order G"
proof -
  have "grouped srcKeys mergeable {} []" "mset (concat []) = mset (placed srcKeys {})"
    by (auto simp: grouped_def placed_def)
  then obtain G where js: "join_sources solve srcKeys dmat mergeable (sort (distinct_keys srcKeys)) [] = Some G"
    and g: "grouped srcKeys mergeable (set srcKeys) G" and m: "mset (concat G) = mset (placed srcKeys (set srcKeys))"
    using join_sources_total [OF assms, of "sort (distinct_keys srcKeys)" "{}" "[]"] by auto
  have "placed srcKeys (set srcKeys) = [0..<length srcKeys]" by (auto simp: placed_def)
  moreover have "list_all (coherent srcKeys mergeable) (normalize_groups G)"
    using g by (auto simp: grouped_def list_all_iff set_normalize coherent_sort)
  moreover have "normal_order (normalize_groups G)"
    using g by (intro normal_order_normalize) (auto simp: grouped_def list_all_iff coherent_def)
  ultimately show ?thesis using js m by (simp add: bipartite_with_def mset_normalize)
qed

end

subsection \<open>The code's solver, whatever the rounding\<close>

lemma hungarianAssign_range:
  assumes "hungarianAssign rt rows cols cost = Some a"
  shows "length a = rows \<and> (\<forall>r < rows. \<forall>c. a ! r = Some c \<longrightarrow> c < cols)"
proof -
  consider "rows = 0 \<or> cols = 0" | "rows = 1" "cols \<noteq> 0" | "rows \<noteq> 0" "rows \<noteq> 1" "cols = 1"
    | "rows \<noteq> 0" "rows \<noteq> 1" "cols \<noteq> 0" "cols \<noteq> 1" by blast
  then show ?thesis
  proof cases
    case 1
    then show ?thesis using assms by (auto simp: hungarianAssign_def)
  next
    case 2
    then have "a = [Some (argmin_loop (cost 0) [1..<cols] (cost 0 0) 0)]" using assms by (simp add: hungarianAssign_def)
    then show ?thesis using argmin_bound [of cols "cost 0" "cost 0 0"] 2 by simp
  next
    case 3
    let ?k = "argmin_loop (\<lambda>r. cost r 0) [1..<rows] (cost 0 0) 0"
    have "a = (replicate rows None)[?k := Some 0]" using assms 3 by (simp add: hungarianAssign_def)
    moreover have "?k < rows" by (rule argmin_bound) (use 3 in simp)
    ultimately have "one_to_one rows cols a" using one_to_one_single [of ?k rows 0 cols] 3(3) by simp
    then show ?thesis unfolding one_to_one_def by blast
  next
    case 4
    then obtain full where "a = map (\<lambda>r. if full ! r < cols then Some (full ! r) else None) [0..<rows]"
      using assms by (auto simp: hungarianAssign_def Let_def split: option.splits)
    then show ?thesis by simp
  qed
qed

lemma join_rows_cover:
  assumes rng: "\<forall>r < m. \<forall>c. assign ! r = Some c \<longrightarrow> c < length cands" and m: "m \<le> length groups"
    and fd: "fold (join_row mergeable cands assign) [0..<m] (groups, replicate (length cands) False) = (groups', used')"
  shows "length groups' = length groups \<and> length used' = length cands \<and>
    set (concat groups) \<subseteq> set (concat groups') \<and> set (concat groups') \<subseteq> set (concat groups) \<union> set cands \<and>
    (\<forall>c < length cands. used' ! c \<longrightarrow> cands ! c \<in> set (concat groups'))"
  using rng m fd
proof (induction m arbitrary: groups' used')
  case 0
  then show ?case by auto
next
  case (Suc m)
  obtain G U where st: "fold (join_row mergeable cands assign) [0..<m] (groups, replicate (length cands) False) = (G, U)"
    by fastforce
  have IH: "length G = length groups" "length U = length cands"
    "set (concat groups) \<subseteq> set (concat G)" "set (concat G) \<subseteq> set (concat groups) \<union> set cands"
    "\<And>c. c < length cands \<Longrightarrow> U ! c \<Longrightarrow> cands ! c \<in> set (concat G)"
    using Suc.IH [OF _ _ st] Suc.prems(1,2) less_SucI by (meson Suc_leD)+
  have eq: "(groups', used') = join_row mergeable cands assign m (G, U)" using Suc.prems(3) st by simp
  show ?case
  proof (cases "groups' = G \<and> used' = U")
    case True
    then show ?thesis using IH by blast
  next
    case False
    then obtain c where a: "assign ! m = Some c"
      and g': "groups' = G[m := G ! m @ [cands ! c]]" "used' = U[c := True]"
      using eq by (auto simp: join_row_def split: option.splits if_splits)
    have cl: "c < length cands" using Suc.prems(1) a by blast
    have "mset (concat groups') = mset (concat G) + {#cands ! c#}"
      using mset_concat_update [of m G] Suc.prems(2) IH(1) g'(1) by simp
    then have s: "set (concat groups') = insert (cands ! c) (set (concat G))"
      by (metis add_mset_add_single set_mset_add_mset_insert set_mset_mset)
    have "cands ! k \<in> set (concat groups')" if "k < length cands" "used' ! k" for k
      using IH(5) [OF that(1)] that(2) g'(2) s by (cases "k = c") auto
    then show ?thesis using IH g' s cl by auto
  qed
qed

lemma join_source_cover:
  assumes rng: "\<forall>a. solve (length groups) (length cands) (\<lambda>r c. link_cost dmat (groups ! r) (cands ! c)) = Some a \<longrightarrow>
      length a = length groups \<and> (\<forall>r < length groups. \<forall>c. a ! r = Some c \<longrightarrow> c < length cands)"
    and js: "join_source solve dmat mergeable cands groups = Some groups'"
  shows "set (concat groups') = set (concat groups) \<union> set cands"
proof (cases "groups = []")
  case True
  then show ?thesis using js by (auto simp: join_source_def)
next
  case False
  then obtain a G U where a: "length a = length groups" "\<forall>r < length groups. \<forall>c. a ! r = Some c \<longrightarrow> c < length cands"
    and fd: "fold (join_row mergeable cands a) [0..<length a] (groups, replicate (length cands) False) = (G, U)"
    and g': "groups' = G @ map (\<lambda>ci. [cands ! ci]) (filter (\<lambda>ci. \<not> U ! ci) [0..<length cands])"
    using js rng by (auto simp: join_source_def split: option.splits prod.splits)
  have c: "set (concat groups) \<subseteq> set (concat G)" "set (concat G) \<subseteq> set (concat groups) \<union> set cands"
    "\<And>c. c < length cands \<Longrightarrow> U ! c \<Longrightarrow> cands ! c \<in> set (concat G)"
    using join_rows_cover [OF a(2) order_refl fd [unfolded a(1)]] by blast+
  have "cands ! k \<in> set (concat groups')" if "k < length cands" for k
    using c(3) [OF that] that by (cases "U ! k") (auto simp: g')
  then have "set cands \<subseteq> set (concat groups')" by (metis in_set_conv_nth subsetI)
  moreover have "set (concat groups') \<subseteq> set (concat G) \<union> set cands" by (auto simp: g')
  moreover have "set (concat G) \<subseteq> set (concat groups')" by (auto simp: g')
  ultimately show ?thesis using c(1,2) by blast
qed

lemma join_sources_sound:
  assumes sym: "symp mergeable"
  shows "distinct order \<Longrightarrow> set order \<inter> S = {} \<Longrightarrow> grouped srcKeys mergeable S groups \<Longrightarrow>
    join_sources (hungarianAssign rt) srcKeys dmat mergeable order groups = Some G \<Longrightarrow>
    grouped srcKeys mergeable (S \<union> set order) G \<and>
    set (concat G) = set (concat groups) \<union> {i. i < length srcKeys \<and> srcKeys ! i \<in> set order}"
proof (induction order arbitrary: S groups)
  case Nil
  then show ?case by auto
next
  case (Cons s order)
  obtain G1 where G1: "join_source (hungarianAssign rt) dmat mergeable (bySource srcKeys s) groups = Some G1"
    and rest: "join_sources (hungarianAssign rt) srcKeys dmat mergeable order G1 = Some G"
    using Cons.prems(4) by (auto split: option.splits)
  have s: "s \<notin> S" using Cons.prems(2) by auto
  have src: "\<forall>c < length (bySource srcKeys s). srcKeys ! (bySource srcKeys s ! c) = s"
    using nth_mem [of _ "bySource srcKeys s"] by (auto simp: set_bySource)
  have rng: "\<forall>a. hungarianAssign rt (length groups) (length (bySource srcKeys s))
      (\<lambda>r c. link_cost dmat (groups ! r) (bySource srcKeys s ! c)) = Some a \<longrightarrow>
      length a = length groups \<and> (\<forall>r < length groups. \<forall>c. a ! r = Some c \<longrightarrow> c < length (bySource srcKeys s))"
    using hungarianAssign_range by blast
  have g: "grouped srcKeys mergeable (insert s S) G1"
    by (rule join_source_grouped [OF sym src s Cons.prems(3) rng G1])
  have "set (concat G1) = set (concat groups) \<union> set (bySource srcKeys s)"
    by (rule join_source_cover [OF rng G1])
  with Cons.IH [OF _ _ g rest] Cons.prems(1,2) show ?case by (auto simp: set_bySource)
qed

lemma bipartiteGroups_sound:
  assumes sym: "symp mergeable" and "bipartiteGroups rt srcKeys dmat mergeable = Some G"
  shows "set (concat G) = {..<length srcKeys} \<and> list_all (coherent srcKeys mergeable) G \<and> normal_order G"
proof -
  obtain H where js: "join_sources (hungarianAssign rt) srcKeys dmat mergeable (sort (distinct_keys srcKeys)) [] = Some H"
    and G: "G = normalize_groups H"
    using assms(2) by (auto simp: bipartiteGroups_def bipartite_with_def)
  have "grouped srcKeys mergeable {} []" by (simp add: grouped_def)
  from join_sources_sound [OF sym _ _ this js] have g: "grouped srcKeys mergeable (set srcKeys) H"
    and s: "set (concat H) = {i. i < length srcKeys \<and> srcKeys ! i \<in> set srcKeys}" by auto
  have "set (concat G) = set (concat H)" unfolding G by (metis mset_normalize set_mset_mset)
  then have "set (concat G) = {..<length srcKeys}" using s by auto
  moreover have "list_all (coherent srcKeys mergeable) G"
    using g by (auto simp: G grouped_def list_all_iff set_normalize coherent_sort)
  moreover have "normal_order G" unfolding G
    using g by (intro normal_order_normalize) (auto simp: grouped_def list_all_iff coherent_def)
  ultimately show ?thesis by blast
qed

lemma bipartiteGroups_partition:
  assumes "accurate (fl rt)" and "symp mergeable" and "length srcKeys \<le> maxHungarianN"
    and "\<forall>a < length srcKeys. \<forall>b < length srcKeys. - 1 \<le> dmat ! a ! b"
  shows "\<exists>G. bipartiteGroups rt srcKeys dmat mergeable = Some G \<and> mset (concat G) = mset [0..<length srcKeys] \<and>
    list_all (coherent srcKeys mergeable) G \<and> normal_order G"
  using assignment_solver.groups_partition [OF float_solver [OF assms(1)] assms(2-4)]
  by (simp add: bipartiteGroups_def)

text \<open>
  C37. Complete linkage, whatever the floating-point rounding does to the costs: when
  \<^verbatim>\<open>bipartiteGroups\<close> returns, every finding is in a group, two members of a group come from different
  sources and are mergeable, and the groups are in normal order, each by its lowest member.
\<close>

theorem bipartite_complete_linkage:
  assumes "symp mergeable" and "bipartiteGroups rt srcKeys dmat mergeable = Some groups"
  shows "set (concat groups) = {..<length srcKeys} \<and> normal_order groups \<and>
    list_all (\<lambda>g. \<forall>a \<in> set g. \<forall>b \<in> set g. a \<noteq> b \<longrightarrow> srcKeys ! a \<noteq> srcKeys ! b \<and> mergeable a b) groups"
  using bipartiteGroups_sound [OF assms] by (auto simp: list_all_iff coherent_def)

theorem bipartite_complete_linkage_witness:
  "bipartiteGroups go_runtime [''a'', ''b''] [[0, 0], [0, 0]] (\<lambda>a b. True) = Some [[0, 1]] \<and>
   normal_order [[0, 1]] \<and> [''a'', ''b''] ! 0 \<noteq> [''a'', ''b''] ! 1"
proof -
  have eq: "bipartiteGroups go_runtime [''a'', ''b''] [[0, 0], [0, 0]] (\<lambda>a b. True) = Some [[0, 1]]"
    by code_simp
  have "symp (\<lambda>(a::nat) (b::nat). True)" by (simp add: symp_def)
  from bipartite_complete_linkage [OF this eq] eq show ?thesis by simp
qed

text \<open>
  C38. Under every accurate rounding, that of \<^verbatim>\<open>float64\<close> and exact arithmetic among them, \<^verbatim>\<open>bipartiteGroups\<close> returns on a
  cluster of at most \<^verbatim>\<open>maxHungarianN\<close> findings with distances of at least \<open>- 1\<close>, and its groups are a partition: every
  finding is in one group only.
\<close>

theorem bipartite_returns_partition:
  assumes "accurate (fl rt)" and "symp mergeable" and "length srcKeys \<le> maxHungarianN"
    and "\<forall>a < length srcKeys. \<forall>b < length srcKeys. - 1 \<le> dmat ! a ! b"
  shows "\<exists>groups. bipartiteGroups rt srcKeys dmat mergeable = Some groups \<and>
    mset (concat groups) = mset [0..<length srcKeys]"
  using bipartiteGroups_partition [OF assms] by blast

theorem bipartite_returns_partition_witness:
  "\<exists>groups. bipartiteGroups go_runtime [''a'', ''b'', ''a''] (replicate 3 (replicate 3 (1 / 2))) (\<lambda>a b. a + b = 1) =
     Some groups \<and> mset (concat groups) = mset [0, 1, 2]"
proof -
  have "symp (\<lambda>(a::nat) (b::nat). a + b = 1)" by (auto simp: symp_def)
  moreover have "\<forall>a < 3. \<forall>b < 3. - 1 \<le> replicate 3 (replicate 3 (1 / 2 :: rat)) ! a ! b" by simp
  ultimately show ?thesis
    using bipartite_returns_partition [OF accurate_runtimes(1), of "\<lambda>a b. a + b = 1" "[''a'', ''b'', ''a'']" "replicate 3 (replicate 3 (1 / 2))"]
    by (simp add: maxHungarianN_def numeral_2_eq_2)
qed

end
