(* ===== verification/Dbscan.thy ===== *)
theory Dbscan
  imports Prelude
begin

text \<open>
  DBSCAN noise isolation: \<^verbatim>\<open>reconcile/dbscan.go\<close>. The queue of the model is the part of the \<^verbatim>\<open>seeds\<close>
  slice from index \<^verbatim>\<open>k\<close> on, which the code extends while it runs over it. The expansion terminates
  because every point enters the queue at most once: the length of the queue plus the number of
  points not yet queued goes down by one at each step.
\<close>

subsection \<open>Definitions\<close>

definition dbscanMinPts :: nat where "dbscanMinPts = 2"
definition dbscanNoise :: int where [simp]: "dbscanNoise = - 1"
definition dbscanUnvisited :: int where [simp]: "dbscanUnvisited = - 2"

definition neighborsOf :: "nat \<Rightarrow> (nat \<Rightarrow> nat \<Rightarrow> bool) \<Rightarrow> nat \<Rightarrow> nat list" where
  "neighborsOf n neighbor p = filter (\<lambda>q. q \<noteq> p \<and> neighbor p q) [0..<n]"

text \<open>The innermost loop: append the unvisited neighbours that are not queued yet.\<close>

fun enqueue :: "int list \<Rightarrow> bool list \<Rightarrow> nat list \<Rightarrow> nat list \<Rightarrow> bool list \<times> nat list" where
  "enqueue labels queued seeds [] = (queued, seeds)"
| "enqueue labels queued seeds (r # rs) =
     (if r < length queued \<and> labels ! r = dbscanUnvisited \<and> \<not> queued ! r
      then enqueue labels (queued[r := True]) (seeds @ [r]) rs
      else enqueue labels queued seeds rs)"

definition unqueued :: "bool list \<Rightarrow> nat" where
  "unqueued queued = length (filter Not queued)"

lemma unqueued_update:
  "r < length queued \<Longrightarrow> \<not> queued ! r \<Longrightarrow> Suc (unqueued (queued[r := True])) = unqueued queued"
  unfolding unqueued_def
  by (induction queued arbitrary: r) (auto simp: nth_Cons split: nat.splits)

lemma enqueue_measure:
  "enqueue labels queued seeds rs = (queued', seeds') \<Longrightarrow>
   length seeds' + unqueued queued' = length seeds + unqueued queued"
  by (induction labels queued seeds rs rule: enqueue.induct)
    (auto simp: unqueued_update split: if_splits)

text \<open>The expansion of one cluster.\<close>

function expand :: "nat \<Rightarrow> nat \<Rightarrow> (nat \<Rightarrow> nat \<Rightarrow> bool) \<Rightarrow> int \<Rightarrow> int list \<Rightarrow> bool list \<Rightarrow> nat list \<Rightarrow>
    int list \<times> bool list" where
  "expand n minPts neighbor cluster labels queued [] = (labels, queued)"
| "expand n minPts neighbor cluster labels queued (q # seeds) =
     (let labels1 = (if labels ! q = dbscanNoise then labels[q := cluster] else labels) in
      if labels1 ! q \<noteq> dbscanUnvisited then expand n minPts neighbor cluster labels1 queued seeds
      else
        (let labels2 = labels1[q := cluster]; qn = neighborsOf n neighbor q in
         if length qn + 1 \<ge> minPts then
           (let e = enqueue labels2 queued seeds qn
            in expand n minPts neighbor cluster labels2 (fst e) (snd e))
         else expand n minPts neighbor cluster labels2 queued seeds))"
  by pat_completeness auto
termination
proof (relation "measure (\<lambda>(n, minPts, neighbor, cluster, labels, queued, seeds).
    length seeds + unqueued queued)", goal_cases)
  case (3 n minPts neighbor cluster labels queued q seeds x xa xb xc)
  then show ?case
    using enqueue_measure [of xa queued seeds xb "fst xc" "snd xc"] by (simp add: split_beta del: dbscanNoise_def dbscanUnvisited_def)
qed auto

text \<open>The outer loop over the points, then the entry point.\<close>

fun dbscan_loop :: "nat \<Rightarrow> nat \<Rightarrow> (nat \<Rightarrow> nat \<Rightarrow> bool) \<Rightarrow> nat list \<Rightarrow> int \<Rightarrow> int list \<Rightarrow> bool list \<Rightarrow>
    int list \<times> int" where
  "dbscan_loop n minPts neighbor [] cluster labels queued = (labels, cluster)"
| "dbscan_loop n minPts neighbor (p # ps) cluster labels queued =
     (if labels ! p \<noteq> dbscanUnvisited then dbscan_loop n minPts neighbor ps cluster labels queued
      else
        (let nb = neighborsOf n neighbor p in
         if length nb + 1 < minPts
         then dbscan_loop n minPts neighbor ps cluster (labels[p := dbscanNoise]) queued
         else
           (let labels1 = labels[p := cluster];
                queued1 = fold (\<lambda>q qd. qd[q := True]) nb queued;
                (labels2, queued2) = expand n minPts neighbor cluster labels1 queued1 nb
            in dbscan_loop n minPts neighbor ps (cluster + 1) labels2 queued2)))"

definition dbscanLabels :: "nat \<Rightarrow> nat \<Rightarrow> (nat \<Rightarrow> nat \<Rightarrow> bool) \<Rightarrow> int list \<times> bool" where
  "dbscanLabels n minPts neighbor =
     (let (labels, cluster) =
        dbscan_loop n minPts neighbor [0..<n] 0 (replicate n dbscanUnvisited) (replicate n False)
      in (labels, cluster > 0))"

subsection \<open>The neighbourhood graph\<close>

text \<open>With \<open>minPts = 2\<close> a point is a core point as soon as it has a neighbour.\<close>

definition edge :: "nat \<Rightarrow> (nat \<Rightarrow> nat \<Rightarrow> bool) \<Rightarrow> nat \<Rightarrow> nat \<Rightarrow> bool" where
  "edge n nb p q \<longleftrightarrow> p < n \<and> q < n \<and> p \<noteq> q \<and> nb p q"

lemma set_neighborsOf: "p < n \<Longrightarrow> set (neighborsOf n nb p) = {q. edge n nb p q}"
  by (auto simp: neighborsOf_def edge_def)

lemma neighborsOf_empty: "p < n \<Longrightarrow> neighborsOf n nb p = [] \<longleftrightarrow> (\<forall>q. \<not> edge n nb p q)"
  by (subst set_empty [symmetric]) (simp add: set_neighborsOf)

lemma core_iff: "length (neighborsOf n nb p) + 1 \<ge> dbscanMinPts \<longleftrightarrow> neighborsOf n nb p \<noteq> []"
  by (cases "neighborsOf n nb p") (auto simp: dbscanMinPts_def)

lemma enqueue_spec:
  assumes "enqueue labels queued seeds rs = (queued', seeds')"
    and "\<forall>r\<in>set rs. r < length queued"
  shows "length queued' = length queued"
    and "set seeds' = set seeds \<union> {r \<in> set rs. labels ! r = dbscanUnvisited \<and> \<not> queued ! r}"
    and "\<forall>x < length queued. queued' ! x \<longleftrightarrow>
      queued ! x \<or> x \<in> set rs \<and> labels ! x = dbscanUnvisited"
  using assms
  by (induction labels queued seeds rs rule: enqueue.induct)
    (auto simp: nth_list_update split: if_splits)

abbreviation conn :: "nat \<Rightarrow> (nat \<Rightarrow> nat \<Rightarrow> bool) \<Rightarrow> nat \<Rightarrow> nat \<Rightarrow> bool" where
  "conn n nb \<equiv> (edge n nb)\<^sup>*\<^sup>*"

text \<open>
  The state between two steps of the expansion of cluster \<open>c\<close>: a noise label means no neighbour, a
  cluster label means some; a queued point is labelled or still in the queue; every labelled point
  has its neighbours in its own cluster, or in the queue when the cluster is \<open>c\<close>; and a cluster is
  connected.
\<close>

definition db_inv :: "nat \<Rightarrow> (nat \<Rightarrow> nat \<Rightarrow> bool) \<Rightarrow> int \<Rightarrow> int list \<Rightarrow> bool list \<Rightarrow> nat list \<Rightarrow> bool" where
  "db_inv n nb c labels queued queue \<longleftrightarrow>
     length labels = n \<and> length queued = n \<and> 0 \<le> c \<and>
     (\<forall>x < n. labels ! x = - 2 \<or> labels ! x = - 1 \<and> (\<forall>y. \<not> edge n nb x y) \<or>
        0 \<le> labels ! x \<and> labels ! x \<le> c \<and> (\<exists>y. edge n nb x y)) \<and>
     (\<forall>x < n. queued ! x \<longrightarrow> 0 \<le> labels ! x \<or> x \<in> set queue) \<and>
     (\<forall>x \<in> set queue. x < n \<and> (\<exists>y. edge n nb x y) \<and> (\<exists>z < n. labels ! z = c \<and> conn n nb z x)) \<and>
     (\<forall>x y. edge n nb x y \<longrightarrow> 0 \<le> labels ! x \<longrightarrow>
        labels ! y = labels ! x \<or> labels ! x = c \<and> y \<in> set queue) \<and>
     (\<forall>x y. x < n \<longrightarrow> y < n \<longrightarrow> 0 \<le> labels ! x \<longrightarrow> labels ! x = labels ! y \<longrightarrow> conn n nb x y)"

lemma edge_lt: "edge n nb x y \<Longrightarrow> x < n \<and> y < n"
  by (simp add: edge_def)

lemma db_invD:
  assumes "db_inv n nb c labels queued queue"
  shows "length labels = n" "length queued = n" "0 \<le> c"
    and "\<And>x. x < n \<Longrightarrow> labels ! x = - 2 \<or> labels ! x = - 1 \<and> (\<forall>y. \<not> edge n nb x y) \<or>
        0 \<le> labels ! x \<and> labels ! x \<le> c \<and> (\<exists>y. edge n nb x y)"
    and "\<And>x. x < n \<Longrightarrow> queued ! x \<Longrightarrow> 0 \<le> labels ! x \<or> x \<in> set queue"
    and "\<And>x. x \<in> set queue \<Longrightarrow> x < n \<and> (\<exists>y. edge n nb x y) \<and> (\<exists>z < n. labels ! z = c \<and> conn n nb z x)"
    and "\<And>x y. edge n nb x y \<Longrightarrow> 0 \<le> labels ! x \<Longrightarrow>
        labels ! y = labels ! x \<or> labels ! x = c \<and> y \<in> set queue"
    and "\<And>x y. x < n \<Longrightarrow> y < n \<Longrightarrow> 0 \<le> labels ! x \<Longrightarrow> labels ! x = labels ! y \<Longrightarrow> conn n nb x y"
  using assms unfolding db_inv_def by blast+

lemma conn_sym:
  assumes sym: "\<And>x y. edge n nb x y \<Longrightarrow> edge n nb y x" and "conn n nb x y"
  shows "conn n nb y x"
  using assms(2)
  by (induction rule: rtranclp_induct) (auto intro: sym converse_rtranclp_into_rtranclp)

lemma db_inv_pop:
  assumes inv: "db_inv n nb c labels queued (q # queue)" and vis: "0 \<le> labels ! q"
    and sym: "\<And>x y. edge n nb x y \<Longrightarrow> edge n nb y x"
  shows "db_inv n nb c labels queued queue"
proof -
  note D = db_invD [OF inv]
  have "labels ! y = labels ! x \<or> labels ! x = c \<and> y \<in> set queue"
    if e: "edge n nb x y" and l: "0 \<le> labels ! x" for x y
  proof (cases "y = q")
    case True
    then show ?thesis using D(7) [OF sym [OF e]] D(7) [OF e l] vis l by auto
  next
    case False
    then show ?thesis using D(7) [OF e l] by auto
  qed
  moreover have "0 \<le> labels ! x \<or> x \<in> set queue" if "x < n" "queued ! x" for x
    using D(5) [OF that] vis by auto
  moreover have "x < n \<and> (\<exists>y. edge n nb x y) \<and> (\<exists>z < n. labels ! z = c \<and> conn n nb z x)"
    if "x \<in> set queue" for x
    using D(6) [of x] that by simp
  ultimately show ?thesis
    unfolding db_inv_def using D(1-4,8) by blast
qed

lemma db_inv_visit:
  assumes inv: "db_inv n nb c labels queued (q # queue)" and unv: "labels ! q = - 2"
    and sym: "\<And>x y. edge n nb x y \<Longrightarrow> edge n nb y x"
    and enq: "enqueue (labels[q := c]) queued queue (neighborsOf n nb q) = (queued', queue')"
  shows "db_inv n nb c (labels[q := c]) queued' queue'"
proof -
  let ?l = "labels[q := c]"
  note D = db_invD [OF inv]
  have q: "q < n" "\<exists>y. edge n nb q y" "\<exists>z < n. labels ! z = c \<and> conn n nb z q" using D(6) [of q] by auto
  have nbs: "set (neighborsOf n nb q) = {y. edge n nb q y}" by (rule set_neighborsOf [OF q(1)])
  have lab: "?l ! x = (if x = q then c else labels ! x)" if "x < n" for x
    using that D(1) by (simp add: nth_list_update)
  have ed: "edge n nb x y \<Longrightarrow> x < n \<and> y < n \<and> x \<noteq> y" for x y by (simp add: edge_def)
  have spec: "length queued' = n"
      "set queue' = set queue \<union> {r. edge n nb q r \<and> ?l ! r = - 2 \<and> \<not> queued ! r}"
      "\<And>x. x < n \<Longrightarrow> queued' ! x \<longleftrightarrow> queued ! x \<or> edge n nb q x \<and> ?l ! x = - 2"
    using enqueue_spec [OF enq] D(2) nbs ed by auto
  have cn: "c \<noteq> - 2" using D(3) by simp
  have to_q: "conn n nb x q" if "x < n" "labels ! x = c" for x
  proof -
    obtain z where z: "z < n" "labels ! z = c" "conn n nb z q" using q(3) by blast
    have "conn n nb x z" using D(8) [OF that(1) z(1)] that(2) z(2) D(3) by simp
    with z(3) show ?thesis by simp
  qed
  have reach: "conn n nb x y" if "x < n" "?l ! x = c" "y < n" "?l ! y = c" for x y
  proof (cases "x = q"; cases "y = q")
    assume "x \<noteq> q" "y \<noteq> q"
    with that lab [of x] lab [of y] D(3) D(8) [of x y] show ?thesis by simp
  next
    assume "x = q" "y \<noteq> q"
    with that lab [of y] conn_sym [OF sym to_q [of y]] show ?thesis by simp
  next
    assume "x \<noteq> q" "y = q"
    with that lab [of x] to_q [of x] show ?thesis by simp
  qed simp
  show ?thesis
    unfolding db_inv_def
  proof (intro conjI allI ballI impI)
    show "length ?l = n" "length queued' = n" "0 \<le> c" using D(1,3) spec(1) by auto
    show "?l ! x = - 2 \<or> ?l ! x = - 1 \<and> (\<forall>y. \<not> edge n nb x y) \<or>
        0 \<le> ?l ! x \<and> ?l ! x \<le> c \<and> (\<exists>y. edge n nb x y)" if "x < n" for x
      using D(3) D(4) [OF that] lab [OF that] q(2) by simp
    show "0 \<le> ?l ! x \<or> x \<in> set queue'" if "x < n" "queued' ! x" for x
      using that spec(2,3) D(3) D(5) [of x] lab [of x] by auto
    show "x < n" "\<exists>y. edge n nb x y" "\<exists>z < n. ?l ! z = c \<and> conn n nb z x"
      if "x \<in> set queue'" for x
    proof -
      have ql: "?l ! q = c" using lab [OF q(1)] by simp
      from that spec(2) consider "x \<in> set queue" | "edge n nb q x" by blast
      then have "x < n \<and> (\<exists>y. edge n nb x y) \<and> (\<exists>z < n. ?l ! z = c \<and> conn n nb z x)"
      proof cases
        case 1
        then obtain z where "x < n" "\<exists>y. edge n nb x y" "z < n" "labels ! z = c" "conn n nb z x"
          using D(6) [of x] by auto
        then show ?thesis using lab [of z] by (metis (no_types))
      next
        case 2
        then show ?thesis using sym [OF 2] ed [OF 2] ql q(1) by blast
      qed
      then show "x < n" "\<exists>y. edge n nb x y" "\<exists>z < n. ?l ! z = c \<and> conn n nb z x" by blast+
    qed
    show "?l ! y = ?l ! x \<or> ?l ! x = c \<and> y \<in> set queue'"
      if e: "edge n nb x y" and l: "0 \<le> ?l ! x" for x y
    proof (cases "x = q")
      case True
      have y: "y < n" "y \<noteq> q" using ed [OF e] True by auto
      consider "labels ! y = - 2" | "labels ! y = - 1" | "0 \<le> labels ! y" using D(4) [OF y(1)] by auto
      then show ?thesis
      proof cases
        case 1
        then have "y \<in> set queue'"
          using D(5) [OF y(1)] y e True spec(2) lab [OF y(1)] by auto
        then show ?thesis using True lab [OF q(1)] by simp
      next
        case 2
        then show ?thesis using D(4) [OF y(1)] sym [OF e] by auto
      next
        case 3
        have "edge n nb y q" using sym [OF e] True by simp
        then have "labels ! y = c" using D(7) [OF _ 3] unv 3 by fastforce
        then show ?thesis using True lab [OF q(1)] lab [OF y(1)] y(2) by simp
      qed
    next
      case False
      have xl: "0 \<le> labels ! x" using l lab [of x] ed [OF e] False by simp
      show ?thesis
        using D(7) [OF e xl] lab [of x] lab [of y] ed [OF e] False spec(2) unv xl
        by (cases "y = q") auto
    qed
    show "conn n nb x y" if "x < n" "y < n" "0 \<le> ?l ! x" "?l ! x = ?l ! y" for x y
    proof (cases "?l ! x = c")
      case True
      then show ?thesis using reach that by simp
    next
      case False
      then show ?thesis using D(8) [OF that(1,2)] that lab [of x] lab [of y] by (auto split: if_splits)
    qed
  qed
qed

text \<open>One step of \<open>expand\<close> for \<open>minPts = 2\<close>, where no queued point is noise.\<close>

lemma expand_step:
  assumes "db_inv n nb c labels queued (q # queue)"
  shows "expand n dbscanMinPts nb c labels queued (q # queue) =
    (if labels ! q \<noteq> - 2 then expand n dbscanMinPts nb c labels queued queue
     else let e = enqueue (labels[q := c]) queued queue (neighborsOf n nb q)
          in expand n dbscanMinPts nb c (labels[q := c]) (fst e) (snd e))"
proof -
  have q: "q < n" "\<exists>y. edge n nb q y" using db_invD(6) [OF assms, of q] by auto
  then have "labels ! q \<noteq> - 1" using db_invD(4) [OF assms q(1)] by auto
  moreover have "length (neighborsOf n nb q) + 1 \<ge> dbscanMinPts"
    using q neighborsOf_empty [of q n nb] core_iff [of n nb q] by blast
  ultimately show ?thesis by (simp add: Let_def)
qed

lemma expand_inv:
  assumes sym: "\<And>x y. edge n nb x y \<Longrightarrow> edge n nb y x"
  shows "db_inv n nb c labels queued queue \<Longrightarrow>
    expand n dbscanMinPts nb c labels queued queue = (labels', queued') \<Longrightarrow>
    db_inv n nb c labels' queued' [] \<and> (\<forall>x < n. labels ! x \<noteq> - 2 \<longrightarrow> labels' ! x = labels ! x)"
proof (induction "length queue + unqueued queued" arbitrary: labels queued queue rule: less_induct)
  case less
  show ?case
  proof (cases queue)
    case Nil
    with less.prems show ?thesis by simp
  next
    case (Cons q rest)
    note inv = less.prems(1) [unfolded Cons]
    note D = db_invD [OF inv]
    have q: "q < n" "\<exists>y. edge n nb q y" using D(6) [of q] by auto
    show ?thesis
    proof (cases "labels ! q = - 2")
      case False
      then have vis: "0 \<le> labels ! q" using D(4) [OF q(1)] q(2) by auto
      have "expand n dbscanMinPts nb c labels queued rest = (labels', queued')"
        using less.prems(2) False by (simp add: Cons expand_step [OF inv] del: expand.simps(2))
      from less.hyps [OF _ db_inv_pop [OF inv vis sym] this] show ?thesis by (simp add: Cons)
    next
      case True
      obtain queued1 queue1 where e:
        "enqueue (labels[q := c]) queued rest (neighborsOf n nb q) = (queued1, queue1)" by fastforce
      have inv1: "db_inv n nb c (labels[q := c]) queued1 queue1"
        by (rule db_inv_visit [OF inv True sym e])
      have ex: "expand n dbscanMinPts nb c (labels[q := c]) queued1 queue1 = (labels', queued')"
        using less.prems(2) True by (simp add: Cons expand_step [OF inv] e del: expand.simps(2))
      have dec: "length queue1 + unqueued queued1 < length queue + unqueued queued"
        using enqueue_measure [OF e] by (simp add: Cons)
      have keep: "labels[q := c] ! x = labels ! x" if "labels ! x \<noteq> - 2" for x
        using True that by (cases "x = q") auto
      have "labels[q := c] ! x \<noteq> - 2" if "labels ! x \<noteq> - 2" for x
        using keep [OF that] that by simp
      with less.hyps [OF dec inv1 ex] keep show ?thesis by auto
    qed
  qed
qed

subsection \<open>The outer loop\<close>

definition outer_inv :: "nat \<Rightarrow> (nat \<Rightarrow> nat \<Rightarrow> bool) \<Rightarrow> int \<Rightarrow> int list \<Rightarrow> bool list \<Rightarrow> bool" where
  "outer_inv n nb c labels queued \<longleftrightarrow>
     db_inv n nb c labels queued [] \<and> (\<forall>x < n. labels ! x < c) \<and> (c > 0 \<longrightarrow> (\<exists>x < n. 0 \<le> labels ! x))"

lemma nth_update_True: "x < length bs \<Longrightarrow> bs[a := True] ! x \<longleftrightarrow> x = a \<or> bs ! x"
  by (cases "x = a") auto

lemma fold_set_True:
  "length (fold (\<lambda>q qd. qd[q := True]) nb queued) = length queued"
  "x < length queued \<Longrightarrow> fold (\<lambda>q qd. qd[q := True]) nb queued ! x \<longleftrightarrow> x \<in> set nb \<or> queued ! x"
  by (induction nb arbitrary: queued) (auto simp: nth_update_True)

lemma start_cluster:
  assumes inv: "outer_inv n nb c labels queued" and p: "p < n" "labels ! p = - 2"
    and ne: "neighborsOf n nb p \<noteq> []"
    and sym: "\<And>x y. edge n nb x y \<Longrightarrow> edge n nb y x"
  shows "db_inv n nb c (labels[p := c]) (fold (\<lambda>q qd. qd[q := True]) (neighborsOf n nb p) queued)
    (neighborsOf n nb p)"
proof -
  let ?l = "labels[p := c]" and ?nbs = "neighborsOf n nb p"
  have lt: "\<And>x. x < n \<Longrightarrow> labels ! x < c" and db: "db_inv n nb c labels queued []"
    using inv by (auto simp: outer_inv_def)
  note D = db_invD [OF db]
  have nbs: "set ?nbs = {y. edge n nb p y}" by (rule set_neighborsOf [OF p(1)])
  have lab: "?l ! x = (if x = p then c else labels ! x)" if "x < n" for x
    using that D(1) by (simp add: nth_list_update)
  have ed: "edge n nb x y \<Longrightarrow> x < n \<and> y < n \<and> x \<noteq> y" for x y by (simp add: edge_def)
  have has: "\<exists>y. edge n nb p y" using ne neighborsOf_empty [OF p(1)] by blast
  have fresh: "?l ! x = c \<longleftrightarrow> x = p" if "x < n" for x
    using lab [OF that] lt [OF that] by auto
  have pos_edge: "\<not> edge n nb x p" if "x < n" "0 \<le> labels ! x" for x
    using D(7) [of x p] that p(2) by auto
  show ?thesis
    unfolding db_inv_def
  proof (intro conjI allI ballI impI)
    show "length ?l = n" "length (fold (\<lambda>q qd. qd[q := True]) ?nbs queued) = n" "0 \<le> c"
      using D(1-3) by (simp_all add: fold_set_True)
    show "?l ! x = - 2 \<or> ?l ! x = - 1 \<and> (\<forall>y. \<not> edge n nb x y) \<or>
        0 \<le> ?l ! x \<and> ?l ! x \<le> c \<and> (\<exists>y. edge n nb x y)" if "x < n" for x
      using D(3) D(4) [OF that] lab [OF that] has by simp
    show "0 \<le> ?l ! x \<or> x \<in> set ?nbs"
      if "x < n" "fold (\<lambda>q qd. qd[q := True]) ?nbs queued ! x" for x
      using that D(2,3) D(5) [OF that(1)] lab [OF that(1)] by (auto simp: fold_set_True)
    show "x < n" "\<exists>y. edge n nb x y" "\<exists>z < n. ?l ! z = c \<and> conn n nb z x" if "x \<in> set ?nbs" for x
    proof -
      have e: "edge n nb p x" using that nbs by simp
      then show "x < n" "\<exists>y. edge n nb x y" using ed [OF e] sym [OF e] by auto
      show "\<exists>z < n. ?l ! z = c \<and> conn n nb z x"
        using e p(1) fresh [OF p(1)] by (intro exI [of _ p]) auto
    qed
    show "?l ! y = ?l ! x \<or> ?l ! x = c \<and> y \<in> set ?nbs"
      if e: "edge n nb x y" and l: "0 \<le> ?l ! x" for x y
    proof (cases "x = p")
      case True
      then show ?thesis using e nbs fresh [OF p(1)] by simp
    next
      case False
      have xl: "0 \<le> labels ! x" using l lab [of x] ed [OF e] False by simp
      then have "y \<noteq> p" using pos_edge [of x] e ed [OF e] by blast
      then show ?thesis using D(7) [OF e xl] lab [of x] lab [of y] ed [OF e] False by simp
    qed
    show "conn n nb x y" if "x < n" "y < n" "0 \<le> ?l ! x" "?l ! x = ?l ! y" for x y
    proof (cases "x = p \<or> y = p")
      case True
      then have "x = y" using that fresh [OF p(1)] fresh [of x] fresh [of y] by metis
      then show ?thesis by simp
    next
      case False
      then show ?thesis using D(8) [OF that(1,2)] that lab [of x] lab [of y] by simp
    qed
  qed
qed

lemma mark_noise:
  assumes "outer_inv n nb c labels queued" and "p < n" "labels ! p = - 2"
    and "neighborsOf n nb p = []"
  shows "outer_inv n nb c (labels[p := - 1]) queued"
proof -
  have lt: "\<And>x. x < n \<Longrightarrow> labels ! x < c" and db: "db_inv n nb c labels queued []"
    and some: "c > 0 \<longrightarrow> (\<exists>x < n. 0 \<le> labels ! x)"
    using assms(1) by (auto simp: outer_inv_def)
  note D = db_invD [OF db]
  have none: "\<not> edge n nb p y" for y using assms(4) neighborsOf_empty [OF assms(2)] by blast
  have lab: "labels[p := - 1] ! x = (if x = p then - 1 else labels ! x)" if "x < n" for x
    using that D(1) by (simp add: nth_list_update)
  have sm: "0 \<le> labels[p := - 1] ! x \<longleftrightarrow> 0 \<le> labels ! x" if "x < n" for x
    using lab [OF that] assms(3) by auto
  have "db_inv n nb c (labels[p := - 1]) queued []"
    unfolding db_inv_def
  proof (intro conjI allI ballI impI)
    show "labels[p := - 1] ! y = labels[p := - 1] ! x \<or> labels[p := - 1] ! x = c \<and> y \<in> set []"
      if e: "edge n nb x y" and l: "0 \<le> labels[p := - 1] ! x" for x y
    proof -
      have xy: "x < n" "y < n" using edge_lt [OF e] by auto
      have "x \<noteq> p" using none e by auto
      moreover have "labels ! y = labels ! x" using D(7) [OF e] sm [OF xy(1)] l by auto
      moreover have "y \<noteq> p" using calculation sm [OF xy(1)] l assms(3) by auto
      ultimately show ?thesis using lab xy by simp
    qed
    show "conn n nb x y"
      if "x < n" "y < n" "0 \<le> labels[p := - 1] ! x" "labels[p := - 1] ! x = labels[p := - 1] ! y" for x y
      using D(8) [OF that(1,2)] that lab [of x] lab [of y] by (auto split: if_splits)
  qed (use D none lab sm in \<open>auto split: if_splits\<close>)
  moreover have "\<forall>x < n. labels[p := - 1] ! x < c" using lt lab D(3) by auto
  moreover have "c > 0 \<longrightarrow> (\<exists>x < n. 0 \<le> labels[p := - 1] ! x)" using some sm by blast
  ultimately show ?thesis by (simp add: outer_inv_def)
qed

lemma db_inv_next: "db_inv n nb c labels queued [] \<Longrightarrow> db_inv n nb (c + 1) labels queued []"
proof -
  assume inv: "db_inv n nb c labels queued []"
  note D = db_invD [OF inv]
  have "labels ! x = - 2 \<or> labels ! x = - 1 \<and> (\<forall>y. \<not> edge n nb x y) \<or>
      0 \<le> labels ! x \<and> labels ! x \<le> c + 1 \<and> (\<exists>y. edge n nb x y)" if "x < n" for x
    using D(4) [OF that] by (elim disjE conjE) simp_all
  moreover have "0 \<le> labels ! x" if "x < n" "queued ! x" for x using D(5) [OF that] by simp
  moreover have "labels ! y = labels ! x" if "edge n nb x y" "0 \<le> labels ! x" for x y
    using D(7) [OF that] by simp
  ultimately show ?thesis
    unfolding db_inv_def using D(1-3) D(8) by simp
qed

lemma finish_cluster:
  assumes inv: "outer_inv n nb c labels queued" and p: "p < n" "labels ! p = - 2"
    and ne: "neighborsOf n nb p \<noteq> []"
    and sym: "\<And>x y. edge n nb x y \<Longrightarrow> edge n nb y x"
    and ex: "expand n dbscanMinPts nb c (labels[p := c])
      (fold (\<lambda>q qd. qd[q := True]) (neighborsOf n nb p) queued) (neighborsOf n nb p) = (labels', queued')"
  shows "outer_inv n nb (c + 1) labels' queued'"
    and "\<And>x. x < n \<Longrightarrow> labels ! x \<noteq> - 2 \<or> x = p \<Longrightarrow> labels' ! x \<noteq> - 2"
proof -
  have len: "length labels = n" and c: "0 \<le> c"
    using inv by (auto simp: outer_inv_def db_inv_def)
  have db: "db_inv n nb c labels' queued' []"
    and keep: "\<And>x. x < n \<Longrightarrow> labels[p := c] ! x \<noteq> - 2 \<Longrightarrow> labels' ! x = labels[p := c] ! x"
    using expand_inv [OF sym start_cluster [OF inv p ne sym] ex] by auto
  have p': "labels' ! p = c"
    using keep [OF p(1)] p(1) len c by simp
  show "outer_inv n nb (c + 1) labels' queued'"
  proof -
    have "\<forall>x<n. labels' ! x < c + 1" using db_invD(4) [OF db] c by force
    moreover have "\<exists>x<n. 0 \<le> labels' ! x" using p(1) p' c by auto
    ultimately show ?thesis using db_inv_next [OF db] by (simp add: outer_inv_def)
  qed
  show "labels' ! x \<noteq> - 2" if "x < n" "labels ! x \<noteq> - 2 \<or> x = p" for x
    using that keep [OF that(1)] p' c by (cases "x = p") auto
qed

lemma dbscan_loop_inv:
  assumes sym: "\<And>x y. edge n nb x y \<Longrightarrow> edge n nb y x"
  shows "outer_inv n nb c labels queued \<Longrightarrow> set ps \<subseteq> {..<n} \<Longrightarrow>
    \<forall>x < n. x \<notin> set ps \<longrightarrow> labels ! x \<noteq> - 2 \<Longrightarrow>
    dbscan_loop n dbscanMinPts nb ps c labels queued = (labels', c') \<Longrightarrow>
    (\<exists>queued'. outer_inv n nb c' labels' queued') \<and> (\<forall>x < n. labels' ! x \<noteq> - 2)"
proof (induction ps arbitrary: c labels queued)
  case Nil
  then show ?case by auto
next
  case (Cons p ps)
  have p: "p < n" using Cons.prems(2) by auto
  have len: "length labels = n" using Cons.prems(1) by (simp add: outer_inv_def db_inv_def)
  consider "labels ! p \<noteq> - 2" | "labels ! p = - 2" "neighborsOf n nb p = []"
    | "labels ! p = - 2" "neighborsOf n nb p \<noteq> []" by blast
  then show ?case
  proof cases
    case 1
    then show ?thesis using Cons.IH [OF Cons.prems(1)] Cons.prems by auto
  next
    case 2
    have "labels[p := - 1] ! x \<noteq> - 2" if "x < n" "x \<notin> set ps" for x
      using Cons.prems(3) len that by (cases "x = p") auto
    with Cons.IH [OF mark_noise [OF Cons.prems(1) p 2]] Cons.prems(2,4) 2 show ?thesis
      using core_iff [of n nb p] by (auto simp: not_less)
  next
    case 3
    obtain labels2 queued2 where ex: "expand n dbscanMinPts nb c (labels[p := c])
        (fold (\<lambda>q qd. qd[q := True]) (neighborsOf n nb p) queued) (neighborsOf n nb p) = (labels2, queued2)"
      by fastforce
    note fin = finish_cluster [OF Cons.prems(1) p 3 sym ex]
    have "\<forall>x<n. x \<notin> set ps \<longrightarrow> labels2 ! x \<noteq> - 2"
      using Cons.prems(3) fin(2) by auto
    with Cons.IH [OF fin(1)] Cons.prems(2,4) 3 ex show ?thesis
      using core_iff [of n nb p] by (auto simp: not_less)
  qed
qed

lemma outer_inv_start: "outer_inv n nb 0 (replicate n dbscanUnvisited) (replicate n False)"
  by (auto simp: outer_inv_def db_inv_def edge_def)

lemma closed_conn:
  assumes "\<And>x y. edge n nb x y \<Longrightarrow> 0 \<le> labels ! x \<Longrightarrow> labels ! y = labels ! x"
    and "conn n nb x y" and "0 \<le> labels ! x"
  shows "labels ! y = labels ! x"
  using assms(2) by (induction rule: rtranclp_induct) (use assms(1,3) in auto)

lemma dbscanLabels_exact:
  assumes "\<forall>x < n. \<forall>y < n. neighbor x y \<longrightarrow> neighbor y x"
    and "dbscanLabels n dbscanMinPts neighbor = (labels, dense)"
  shows "length labels = n \<and>
    (\<forall>x < n. labels ! x = dbscanNoise \<longleftrightarrow> (\<forall>y < n. y \<noteq> x \<longrightarrow> \<not> neighbor x y)) \<and>
    (\<forall>x < n. labels ! x = dbscanNoise \<or> 0 \<le> labels ! x) \<and>
    (\<forall>x < n. \<forall>y < n. 0 \<le> labels ! x \<longrightarrow> (labels ! x = labels ! y \<longleftrightarrow> conn n neighbor x y)) \<and>
    (dense \<longleftrightarrow> (\<exists>x < n. 0 \<le> labels ! x))"
proof -
  have sym: "edge n neighbor y x" if "edge n neighbor x y" for x y
    using that assms(1) by (auto simp: edge_def)
  obtain c where loop: "dbscan_loop n dbscanMinPts neighbor [0..<n] 0 (replicate n dbscanUnvisited)
      (replicate n False) = (labels, c)" and d: "dense \<longleftrightarrow> c > 0"
    using assms(2) by (auto simp: dbscanLabels_def split: prod.splits)
  obtain queued where inv: "outer_inv n neighbor c labels queued" and vis: "\<forall>x < n. labels ! x \<noteq> - 2"
    using dbscan_loop_inv [OF sym outer_inv_start _ _ loop] by (auto simp: lessThan_atLeast0)
  note D = db_invD [OF conjunct1 [OF inv [unfolded outer_inv_def]]]
  have noise: "labels ! x = - 1 \<longleftrightarrow> (\<forall>y < n. y \<noteq> x \<longrightarrow> \<not> neighbor x y)" if "x < n" for x
    using D(4) [OF that] vis that by (auto simp: edge_def)
  have lab: "labels ! x = - 1 \<or> 0 \<le> labels ! x" if "x < n" for x
    using D(4) [OF that] vis that by auto
  have "labels ! x = labels ! y \<longleftrightarrow> conn n neighbor x y" if "x < n" "y < n" "0 \<le> labels ! x" for x y
    using D(8) [OF that] closed_conn [of n neighbor labels x y] D(7) that(3) by auto
  moreover have "dense \<longleftrightarrow> (\<exists>x < n. 0 \<le> labels ! x)"
    using d inv by (force simp: outer_inv_def)
  ultimately show ?thesis
    using D(1) noise lab by simp
qed

text \<open>
  C34. DBSCAN with \<^verbatim>\<open>dbscanMinPts\<close> is exact for a symmetric neighbourhood: every point gets a label;
  it is noise precisely when it has no neighbour, two points of clusters share a label precisely
  when a chain of neighbours connects them, and \<^verbatim>\<open>dense\<close> reports whether any cluster formed.
\<close>

theorem dbscan_components:
  assumes "\<forall>x < n. \<forall>y < n. neighbor x y \<longrightarrow> neighbor y x"
    and "dbscanLabels n dbscanMinPts neighbor = (labels, dense)"
  shows "length labels = n \<and>
    (\<forall>x < n. labels ! x = dbscanNoise \<longleftrightarrow> (\<forall>y < n. y \<noteq> x \<longrightarrow> \<not> neighbor x y)) \<and>
    (\<forall>x < n. labels ! x = dbscanNoise \<or> 0 \<le> labels ! x) \<and>
    (\<forall>x < n. \<forall>y < n. 0 \<le> labels ! x \<longrightarrow> (labels ! x = labels ! y \<longleftrightarrow> conn n neighbor x y)) \<and>
    (dense \<longleftrightarrow> (\<exists>x < n. 0 \<le> labels ! x))"
  by (rule dbscanLabels_exact [OF assms])

theorem dbscan_components_witness:
  "dbscanLabels 3 dbscanMinPts (\<lambda>x y. x + y = 1) = ([0, 0, - 1], True) \<and>
   ([0, 0, - 1] ! 2 = dbscanNoise \<longleftrightarrow> (\<forall>y < 3. y \<noteq> 2 \<longrightarrow> \<not> 2 + y = (1::nat))) \<and>
   conn 3 (\<lambda>x y. x + y = 1) 0 1"
proof -
  have eq: "dbscanLabels 3 dbscanMinPts (\<lambda>x y. x + y = 1) = ([0, 0, - 1], True)"
    by code_simp
  have "\<forall>x < 3. \<forall>y < 3. x + y = 1 \<longrightarrow> y + x = (1::nat)" by auto
  note dc = dbscan_components [OF this eq]
  have "([0, 0, - 1] ! 2 = dbscanNoise \<longleftrightarrow> (\<forall>y < 3. y \<noteq> 2 \<longrightarrow> \<not> 2 + y = (1::nat)))"
    by (rule dc [THEN conjunct2, THEN conjunct1, rule_format]) simp
  moreover have "[0, 0, - 1 :: int] ! 0 = [0, 0, - 1] ! 1 \<longleftrightarrow> conn 3 (\<lambda>x y. x + y = 1) 0 1"
    by (rule dc [THEN conjunct2, THEN conjunct2, THEN conjunct2, THEN conjunct1, rule_format]) simp_all
  ultimately show ?thesis using eq by simp
qed

end
