(* ===== verification/UnionFind.thy ===== *)
theory UnionFind
  imports Prelude
begin

text \<open>
  The disjoint-set structure of \<^verbatim>\<open>reconcile/dedupe.go\<close>: a parent slice, \<^verbatim>\<open>find\<close> with path halving and
  \<^verbatim>\<open>union\<close> toward the smaller root. \<open>None\<close> is a call that does not return: an index out of range
  panics, and a cyclic parent slice would loop for ever. On the slices the code builds both are
  excluded by the invariant that no parent exceeds its child.
\<close>

subsection \<open>Definitions\<close>

record unionFind =
  parent :: "nat list"

definition newUnionFind :: "nat \<Rightarrow> unionFind" where
  "newUnionFind n = \<lparr>parent = [0..<n]\<rparr>"

partial_function (option) uf_find :: "unionFind \<Rightarrow> nat \<Rightarrow> (nat \<times> unionFind) option" where
  "uf_find u x =
     (if \<not> x < length (parent u) then None
      else if parent u ! x = x then Some (x, u)
      else if \<not> parent u ! x < length (parent u) then None
      else (let u1 = u\<lparr>parent := (parent u)[x := parent u ! (parent u ! x)]\<rparr>
            in uf_find u1 (parent u1 ! x)))"

declare uf_find.simps [code]

definition uf_union :: "unionFind \<Rightarrow> nat \<Rightarrow> nat \<Rightarrow> unionFind option" where
  "uf_union u a b =
     (case uf_find u a of
        None \<Rightarrow> None
      | Some (ra, u1) \<Rightarrow>
          (case uf_find u1 b of
             None \<Rightarrow> None
           | Some (rb, u2) \<Rightarrow>
               if ra = rb then Some u2
               else if ra < rb then Some (u2\<lparr>parent := (parent u2)[rb := ra]\<rparr>)
               else Some (u2\<lparr>parent := (parent u2)[ra := rb]\<rparr>)))"

subsection \<open>Roots\<close>

definition uf_inv :: "unionFind \<Rightarrow> bool" where
  "uf_inv u \<longleftrightarrow> (\<forall>x < length (parent u). parent u ! x \<le> x)"

lemma uf_invD: "uf_inv u \<Longrightarrow> x < length (parent u) \<Longrightarrow> parent u ! x \<le> x"
  by (simp add: uf_inv_def)

function root :: "unionFind \<Rightarrow> nat \<Rightarrow> nat" where
  "root u x = (if x < length (parent u) \<and> parent u ! x < x then root u (parent u ! x) else x)"
  by pat_completeness auto
termination
  by (relation "measure snd") auto

declare root.simps [simp del]

lemma root_le: "root u x \<le> x"
proof (induction u x rule: root.induct)
  case (1 u x)
  then show ?case by (subst root.simps) (auto intro: order.trans less_imp_le)
qed

lemma root_fix:
  assumes "uf_inv u" and "x < length (parent u)"
  shows "parent u ! root u x = root u x"
  using assms
proof (induction u x rule: root.induct)
  case (1 u x)
  show ?case
  proof (cases "parent u ! x < x")
    case True
    with "1.prems" have "parent u ! root u (parent u ! x) = root u (parent u ! x)"
      by (intro "1.IH") auto
    with True "1.prems" show ?thesis by (simp add: root.simps [of u x])
  next
    case False
    with "1.prems" uf_invD [of u x] show ?thesis by (simp add: root.simps [of u x])
  qed
qed

lemma root_parent:
  "uf_inv u \<Longrightarrow> x < length (parent u) \<Longrightarrow> root u (parent u ! x) = root u x"
  using uf_invD [of u x] by (cases "parent u ! x = x") (auto simp: root.simps [of u x])

lemma root_of_root: "uf_inv u \<Longrightarrow> x < length (parent u) \<Longrightarrow> root u (root u x) = root u x"
  using root_fix [of u x] by (subst root.simps) simp

lemma root_self: "parent u ! x = x \<Longrightarrow> root u x = x"
  by (subst root.simps) simp

text \<open>
  Redirecting a node to a smaller node of its own class changes no root; redirecting a root to a
  smaller root merges the two classes.
\<close>

lemma root_shortcut:
  assumes "uf_inv u" and "x < length (parent u)" and "y \<le> x" and "root u y = root u x"
    and "x \<noteq> root u x \<longrightarrow> y < x"
  shows "uf_inv (u\<lparr>parent := (parent u)[x := y]\<rparr>)"
    and "z < length (parent u) \<Longrightarrow> root (u\<lparr>parent := (parent u)[x := y]\<rparr>) z = root u z"
proof -
  let ?v = "u\<lparr>parent := (parent u)[x := y]\<rparr>"
  show inv: "uf_inv ?v"
    using assms(1-3) by (auto simp: uf_inv_def nth_list_update)
  show "root ?v z = root u z" if "z < length (parent u)"
    using that
  proof (induction z rule: less_induct)
    case (less z)
    show ?case
    proof (cases "z = x")
      case False
      then have "parent ?v ! z = parent u ! z" by simp
      then show ?thesis
        using less.IH [of "parent u ! z"] less.prems by (simp add: root.simps [of _ z])
    next
      case True
      show ?thesis
      proof (cases "y < x")
        case True
        then have "root ?v y = root u y"
          using less.IH [of y] less.prems \<open>z = x\<close> by simp
        then show ?thesis
          using True less.prems \<open>z = x\<close> assms(4) by (simp add: root.simps [of ?v x])
      next
        case False
        with assms(3,5) have "y = x" "root u x = x" by auto
        then show ?thesis
          using \<open>z = x\<close> assms(2) by (simp add: root_self)
      qed
    qed
  qed
qed

lemma uf_find_correct:
  assumes "uf_inv u" and "x < length (parent u)"
  shows "\<exists>u'. uf_find u x = Some (root u x, u') \<and> uf_inv u' \<and> length (parent u') = length (parent u) \<and>
    (\<forall>z < length (parent u). root u' z = root u z)"
  using assms
proof (induction x arbitrary: u rule: less_induct)
  case (less x)
  let ?p = "parent u ! x"
  show ?case
  proof (cases "?p = x")
    case True
    with less.prems show ?thesis by (simp add: uf_find.simps [of u x] root_self)
  next
    case False
    let ?g = "parent u ! ?p"
    let ?v = "u\<lparr>parent := (parent u)[x := ?g]\<rparr>"
    have p: "?p < x" using uf_invD [OF less.prems] False by simp
    have g: "?g \<le> ?p" using uf_invD [OF less.prems(1), of ?p] p less.prems(2) by simp
    have "root u ?g = root u x"
      using root_parent [OF less.prems] root_parent [OF less.prems(1), of ?p] p less.prems(2) by simp
    note sc = root_shortcut [OF less.prems _ this] 
    have inv: "uf_inv ?v" and roots: "\<forall>z < length (parent u). root ?v z = root u z"
      using sc p g by auto
    have gx: "?g < x" using p g by simp
    obtain u' where u': "uf_find ?v ?g = Some (root ?v ?g, u')" "uf_inv u'"
        "length (parent u') = length (parent ?v)" "\<forall>z < length (parent ?v). root u' z = root ?v z"
      using less.IH [OF gx inv] gx less.prems(2) by auto
    have "uf_find u x = uf_find ?v ?g"
      using False p less.prems(2) by (simp add: uf_find.simps [of u x])
    with u' roots gx less.prems(2) \<open>root u ?g = root u x\<close> show ?thesis by simp
  qed
qed

subsection \<open>Union\<close>

lemma root_link:
  assumes "uf_inv u" and "ra < rb" and "rb < length (parent u)" and "parent u ! ra = ra"
    and "parent u ! rb = rb"
  shows "uf_inv (u\<lparr>parent := (parent u)[rb := ra]\<rparr>)"
    and "z < length (parent u) \<Longrightarrow>
      root (u\<lparr>parent := (parent u)[rb := ra]\<rparr>) z = (if root u z = rb then ra else root u z)"
proof -
  let ?v = "u\<lparr>parent := (parent u)[rb := ra]\<rparr>"
  show "uf_inv ?v"
    using assms(1-3) by (auto simp: uf_inv_def nth_list_update)
  show "root ?v z = (if root u z = rb then ra else root u z)" if "z < length (parent u)"
    using that
  proof (induction z rule: less_induct)
    case (less z)
    show ?case
    proof (cases "z = rb")
      case True
      have "root ?v ra = ra" using assms(2,4) by (intro root_self) simp
      with True assms(2,3,5) show ?thesis by (simp add: root.simps [of ?v rb] root_self)
    next
      case False
      then have "parent ?v ! z = parent u ! z" by simp
      then show ?thesis
        using less.IH [of "parent u ! z"] less.prems False by (simp add: root.simps [of _ z])
    qed
  qed
qed

lemma uf_union_correct:
  assumes "uf_inv u" and "a < length (parent u)" and "b < length (parent u)"
  shows "\<exists>u'. uf_union u a b = Some u' \<and> uf_inv u' \<and> length (parent u') = length (parent u) \<and>
    (\<forall>z < length (parent u). root u' z =
      (if root u z = root u a \<or> root u z = root u b then min (root u a) (root u b) else root u z))"
proof -
  let ?n = "length (parent u)" and ?ra = "root u a" and ?rb = "root u b"
  obtain u1 where u1: "uf_find u a = Some (?ra, u1)" "uf_inv u1" "length (parent u1) = ?n"
      "\<forall>z < ?n. root u1 z = root u z"
    using uf_find_correct [OF assms(1,2)] by blast
  obtain u2 where u2: "uf_find u1 b = Some (?rb, u2)" "uf_inv u2" "length (parent u2) = ?n"
      "\<forall>z < ?n. root u2 z = root u z"
    using uf_find_correct [OF u1(2), of b] u1(3,4) assms(3) by auto
  have lt: "?ra < ?n" "?rb < ?n"
    using root_le [of u a] root_le [of u b] assms(2,3) by auto
  have fixp: "parent u2 ! ?ra = ?ra" "parent u2 ! ?rb = ?rb"
    using root_fix [OF u2(2), of a] root_fix [OF u2(2), of b] u2(3,4) assms(2,3) by auto
  consider "?ra = ?rb" | "?ra < ?rb" | "?rb < ?ra" by linarith
  then show ?thesis
  proof cases
    case 1
    with u1 u2 show ?thesis by (auto simp: uf_union_def)
  next
    case 2
    with u1(1) u2 root_link [OF u2(2) 2 _ fixp] lt show ?thesis
      by (auto simp: uf_union_def min_def)
  next
    case 3
    with u1(1) u2 root_link [OF u2(2) 3 _ fixp(2,1)] lt show ?thesis
      by (auto simp: uf_union_def min_def)
  qed
qed

fun uf_unions :: "unionFind \<Rightarrow> (nat \<times> nat) list \<Rightarrow> unionFind option" where
  "uf_unions u [] = Some u"
| "uf_unions u ((a, b) # ps) = (case uf_union u a b of None \<Rightarrow> None | Some u1 \<Rightarrow> uf_unions u1 ps)"

abbreviation linked_by :: "(nat \<times> nat) list \<Rightarrow> nat \<Rightarrow> nat \<Rightarrow> bool" where
  "linked_by ps \<equiv> equivclp (\<lambda>x y. (x, y) \<in> set ps)"

text \<open>
  From \<open>u\<close> to \<open>u'\<close> every pair of \<open>ps\<close> is joined, nothing already joined comes apart, and nothing is
  joined that an equivalence holding of the old classes and of the pairs does not relate.
\<close>

definition joins :: "unionFind \<Rightarrow> (nat \<times> nat) list \<Rightarrow> unionFind \<Rightarrow> bool" where
  "joins u ps u' \<longleftrightarrow>
     (\<forall>(a, b) \<in> set ps. root u' a = root u' b) \<and>
     (\<forall>x < length (parent u). \<forall>y < length (parent u). root u x = root u y \<longrightarrow> root u' x = root u' y) \<and>
     (\<forall>Q. equivp Q \<longrightarrow> (\<forall>(a, b) \<in> set ps. Q a b) \<longrightarrow>
        (\<forall>x < length (parent u). \<forall>y < length (parent u). root u x = root u y \<longrightarrow> Q x y) \<longrightarrow>
        (\<forall>x < length (parent u). \<forall>y < length (parent u). root u' x = root u' y \<longrightarrow> Q x y))"

lemma uf_unions_correct:
  assumes "uf_inv u" and "\<forall>(a, b) \<in> set ps. a < length (parent u) \<and> b < length (parent u)"
  shows "\<exists>u'. uf_unions u ps = Some u' \<and> uf_inv u' \<and> length (parent u') = length (parent u) \<and>
    joins u ps u'"
  using assms
proof (induction ps arbitrary: u)
  case Nil
  then show ?case by (simp add: joins_def)
next
  case (Cons p ps)
  obtain a b where p: "p = (a, b)" by fastforce
  let ?n = "length (parent u)"
  have ab: "a < ?n" "b < ?n" using Cons.prems(2) by (auto simp: p)
  obtain v where v: "uf_union u a b = Some v" "uf_inv v" "length (parent v) = ?n"
      "\<forall>z < ?n. root v z =
        (if root u z = root u a \<or> root u z = root u b then min (root u a) (root u b) else root u z)"
    using uf_union_correct [OF Cons.prems(1) ab] by blast
  have joined: "root v a = root v b" using v(4) ab by simp
  have keeps: "root v x = root v y" if "x < ?n" "y < ?n" "root u x = root u y" for x y
    using v(4) that by simp
  have only: "Q x y" if Q: "equivp Q" "Q a b" "\<forall>x < ?n. \<forall>y < ?n. root u x = root u y \<longrightarrow> Q x y"
    and xy: "x < ?n" "y < ?n" "root v x = root v y" for Q x y
  proof -
    have "root v x = (if root u x = root u a \<or> root u x = root u b then min (root u a) (root u b) else root u x)"
      "root v y = (if root u y = root u a \<or> root u y = root u b then min (root u a) (root u b) else root u y)"
      using v(4) xy by auto
    with xy(3) have "root u x = root u y \<or>
        root u x \<in> {root u a, root u b} \<and> root u y \<in> {root u a, root u b}"
      by (auto simp: min_def split: if_splits)
    then consider "root u x = root u y"
      | c d where "c \<in> {a, b}" "d \<in> {a, b}" "root u x = root u c" "root u d = root u y"
      by (metis insert_iff singletonD)
    then show ?thesis
    proof cases
      case 1
      with Q(3) xy show ?thesis by blast
    next
      case (2 c d)
      have "Q x c" and "Q d y" using Q(3) ab xy(1,2) 2 by blast+
      moreover have "Q c d"
        using 2(1,2) Q(2) equivp_reflp [OF Q(1)] equivp_symp [OF Q(1)] by blast
      ultimately show ?thesis by (meson Q(1) equivp_transp)
    qed
  qed
  have "\<forall>(a, b) \<in> set ps. a < length (parent v) \<and> b < length (parent v)"
    using Cons.prems(2) v(3) by simp
  from Cons.IH [OF v(2) this]
  obtain u' where u': "uf_unions v ps = Some u'" "uf_inv u'" "length (parent u') = ?n"
    and js: "joins v ps u'"
    unfolding v(3) by blast
  have j1: "\<forall>(a, b) \<in> set ps. root u' a = root u' b"
    and j2: "\<And>x y. x < ?n \<Longrightarrow> y < ?n \<Longrightarrow> root v x = root v y \<Longrightarrow> root u' x = root u' y"
    and j3: "\<And>Q. equivp Q \<Longrightarrow> \<forall>(a, b) \<in> set ps. Q a b \<Longrightarrow>
      \<forall>x < ?n. \<forall>y < ?n. root v x = root v y \<longrightarrow> Q x y \<Longrightarrow>
      \<forall>x < ?n. \<forall>y < ?n. root u' x = root u' y \<longrightarrow> Q x y"
    using js unfolding joins_def v(3) by blast+
  have "joins u (p # ps) u'"
    unfolding joins_def
  proof (intro conjI allI impI)
    show "\<forall>(a, b)\<in>set (p # ps). root u' a = root u' b"
      using j1 j2 [OF ab joined] by (simp add: p)
    show "root u' x = root u' y" if "x < ?n" "y < ?n" "root u x = root u y" for x y
      using j2 keeps that by blast
    show "Q x y" if Q: "equivp Q" "\<forall>(a, b)\<in>set (p # ps). Q a b"
        "\<forall>x<?n. \<forall>y<?n. root u x = root u y \<longrightarrow> Q x y"
      and xy: "x < ?n" "y < ?n" "root u' x = root u' y" for Q x y
    proof -
      have "Q a b" and ps: "\<forall>(a, b)\<in>set ps. Q a b" using Q(2) by (simp_all add: p)
      then have "\<forall>x<?n. \<forall>y<?n. root v x = root v y \<longrightarrow> Q x y"
        using only [OF Q(1) _ Q(3)] by blast
      from j3 [OF Q(1) ps this] xy show ?thesis by blast
    qed
  qed
  with u' v(1) show ?case by (simp add: p)
qed

lemma root_newUnionFind: "x < n \<Longrightarrow> root (newUnionFind n) x = x"
  by (rule root_self) (simp add: newUnionFind_def)

lemma newUnionFind_inv: "uf_inv (newUnionFind n)" "length (parent (newUnionFind n)) = n"
  by (simp_all add: newUnionFind_def uf_inv_def)

lemma equivp_equivclp: "equivp (equivclp r)"
  by (rule equivpI)
    (auto intro: reflpI sympI transpI equivclp_sym equivclp_trans)

text \<open>
  C33. Union-find computes connectivity: from a fresh structure, after any sequence of unions of
  indices in range, no call has looped or gone out of range, and two indices have the same
  representative exactly when the unions connect them, directly or through others. The
  representative never exceeds the index, so a class is represented by its smallest member.
\<close>

theorem union_find_connectivity:
  assumes "\<forall>(a, b) \<in> set ps. a < n \<and> b < n"
  shows "\<exists>u. uf_unions (newUnionFind n) ps = Some u \<and>
    (\<forall>x < n. \<exists>u'. uf_find u x = Some (root u x, u')) \<and>
    (\<forall>x < n. \<forall>y < n. root u x = root u y \<longleftrightarrow> linked_by ps x y) \<and> (\<forall>x < n. root u x \<le> x)"
proof -
  have "\<forall>(a, b) \<in> set ps. a < length (parent (newUnionFind n)) \<and> b < length (parent (newUnionFind n))"
    using assms by (simp add: newUnionFind_inv)
  from uf_unions_correct [OF newUnionFind_inv(1) this]
  obtain u where u: "uf_unions (newUnionFind n) ps = Some u" "uf_inv u" "length (parent u) = n"
    and js: "joins (newUnionFind n) ps u"
    unfolding newUnionFind_inv by blast
  have pairs: "\<forall>(a, b) \<in> set ps. root u a = root u b"
    and only: "\<forall>x < n. \<forall>y < n. root (newUnionFind n) x = root (newUnionFind n) y \<longrightarrow> linked_by ps x y \<Longrightarrow>
      \<forall>x < n. \<forall>y < n. root u x = root u y \<longrightarrow> linked_by ps x y"
    using js equivp_equivclp [of "\<lambda>x y. (x, y) \<in> set ps"]
    unfolding joins_def newUnionFind_inv by (blast intro: r_into_equivclp)+
  have "root u x = root u y" if "linked_by ps x y" for x y
    using that by (induction rule: equivclp_induct) (use pairs in auto)
  moreover have "\<forall>x < n. \<forall>y < n. root u x = root u y \<longrightarrow> linked_by ps x y"
    by (rule only) (simp add: root_newUnionFind)
  moreover have "\<forall>x < n. \<exists>u'. uf_find u x = Some (root u x, u')"
    using uf_find_correct [OF u(2)] u(3) by blast
  ultimately show ?thesis
    using u(1) root_le by blast
qed

theorem union_find_connectivity_witness:
  "\<exists>u. uf_unions (newUnionFind 4) [(3, 1), (0, 3)] = Some u \<and>
    (\<forall>x < 4. \<exists>u'. uf_find u x = Some (root u x, u')) \<and>
    (\<forall>x < 4. \<forall>y < 4. root u x = root u y \<longleftrightarrow> linked_by [(3, 1), (0, 3)] x y) \<and>
    (\<forall>x < 4. root u x \<le> x)"
  by (rule union_find_connectivity) simp

end
