(* ===== verification/Dedupe.thy ===== *)
theory Dedupe
  imports Bipartite Dbscan UnionFind Ambiguous
begin

text \<open>
  \<^verbatim>\<open>dedupeCluster\<close> of \<^verbatim>\<open>reconcile/dedupe.go\<close>: one location cluster is partitioned into merge groups by
  bipartite matching, gray pairs are recorded or, when adjudicated, folded by union-find, and DBSCAN
  isolates noise. \<open>dedupe_plan\<close> is the pass on indices; \<open>dedupeCluster\<close> reads the findings off it.
  \<open>None\<close> is a panic. The theorems show that every finding ends in one group or is isolated as noise,
  that adjudications are honoured and never contradicted by the sidecar, and that without them any
  two findings of a group are duplicates from different sources.
\<close>

subsection \<open>Definitions\<close>

definition maxClusterSize :: nat where "maxClusterSize = 500"

type_synonym adjudications = "string \<rightharpoonup> bool"

definition adjudicated :: "adjudications \<Rightarrow> string \<Rightarrow> bool" where
  "adjudicated merges ident \<longleftrightarrow> merges ident = Some True"

text \<open>The cached relation and similarity of a pair, computed once for the lower and the higher index.\<close>

definition pair_class :: "runtime \<Rightarrow> finding list \<Rightarrow> nat \<Rightarrow> nat \<Rightarrow> relation \<times> rat" where
  "pair_class rt cluster i j =
     classify rt (tokenize (Problem (cluster ! min i j))) (tokenize (Problem (cluster ! max i j)))"

definition rel_of :: "runtime \<Rightarrow> finding list \<Rightarrow> nat \<Rightarrow> nat \<Rightarrow> relation" where
  "rel_of rt cluster i j = (if i = j then relDistinct else fst (pair_class rt cluster i j))"

definition sim_of :: "runtime \<Rightarrow> finding list \<Rightarrow> nat \<Rightarrow> nat \<Rightarrow> rat" where
  "sim_of rt cluster i j = (if i = j then 0 else snd (pair_class rt cluster i j))"

definition same_key :: "string list \<Rightarrow> nat \<Rightarrow> nat \<Rightarrow> bool" where
  "same_key keys i j \<longleftrightarrow> keys ! i \<noteq> [] \<and> keys ! i = keys ! j"

definition dist_matrix :: "runtime \<Rightarrow> finding list \<Rightarrow> string list \<Rightarrow> rat list list" where
  "dist_matrix rt cluster keys =
     map (\<lambda>i. map (\<lambda>j. if i = j then 0
                       else if same_key keys (min i j) (max i j) then distanceFloor
                       else fl rt (distanceCeiling - sim_of rt cluster i j)) [0..<length cluster])
         [0..<length cluster]"

definition srcKeys :: "finding list \<Rightarrow> string list" where
  "srcKeys cluster =
     map (\<lambda>i. if Reviewer (cluster ! i) \<noteq> [] then CHR 0x00 # ''src'' @ CHR 0x00 # Reviewer (cluster ! i)
              else CHR 0x00 # ''anon'' @ CHR 0x00 # Itoa (int i)) [0..<length cluster]"

definition mergeable :: "runtime \<Rightarrow> finding list \<Rightarrow> string list \<Rightarrow> nat \<Rightarrow> nat \<Rightarrow> bool" where
  "mergeable rt cluster keys a b \<longleftrightarrow> same_key keys a b \<or> rel_of rt cluster a b = relMerge"

definition cluster_groups :: "runtime \<Rightarrow> finding list \<Rightarrow> string list \<Rightarrow> nat list list option" where
  "cluster_groups rt cluster keys =
     bipartiteGroups rt (srcKeys cluster) (dist_matrix rt cluster keys) (mergeable rt cluster keys)"

definition groupOf :: "nat \<Rightarrow> nat list list \<Rightarrow> nat list" where
  "groupOf n groups =
     fold (\<lambda>gi gof. fold (\<lambda>idx gof. gof[idx := gi]) (groups ! gi) gof) [0..<length groups] (replicate n 0)"

definition index_pairs :: "nat \<Rightarrow> (nat \<times> nat) list" where
  "index_pairs n = concat (map (\<lambda>i. map (\<lambda>j. (i, j)) [i + 1..<n]) [0..<n])"

text \<open>Whether the scan reaches the id of a pair, and whether that id was adjudicated.\<close>

definition gray_pair :: "runtime \<Rightarrow> finding list \<Rightarrow> string list \<Rightarrow> nat list \<Rightarrow> nat \<times> nat \<Rightarrow> bool" where
  "gray_pair rt cluster keys gof p =
     (case p of (i, j) \<Rightarrow> gof ! i \<noteq> gof ! j \<and> \<not> same_key keys i j \<and> rel_of rt cluster i j = relGray)"

definition pair_id :: "runtime \<Rightarrow> finding list \<Rightarrow> nat \<times> nat \<Rightarrow> string" where
  "pair_id rt cluster p =
     (case p of (i, j) \<Rightarrow> AmbiguousID rt (File (cluster ! i)) (Line (cluster ! i)) (Problem (cluster ! i)) (Problem (cluster ! j)))"

fun gray_scan ::
  "(nat \<times> nat \<Rightarrow> bool) \<Rightarrow> (nat \<times> nat \<Rightarrow> bool) \<Rightarrow> nat list \<Rightarrow> (nat \<times> nat) list \<Rightarrow> unionFind \<Rightarrow> (nat \<times> nat) list \<Rightarrow>
   (unionFind \<times> (nat \<times> nat) list) option" where
  "gray_scan gray adj gof [] uf amb = Some (uf, amb)"
| "gray_scan gray adj gof (p # ps) uf amb =
     (if \<not> gray p then gray_scan gray adj gof ps uf amb
      else if adj p then
        (case uf_union uf (gof ! fst p) (gof ! snd p) of
           None \<Rightarrow> None
         | Some uf \<Rightarrow> gray_scan gray adj gof ps uf amb)
      else gray_scan gray adj gof ps uf (amb @ [p]))"

text \<open>The post-loop root check; every \<^verbatim>\<open>find\<close> halves paths.\<close>

fun keep_pairs :: "nat list \<Rightarrow> (nat \<times> nat) list \<Rightarrow> unionFind \<Rightarrow> (unionFind \<times> (nat \<times> nat) list) option" where
  "keep_pairs gof [] uf = Some (uf, [])"
| "keep_pairs gof (p # ps) uf =
     (case uf_find uf (gof ! fst p) of
        None \<Rightarrow> None
      | Some (ra, uf) \<Rightarrow>
          (case uf_find uf (gof ! snd p) of
             None \<Rightarrow> None
           | Some (rb, uf) \<Rightarrow>
               map_option (\<lambda>(uf, kept). (uf, if ra \<noteq> rb then p # kept else kept)) (keep_pairs gof ps uf)))"

text \<open>\<^verbatim>\<open>rootIdx\<close> with its \<^verbatim>\<open>rootOrder\<close>: an association list in the order the roots are met.\<close>

fun add_root :: "'k \<Rightarrow> 'a list \<Rightarrow> ('k \<times> 'a list) list \<Rightarrow> ('k \<times> 'a list) list" where
  "add_root r g [] = [(r, g)]"
| "add_root r g ((k, xs) # al) = (if k = r then (k, xs @ g) # al else (k, xs) # add_root r g al)"

fun collect_roots ::
  "nat list list \<Rightarrow> nat list \<Rightarrow> unionFind \<Rightarrow> (nat \<times> nat list) list \<Rightarrow> (nat \<times> nat list) list option" where
  "collect_roots groups [] uf al = Some al"
| "collect_roots groups (gi # gis) uf al =
     (case uf_find uf gi of
        None \<Rightarrow> None
      | Some (r, uf) \<Rightarrow> collect_roots groups gis uf (add_root r (groups ! gi) al))"

definition dense_neighbor :: "runtime \<Rightarrow> finding list \<Rightarrow> string list \<Rightarrow> nat \<Rightarrow> nat \<Rightarrow> bool" where
  "dense_neighbor rt cluster keys a b \<longleftrightarrow>
     mergeable rt cluster keys a b \<and> Reviewer (cluster ! a) \<noteq> Reviewer (cluster ! b)"

definition noise_indices ::
  "runtime \<Rightarrow> finding list \<Rightarrow> string list \<Rightarrow> (nat \<times> nat) list \<Rightarrow> (nat \<times> nat list) list \<Rightarrow> nat list" where
  "noise_indices rt cluster keys kept roots =
     (let (labels, dense) = dbscanLabels (length cluster) dbscanMinPts (dense_neighbor rt cluster keys) in
      if dense
      then filter (\<lambda>i. labels ! i = dbscanNoise \<and> \<not> (\<exists>p \<in> set kept. i = fst p \<or> i = snd p) \<and> [i] \<in> set (map snd roots))
             [0..<length cluster]
      else [])"

text \<open>The pass on indices: the root groups, the surviving gray pairs and the isolated indices.\<close>

definition dedupe_plan ::
  "runtime \<Rightarrow> finding list \<Rightarrow> string list \<Rightarrow> adjudications \<Rightarrow>
   ((nat \<times> nat list) list \<times> (nat \<times> nat) list \<times> nat list) option" where
  "dedupe_plan rt cluster keys merges =
     (case cluster_groups rt cluster keys of
        None \<Rightarrow> None
      | Some groups \<Rightarrow>
          let n = length cluster; gof = groupOf n groups in
          (case gray_scan (gray_pair rt cluster keys gof) (\<lambda>p. adjudicated merges (pair_id rt cluster p)) gof
                  (index_pairs n) (newUnionFind (length groups)) [] of
             None \<Rightarrow> None
           | Some (uf, amb) \<Rightarrow>
               (case keep_pairs gof amb uf of
                  None \<Rightarrow> None
                | Some (uf, kept) \<Rightarrow>
                    (case collect_roots groups [0..<length groups] uf [] of
                       None \<Rightarrow> None
                     | Some roots \<Rightarrow> Some (roots, kept, noise_indices rt cluster keys kept roots)))))"

definition gray_entry :: "runtime \<Rightarrow> finding list \<Rightarrow> nat \<times> nat \<Rightarrow> ambiguousCluster" where
  "gray_entry rt cluster p =
     (case p of (i, j) \<Rightarrow>
        \<lparr>ambID = pair_id rt cluster p, ambFile = File (cluster ! i), ambLine = Line (cluster ! i),
         Similarity = sim_of rt cluster i j, ambFindings = [cluster ! i, cluster ! j]\<rparr>)"

definition out_groups :: "(nat \<times> nat list) list \<Rightarrow> nat list \<Rightarrow> nat list list" where
  "out_groups roots noise =
     map sort (filter (\<lambda>idxs. \<not> (length idxs = 1 \<and> idxs ! 0 \<in> set noise)) (map snd roots))"

definition dedupeCluster ::
  "runtime \<Rightarrow> finding list \<Rightarrow> string list \<Rightarrow> adjudications \<Rightarrow>
   (finding list list \<times> ambiguousCluster list) option" where
  "dedupeCluster rt cluster keys merges =
     (let n = length cluster in
      if n = 0 then Some ([], [])
      else if length keys \<noteq> n then None
      else if n > maxClusterSize then Some (map (\<lambda>f. [f]) cluster, [])
      else map_option
        (\<lambda>(roots, kept, noise).
           (map (map ((!) cluster)) (out_groups roots noise),
            map (gray_entry rt cluster) kept @ map (\<lambda>i. singletonAmbiguousCluster rt (cluster ! i)) noise))
        (dedupe_plan rt cluster keys merges))"

definition DedupeCluster :: "runtime \<Rightarrow> finding list \<Rightarrow> (finding list list \<times> ambiguousCluster list) option" where
  "DedupeCluster rt cluster = dedupeCluster rt cluster (replicate (length cluster) []) Map.empty"

subsection \<open>The relation is symmetric\<close>

lemma rel_of_sym: "rel_of rt cluster i j = rel_of rt cluster j i"
  by (simp add: rel_of_def pair_class_def min.commute max.commute)

lemma symp_mergeable: "symp (mergeable rt cluster keys)"
  by (rule sympI) (auto simp: mergeable_def same_key_def rel_of_sym)

lemma symp_dense_neighbor: "symp (dense_neighbor rt cluster keys)"
  using symp_mergeable [of rt cluster keys] by (auto simp: dense_neighbor_def symp_def)

lemma length_srcKeys [simp]: "length (srcKeys cluster) = length cluster"
  by (simp add: srcKeys_def)

text \<open>Two findings share a source key precisely when one named reviewer wrote both.\<close>

lemma srcKeys_eq:
  assumes "i < length cluster" "j < length cluster"
  shows "srcKeys cluster ! i = srcKeys cluster ! j \<longleftrightarrow>
    i = j \<or> Reviewer (cluster ! i) \<noteq> [] \<and> Reviewer (cluster ! i) = Reviewer (cluster ! j)"
  using assms by (auto simp: srcKeys_def Itoa_inj)

subsection \<open>Association lists in first-occurrence order\<close>

lemma nub_order_snoc: "nub_order seen (xs @ [x]) = nub_order seen xs @ (if x \<in> set seen \<union> set xs then [] else [x])"
  by (induction seen xs rule: nub_order.induct) auto

lemma distinct_keys_snoc: "distinct_keys (xs @ [x]) = (if x \<in> set xs then distinct_keys xs else distinct_keys xs @ [x])"
  by (simp add: distinct_keys_def nub_order_snoc)

lemma add_root_map:
  "distinct ks \<Longrightarrow> add_root r g (map (\<lambda>k. (k, f k)) ks) =
     (if r \<in> set ks then map (\<lambda>k. (k, if k = r then f k @ g else f k)) ks else map (\<lambda>k. (k, f k)) ks @ [(r, g)])"
  by (induction ks) (auto intro: map_idI)

definition roots_by :: "('a \<Rightarrow> 'k) \<Rightarrow> ('a \<Rightarrow> 'b list) \<Rightarrow> 'a list \<Rightarrow> ('k \<times> 'b list) list" where
  "roots_by key val xs = map (\<lambda>k. (k, concat (map val (filter (\<lambda>x. key x = k) xs)))) (distinct_keys (map key xs))"

lemma roots_by_snoc: "roots_by key val (xs @ [x]) = add_root (key x) (val x) (roots_by key val xs)"
proof -
  have new: "concat (map val (filter (\<lambda>y. key y = key x) xs)) = []" if "key x \<notin> set (map key xs)"
    using that by (auto simp: filter_empty_conv image_iff)
  show ?thesis
    unfolding roots_by_def add_root_map [OF distinct_distinct_keys]
    using new by (auto simp: distinct_keys_snoc intro!: map_cong)
qed

lemma mset_concat_map_cong: "mset ys = mset zs \<Longrightarrow> mset (concat (map val ys)) = mset (concat (map val zs))"
proof -
  assume "mset ys = mset zs"
  moreover have "mset (concat (map val xs)) = \<Sum>\<^sub># (image_mset (\<lambda>x. mset (val x)) (mset xs))" for xs
    by (induction xs) auto
  ultimately show ?thesis by simp
qed

lemma mset_roots_by: "mset (concat (map snd (roots_by key val xs))) = mset (concat (map val xs))"
proof -
  have "concat (map (\<lambda>k. concat (map val (F k))) ks) = concat (map val (concat (map F ks)))" for F ks
    by (induction ks) auto
  then have "concat (map snd (roots_by key val xs)) =
      concat (map val (concat (map (\<lambda>k. filter (\<lambda>x. key x = k) xs) (distinct_keys (map key xs)))))"
    by (simp add: roots_by_def comp_def)
  then show ?thesis
    using mset_concat_map_cong [OF mset_concat_filter_keys [of "distinct_keys (map key xs)" key xs]] by simp
qed

lemma roots_by_member:
  "x \<in> set xs \<Longrightarrow> (key x, concat (map val (filter (\<lambda>y. key y = key x) xs))) \<in> set (roots_by key val xs)"
  by (auto simp: roots_by_def)

lemma collect_roots_eq:
  assumes "uf_inv u" and "set gis \<subseteq> {..<length (parent u)}" and "set done \<subseteq> {..<length (parent u)}"
  shows "collect_roots groups gis u (roots_by (root u) ((!) groups) done) =
    Some (roots_by (root u) ((!) groups) (done @ gis))"
  using assms
proof (induction gis arbitrary: u "done")
  case (Cons gi gis)
  have lt: "gi < length (parent u)" using Cons.prems(2) by simp
  obtain u' where f: "uf_find u gi = Some (root u gi, u')" and inv: "uf_inv u'" "length (parent u') = length (parent u)"
    and same: "\<forall>z < length (parent u). root u' z = root u z"
    using uf_find_correct [OF Cons.prems(1) lt] by blast
  have cong: "roots_by (root u') ((!) groups) zs = roots_by (root u) ((!) groups) zs" if "set zs \<subseteq> {..<length (parent u)}" for zs
  proof -
    have "map (root u') zs = map (root u) zs" using same that by auto
    moreover have "filter (\<lambda>x. root u' x = k) zs = filter (\<lambda>x. root u x = k) zs" for k
      using same that by (intro filter_cong) auto
    ultimately show ?thesis unfolding roots_by_def by (simp only:)
  qed
  have "collect_roots groups (gi # gis) u (roots_by (root u) ((!) groups) done) =
      collect_roots groups gis u' (roots_by (root u) ((!) groups) (done @ [gi]))"
    by (simp add: f roots_by_snoc)
  also have "\<dots> = collect_roots groups gis u' (roots_by (root u') ((!) groups) (done @ [gi]))"
    using Cons.prems lt by (subst cong) auto
  also have "\<dots> = Some (roots_by (root u') ((!) groups) ((done @ [gi]) @ gis))"
    by (rule Cons.IH) (use Cons.prems inv lt in auto)
  also have "\<dots> = Some (roots_by (root u) ((!) groups) (done @ gi # gis))"
    using Cons.prems lt by (subst cong) auto
  finally show ?case .
qed simp

subsection \<open>The gray scan\<close>

lemma gray_scan_unions:
  "gray_scan gray adj gof ps uf amb =
     map_option (\<lambda>u. (u, amb @ filter (\<lambda>p. gray p \<and> \<not> adj p) ps))
       (uf_unions uf (map (\<lambda>p. (gof ! fst p, gof ! snd p)) (filter (\<lambda>p. gray p \<and> adj p) ps)))"
  by (induction gray adj gof ps uf amb rule: gray_scan.induct) (auto split: option.splits)

lemma keep_pairs_eq:
  assumes "uf_inv u" and "\<forall>p \<in> set ps. gof ! fst p < length (parent u) \<and> gof ! snd p < length (parent u)"
  shows "\<exists>u'. keep_pairs gof ps u = Some (u', filter (\<lambda>p. root u (gof ! fst p) \<noteq> root u (gof ! snd p)) ps) \<and>
    uf_inv u' \<and> length (parent u') = length (parent u) \<and> (\<forall>z < length (parent u). root u' z = root u z)"
  using assms
proof (induction ps arbitrary: u)
  case (Cons p ps)
  let ?a = "gof ! fst p" and ?b = "gof ! snd p"
  have lt: "?a < length (parent u)" "?b < length (parent u)" using Cons.prems(2) by auto
  obtain u1 where u1: "uf_find u ?a = Some (root u ?a, u1)" "uf_inv u1" "length (parent u1) = length (parent u)"
    "\<forall>z < length (parent u). root u1 z = root u z"
    using uf_find_correct [OF Cons.prems(1) lt(1)] by blast
  obtain u2 where u2: "uf_find u1 ?b = Some (root u1 ?b, u2)" "uf_inv u2" "length (parent u2) = length (parent u1)"
    "\<forall>z < length (parent u1). root u2 z = root u1 z"
    using uf_find_correct [OF u1(2)] lt(2) u1(3) by metis
  have same: "root u2 z = root u z" if "z < length (parent u)" for z using that u1(3,4) u2(4) by simp
  obtain u3 where u3: "keep_pairs gof ps u2 = Some (u3, filter (\<lambda>p. root u2 (gof ! fst p) \<noteq> root u2 (gof ! snd p)) ps)"
    "uf_inv u3" "length (parent u3) = length (parent u2)" "\<forall>z < length (parent u2). root u3 z = root u2 z"
    using Cons.IH [OF u2(2)] Cons.prems(2) u1(3) u2(3) by auto
  have "filter (\<lambda>p. root u2 (gof ! fst p) \<noteq> root u2 (gof ! snd p)) ps =
      filter (\<lambda>p. root u (gof ! fst p) \<noteq> root u (gof ! snd p)) ps"
    using Cons.prems(2) same by (intro filter_cong) auto
  moreover have "root u1 ?b = root u ?b" using u1(4) lt(2) by blast
  ultimately show ?case using u1 u2 u3 same by simp
qed simp

subsection \<open>Group numbers\<close>

lemma fold_assign: "length (fold (\<lambda>idx gof. gof[idx := v]) xs gof) = length gof"
  "i < length gof \<Longrightarrow> fold (\<lambda>idx gof. gof[idx := v]) xs gof ! i = (if i \<in> set xs then v else gof ! i)"
  by (induction xs arbitrary: gof) (auto simp: nth_list_update)

lemma groupOf_upto:
  assumes "distinct (concat groups)" and "m \<le> length groups"
  shows "let gof = fold (\<lambda>gi gof. fold (\<lambda>idx gof. gof[idx := gi]) (groups ! gi) gof) [0..<m] (replicate n 0) in
    length gof = n \<and> (\<forall>gi < m. \<forall>i \<in> set (groups ! gi). i < n \<longrightarrow> gof ! i = gi)"
  using assms(2)
proof (induction m)
  case (Suc m)
  define gof where "gof = fold (\<lambda>gi gof. fold (\<lambda>idx gof. gof[idx := gi]) (groups ! gi) gof) [0..<m] (replicate n 0)"
  have IH: "length gof = n" "\<And>gi i. gi < m \<Longrightarrow> i \<in> set (groups ! gi) \<Longrightarrow> i < n \<Longrightarrow> gof ! i = gi"
    using Suc by (auto simp: Let_def gof_def)
  have dis: "i \<notin> set (groups ! m)" if "gi < m" "i \<in> set (groups ! gi)" for gi i
  proof -
    have "groups = take m groups @ groups ! m # drop (Suc m) groups"
      using Suc.prems by (intro id_take_nth_drop) simp
    then have "distinct (concat (take m groups) @ groups ! m @ concat (drop (Suc m) groups))"
      using assms(1) by (metis concat.simps(2) concat_append)
    moreover have "groups ! gi \<in> set (take m groups)"
      using that(1) Suc.prems by (metis Suc_le_lessD length_take min.absorb2 less_imp_le nth_mem nth_take)
    ultimately show ?thesis using that(2) by auto
  qed
  have "fold (\<lambda>idx gof. gof[idx := m]) (groups ! m) gof ! i = gi"
    if "gi < Suc m" "i \<in> set (groups ! gi)" "i < n" for gi i
    using that IH dis [of gi i] by (cases "gi = m") (auto simp: fold_assign)
  then show ?case using IH(1) by (simp add: Let_def gof_def [symmetric] fold_assign)
qed simp

subsection \<open>The plan\<close>

text \<open>The matching returned and put no index in two groups.\<close>

definition matched :: "runtime \<Rightarrow> finding list \<Rightarrow> string list \<Rightarrow> bool" where
  "matched rt cluster keys = (case cluster_groups rt cluster keys of None \<Rightarrow> False | Some groups \<Rightarrow> distinct (concat groups))"

lemma matched_groups:
  assumes "matched rt cluster keys"
  obtains G where "cluster_groups rt cluster keys = Some G" "distinct (concat G)" "set (concat G) = {..<length cluster}"
    "list_all (coherent (srcKeys cluster) (mergeable rt cluster keys)) G"
proof -
  obtain G where G: "cluster_groups rt cluster keys = Some G" "distinct (concat G)"
    using assms by (auto simp: matched_def split: option.splits)
  then show thesis
    using bipartiteGroups_sound [OF symp_mergeable G(1) [unfolded cluster_groups_def]] that by auto
qed

lemma dist_matrix_low:
  assumes "accurate (fl rt)" "a < length cluster" "b < length cluster"
  shows "- 1 \<le> dist_matrix rt cluster keys ! a ! b"
proof -
  have "- 1 \<le> fl rt (1 - snd (classify rt (tokenize x) (tokenize y)))" for x y
  proof -
    define s where "s = snd (classify rt (tokenize x) (tokenize y))"
    have "\<bar>s - jaccard (tokenize x) (tokenize y)\<bar> \<le> 1 / 4" "0 \<le> jaccard (tokenize x) (tokenize y)" "jaccard (tokenize x) (tokenize y) \<le> 1"
      using classify_sim_near [OF assms(1), of "tokenize x" "tokenize y"] jaccard_bounds [of "tokenize x" "tokenize y"]
      by (simp_all add: s_def)
    then have s: "\<bar>1 - s\<bar> \<le> 2" "- (1 / 4) \<le> 1 - s" unfolding abs_le_iff by linarith+
    then have "\<bar>fl rt (1 - s) - (1 - s)\<bar> \<le> 1 / 2 ^ 37" by (intro accurateD [OF assms(1)]) simp
    then show ?thesis using s(2) unfolding s_def abs_le_iff by simp
  qed
  then show ?thesis using assms(2,3) by (simp add: dist_matrix_def sim_of_def pair_class_def)
qed

text \<open>Under every accurate rounding, that of \<^verbatim>\<open>float64\<close> among them, the matching returns a partition.\<close>

lemma matched_accurate:
  assumes "accurate (fl rt)" "length cluster \<le> maxClusterSize"
  shows "matched rt cluster keys"
proof -
  have "\<exists>G. cluster_groups rt cluster keys = Some G \<and> mset (concat G) = mset [0..<length cluster]"
    using bipartiteGroups_partition [OF assms(1) symp_mergeable [of rt cluster keys], of "srcKeys cluster" "dist_matrix rt cluster keys"]
      dist_matrix_low [OF assms(1), of _ cluster _ keys] assms(2)
    unfolding cluster_groups_def maxClusterSize_def maxHungarianN_def length_srcKeys by blast
  then show ?thesis
    by (metis matched_def distinct_upt mset_eq_imp_distinct_iff option.simps(5))
qed

lemma group_number:
  assumes "distinct (concat G)" "set (concat G) = {..<n}" "i < n"
  shows "groupOf n G ! i < length G" "i \<in> set (G ! (groupOf n G ! i))"
proof -
  have "i \<in> set (concat G)" using assms by simp
  then obtain gi where gi: "gi < length G" "i \<in> set (G ! gi)" by (metis UN_E in_set_conv_nth set_concat)
  then have "groupOf n G ! i = gi"
    using groupOf_upto [OF assms(1) order_refl, of n] assms(3) by (simp add: groupOf_def Let_def)
  then show "groupOf n G ! i < length G" "i \<in> set (G ! (groupOf n G ! i))" using gi by auto
qed

lemma group_number_unique:
  assumes "distinct (concat G)" "set (concat G) = {..<n}" "gi < length G" "i \<in> set (G ! gi)"
  shows "groupOf n G ! i = gi" "i < n"
proof -
  show "i < n" using assms by (metis UN_I lessThan_iff nth_mem set_concat)
  then show "groupOf n G ! i = gi"
    using groupOf_upto [OF assms(1) order_refl, of n] assms(3,4) by (simp add: groupOf_def Let_def)
qed

lemma set_index_pairs: "set (index_pairs n) = {(i, j). i < j \<and> j < n}"
  by (force simp: index_pairs_def)

lemma roots_by_groups:
  assumes "distinct (concat G)" "set (concat G) = {..<n}"
  shows "(\<exists>idxs. (r, idxs) \<in> set (roots_by (root u) ((!) G) [0..<length G]) \<and> i \<in> set idxs) \<longleftrightarrow>
    i < n \<and> root u (groupOf n G ! i) = r"
proof
  assume "\<exists>idxs. (r, idxs) \<in> set (roots_by (root u) ((!) G) [0..<length G]) \<and> i \<in> set idxs"
  then obtain gi where "gi < length G" "root u gi = r" "i \<in> set (G ! gi)" by (auto simp: roots_by_def)
  then show "i < n \<and> root u (groupOf n G ! i) = r" using group_number_unique [OF assms] by auto
next
  assume i: "i < n \<and> root u (groupOf n G ! i) = r"
  note gn = group_number [OF assms conjunct1 [OF i]]
  let ?idxs = "concat (map ((!) G) (filter (\<lambda>y. root u y = root u (groupOf n G ! i)) [0..<length G]))"
  have "(root u (groupOf n G ! i), ?idxs) \<in> set (roots_by (root u) ((!) G) [0..<length G])"
    by (rule roots_by_member) (use gn in simp)
  moreover have "i \<in> set ?idxs" using gn by auto
  ultimately show "\<exists>idxs. (r, idxs) \<in> set (roots_by (root u) ((!) G) [0..<length G]) \<and> i \<in> set idxs"
    using i by blast
qed

lemma dedupe_plan_spec:
  fixes merges :: adjudications
  assumes G: "cluster_groups rt cluster keys = Some G" and dis: "distinct (concat G)"
    and cov: "set (concat G) = {..<length cluster}"
  defines "gof \<equiv> groupOf (length cluster) G" and "adj \<equiv> \<lambda>p. adjudicated merges (pair_id rt cluster p)"
  defines "gray \<equiv> gray_pair rt cluster keys gof"
  obtains u where "uf_inv u" "length (parent u) = length G"
    "joins (newUnionFind (length G))
       (map (\<lambda>p. (gof ! fst p, gof ! snd p)) (filter (\<lambda>p. gray p \<and> adj p) (index_pairs (length cluster)))) u"
    "dedupe_plan rt cluster keys merges =
       (let roots = roots_by (root u) ((!) G) [0..<length G];
            kept = filter (\<lambda>p. gray p \<and> \<not> adj p \<and> root u (gof ! fst p) \<noteq> root u (gof ! snd p)) (index_pairs (length cluster))
        in Some (roots, kept, noise_indices rt cluster keys kept roots))"
proof -
  let ?n = "length cluster" and ?m = "length G"
  have gn: "gof ! i < ?m" if "i < ?n" for i unfolding gof_def by (rule group_number [OF dis cov that])
  have lt: "gof ! fst p < ?m \<and> gof ! snd p < ?m" if "p \<in> set (index_pairs ?n)" for p
    using that gn by (auto simp: set_index_pairs)
  let ?un = "map (\<lambda>p. (gof ! fst p, gof ! snd p)) (filter (\<lambda>p. gray p \<and> adj p) (index_pairs ?n))"
  obtain u where u: "uf_unions (newUnionFind ?m) ?un = Some u" "uf_inv u" "length (parent u) = ?m" "joins (newUnionFind ?m) ?un u"
    using uf_unions_correct [OF newUnionFind_inv(1), of ?un ?m] lt by (auto simp: newUnionFind_inv)
  let ?amb = "filter (\<lambda>p. gray p \<and> \<not> adj p) (index_pairs ?n)"
  obtain u' where u': "keep_pairs gof ?amb u = Some (u', filter (\<lambda>p. root u (gof ! fst p) \<noteq> root u (gof ! snd p)) ?amb)"
    "uf_inv u'" "length (parent u') = ?m" "\<forall>z < ?m. root u' z = root u z"
    using keep_pairs_eq [OF u(2), of ?amb gof] lt u(3) by auto
  have cr: "collect_roots G [0..<?m] u' [] = Some (roots_by (root u') ((!) G) [0..<?m])"
  proof -
    have "roots_by (root u') ((!) G) [] = []" by (simp add: roots_by_def distinct_keys_def)
    moreover have "set [0..<?m] \<subseteq> {..<length (parent u')}" using u'(3) by auto
    ultimately show ?thesis using collect_roots_eq [OF u'(2), of "[0..<?m]" "[]" G] by simp
  qed
  have "map (root u') [0..<?m] = map (root u) [0..<?m]" using u'(4) by auto
  moreover have "filter (\<lambda>x. root u' x = k) [0..<?m] = filter (\<lambda>x. root u x = k) [0..<?m]" for k
    using u'(4) by (intro filter_cong) auto
  ultimately have rb: "roots_by (root u') ((!) G) [0..<?m] = roots_by (root u) ((!) G) [0..<?m]"
    unfolding roots_by_def by (simp only:)
  have ff: "filter (\<lambda>p. root u (gof ! fst p) \<noteq> root u (gof ! snd p)) ?amb =
      filter (\<lambda>p. gray p \<and> \<not> adj p \<and> root u (gof ! fst p) \<noteq> root u (gof ! snd p)) (index_pairs ?n)"
    by (auto intro!: filter_cong)
  have "gray_scan gray adj gof (index_pairs ?n) (newUnionFind ?m) [] = Some (u, ?amb)"
    by (simp add: gray_scan_unions u(1))
  then have "dedupe_plan rt cluster keys merges =
      (let roots = roots_by (root u) ((!) G) [0..<?m];
           kept = filter (\<lambda>p. gray p \<and> \<not> adj p \<and> root u (gof ! fst p) \<noteq> root u (gof ! snd p)) (index_pairs ?n)
       in Some (roots, kept, noise_indices rt cluster keys kept roots))"
    unfolding dedupe_plan_def G option.case Let_def gof_def [symmetric] gray_def [symmetric] adj_def [symmetric]
    by (simp only: option.case prod.case u'(1) cr rb ff)
  with u that show thesis by blast
qed

subsection \<open>Conservation\<close>

lemma mset_concat_filter_split:
  "mset (concat (filter P L)) + mset (concat (filter (\<lambda>x. \<not> P x) L)) = mset (concat L)"
  by (induction L) auto

lemma distinct_concat_filter: "distinct (concat L) \<Longrightarrow> distinct (concat (filter P L))"
  by (induction L) auto

lemma mset_singles_out:
  assumes "distinct (concat L)" "distinct N" "\<forall>i \<in> set N. [i] \<in> set L"
  shows "mset (concat (filter (\<lambda>x. \<not> (length x = 1 \<and> x ! 0 \<in> set N)) L)) + mset N = mset (concat L)"
proof -
  let ?P = "\<lambda>x. length x = 1 \<and> x ! 0 \<in> set N"
  have "set (concat (filter ?P L)) = set N"
  proof (intro equalityI subsetI)
    fix i assume "i \<in> set (concat (filter ?P L))"
    then obtain x where x: "?P x" "i \<in> set x" by auto
    then obtain y where "x = [y]" by (metis One_nat_def length_0_conv length_Suc_conv)
    then show "i \<in> set N" using x by simp
  next
    fix i assume "i \<in> set N"
    then have "[i] \<in> set (filter ?P L)" using assms(3) by simp
    then show "i \<in> set (concat (filter ?P L))" by (metis UN_I list.set_intros(1) set_concat)
  qed
  moreover have "distinct (concat (filter ?P L))" by (rule distinct_concat_filter [OF assms(1)])
  ultimately have "mset (concat (filter ?P L)) = mset N"
    using set_eq_iff_mset_eq_distinct [OF _ assms(2)] by blast
  then show ?thesis using mset_concat_filter_split [of ?P L] by (simp add: add.commute)
qed

lemma mset_concat_sort: "mset (concat (map sort L)) = mset (concat L)"
  by (induction L) auto

lemma noise_indices_single:
  "i \<in> set (noise_indices rt cluster keys kept roots) \<Longrightarrow> [i] \<in> set (map snd roots) \<and> i < length cluster"
  by (auto simp: noise_indices_def split: prod.splits if_splits)

lemma distinct_noise_indices: "distinct (noise_indices rt cluster keys kept roots)"
  by (auto simp: noise_indices_def split: prod.splits)

lemma dedupe_plan_partition:
  assumes m: "matched rt cluster keys"
  obtains roots kept noise where "dedupe_plan rt cluster keys merges = Some (roots, kept, noise)"
    "mset (concat (out_groups roots noise)) + mset noise = mset [0..<length cluster]"
    "set kept \<subseteq> {(i, j). i < j \<and> j < length cluster}"
proof -
  obtain G where G: "cluster_groups rt cluster keys = Some G" "distinct (concat G)" "set (concat G) = {..<length cluster}"
    using matched_groups [OF m] by metis
  obtain u where "uf_inv u" "length (parent u) = length G" "joins (newUnionFind (length G))
       (map (\<lambda>p. (groupOf (length cluster) G ! fst p, groupOf (length cluster) G ! snd p))
         (filter (\<lambda>p. gray_pair rt cluster keys (groupOf (length cluster) G) p \<and>
          adjudicated merges (pair_id rt cluster p)) (index_pairs (length cluster)))) u"
    and plan: "dedupe_plan rt cluster keys merges =
      (let roots = roots_by (root u) ((!) G) [0..<length G];
           kept = filter (\<lambda>p. gray_pair rt cluster keys (groupOf (length cluster) G) p \<and> \<not> adjudicated merges (pair_id rt cluster p) \<and>
             root u (groupOf (length cluster) G ! fst p) \<noteq> root u (groupOf (length cluster) G ! snd p)) (index_pairs (length cluster))
       in Some (roots, kept, noise_indices rt cluster keys kept roots))"
    by (rule dedupe_plan_spec [OF G, of merges])
  define roots where "roots = roots_by (root u) ((!) G) [0..<length G]"
  define kept where "kept = filter (\<lambda>p. gray_pair rt cluster keys (groupOf (length cluster) G) p \<and> \<not> adjudicated merges (pair_id rt cluster p) \<and>
      root u (groupOf (length cluster) G ! fst p) \<noteq> root u (groupOf (length cluster) G ! snd p)) (index_pairs (length cluster))"
  define noise where "noise = noise_indices rt cluster keys kept roots"
  have all: "mset (concat (map snd roots)) = mset [0..<length cluster]"
  proof -
    have "mset (concat (map snd roots)) = mset (concat G)"
      using mset_roots_by [of "root u" "(!) G" "[0..<length G]"] by (simp add: roots_def map_nth)
    moreover have "mset (concat G) = mset [0..<length cluster]"
      using set_eq_iff_mset_eq_distinct [OF G(2), of "[0..<length cluster]"] G(3) by auto
    ultimately show ?thesis by simp
  qed
  have "distinct (concat (map snd roots))" using all by (metis distinct_upt mset_eq_imp_distinct_iff)
  then have "mset (concat (filter (\<lambda>x. \<not> (length x = 1 \<and> x ! 0 \<in> set noise)) (map snd roots))) + mset noise =
      mset (concat (map snd roots))"
    by (rule mset_singles_out)
      (use noise_indices_single distinct_noise_indices in \<open>auto simp: noise_def\<close>)
  then have "mset (concat (out_groups roots noise)) + mset noise = mset [0..<length cluster]"
    using all by (simp add: out_groups_def mset_concat_sort)
  moreover have "dedupe_plan rt cluster keys merges = Some (roots, kept, noise)"
    using plan by (simp add: Let_def roots_def kept_def noise_def)
  moreover have "set kept \<subseteq> {(i, j). i < j \<and> j < length cluster}"
    using set_index_pairs [of "length cluster"] by (auto simp: kept_def)
  ultimately show thesis using that by blast
qed

lemma mset_map_concat: "mset (concat (map (map f) L)) = image_mset f (mset (concat L))"
  by (induction L) auto

lemma singleton_findings:
  "ambFindings (singletonAmbiguousCluster rt f) =
     [if Reviewer f = [] \<and> length (Reviewers f) = 1
      then f\<lparr>Reviewer := Reviewers f ! 0, Reviewers := [], Confidence := []\<rparr> else f]"
  by (simp add: singletonAmbiguousCluster_def Let_def)

lemma dedupe_conserves_lemma:
  assumes m: "length cluster \<le> maxClusterSize \<longrightarrow> matched rt cluster keys" and k: "length keys = length cluster"
  shows "\<exists>out gray noise.
    dedupeCluster rt cluster keys merges = Some (out, gray @ map (singletonAmbiguousCluster rt) noise) \<and>
    mset (concat out) + mset noise = mset cluster \<and>
    list_all (\<lambda>a. length (ambFindings a) = 2 \<and> set (ambFindings a) \<subseteq> set cluster) gray"
proof -
  consider "length cluster = 0" | "length cluster \<noteq> 0" "length cluster > maxClusterSize"
    | "length cluster \<noteq> 0" "length cluster \<le> maxClusterSize" by linarith
  then show ?thesis
  proof cases
    case 1
    then show ?thesis by (auto simp: dedupeCluster_def)
  next
    case 2
    have "mset (concat (map (\<lambda>f. [f]) cluster)) = mset cluster" using mset_concat_singles [of "\<lambda>f. f" cluster] by simp
    then show ?thesis using 2 k by (intro exI [of _ "map (\<lambda>f. [f]) cluster"] exI [of _ "[]"]) (simp add: dedupeCluster_def)
  next
    case 3
    let ?f = "(!) cluster"
    obtain roots kept noise where plan: "dedupe_plan rt cluster keys merges = Some (roots, kept, noise)"
      and ms: "mset (concat (out_groups roots noise)) + mset noise = mset [0..<length cluster]"
      and kept: "set kept \<subseteq> {(i, j). i < j \<and> j < length cluster}"
      by (rule dedupe_plan_partition [OF mp [OF m 3(2)]])
    have "dedupeCluster rt cluster keys merges = Some (map (map ?f) (out_groups roots noise),
        map (gray_entry rt cluster) kept @ map (singletonAmbiguousCluster rt) (map ?f noise))"
      using 3 k plan by (simp add: dedupeCluster_def comp_def)
    moreover have "mset (concat (map (map ?f) (out_groups roots noise))) + mset (map ?f noise) = mset cluster"
    proof -
      have "mset (concat (map (map ?f) (out_groups roots noise))) + mset (map ?f noise) = image_mset ?f (mset [0..<length cluster])"
        unfolding mset_map_concat mset_map image_mset_union [symmetric] ms ..
      also have "\<dots> = mset cluster" by (metis map_nth mset_map)
      finally show ?thesis .
    qed
    moreover have "list_all (\<lambda>a. length (ambFindings a) = 2 \<and> set (ambFindings a) \<subseteq> set cluster) (map (gray_entry rt cluster) kept)"
      using kept by (fastforce simp: list_all_iff gray_entry_def)
    ultimately show ?thesis by blast
  qed
qed

subsection \<open>Adjudication\<close>

definition together :: "(nat \<times> nat list) list \<Rightarrow> nat \<Rightarrow> nat \<Rightarrow> bool" where
  "together roots i j \<longleftrightarrow> (\<exists>idxs \<in> set (map snd roots). i \<in> set idxs \<and> j \<in> set idxs)"

lemma together_roots_by:
  assumes "distinct (concat G)" "set (concat G) = {..<n}" "i < n" "j < n"
  shows "together (roots_by (root u) ((!) G) [0..<length G]) i j \<longleftrightarrow> root u (groupOf n G ! i) = root u (groupOf n G ! j)"
proof
  assume "together (roots_by (root u) ((!) G) [0..<length G]) i j"
  then obtain r idxs where "(r, idxs) \<in> set (roots_by (root u) ((!) G) [0..<length G])" "i \<in> set idxs" "j \<in> set idxs"
    by (auto simp: together_def)
  then show "root u (groupOf n G ! i) = root u (groupOf n G ! j)" using roots_by_groups [OF assms(1,2)] by metis
next
  assume eq: "root u (groupOf n G ! i) = root u (groupOf n G ! j)"
  let ?r = "root u (groupOf n G ! i)"
  let ?idxs = "concat (map ((!) G) (filter (\<lambda>y. root u y = ?r) [0..<length G]))"
  note gi = group_number [OF assms(1-3)] and gj = group_number [OF assms(1,2,4)]
  have "(?r, ?idxs) \<in> set (roots_by (root u) ((!) G) [0..<length G])"
    by (rule roots_by_member) (use gi in simp)
  moreover have "i \<in> set ?idxs" "j \<in> set ?idxs" using gi gj eq by auto
  ultimately show "together (roots_by (root u) ((!) G) [0..<length G]) i j" unfolding together_def by force
qed

lemma dedupe_adjudication:
  assumes m: "matched rt cluster keys" and plan: "dedupe_plan rt cluster keys merges = Some (roots, kept, noise)"
    and ij: "i < j" "j < length cluster" and gray: "rel_of rt cluster i j = relGray" "\<not> same_key keys i j"
  shows "(adjudicated merges (pair_id rt cluster (i, j)) \<longrightarrow> together roots i j) \<and>
    ((i, j) \<in> set kept \<longleftrightarrow> \<not> together roots i j)"
proof -
  let ?n = "length cluster"
  obtain G where G: "cluster_groups rt cluster keys = Some G" "distinct (concat G)" "set (concat G) = {..<?n}"
    using matched_groups [OF m] by metis
  define gof where "gof = groupOf ?n G"
  obtain u where "uf_inv u" "length (parent u) = length G" and joins: "joins (newUnionFind (length G))
       (map (\<lambda>p. (gof ! fst p, gof ! snd p)) (filter (\<lambda>p. gray_pair rt cluster keys gof p \<and>
          adjudicated merges (pair_id rt cluster p)) (index_pairs ?n))) u"
    and pl: "dedupe_plan rt cluster keys merges =
      (let roots = roots_by (root u) ((!) G) [0..<length G];
           kept = filter (\<lambda>p. gray_pair rt cluster keys gof p \<and> \<not> adjudicated merges (pair_id rt cluster p) \<and>
             root u (gof ! fst p) \<noteq> root u (gof ! snd p)) (index_pairs ?n)
       in Some (roots, kept, noise_indices rt cluster keys kept roots))"
    unfolding gof_def by (rule dedupe_plan_spec [OF G, of merges])
  have roots: "roots = roots_by (root u) ((!) G) [0..<length G]"
    and kept: "kept = filter (\<lambda>p. gray_pair rt cluster keys gof p \<and> \<not> adjudicated merges (pair_id rt cluster p) \<and>
             root u (gof ! fst p) \<noteq> root u (gof ! snd p)) (index_pairs ?n)"
    using plan pl by (auto simp: Let_def)
  have tg: "together roots i j \<longleftrightarrow> root u (gof ! i) = root u (gof ! j)"
    unfolding roots gof_def by (rule together_roots_by [OF G(2,3)]) (use ij in auto)
  have pr: "(i, j) \<in> set (index_pairs ?n)" using ij by (simp add: set_index_pairs)
  have gp: "gray_pair rt cluster keys gof (i, j) \<longleftrightarrow> gof ! i \<noteq> gof ! j" using gray by (simp add: gray_pair_def)
  have adj: "together roots i j" if a: "adjudicated merges (pair_id rt cluster (i, j))"
  proof (cases "gof ! i = gof ! j")
    case False
    then have "(gof ! i, gof ! j) \<in> set (map (\<lambda>p. (gof ! fst p, gof ! snd p)) (filter (\<lambda>p. gray_pair rt cluster keys gof p \<and>
          adjudicated merges (pair_id rt cluster p)) (index_pairs ?n)))"
      using pr gp a by force
    then show ?thesis using joins unfolding tg joins_def by fast
  qed (simp add: tg)
  have "(i, j) \<in> set kept \<longleftrightarrow> \<not> together roots i j" using pr gp adj tg unfolding kept by auto
  with adj show ?thesis by blast
qed

subsection \<open>Without adjudication\<close>

lemma joins_none: "joins (newUnionFind m) [] u \<Longrightarrow> x < m \<Longrightarrow> y < m \<Longrightarrow> root u x = root u y \<Longrightarrow> x = y"
  unfolding joins_def by (auto simp: newUnionFind_inv root_newUnionFind identity_equivp dest!: spec [of _ "(=)"])

lemma dedupe_no_overmerge:
  assumes m: "matched rt cluster keys" and none: "\<And>ident. \<not> adjudicated merges ident"
    and plan: "dedupe_plan rt cluster keys merges = Some (roots, kept, noise)"
    and tg: "together roots i j" "i \<noteq> j" and n: "i < length cluster" "j < length cluster"
  shows "mergeable rt cluster keys i j \<and> srcKeys cluster ! i \<noteq> srcKeys cluster ! j"
proof -
  let ?n = "length cluster"
  obtain G where G: "cluster_groups rt cluster keys = Some G" "distinct (concat G)" "set (concat G) = {..<?n}"
    and coh: "list_all (coherent (srcKeys cluster) (mergeable rt cluster keys)) G"
    by (rule matched_groups [OF m])
  define gof where "gof = groupOf ?n G"
  obtain u where u: "uf_inv u" "length (parent u) = length G" and joins: "joins (newUnionFind (length G))
       (map (\<lambda>p. (gof ! fst p, gof ! snd p)) (filter (\<lambda>p. gray_pair rt cluster keys gof p \<and>
          adjudicated merges (pair_id rt cluster p)) (index_pairs ?n))) u"
    and pl: "dedupe_plan rt cluster keys merges =
      (let roots = roots_by (root u) ((!) G) [0..<length G];
           kept = filter (\<lambda>p. gray_pair rt cluster keys gof p \<and> \<not> adjudicated merges (pair_id rt cluster p) \<and>
             root u (gof ! fst p) \<noteq> root u (gof ! snd p)) (index_pairs ?n)
       in Some (roots, kept, noise_indices rt cluster keys kept roots))"
    unfolding gof_def by (rule dedupe_plan_spec [OF G, of merges])
  have "roots = roots_by (root u) ((!) G) [0..<length G]" using plan pl by (simp add: Let_def)
  then have "root u (gof ! i) = root u (gof ! j)"
    using tg(1) together_roots_by [OF G(2,3) n, of u] by (simp add: gof_def)
  moreover have "joins (newUnionFind (length G)) [] u" using joins none by simp
  ultimately have same: "gof ! i = gof ! j"
    using joins_none group_number(1) [OF G(2,3) n(1)] group_number(1) [OF G(2,3) n(2)] unfolding gof_def by blast
  have "G ! (gof ! i) \<in> set G" "i \<in> set (G ! (gof ! i))" "j \<in> set (G ! (gof ! i))"
    using group_number [OF G(2,3) n(1)] group_number [OF G(2,3) n(2)] same by (simp_all add: gof_def)
  then show ?thesis using coh tg(2) by (auto simp: list_all_iff coherent_def)
qed

subsection \<open>Noise\<close>

lemma noise_isolated:
  assumes "i \<in> set (noise_indices rt cluster keys kept roots)"
  shows "i < length cluster \<and> [i] \<in> set (map snd roots) \<and> (\<forall>p \<in> set kept. i \<noteq> fst p \<and> i \<noteq> snd p) \<and>
    (\<forall>j < length cluster. j \<noteq> i \<longrightarrow> \<not> dense_neighbor rt cluster keys i j) \<and>
    (\<exists>a < length cluster. \<exists>b < length cluster. a \<noteq> b \<and> dense_neighbor rt cluster keys a b)"
proof -
  let ?n = "length cluster"
  obtain labels dense where db: "dbscanLabels ?n dbscanMinPts (dense_neighbor rt cluster keys) = (labels, dense)"
    by fastforce
  have sym: "\<forall>x < ?n. \<forall>y < ?n. dense_neighbor rt cluster keys x y \<longrightarrow> dense_neighbor rt cluster keys y x"
    using symp_dense_neighbor by (auto dest: sympD)
  note ex = dbscanLabels_exact [OF sym db]
  have i: "i < ?n" "dense" "labels ! i = dbscanNoise" "[i] \<in> set (map snd roots)" "\<forall>p \<in> set kept. i \<noteq> fst p \<and> i \<noteq> snd p"
    using assms by (auto simp: noise_indices_def db split: if_splits)
  obtain a where a: "a < ?n" "0 \<le> labels ! a" using ex i(2) by blast
  then have "labels ! a \<noteq> dbscanNoise" by auto
  then obtain b where "b < ?n" "b \<noteq> a" "dense_neighbor rt cluster keys a b" using ex a(1) by blast
  moreover have "\<forall>j < ?n. j \<noteq> i \<longrightarrow> \<not> dense_neighbor rt cluster keys i j" using ex i(1,3) by blast
  ultimately show ?thesis using i a(1) by metis
qed

subsection \<open>Properties\<close>

text \<open>
  \<^verbatim>\<open>dedupeCluster\<close> loses and duplicates nothing: it returns, and the findings of its groups together
  with the ones it isolates as noise are the findings of the cluster, each as often as it was given.
  The sidecar holds one entry per isolated finding, after gray entries of two findings of the cluster.
\<close>

theorem dedupe_conserves:
  assumes "accurate (fl rt)" and "length keys = length cluster"
  shows "\<exists>out gray noise.
    dedupeCluster rt cluster keys merges = Some (out, gray @ map (singletonAmbiguousCluster rt) noise) \<and>
    mset (concat out) + mset noise = mset cluster \<and>
    list_all (\<lambda>a. length (ambFindings a) = 2 \<and> set (ambFindings a) \<subseteq> set cluster) gray"
  using assms by (intro dedupe_conserves_lemma) (simp_all add: matched_accurate)

theorem dedupe_conserves_witness:
  "\<exists>out gray noise.
    dedupeCluster go_runtime [zero_finding, zero_finding\<lparr>Problem := ''leak''\<rparr>] [[], []] Map.empty =
      Some (out, gray @ map (singletonAmbiguousCluster go_runtime) noise) \<and>
    mset (concat out) + mset noise = {#zero_finding, zero_finding\<lparr>Problem := ''leak''\<rparr>#}"
  using dedupe_conserves [OF accurate_runtimes(1), of "[[], []]"
      "[zero_finding, zero_finding\<lparr>Problem := ''leak''\<rparr>]" Map.empty]
  by fastforce

lemma kept_pairs:
  assumes "dedupe_plan rt cluster keys merges = Some (roots, kept, noise)" and m: "matched rt cluster keys" and "(i, j) \<in> set kept"
  shows "i < j \<and> j < length cluster \<and> rel_of rt cluster i j = relGray \<and> \<not> same_key keys i j"
proof -
  obtain G where G: "cluster_groups rt cluster keys = Some G" "distinct (concat G)" "set (concat G) = {..<length cluster}"
    using matched_groups [OF m] by metis
  have "set kept \<subseteq> {p \<in> set (index_pairs (length cluster)). gray_pair rt cluster keys (groupOf (length cluster) G) p}"
    by (rule dedupe_plan_spec [OF G, of merges]) (use assms(1) in \<open>auto simp: Let_def\<close>)
  then have "(i, j) \<in> set (index_pairs (length cluster))" "gray_pair rt cluster keys (groupOf (length cluster) G) (i, j)"
    using assms(3) by blast+
  then show ?thesis by (simp add: set_index_pairs gray_pair_def)
qed

text \<open>
  C39. Adjudication is honoured and the sidecar never contradicts the output, in \<^verbatim>\<open>float64\<close> arithmetic and on every
  cluster that is matched at all (at most \<^verbatim>\<open>maxClusterSize\<close> findings): the pass returns; of the gray pairs without a
  common group key (a common key makes a pair duplicates, not gray) one whose id was adjudicated a duplicate ends
  in one group; and the pairs of the sidecar are precisely those whose findings are in different groups.
\<close>

theorem adjudication_honoured:
  assumes "length cluster \<le> maxClusterSize"
  shows "\<exists>roots kept noise. dedupe_plan go_runtime cluster keys merges = Some (roots, kept, noise) \<and>
    (\<forall>i j. i < j \<and> j < length cluster \<and> rel_of go_runtime cluster i j = relGray \<and> \<not> same_key keys i j \<longrightarrow>
       adjudicated merges (pair_id go_runtime cluster (i, j)) \<longrightarrow> together roots i j) \<and>
    (\<forall>i j. (i, j) \<in> set kept \<longleftrightarrow>
       i < j \<and> j < length cluster \<and> rel_of go_runtime cluster i j = relGray \<and> \<not> same_key keys i j \<and> \<not> together roots i j)"
proof -
  have m: "matched go_runtime cluster keys" by (rule matched_accurate [OF accurate_runtimes(1) assms])
  obtain roots kept noise where plan: "dedupe_plan go_runtime cluster keys merges = Some (roots, kept, noise)"
    by (rule dedupe_plan_partition [OF m])
  show ?thesis using plan dedupe_adjudication [OF m plan] kept_pairs [OF plan m] by blast
qed

definition gray_example :: "finding list" where
  "gray_example = [zero_finding\<lparr>Problem := ''nil map write'', Reviewer := ''a''\<rparr>,
     zero_finding\<lparr>Problem := ''nil map read'', Reviewer := ''b''\<rparr>]"

text \<open>The two findings of \<open>gray_example\<close> are a gray pair; adjudicated, they end in one group.\<close>

theorem adjudication_honoured_witness:
  "\<exists>roots kept noise.
     dedupe_plan go_runtime gray_example [[], []] [pair_id go_runtime gray_example (0, 1) \<mapsto> True] = Some (roots, kept, noise) \<and>
     together roots 0 1 \<and> (0, 1) \<notin> set kept"
proof -
  define merges where "merges = [pair_id go_runtime gray_example (0, 1) \<mapsto> True]"
  have gray: "rel_of go_runtime gray_example 0 1 = relGray" by code_simp
  have n: "length gray_example = 2" "length gray_example \<le> maxClusterSize" by (simp_all add: gray_example_def maxClusterSize_def)
  have key: "\<not> same_key [[], []] 0 1" by (simp add: same_key_def)
  have adj: "adjudicated merges (pair_id go_runtime gray_example (0, 1))" by (simp add: adjudicated_def merges_def)
  show ?thesis
    unfolding merges_def [symmetric] using adjudication_honoured [OF n(2), of "[[], []]" merges] gray n(1) key adj by fastforce
qed

text \<open>
  No over-merging: when nothing is adjudicated, two findings of one group are duplicates by the
  integer-exact predicate and were not written by one named reviewer.
\<close>

theorem dedupe_groups_are_duplicates:
  assumes "matched rt cluster keys" and "\<forall>ident. \<not> adjudicated merges ident"
    and "dedupe_plan rt cluster keys merges = Some (roots, kept, noise)"
    and "i < length cluster" "j < length cluster" "i \<noteq> j" and "together roots i j"
  shows "mergeable rt cluster keys i j \<and> \<not> (Reviewer (cluster ! i) \<noteq> [] \<and> Reviewer (cluster ! i) = Reviewer (cluster ! j))"
  using dedupe_no_overmerge [OF assms(1) _ assms(3,7,6,4,5)] assms(2) srcKeys_eq [OF assms(4,5)] by blast

definition merge_example :: "finding list" where
  "merge_example = [zero_finding\<lparr>Problem := ''nil map write'', Reviewer := ''a''\<rparr>,
     zero_finding\<lparr>Problem := ''nil map write'', Reviewer := ''b''\<rparr>,
     zero_finding\<lparr>Problem := ''unrelated words'', Reviewer := ''c''\<rparr>]"

theorem dedupe_groups_are_duplicates_witness:
  "dedupe_plan go_runtime merge_example [[], [], []] Map.empty = Some ([(0, [0, 1]), (1, [2])], [], [2]) \<and>
   mergeable go_runtime merge_example [[], [], []] 0 1"
proof -
  have plan: "dedupe_plan go_runtime merge_example [[], [], []] Map.empty = Some ([(0, [0, 1]), (1, [2])], [], [2])"
    by code_simp
  have "matched go_runtime merge_example [[], [], []]" by code_simp
  from dedupe_groups_are_duplicates [OF this _ plan, of 0 1] plan show ?thesis
    by (simp add: merge_example_def together_def adjudicated_def)
qed

text \<open>
  Noise is isolated only next to corroboration: a finding goes to the sidecar as noise only when
  it is alone in its group, in no surviving gray pair, a duplicate of no finding by another reviewer,
  and the cluster holds two findings of different reviewers that are duplicates.
\<close>

theorem noise_needs_corroboration:
  assumes "dedupe_plan rt cluster keys merges = Some (roots, kept, noise)" and "i \<in> set noise"
  shows "[i] \<in> set (map snd roots) \<and> (\<forall>p \<in> set kept. i \<noteq> fst p \<and> i \<noteq> snd p) \<and>
    (\<forall>j < length cluster. j \<noteq> i \<longrightarrow> \<not> dense_neighbor rt cluster keys i j) \<and>
    (\<exists>a < length cluster. \<exists>b < length cluster. a \<noteq> b \<and> dense_neighbor rt cluster keys a b)"
proof -
  have "noise = noise_indices rt cluster keys kept roots"
    using assms(1) by (auto simp: dedupe_plan_def Let_def split: option.splits)
  with noise_isolated [of i rt cluster keys kept roots] assms(2) show ?thesis by blast
qed

theorem noise_needs_corroboration_witness:
  "dedupe_plan go_runtime merge_example [[], [], []] Map.empty = Some ([(0, [0, 1]), (1, [2])], [], [2]) \<and>
   \<not> dense_neighbor go_runtime merge_example [[], [], []] 2 0 \<and>
   (\<exists>a < 3. \<exists>b < 3. a \<noteq> b \<and> dense_neighbor go_runtime merge_example [[], [], []] a b)"
proof -
  have plan: "dedupe_plan go_runtime merge_example [[], [], []] Map.empty = Some ([(0, [0, 1]), (1, [2])], [], [2])"
    by code_simp
  have len: "length merge_example = 3" by (simp add: merge_example_def)
  from noise_needs_corroboration [OF plan, of 2, unfolded len] plan show ?thesis by simp
qed

end
