(* ===== verification/GoTime.thy ===== *)
theory GoTime
  imports GoJson
begin

text \<open>
  Go's \<^verbatim>\<open>time.Time\<close> as seconds since 1970-01-01T00:00:00Z, and the layout
  \<^verbatim>\<open>t.UTC().Format(time.RFC3339)\<close>: the proleptic Gregorian date, the time of day and \<^verbatim>\<open>Z\<close>.
\<close>

text \<open>The civil date of a day number, computed on years that start in March.\<close>

definition civil_from_days :: "int \<Rightarrow> int \<times> int \<times> int" where
  "civil_from_days days =
     (let z = days + 719468; era = z div 146097; doe = z mod 146097;
          yoe = (doe - doe div 1460 + doe div 36524 - doe div 146096) div 365;
          doy = doe - (365 * yoe + yoe div 4 - yoe div 100);
          mp = (5 * doy + 2) div 153;
          d = doy - (153 * mp + 2) div 5 + 1;
          m = (if mp < 10 then mp + 3 else mp - 9);
          y = yoe + era * 400 + (if m \<le> 2 then 1 else 0)
      in (y, m, d))"

definition padded :: "nat \<Rightarrow> int \<Rightarrow> string" where
  "padded k i = (if i < 0 then CHR ''-'' # pad_left k (digits_of (nat (- i))) else pad_left k (digits_of (nat i)))"

definition RFC3339 :: "int \<Rightarrow> string" where
  "RFC3339 t =
     (case civil_from_days (t div 86400) of (y, m, d) \<Rightarrow>
        let s = t mod 86400 in
        padded 4 y @ ''-'' @ padded 2 m @ ''-'' @ padded 2 d @ ''T'' @ padded 2 (s div 3600) @ '':'' @
        padded 2 (s div 60 mod 60) @ '':'' @ padded 2 (s mod 60) @ ''Z'')"

lemma RFC3339_examples:
  "RFC3339 0 = ''1970-01-01T00:00:00Z''" "RFC3339 1709251199 = ''2024-02-29T23:59:59Z''"
  "RFC3339 (- 1) = ''1969-12-31T23:59:59Z''"
  by code_simp+

end
