(* ===== verification/Reconcile.thy ===== *)
theory Reconcile
  imports Consensus Cluster Dedupe GoTime "HOL-Library.Sublist"
begin

text \<open>
  The pipeline: \<^verbatim>\<open>reconcile/reconcile.go\<close>. \<^verbatim>\<open>Reconcile\<close> collapses identical findings, clusters them by
  location, dedupes every cluster, merges every group, promotes by authority, sorts, demotes by
  trust and filters for consensus. A panic of a pass is \<open>None\<close>. The summary's map of counts is a HOL map,
  the other maps are association lists with one entry per key.
\<close>

subsection \<open>Options, result and summary\<close>

record options =
  ReconciledAt :: int
  Partial :: bool
  Merges :: adjudications
  Root :: string
  IgnoreRoot :: string
  Grouper :: "grouper option"
  TrustPriors :: priors
  OpportunityScoped :: "(string \<times> bool) list"
  Consensus :: string

definition UnresolvedStateApplied :: string where "UnresolvedStateApplied = ''applied''"
definition UnresolvedStateDisabled :: string where "UnresolvedStateDisabled = ''disabled''"
definition UnresolvedStateUnavailable :: string where "UnresolvedStateUnavailable = ''unavailable''"
definition UnresolvedStateIncomplete :: string where "UnresolvedStateIncomplete = ''incomplete''"
definition UnresolvedReasonDocShield :: string where "UnresolvedReasonDocShield = ''doc_shield''"

record summary =
  SourcesScanned :: "string list"
  PerSourceCounts :: "string \<rightharpoonup> nat"
  ClustersCollapsed :: nat
  SeverityDisagreements :: nat
  AuthorityPromoted :: nat
  sumPartial :: bool
  SkippedSources :: "string list"
  SkippedSourceCount :: nat
  sumAmbiguousHash :: string
  AmbiguousCount :: nat
  NoiseCount :: nat
  ConsensusFiltered :: nat
  UnresolvedFiltered :: nat
  UnresolvedState :: string
  ConsensusLevel :: string
  TrustPriorsResolved :: nat
  sumOpportunityScoped :: "(string \<times> bool) list option"
  OutOfScope :: nat
  TotalFindings :: nat
  sumReconciledAt :: string

record result =
  resFindings :: "merged list"
  resAmbiguous :: "ambiguousCluster list"
  resSummary :: summary

subsection \<open>Helpers\<close>

definition copyFlags :: "(string \<times> bool) list \<Rightarrow> (string \<times> bool) list option" where
  "copyFlags m = (if length m = 0 then None else Some m)"

definition merged_key :: "merged \<Rightarrow> int \<times> string \<times> int \<times> string" where
  "merged_key m = (- rank_or_zero SeverityRank (NormalizeSeverity (Severity m)), File m, Line m, Problem m)"

definition sortMerged :: "merged list \<Rightarrow> merged list" where
  "sortMerged ms = sort_key merged_key ms"

definition clusterKeys :: "finding list \<Rightarrow> grouper option \<Rightarrow> string list" where
  "clusterKeys cluster g =
     (case g of None \<Rightarrow> replicate (length cluster) [] | Some key \<Rightarrow> map key cluster)"

definition AllFindings :: "source list \<Rightarrow> finding list" where
  "AllFindings sources = concat (map Findings sources)"

fun collapse_loop :: "string list \<Rightarrow> finding list \<Rightarrow> finding list" where
  "collapse_loop seen [] = []"
| "collapse_loop seen (f # fs) =
     (let key = marshal (finding_json f) in
      if key \<in> set seen then collapse_loop seen fs else f # collapse_loop (key # seen) fs)"

definition collapseIdentical :: "finding list \<Rightarrow> finding list" where
  "collapseIdentical findings = (if length findings < 2 then findings else collapse_loop [] findings)"

definition sourceNames :: "source list \<Rightarrow> string list" where
  "sourceNames sources = sort (map Name sources)"

definition perSourceCounts :: "source list \<Rightarrow> string \<rightharpoonup> nat" where
  "perSourceCounts sources = fold (\<lambda>s counts. counts(Name s \<mapsto> length (Findings s))) sources Map.empty"

subsection \<open>Passes\<close>

fun dedupe_all ::
  "runtime \<Rightarrow> options \<Rightarrow> finding list list \<Rightarrow> (finding list list \<times> ambiguousCluster list) option" where
  "dedupe_all rt opts [] = Some ([], [])"
| "dedupe_all rt opts (cl # cls) =
     (case dedupeCluster rt cl (clusterKeys cl (Grouper opts)) (Merges opts) of
        None \<Rightarrow> None
      | Some (groups, amb) \<Rightarrow>
          map_option (\<lambda>(allGroups, ambiguous). (groups @ allGroups, amb @ ambiguous)) (dedupe_all rt opts cls))"

definition first_pass ::
  "runtime \<Rightarrow> source list \<Rightarrow> options \<Rightarrow> (finding list list \<times> ambiguousCluster list) option" where
  "first_pass rt sources opts =
     dedupe_all rt opts (ClusterWith (collapseIdentical (AllFindings sources)) (Grouper opts))"

definition baseline_of :: "runtime \<Rightarrow> ranks \<Rightarrow> rat" where
  "baseline_of rt authority = (if length authority > 0 then fl rt (1 / of_nat (length authority)) else 0)"

definition promote_all :: "runtime \<Rightarrow> finding list list \<Rightarrow> merged list" where
  "promote_all rt groups =
     (let authority = modelAuthority rt groups; baseline = baseline_of rt authority
      in map (\<lambda>g. promoteByAuthority (Merge rt g) authority baseline) groups)"

definition count_promoted :: "runtime \<Rightarrow> finding list list \<Rightarrow> nat" where
  "count_promoted rt groups =
     length (filter (\<lambda>(g, m). Confidence (Merge rt g) = ConfMedium \<and> Confidence m = ConfHigh)
               (zip groups (promote_all rt groups)))"

definition demote_all :: "runtime \<Rightarrow> nat \<Rightarrow> priors \<Rightarrow> merged list \<Rightarrow> merged list" where
  "demote_all rt panel priors ms =
     (if panel \<ge> consensusMinReviewers then map (\<lambda>m. demoteByTrust rt m priors) ms else ms)"

definition droppable :: "runtime \<Rightarrow> string \<Rightarrow> priors \<Rightarrow> merged \<Rightarrow> bool" where
  "droppable rt bar priors m \<longleftrightarrow>
     consensusSingletonAt m bar \<and> \<not> consensusExempt (finding.truncate m) \<and>
     \<not> trustExempt rt (finding.truncate m) priors"

definition consensus_filter ::
  "runtime \<Rightarrow> string \<Rightarrow> nat \<Rightarrow> priors \<Rightarrow> merged list \<Rightarrow> merged list \<times> merged list" where
  "consensus_filter rt level panel priors ms =
     (case consensusFloor level of (bar, filterEnabled) \<Rightarrow>
        if filterEnabled \<and> panel \<ge> consensusMinReviewers
        then (filter (\<lambda>m. \<not> droppable rt bar priors m) ms, filter (droppable rt bar priors) ms)
        else (ms, []))"

text \<open>The merged findings before the filter: promoted, sorted, demoted.\<close>

definition second_pass :: "runtime \<Rightarrow> source list \<Rightarrow> options \<Rightarrow> finding list list \<Rightarrow> merged list" where
  "second_pass rt sources opts groups =
     demote_all rt (panelReviewers sources) (TrustPriors opts) (sortMerged (promote_all rt groups))"

definition Reconcile :: "runtime \<Rightarrow> source list \<Rightarrow> options \<Rightarrow> result option" where
  "Reconcile rt sources opts =
     (case first_pass rt sources opts of
        None \<Rightarrow> None
      | Some (allGroups, ambiguous) \<Rightarrow>
          let panel = panelReviewers sources;
              noiseCount = length (filter (\<lambda>c. length (ambFindings c) = 1) ambiguous);
              consensusLevel = effectiveConsensus (Consensus opts);
              (merged, dropped) =
                consensus_filter rt consensusLevel panel (TrustPriors opts) (second_pass rt sources opts allGroups);
              ambiguous = ambiguous @ map (\<lambda>m. consensusNoiseCluster rt (finding.truncate m)) dropped
          in Some \<lparr>resFindings = merged, resAmbiguous = ambiguous,
               resSummary =
                 \<lparr>SourcesScanned = sourceNames sources, PerSourceCounts = perSourceCounts sources,
                  ClustersCollapsed = length (filter (\<lambda>g. length g \<ge> 2) allGroups),
                  SeverityDisagreements = length (filter (\<lambda>m. Disagreement m \<noteq> []) (promote_all rt allGroups)),
                  AuthorityPromoted = count_promoted rt allGroups, sumPartial = Partial opts,
                  SkippedSources = [], SkippedSourceCount = 0,
                  sumAmbiguousHash = AmbiguousHash rt ambiguous, AmbiguousCount = length ambiguous,
                  NoiseCount = noiseCount, ConsensusFiltered = length dropped, UnresolvedFiltered = 0,
                  UnresolvedState = [], ConsensusLevel = consensusLevel,
                  TrustPriorsResolved = length (TrustPriors opts),
                  sumOpportunityScoped = copyFlags (OpportunityScoped opts),
                  OutOfScope = length (filter (\<lambda>m. Category m = CategoryOutOfScope) merged),
                  TotalFindings = length merged, sumReconciledAt = RFC3339 (ReconciledAt opts)\<rparr>\<rparr>)"

subsection \<open>Collapsing identical findings\<close>

lemma collapse_loop_nub:
  assumes "\<forall>f \<in> set fs \<union> set seen. valid_finding f"
  shows "collapse_loop (map (\<lambda>f. marshal (finding_json f)) seen) fs = nub_order seen fs"
  using assms
proof (induction fs arbitrary: seen)
  case (Cons f fs)
  have "marshal (finding_json f) \<in> set (map (\<lambda>f. marshal (finding_json f)) seen) \<longleftrightarrow> f \<in> set seen"
    using Cons.prems marshal_finding_inj [of f] by (simp only: set_map image_iff set_simps Un_iff insert_iff) blast
  then show ?case using Cons.IH [of seen] Cons.IH [of "f # seen"] Cons.prems by (simp add: Let_def)
qed simp

lemma collapseIdentical_distinct:
  assumes "list_all valid_finding findings"
  shows "collapseIdentical findings = distinct_keys findings"
proof (cases "length findings < 2")
  case True
  then show ?thesis by (cases findings) (auto simp: collapseIdentical_def distinct_keys_def)
next
  case False
  then show ?thesis
    using collapse_loop_nub [of findings "[]"] assms by (simp add: collapseIdentical_def distinct_keys_def list_all_iff)
qed

lemma collapse_loop_subset: "set (collapse_loop seen fs) \<subseteq> set fs"
  by (induction seen fs rule: collapse_loop.induct) (auto simp: Let_def)

lemma set_collapseIdentical: "set (collapseIdentical findings) \<subseteq> set findings"
  using collapse_loop_subset by (auto simp: collapseIdentical_def)

subsection \<open>The first pass conserves the findings\<close>

lemma length_clusterKeys [simp]: "length (clusterKeys cl g) = length cl"
  by (simp add: clusterKeys_def split: option.splits)

definition gray_entries :: "ambiguousCluster list \<Rightarrow> bool" where
  "gray_entries = list_all (\<lambda>a. length (ambFindings a) = 2)"

lemma dedupe_all_conserves:
  assumes "accurate (fl rt)"
  shows "\<exists>groups ambiguous gray noise.
    dedupe_all rt opts cls = Some (groups, ambiguous) \<and> mset (concat groups) + mset noise = mset (concat cls) \<and>
    mset ambiguous = mset gray + mset (map (singletonAmbiguousCluster rt) noise) \<and> gray_entries gray"
proof (induction cls)
  case Nil
  show ?case by (rule exI [of _ "[]"], rule exI [of _ "[]"], rule exI [of _ "[]"], rule exI [of _ "[]"]) (simp add: gray_entries_def)
next
  case (Cons cl cls)
  obtain groups ambiguous gray noise where rest: "dedupe_all rt opts cls = Some (groups, ambiguous)"
    "mset (concat groups) + mset noise = mset (concat cls)"
    "mset ambiguous = mset gray + mset (map (singletonAmbiguousCluster rt) noise)" "gray_entries gray"
    using Cons.IH by blast
  have "length cl \<le> maxClusterSize \<longrightarrow> matched rt cl (clusterKeys cl (Grouper opts))"
    using assms by (simp add: matched_accurate)
  from dedupe_conserves_lemma [OF this length_clusterKeys, of "Merges opts"]
  obtain out g n where here: "dedupeCluster rt cl (clusterKeys cl (Grouper opts)) (Merges opts) = Some (out, g @ map (singletonAmbiguousCluster rt) n)"
    "mset (concat out) + mset n = mset cl" "list_all (\<lambda>a. length (ambFindings a) = 2 \<and> set (ambFindings a) \<subseteq> set cl) g"
    by blast
  have g: "gray_entries (g @ gray)" using here(3) rest(4) by (auto simp: gray_entries_def list_all_iff)
  have "mset (concat (out @ groups)) + mset (n @ noise) = mset (concat (cl # cls))"
    using here(2) rest(2) by (simp add: ac_simps) (metis union_assoc union_commute)
  moreover have "mset ((g @ map (singletonAmbiguousCluster rt) n) @ ambiguous) =
      mset (g @ gray) + mset (map (singletonAmbiguousCluster rt) (n @ noise))"
    using rest(3) by (simp add: ac_simps)
  moreover have "dedupe_all rt opts (cl # cls) = Some (out @ groups, (g @ map (singletonAmbiguousCluster rt) n) @ ambiguous)"
    using here(1) rest(1) by simp
  ultimately show ?case using g by blast
qed

lemma first_pass_conserves:
  assumes "accurate (fl rt)"
  obtains groups ambiguous gray noise where "first_pass rt sources opts = Some (groups, ambiguous)"
    "mset (concat groups) + mset noise = mset (collapseIdentical (AllFindings sources))"
    "mset ambiguous = mset gray + mset (map (singletonAmbiguousCluster rt) noise)" "gray_entries gray"
  using dedupe_all_conserves [OF assms, of opts "ClusterWith (collapseIdentical (AllFindings sources)) (Grouper opts)"]
  by (auto simp: first_pass_def mset_ClusterWith)

subsection \<open>What the later passes may change\<close>

definition but_confidence :: "merged \<Rightarrow> merged" where
  "but_confidence m = m\<lparr>Confidence := []\<rparr>"

lemma but_confidence_promote: "but_confidence (promoteByAuthority m a b) = but_confidence m"
  by (auto simp: but_confidence_def promoteByAuthority_def split: option.splits)

lemma but_confidence_demote: "but_confidence (demoteByTrust rt m p) = but_confidence m"
  by (auto simp: but_confidence_def demoteByTrust_def split: option.splits)

lemma but_confidence_select [simp]:
  "Severity (but_confidence m) = Severity m"
  "File (but_confidence m) = File m"
  "Line (but_confidence m) = Line m"
  "Problem (but_confidence m) = Problem m"
  "Category (but_confidence m) = Category m"
  "Reviewers (but_confidence m) = Reviewers m"
  "Reviewer (but_confidence m) = Reviewer m"
  "Verification (but_confidence m) = Verification m"
  "Disagreement (but_confidence m) = Disagreement m"
  by (simp_all add: but_confidence_def)

lemma but_confidence_fields:
  assumes "but_confidence m = but_confidence m'"
  shows "Severity m = Severity m'"
    "File m = File m'"
    "Line m = Line m'"
    "Problem m = Problem m'"
    "Category m = Category m'"
    "Reviewers m = Reviewers m'"
    "Reviewer m = Reviewer m'"
    "Verification m = Verification m'"
    "Disagreement m = Disagreement m'"
  by (metis assms but_confidence_select)+

lemma merged_key_but: "but_confidence m = but_confidence m' \<Longrightarrow> merged_key m = merged_key m'"
  using but_confidence_fields [of m m'] by (simp add: merged_key_def)

lemma mset_second_pass:
  "mset (map but_confidence (second_pass rt sources opts groups)) = mset (map (\<lambda>g. but_confidence (Merge rt g)) groups)"
proof -
  have d: "map but_confidence (demote_all rt panel p ms) = map but_confidence ms" for panel p ms
    by (simp add: demote_all_def but_confidence_demote)
  have "mset (map but_confidence (sortMerged ms)) = mset (map but_confidence ms)" for ms
    by (simp add: sortMerged_def)
  then show ?thesis by (simp add: second_pass_def d promote_all_def Let_def multiset.map_comp comp_def but_confidence_promote)
qed

lemma consensus_filter_split:
  assumes "consensus_filter rt level panel p ms = (kept, dropped)"
  shows "mset kept + mset dropped = mset ms"
  using assms by (auto simp: consensus_filter_def split: prod.splits if_splits)

lemma dedupe_nonempty:
  assumes m: "accurate (fl rt)" and k: "length ks = length cluster"
    and d: "dedupeCluster rt cluster ks merges = Some (out, amb)"
  shows "[] \<notin> set out"
proof (cases "length cluster = 0 \<or> length cluster > maxClusterSize")
  case True
  then show ?thesis using d k by (auto simp: dedupeCluster_def Let_def split: if_splits)
next
  case False
  then have "matched rt cluster ks" using m False by (simp add: matched_accurate)
  then obtain G where G: "cluster_groups rt cluster ks = Some G" "distinct (concat G)" "set (concat G) = {..<length cluster}"
    "list_all (coherent (srcKeys cluster) (mergeable rt cluster ks)) G" by (rule matched_groups)
  obtain u where u: "dedupe_plan rt cluster ks merges = (let roots = roots_by (root u) ((!) G) [0..<length G];
            kept = filter (\<lambda>p. gray_pair rt cluster ks (groupOf (length cluster) G) p \<and> \<not> adjudicated merges (pair_id rt cluster p) \<and>
              root u (groupOf (length cluster) G ! fst p) \<noteq> root u (groupOf (length cluster) G ! snd p)) (index_pairs (length cluster))
        in Some (roots, kept, noise_indices rt cluster ks kept roots))"
    by (rule dedupe_plan_spec [OF G(1,2,3), of merges])
  have ne: "idxs \<noteq> []" if "(r, idxs) \<in> set (roots_by (root u) ((!) G) [0..<length G])" for r idxs
  proof -
    from that obtain gi where "gi < length G"
      "idxs = concat (map ((!) G) (filter (\<lambda>x. root u x = root u gi) [0..<length G]))" by (auto simp: roots_by_def)
    then have "gi < length G" "set (G ! gi) \<subseteq> set idxs" by auto
    moreover from this have "G ! gi \<noteq> []" using G(4) by (simp add: list_all_length coherent_def)
    ultimately show ?thesis by auto
  qed
  obtain roots noise where o: "out = map (map ((!) cluster)) (out_groups roots noise)"
    and r: "roots = roots_by (root u) ((!) G) [0..<length G]"
    using d False k by (auto simp: dedupeCluster_def u Let_def split: if_splits)
  have "sort idxs \<noteq> []" if "(k, idxs) \<in> set roots" for k idxs
    using ne [of k idxs] that by (metis length_0_conv length_sort r)
  then show ?thesis by (auto simp: o out_groups_def)
qed

lemma dedupe_all_nonempty:
  "accurate (fl rt) \<Longrightarrow> dedupe_all rt opts cls = Some (groups, amb) \<Longrightarrow> [] \<notin> set groups"
  by (induction cls arbitrary: groups amb) (auto split: option.splits dest: dedupe_nonempty [OF _ length_clusterKeys])

lemma first_pass_nonempty: "accurate (fl rt) \<Longrightarrow> first_pass rt sources opts = Some (groups, amb) \<Longrightarrow> [] \<notin> set groups"
  unfolding first_pass_def by (rule dedupe_all_nonempty)

lemma second_pass_member:
  assumes "m \<in> set (second_pass rt sources opts groups)"
  obtains g where "g \<in> set groups"
    "m = (let p = promoteByAuthority (Merge rt g) (modelAuthority rt groups) (baseline_of rt (modelAuthority rt groups))
          in if panelReviewers sources \<ge> consensusMinReviewers then demoteByTrust rt p (TrustPriors opts) else p)"
  using assms by (auto simp: second_pass_def demote_all_def sortMerged_def promote_all_def Let_def split: if_splits)

lemma second_pass_contains:
  assumes "g \<in> set groups"
  obtains m where "m \<in> set (second_pass rt sources opts groups)" "but_confidence m = but_confidence (Merge rt g)"
proof -
  have "but_confidence (Merge rt g) \<in># mset (map but_confidence (second_pass rt sources opts groups))"
    unfolding mset_second_pass using assms by simp
  then show thesis using that by auto
qed

subsection \<open>The result\<close>

lemma ReconcileE:
  assumes "first_pass rt sources opts = Some (groups, amb)"
  obtains r dropped where "Reconcile rt sources opts = Some r"
    "consensus_filter rt (effectiveConsensus (Consensus opts)) (panelReviewers sources) (TrustPriors opts)
       (second_pass rt sources opts groups) = (resFindings r, dropped)"
    "resAmbiguous r = amb @ map (\<lambda>m. singletonAmbiguousCluster rt (finding.truncate m)) dropped"
    "NoiseCount (resSummary r) = length (filter (\<lambda>c. length (ambFindings c) = 1) amb)"
    "ConsensusFiltered (resSummary r) = length dropped" "TotalFindings (resSummary r) = length (resFindings r)"
    "AmbiguousCount (resSummary r) = length (resAmbiguous r)"
    "sumAmbiguousHash (resSummary r) = AmbiguousHash rt (resAmbiguous r)"
proof -
  obtain kept dropped where "consensus_filter rt (effectiveConsensus (Consensus opts)) (panelReviewers sources) (TrustPriors opts)
       (second_pass rt sources opts groups) = (kept, dropped)" by (metis surj_pair)
  note eq = Reconcile_def [of rt sources opts, unfolded assms option.case prod.case Let_def this consensusNoiseCluster_def]
  show thesis by (rule that [OF eq]) (simp_all add: \<open>_ = (kept, dropped)\<close>)
qed

lemma count_single_entries:
  assumes "mset amb = mset gray + mset (map (singletonAmbiguousCluster rt) noise)" "gray_entries gray"
  shows "length (filter (\<lambda>c. length (ambFindings c) = 1) amb) = length noise"
proof -
  have "mset (filter (\<lambda>c. length (ambFindings c) = 1) amb) =
      filter_mset (\<lambda>c. length (ambFindings c) = 1) (mset (gray @ map (singletonAmbiguousCluster rt) noise))"
    using assms(1) by simp
  also have "\<dots> = mset (filter (\<lambda>c. length (ambFindings c) = 1) (gray @ map (singletonAmbiguousCluster rt) noise))"
    by (simp only: mset_filter)
  finally have "length (filter (\<lambda>c. length (ambFindings c) = 1) amb) =
      length (filter (\<lambda>c. length (ambFindings c) = 1) (gray @ map (singletonAmbiguousCluster rt) noise))"
    by (rule mset_eq_length)
  moreover have "filter (\<lambda>c. length (ambFindings c) = 1) gray = []"
    using assms(2) by (auto simp: gray_entries_def list_all_iff filter_empty_conv)
  moreover have "length (filter (\<lambda>c. length (ambFindings c) = 1) (map (singletonAmbiguousCluster rt) noise)) = length noise"
    by (simp add: filter_map comp_def singleton_findings)
  ultimately show ?thesis by (simp only: filter_append length_append list.size add_0)
qed

text \<open>
  C1. No finding is lost, in \<^verbatim>\<open>float64\<close> arithmetic as the program computes: \<^verbatim>\<open>Reconcile\<close> returns on every input, and every finding that is left when identical ones are
  collapsed is either in one group, whose merged finding is in the output or, when the consensus
  filter dropped it, in the sidecar, or isolated as noise in the sidecar; nothing else is in either.
  The summary counts precisely these.
\<close>

theorem reconcile_conserves:
  "\<exists>r groups gray noise dropped.
    Reconcile go_runtime sources opts = Some r \<and>
    mset (concat groups) + mset noise = mset (collapseIdentical (AllFindings sources)) \<and>
    mset (map but_confidence (resFindings r @ dropped)) = mset (map (\<lambda>g. but_confidence (Merge go_runtime g)) groups) \<and>
    mset (resAmbiguous r) =
      mset (gray @ map (singletonAmbiguousCluster go_runtime) (noise @ map finding.truncate dropped)) \<and>
    list_all (\<lambda>a. length (ambFindings a) = 2) gray \<and>
    TotalFindings (resSummary r) = length (resFindings r) \<and> NoiseCount (resSummary r) = length noise \<and>
    ConsensusFiltered (resSummary r) = length dropped \<and>
    TotalFindings (resSummary r) + ConsensusFiltered (resSummary r) = length groups"
proof -
  obtain groups amb gray noise where fp: "first_pass go_runtime sources opts = Some (groups, amb)"
    "mset (concat groups) + mset noise = mset (collapseIdentical (AllFindings sources))"
    "mset amb = mset gray + mset (map (singletonAmbiguousCluster go_runtime) noise)" "gray_entries gray"
    by (rule first_pass_conserves [OF accurate_runtimes(1)])
  obtain r dropped where r: "Reconcile go_runtime sources opts = Some r"
    "consensus_filter go_runtime (effectiveConsensus (Consensus opts)) (panelReviewers sources) (TrustPriors opts)
       (second_pass go_runtime sources opts groups) = (resFindings r, dropped)"
    "resAmbiguous r = amb @ map (\<lambda>m. singletonAmbiguousCluster go_runtime (finding.truncate m)) dropped"
    "NoiseCount (resSummary r) = length (filter (\<lambda>c. length (ambFindings c) = 1) amb)"
    "ConsensusFiltered (resSummary r) = length dropped" "TotalFindings (resSummary r) = length (resFindings r)"
    by (rule ReconcileE [OF fp(1)])
  have ms: "mset (map but_confidence (resFindings r @ dropped)) = mset (map (\<lambda>g. but_confidence (Merge go_runtime g)) groups)"
    using consensus_filter_split [OF r(2)] mset_second_pass [of go_runtime sources opts groups]
    by (metis mset_append mset_map)
  then have "length (resFindings r) + length dropped = length groups"
    by (metis length_append length_map mset_eq_length)
  then have "TotalFindings (resSummary r) + ConsensusFiltered (resSummary r) = length groups"
    by (simp only: r(5,6))
  moreover have "NoiseCount (resSummary r) = length noise"
    using r(4) count_single_entries [OF fp(3,4)] by simp
  moreover have "mset (resAmbiguous r) = mset (gray @ map (singletonAmbiguousCluster go_runtime) (noise @ map finding.truncate dropped))"
    using r(3) fp(3) by (simp add: comp_def)
  ultimately show ?thesis using r(1,5,6) fp(2,4) ms unfolding gray_entries_def by blast
qed

definition no_options :: options where
  "no_options = \<lparr>ReconciledAt = 0, Partial = False, Merges = Map.empty, Root = [], IgnoreRoot = [], Grouper = None,
     TrustPriors = [], OpportunityScoped = [], Consensus = []\<rparr>"

definition two_sources :: "source list" where
  "two_sources =
     [\<lparr>Name = ''host'', Findings = [zero_finding\<lparr>File := ''a.go'', Line := 3, Problem := ''leak'', Reviewer := ''ann''\<rparr>]\<rparr>,
      \<lparr>Name = ''pool'', Findings = [zero_finding\<lparr>File := ''b.go'', Line := 9, Severity := ''high'', Reviewer := ''bo''\<rparr>]\<rparr>]"

theorem reconcile_conserves_witness:
  "\<exists>r groups gray noise dropped.
    Reconcile go_runtime two_sources no_options = Some r \<and>
    mset (concat groups) + mset noise = mset (collapseIdentical (AllFindings two_sources)) \<and>
    mset (map but_confidence (resFindings r @ dropped)) = mset (map (\<lambda>g. but_confidence (Merge go_runtime g)) groups) \<and>
    mset (resAmbiguous r) =
      mset (gray @ map (singletonAmbiguousCluster go_runtime) (noise @ map finding.truncate dropped)) \<and>
    TotalFindings (resSummary r) + ConsensusFiltered (resSummary r) = length groups"
  using reconcile_conserves [of two_sources no_options] by blast

subsection \<open>Order of the output\<close>

lemma sorted_second_pass: "sorted (map merged_key (second_pass rt sources opts groups))"
proof -
  have "map merged_key (demote_all rt panel p ms) = map merged_key ms" for panel p ms
    using merged_key_but [OF but_confidence_demote] by (simp add: demote_all_def)
  then show ?thesis by (simp add: second_pass_def sortMerged_def)
qed

lemma filter_kept:
  "\<exists>P. fst (consensus_filter rt level panel p ms) = filter P ms"
  by (auto simp: consensus_filter_def split: prod.splits intro: exI [of _ "\<lambda>_. True"])

text \<open>
  The output is ordered by severity, most severe first, then file, then line, then problem text,
  and each finding's reviewers are in strictly ascending order.
\<close>

theorem reconcile_sorted:
  assumes "accurate (fl rt)"
  shows "\<exists>r. Reconcile rt sources opts = Some r \<and> sorted (map merged_key (resFindings r)) \<and>
    list_all (\<lambda>m. sorted_wrt (<) (Reviewers m)) (resFindings r)"
proof -
  obtain groups amb gray noise where fp: "first_pass rt sources opts = Some (groups, amb)"
    by (rule first_pass_conserves [OF assms])
  obtain r dropped where r: "Reconcile rt sources opts = Some r"
    "consensus_filter rt (effectiveConsensus (Consensus opts)) (panelReviewers sources) (TrustPriors opts)
       (second_pass rt sources opts groups) = (resFindings r, dropped)"
    by (rule ReconcileE [OF fp])
  obtain P where P: "resFindings r = filter P (second_pass rt sources opts groups)"
    using filter_kept r(2) by (metis fst_conv)
  have "sorted_wrt (<) (Reviewers m)" if m: "m \<in> set (second_pass rt sources opts groups)" for m
  proof -
    obtain g where g: "g \<in> set groups" "but_confidence m = but_confidence (Merge rt g)"
      by (rule second_pass_member [OF m]) (auto simp: Let_def but_confidence_demote but_confidence_promote)
    then have "g \<noteq> []" using first_pass_nonempty [OF assms fp] by auto
    then show ?thesis
      using but_confidence_fields(6) [OF g(2)] by (simp add: Merge_fields(1) distinctReviewers_eq)
  qed
  then have "list_all (\<lambda>m. sorted_wrt (<) (Reviewers m)) (resFindings r)" by (simp add: P list_all_iff)
  moreover have "sorted (map merged_key (resFindings r))"
    unfolding P by (rule sorted_filter [OF sorted_second_pass])
  ultimately show ?thesis using r(1) by blast
qed

theorem reconcile_sorted_witness:
  "\<exists>r. Reconcile go_runtime two_sources no_options = Some r \<and> sorted (map merged_key (resFindings r))"
  using reconcile_sorted [OF accurate_runtimes(1), of two_sources no_options] by blast

subsection \<open>What the filter keeps\<close>

lemma literal_forms:
  "NormalizeSeverity ''CRITICAL'' = ''CRITICAL''" "NormalizeSeverity ''HIGH'' = ''HIGH''"
  "ToLower (TrimSpace ''security'') = ''security''" "ToLower (TrimSpace ''secret'') = ''secret''"
  "ToLower (TrimSpace ''input-validation'') = ''input-validation''"
  "ToLower (TrimSpace ''out-of-scope'') = ''out-of-scope''"
  by code_simp+

lemma exempt_literals:
  assumes "Severity m \<in> {SevCritical, SevHigh} \<or>
    Category m \<in> {CategorySecurity, CategorySecret, CategoryInputValidation, CategoryOutOfScope}"
  shows "consensusExempt (finding.truncate m)"
proof -
  have f: "Severity (finding.truncate m) = Severity m" "Category (finding.truncate m) = Category m"
    by (simp_all add: finding.truncate_def)
  show ?thesis using assms unfolding consensusExempt_def f
    by (auto simp: literal_forms securityRelated_def Let_def)
qed

lemma truncate_reviewers [simp]: "Reviewers (finding.truncate m) = Reviewers m"
  by (simp add: finding.truncate_def)

lemma dropped_facts:
  assumes "consensus_filter rt level panel p ms = (kept, dropped)" "m \<in> set dropped"
  shows "consensusMinReviewers \<le> panel" "snd (consensusFloor level)" "length (Reviewers m) < 2"
    "\<not> consensusExempt (finding.truncate m)" "\<not> trustExempt rt (finding.truncate m) p"
  using assms by (auto simp: consensus_filter_def droppable_def consensusSingletonAt_def split: prod.splits if_splits)

text \<open>
  C2. The consensus filter is selective: a group with two or more reviewers, of severity HIGH or
  CRITICAL, in a security category or out of scope reaches the output, and so does every group when
  the panel has fewer than three reviewers or the level is \<^verbatim>\<open>off\<close>.
\<close>

theorem consensus_keeps:
  assumes "first_pass rt sources opts = Some (groups, ambiguous)" and "g \<in> set groups"
    and "2 \<le> length (Reviewers (Merge rt g)) \<or> Severity (Merge rt g) \<in> {SevCritical, SevHigh} \<or>
      Category (Merge rt g) \<in> {CategorySecurity, CategorySecret, CategoryInputValidation, CategoryOutOfScope} \<or>
      panelReviewers sources < consensusMinReviewers \<or> ToLower (TrimSpace (Consensus opts)) = ConsensusOff"
  shows "\<exists>r m. Reconcile rt sources opts = Some r \<and> m \<in> set (resFindings r) \<and>
    but_confidence m = but_confidence (Merge rt g)"
proof -
  obtain r dropped where r: "Reconcile rt sources opts = Some r"
    "consensus_filter rt (effectiveConsensus (Consensus opts)) (panelReviewers sources) (TrustPriors opts)
       (second_pass rt sources opts groups) = (resFindings r, dropped)"
    by (rule ReconcileE [OF assms(1)])
  obtain m where m: "m \<in> set (second_pass rt sources opts groups)" "but_confidence m = but_confidence (Merge rt g)"
    by (rule second_pass_contains [OF assms(2)])
  note f = but_confidence_fields [OF m(2)]
  have "m \<notin> set dropped"
  proof
    assume "m \<in> set dropped"
    note d = dropped_facts [OF r(2) this]
    have "\<not> (Severity m \<in> {SevCritical, SevHigh} \<or>
      Category m \<in> {CategorySecurity, CategorySecret, CategoryInputValidation, CategoryOutOfScope})"
      using exempt_literals d(4) by blast
    moreover have "ToLower (TrimSpace (Consensus opts)) \<noteq> ConsensusOff"
      using d(2) by (cases rule: effectiveConsensus_cases [of "Consensus opts"]) (simp_all add: consensusFloor_levels)
    ultimately show False using assms(3) d(1,3) f by auto
  qed
  then have "m \<in> set (resFindings r)"
    using m(1) consensus_filter_split [OF r(2)] by (metis Un_iff set_mset_mset set_mset_union)
  then show ?thesis using r(1) m(2) by blast
qed

lemma two_sources_pass:
  "first_pass exact_runtime two_sources no_options = Some (map (\<lambda>s. Findings s) two_sources, [])"
  by code_simp

theorem consensus_keeps_witness:
  "\<exists>r m. Reconcile exact_runtime two_sources no_options = Some r \<and> m \<in> set (resFindings r) \<and>
    but_confidence m = but_confidence (Merge exact_runtime (Findings (two_sources ! 1)))"
proof -
  have "Findings (two_sources ! 1) \<in> set (map (\<lambda>s. Findings s) two_sources)" by (simp add: two_sources_def)
  moreover have "Severity (Merge exact_runtime (Findings (two_sources ! 1))) = SevHigh" by code_simp
  ultimately show ?thesis using consensus_keeps [OF two_sources_pass] by blast
qed

subsection \<open>Levels nest\<close>

lemma first_pass_consensus: "first_pass rt sources (opts\<lparr>Consensus := c\<rparr>) = first_pass rt sources opts"
proof -
  have "dedupe_all rt (opts\<lparr>Consensus := c\<rparr>) cls = dedupe_all rt opts cls" for cls
    by (induction cls) (simp_all split: option.split)
  then show ?thesis by (simp add: first_pass_def)
qed

lemma second_pass_consensus: "second_pass rt sources (opts\<lparr>Consensus := c\<rparr>) groups = second_pass rt sources opts groups"
  by (simp add: second_pass_def)

lemma bar_rank: "rank_or_zero confidenceRank (ToUpper (TrimSpace ''HIGH'')) = 3" "rank_or_zero confidenceRank (ToUpper (TrimSpace ''MEDIUM'')) = 2"
  by code_simp+

lemma droppable_lenient: "droppable rt ConfMedium p m \<Longrightarrow> droppable rt ConfHigh p m"
  by (auto simp: droppable_def consensusSingletonAt_def ConfidenceAtOrAbove_def bar_rank Let_def split: if_splits)

lemma subseq_filter_mono: "(\<And>x. P x \<Longrightarrow> Q x) \<Longrightarrow> subseq (filter P xs) (filter Q xs)"
  by (induction xs) auto

lemma Reconcile_consensus:
  assumes "first_pass rt sources opts = Some (groups, amb)"
  shows "map_option resFindings (Reconcile rt sources (opts\<lparr>Consensus := c\<rparr>)) =
    Some (fst (consensus_filter rt (effectiveConsensus c) (panelReviewers sources) (TrustPriors opts) (second_pass rt sources opts groups)))"
proof -
  have "first_pass rt sources (opts\<lparr>Consensus := c\<rparr>) = Some (groups, amb)" using assms by (simp add: first_pass_consensus)
  then show ?thesis
    by (rule ReconcileE) (simp add: second_pass_consensus)
qed

text \<open>
  A stricter level only removes: for the same sources and options the findings under \<^verbatim>\<open>strict\<close> are a
  subsequence of those under \<^verbatim>\<open>lenient\<close>, which are a subsequence of those under \<^verbatim>\<open>off\<close>.
\<close>

theorem consensus_levels_nest:
  assumes "accurate (fl rt)"
  shows "\<exists>strict lenient off.
    Reconcile rt sources (opts\<lparr>Consensus := ConsensusStrict\<rparr>) = Some strict \<and>
    Reconcile rt sources (opts\<lparr>Consensus := ConsensusLenient\<rparr>) = Some lenient \<and>
    Reconcile rt sources (opts\<lparr>Consensus := ConsensusOff\<rparr>) = Some off \<and>
    subseq (resFindings strict) (resFindings lenient) \<and> subseq (resFindings lenient) (resFindings off)"
proof -
  obtain groups amb where fp: "first_pass rt sources opts = Some (groups, amb)"
    by (rule first_pass_conserves [OF assms])
  let ?ms = "second_pass rt sources opts groups"
  let ?f = "\<lambda>c. fst (consensus_filter rt c (panelReviewers sources) (TrustPriors opts) ?ms)"
  have eff: "effectiveConsensus ''strict'' = ''strict''" "effectiveConsensus ''lenient'' = ''lenient''" "effectiveConsensus ''off'' = ''off''"
    by (simp_all add: effectiveConsensus_def NormalizeConsensus_levels)
  obtain s l u where r: "Reconcile rt sources (opts\<lparr>Consensus := ConsensusStrict\<rparr>) = Some s" "resFindings s = ?f ''strict''"
    "Reconcile rt sources (opts\<lparr>Consensus := ConsensusLenient\<rparr>) = Some l" "resFindings l = ?f ''lenient''"
    "Reconcile rt sources (opts\<lparr>Consensus := ConsensusOff\<rparr>) = Some u" "resFindings u = ?f ''off''"
    using Reconcile_consensus [OF fp, of ConsensusStrict] Reconcile_consensus [OF fp, of ConsensusLenient]
      Reconcile_consensus [OF fp, of ConsensusOff] eff by auto
  have "subseq (?f ''strict'') (?f ''lenient'')"
    using droppable_lenient [of rt "TrustPriors opts"] by (auto simp: consensus_filter_def consensusFloor_levels intro: subseq_filter_mono)
  moreover have "subseq (?f ''lenient'') (?f ''off'')"
    by (simp add: consensus_filter_def consensusFloor_levels)
  ultimately show ?thesis using r by metis
qed

theorem consensus_levels_nest_witness:
  "\<exists>strict lenient off.
    Reconcile go_runtime two_sources (no_options\<lparr>Consensus := ConsensusStrict\<rparr>) = Some strict \<and>
    Reconcile go_runtime two_sources (no_options\<lparr>Consensus := ConsensusLenient\<rparr>) = Some lenient \<and>
    Reconcile go_runtime two_sources (no_options\<lparr>Consensus := ConsensusOff\<rparr>) = Some off \<and>
    subseq (resFindings strict) (resFindings lenient) \<and> subseq (resFindings lenient) (resFindings off)"
  by (rule consensus_levels_nest [OF accurate_runtimes(1), of two_sources no_options])

subsection \<open>The ladder of confidence\<close>

definition explained ::
  "runtime \<Rightarrow> ranks \<Rightarrow> nat \<Rightarrow> priors \<Rightarrow> merged \<Rightarrow> bool" where
  "explained rt authority panel priors m \<longleftrightarrow>
     Confidence m = ConfHigh \<and>
       (2 \<le> length (Reviewers m) \<and> ConfidenceDiscount m = [] \<or>
        (\<exists>rev score. Reviewers m = [rev] \<and> map_of authority rev = Some score \<and> baseline_of rt authority < score)) \<or>
     Confidence m = ConfMedium \<and> (length (Reviewers m) < 2 \<or> ConfidenceDiscount m = PanelWideReason) \<or>
     Confidence m = ConfLow \<and> consensusMinReviewers \<le> panel \<and>
       (\<exists>rev rate. Reviewers m = [rev] \<and> map_of priors (ToLower rev) = Some rate \<and> rate \<le> fl rt trustLowThreshold)"

lemma explained_merge:
  assumes "g \<noteq> []"
  shows "explained rt authority panel priors (Merge rt g)"
proof -
  note c = Merge_fields(4) [OF assms, of rt] and r = Merge_fields(1) [OF assms, of rt]
  show ?thesis
    using c unfolding explained_def r DiscountedConfidence_def ConfidenceFor_def
    by (auto simp: PanelWideReason_def split: if_splits)
qed

lemma single_reviewer: "length xs = 1 \<Longrightarrow> \<exists>x. xs = [x]"
  by (cases xs) auto

lemma explained_promote:
  assumes "explained rt authority panel priors m"
  shows "explained rt authority panel priors (promoteByAuthority m authority (baseline_of rt authority))"
proof (cases "length authority = 0 \<or> length (Reviewers m) \<noteq> 1 \<or> Confidence m \<noteq> ConfMedium")
  case True
  then show ?thesis using assms by (simp add: promoteByAuthority_def)
next
  case False
  then obtain rev where "Reviewers m = [rev]" using single_reviewer by blast
  then show ?thesis
    using assms False by (auto simp: promoteByAuthority_def explained_def split: option.splits)
qed

lemma explained_demote:
  assumes "explained rt authority panel priors m" "consensusMinReviewers \<le> panel"
  shows "explained rt authority panel priors (demoteByTrust rt m priors)"
proof (cases "length priors = 0 \<or> Confidence m \<noteq> ConfMedium \<or> length (Reviewers m) \<noteq> 1")
  case True
  then show ?thesis using assms by (simp add: demoteByTrust_def)
next
  case False
  then obtain rev where "Reviewers m = [rev]" using single_reviewer by blast
  then show ?thesis
    using assms False by (auto simp: demoteByTrust_def explained_def split: option.splits)
qed

text \<open>
  C3. On every input \<^verbatim>\<open>Reconcile\<close> returns, and every confidence in the output is one of three and has its reason: HIGH means two or more
  reviewers whose agreement was not discounted, or one whose authority exceeds the baseline; MEDIUM
  fewer than two reviewers or a panel-wide discount; LOW one reviewer with a trust prior of at most
  0.3 in a panel of three or more.
\<close>

theorem confidence_explained:
  "\<exists>r groups ambiguous. Reconcile go_runtime sources opts = Some r \<and> first_pass go_runtime sources opts = Some (groups, ambiguous) \<and>
    list_all (explained go_runtime (modelAuthority go_runtime groups) (panelReviewers sources) (TrustPriors opts)) (resFindings r)"
proof -
  obtain groups amb gray noise where fp: "first_pass go_runtime sources opts = Some (groups, amb)"
    by (rule first_pass_conserves [OF accurate_runtimes(1)])
  obtain r dropped where r: "Reconcile go_runtime sources opts = Some r"
    "consensus_filter go_runtime (effectiveConsensus (Consensus opts)) (panelReviewers sources) (TrustPriors opts)
       (second_pass go_runtime sources opts groups) = (resFindings r, dropped)"
    by (rule ReconcileE [OF fp])
  obtain P where P: "resFindings r = filter P (second_pass go_runtime sources opts groups)"
    using filter_kept r(2) by (metis fst_conv)
  have "explained go_runtime (modelAuthority go_runtime groups) (panelReviewers sources) (TrustPriors opts) m"
    if m: "m \<in> set (second_pass go_runtime sources opts groups)" for m
    using m
  proof (rule second_pass_member)
    fix g assume g: "g \<in> set groups" and m: "m = (let p = promoteByAuthority (Merge go_runtime g) (modelAuthority go_runtime groups)
        (baseline_of go_runtime (modelAuthority go_runtime groups))
      in if panelReviewers sources \<ge> consensusMinReviewers then demoteByTrust go_runtime p (TrustPriors opts) else p)"
    have "g \<noteq> []" using g first_pass_nonempty [OF accurate_runtimes(1) fp] by auto
    then show ?thesis unfolding m Let_def using explained_demote explained_promote explained_merge by simp
  qed
  then show ?thesis using r(1) fp by (auto simp: P list_all_iff)
qed

theorem confidence_explained_witness:
  "\<exists>r groups ambiguous. Reconcile go_runtime two_sources no_options = Some r \<and>
    first_pass go_runtime two_sources no_options = Some (groups, ambiguous) \<and>
    list_all (explained go_runtime (modelAuthority go_runtime groups) (panelReviewers two_sources) (TrustPriors no_options)) (resFindings r)"
  by (rule confidence_explained [of two_sources no_options])

text \<open>
  The pre-pass drops precisely the repeated findings: on findings whose texts are valid UTF-8 the
  comparison of JSON encodings is equality in every field, so the result is the list with every
  finding at its first occurrence only.
\<close>

theorem collapse_keeps_first:
  assumes "list_all valid_finding findings"
  shows "collapseIdentical findings = distinct_keys findings \<and> distinct (collapseIdentical findings) \<and>
    set (collapseIdentical findings) = set findings"
  using collapseIdentical_distinct [OF assms] by simp

theorem collapse_keeps_first_witness:
  "collapseIdentical [zero_finding, zero_finding\<lparr>Line := 4\<rparr>, zero_finding] = [zero_finding, zero_finding\<lparr>Line := 4\<rparr>]"
proof -
  have "list_all valid_finding [zero_finding, zero_finding\<lparr>Line := 4\<rparr>, zero_finding]"
    by (simp add: valid_finding_def zero_finding_def ascii_valid is_ascii_def)
  from collapse_keeps_first [OF this] show ?thesis by (simp add: distinct_keys_def zero_finding_def)
qed

text \<open>
  On invalid UTF-8 the encoding is not injective: two findings whose problem texts are the different
  bytes \<^verbatim>\<open>80\<close> and \<^verbatim>\<open>81\<close> have one key, and the second is dropped although it is not identical.
\<close>

lemma collapse_drops_different_finding:
  "collapseIdentical [zero_finding\<lparr>Problem := [CHR 0x80]\<rparr>, zero_finding\<lparr>Problem := [CHR 0x81]\<rparr>] =
     [zero_finding\<lparr>Problem := [CHR 0x80]\<rparr>]"
  by code_simp

text \<open>
  The order of the output is not total: two merged findings that differ in category have one sort key
  and keep the order in which the groups were formed.
\<close>

lemma sort_key_not_total:
  "merged_key (Merge exact_runtime [zero_finding\<lparr>Category := ''docs''\<rparr>]) = merged_key (Merge exact_runtime [zero_finding\<lparr>Category := ''style''\<rparr>]) \<and>
   sortMerged [Merge exact_runtime [zero_finding\<lparr>Category := ''docs''\<rparr>], Merge exact_runtime [zero_finding\<lparr>Category := ''style''\<rparr>]] \<noteq>
   sortMerged [Merge exact_runtime [zero_finding\<lparr>Category := ''style''\<rparr>], Merge exact_runtime [zero_finding\<lparr>Category := ''docs''\<rparr>]]"
proof -
  let ?a = "Merge exact_runtime [zero_finding\<lparr>Category := ''docs''\<rparr>]" and ?b = "Merge exact_runtime [zero_finding\<lparr>Category := ''style''\<rparr>]"
  have k: "merged_key ?a = merged_key ?b"
    by code_simp
  have "ModalCategory [zero_finding\<lparr>Category := ''docs''\<rparr>] = ''docs''" "ModalCategory [zero_finding\<lparr>Category := ''style''\<rparr>] = ''style''"
    by code_simp+
  then have "Category ?a \<noteq> Category ?b" by (simp add: Merge_fields(3))
  then have "?a \<noteq> ?b" by metis
  then show ?thesis using k by (simp add: sortMerged_def)
qed

end
