(* ===== verification/Levenshtein.thy ===== *)
theory Levenshtein
  imports GoRuntime
begin

text \<open>
  The edit distance behind path suggestions: \<^verbatim>\<open>internal/stream/levenshtein.go\<close>. The two-row table is kept
  as two lists, each row computed from the one above. The theorem shows that it is the least number
  of insertions, deletions and substitutions of runes that turn one string into the other.
\<close>

subsection \<open>The two-row table\<close>

definition min3 :: "nat \<Rightarrow> nat \<Rightarrow> nat \<Rightarrow> nat" where
  "min3 a b c = (let m = a; m = (if b < m then b else m) in if c < m then c else m)"

text \<open>\<open>lev_row x ys prev left\<close> fills a row from its second cell on; \<open>left\<close> is the cell before.\<close>

fun lev_row :: "nat \<Rightarrow> nat list \<Rightarrow> nat list \<Rightarrow> nat \<Rightarrow> nat list" where
  "lev_row x (y # ys) (p # q # prev) left =
     (let cost = (if x = y then 0 else 1); v = min3 (q + 1) (left + 1) (p + cost)
      in v # lev_row x ys (q # prev) v)"
| "lev_row x ys prev left = []"

fun lev_rows :: "nat list \<Rightarrow> nat \<Rightarrow> nat list \<Rightarrow> nat list \<Rightarrow> nat list" where
  "lev_rows [] i rb prev = prev"
| "lev_rows (x # ra) i rb prev = lev_rows ra (i + 1) rb (i # lev_row x rb prev i)"

definition levenshtein :: "string \<Rightarrow> string \<Rightarrow> nat" where
  "levenshtein a b =
     (let ra = decode_runes a; rb = decode_runes b;
          (ra, rb) = (if length ra < length rb then (rb, ra) else (ra, rb))
      in if length rb = 0 then length ra
         else lev_rows ra 1 rb [0..<length rb + 1] ! length rb)"

definition similarity :: "runtime \<Rightarrow> string \<Rightarrow> string \<Rightarrow> rat" where
  "similarity rt a b =
     (if a = b then 1
      else let la = length (decode_runes a); lb = length (decode_runes b);
               longest = (if lb > la then lb else la)
           in if longest = 0 then 1 else fl rt (1 - fl rt (of_nat (levenshtein a b) / of_nat longest)))"

subsection \<open>Edit distance\<close>

text \<open>The recursive distance, on reversed prefixes, and the single edits it counts.\<close>

fun ed :: "'a list \<Rightarrow> 'a list \<Rightarrow> nat" where
  "ed [] ys = length ys"
| "ed xs [] = length xs"
| "ed (x # xs) (y # ys) = min (Suc (ed xs (y # ys))) (min (Suc (ed (x # xs) ys)) (ed xs ys + (if x = y then 0 else 1)))"

inductive one_edit :: "'a list \<Rightarrow> 'a list \<Rightarrow> bool" where
  ins: "one_edit (us @ vs) (us @ x # vs)"
| del: "one_edit (us @ x # vs) (us @ vs)"
| sub: "one_edit (us @ x # vs) (us @ y # vs)"

lemma ed_Nil [simp]: "ed xs [] = length xs"
  by (cases xs) simp_all

lemma ed_sym: "ed xs ys = ed ys xs"
  by (induction xs ys rule: ed.induct) (auto simp: min.left_commute)

lemma ed_refl: "ed xs xs = 0"
  by (induction xs) simp_all

lemma ed_Cons_le: "ed (x # xs) ys \<le> Suc (ed xs ys)"
  by (cases ys) simp_all

lemma ed_le_Cons: "ed xs ys \<le> Suc (ed (x # xs) ys)"
proof (induction ys arbitrary: x xs)
  case Nil
  then show ?case by simp
next
  case (Cons y ys)
  have a: "ed xs (y # ys) \<le> Suc (ed xs ys)" using ed_Cons_le [of y ys xs] by (simp add: ed_sym [of xs])
  have b: "ed xs ys \<le> Suc (ed (x # xs) ys)" by (rule Cons.IH)
  from a b show ?case by simp
qed

lemma ed_edit_head:
  "ed (x # xs) zs \<le> Suc (ed (y # xs) zs)"
proof (induction zs)
  case Nil
  then show ?case by simp
next
  case (Cons z zs)
  have "ed (x # xs) zs \<le> Suc (ed (y # xs) zs)" by (rule Cons.IH)
  then show ?case by (auto simp: min_def)
qed

lemma ed_mono_prefix:
  assumes "\<And>zs. ed vs zs \<le> Suc (ed ws zs)"
  shows "ed (us @ vs) zs \<le> Suc (ed (us @ ws) zs)"
proof (induction us arbitrary: zs)
  case Nil
  show ?case using assms by simp
next
  case (Cons u us)
  show ?case
  proof (induction zs)
    case Nil
    have "length vs \<le> Suc (length ws)" using assms [of "[]"] by simp
    then show ?case by simp
  next
    case (Cons z zs)
    have "ed (us @ vs) (z # zs) \<le> Suc (ed (us @ ws) (z # zs))" "ed (us @ vs) zs \<le> Suc (ed (us @ ws) zs)"
      using Cons.prems Cons.IH \<open>\<And>zs. ed (us @ vs) zs \<le> Suc (ed (us @ ws) zs)\<close> by blast+
    then show ?case using Cons.IH by (auto simp: min_def)
  qed
qed

lemma ed_one_edit: "one_edit xs ys \<Longrightarrow> ed xs zs \<le> Suc (ed ys zs)"
  by (induction rule: one_edit.induct) (auto intro!: ed_mono_prefix ed_edit_head ed_le_Cons ed_Cons_le)

lemma ed_lower: "(one_edit ^^ n) xs ys \<Longrightarrow> ed xs ys \<le> n"
proof (induction n arbitrary: xs)
  case 0
  then show ?case by (simp add: ed_refl)
next
  case (Suc n)
  then obtain ws where "one_edit xs ws" "(one_edit ^^ n) ws ys" by (metis relpowp_Suc_D2)
  then show ?case using Suc.IH [of ws] ed_one_edit [of xs ws ys] by simp
qed

lemma one_edit_Cons: "one_edit xs ys \<Longrightarrow> one_edit (z # xs) (z # ys)"
  by (induction rule: one_edit.induct) (metis append_Cons one_edit.intros)+

lemma one_edit_n_Cons: "(one_edit ^^ n) xs ys \<Longrightarrow> (one_edit ^^ n) (z # xs) (z # ys)"
proof (induction n arbitrary: xs)
  case (Suc n)
  then obtain ws where "one_edit xs ws" "(one_edit ^^ n) ws ys" by (metis relpowp_Suc_D2)
  then show ?case using Suc.IH one_edit_Cons by (metis relpowp_Suc_I2)
qed simp

lemma one_edit_del_head: "one_edit (x # xs) xs"
  using one_edit.del [of "[]" x xs] by simp

lemma one_edit_ins_head: "one_edit xs (x # xs)"
  using one_edit.ins [of "[]" xs x] by simp

lemma one_edit_sub_head: "one_edit (x # xs) (y # xs)"
  using one_edit.sub [of "[]" x xs y] by simp

lemma ed_reach: "(one_edit ^^ ed xs ys) xs ys"
proof (induction xs ys rule: ed.induct)
  case (1 ys)
  show ?case
  proof (induction ys)
    case (Cons y ys)
    then show ?case using relpowp_Suc_I [of "length ys" one_edit "[]" ys "y # ys"] one_edit_ins_head [of ys y] by simp
  qed simp
next
  case (2 x xs)
  have "(one_edit ^^ length zs) zs []" for zs :: "'a list"
  proof (induction zs)
    case (Cons z zs)
    show ?case using relpowp_Suc_I2 [OF one_edit_del_head [of z zs] Cons.IH] by (simp only: length_Cons)
  qed simp
  from this [of "x # xs"] show ?case by (simp only: ed.simps)
next
  case (3 x xs y ys)
  have d: "(one_edit ^^ Suc (ed xs (y # ys))) (x # xs) (y # ys)"
    using 3(1) one_edit_del_head by (rule relpowp_Suc_I2 [rotated])
  have i: "(one_edit ^^ Suc (ed (x # xs) ys)) (x # xs) (y # ys)"
    using 3(2) one_edit_ins_head by (rule relpowp_Suc_I)
  have s: "(one_edit ^^ (ed xs ys + (if x = y then 0 else 1))) (x # xs) (y # ys)"
    using one_edit_n_Cons [OF 3(3), of y] relpowp_Suc_I2 [OF one_edit_sub_head [of x xs y] one_edit_n_Cons [OF 3(3), of y]]
    by (cases "x = y") (simp_all only: if_True if_False add_0_right Suc_eq_plus1 refl)
  have "ed (x # xs) (y # ys) \<in> {Suc (ed xs (y # ys)), Suc (ed (x # xs) ys), ed xs ys + (if x = y then 0 else 1)}"
    by (simp add: min_def)
  then show ?case using d i s by (metis empty_iff insert_iff)
qed

lemma ed_least: "ed xs ys = (LEAST n. (one_edit ^^ n) xs ys)"
  by (rule Least_equality [symmetric]) (auto intro: ed_reach ed_lower)

lemma ed_triangle: "ed xs zs \<le> ed xs ys + ed ys zs"
  by (rule ed_lower) (meson ed_reach relpowp_trans)

lemma ed_bounds: "length xs - length ys \<le> ed xs ys" "ed xs ys \<le> max (length xs) (length ys)"
  by (induction xs ys rule: ed.induct) auto

lemma ed_zero: "ed xs ys = 0 \<longleftrightarrow> xs = ys"
  using ed_reach [of xs ys] ed_refl by auto

lemma one_edit_rev: "one_edit xs ys \<Longrightarrow> one_edit (rev xs) (rev ys)"
  by (induction rule: one_edit.induct) (auto intro: one_edit.intros)

lemma ed_rev: "ed (rev xs) (rev ys) = ed xs ys"
proof (rule antisym)
  have le: "ed (rev xs) (rev ys) \<le> ed xs ys" for xs ys :: "'a list"
  proof (rule ed_lower)
    have "(one_edit ^^ n) xs ys \<Longrightarrow> (one_edit ^^ n) (rev xs) (rev ys)" for n
    proof (induction n arbitrary: xs)
      case (Suc n)
      then obtain ws where "one_edit xs ws" "(one_edit ^^ n) ws ys" by (metis relpowp_Suc_D2)
      then show ?case using Suc.IH one_edit_rev by (metis relpowp_Suc_I2)
    qed simp
    then show "(one_edit ^^ ed xs ys) (rev xs) (rev ys)" using ed_reach by blast
  qed
  show "ed (rev xs) (rev ys) \<le> ed xs ys" by (rule le)
  show "ed xs ys \<le> ed (rev xs) (rev ys)" using le [of "rev xs" "rev ys"] by simp
qed

subsection \<open>The table computes the distance\<close>

text \<open>\<open>table a b ys\<close> is the row of the prefix \<open>a\<close> from the prefix \<open>b\<close> on, both reversed.\<close>

fun table :: "nat list \<Rightarrow> nat list \<Rightarrow> nat list \<Rightarrow> nat list" where
  "table a b [] = [ed a b]"
| "table a b (y # ys) = ed a b # table a (y # b) ys"

lemma min3_min: "min3 a b c = min a (min b c)"
  by (simp add: min3_def Let_def min_def)

lemma lev_row_table:
  "lev_row x ys (table a b ys) (ed (x # a) b) = tl (table (x # a) b ys)"
proof (induction ys arbitrary: b)
  case Nil
  then show ?case by simp
next
  case (Cons y ys)
  obtain q rest where q: "table a (y # b) ys = q # rest" "q = ed a (y # b)" by (cases ys) auto
  obtain q' rest' where q': "table (x # a) (y # b) ys = q' # rest'" "q' = ed (x # a) (y # b)" by (cases ys) auto
  have v: "min3 (ed a (y # b) + 1) (ed (x # a) b + 1) (ed a b + (if x = y then 0 else 1)) = ed (x # a) (y # b)"
    by (simp add: min3_min)
  show ?case using Cons.IH [of "y # b"] q q' v by (simp add: Let_def)
qed

lemma table_Cons: "table a b ys = ed a b # tl (table a b ys)"
  by (cases ys) simp_all

lemma lev_rows_table: "lev_rows xs (length a + 1) rb (table a [] rb) = table (rev xs @ a) [] rb"
proof (induction xs arbitrary: a)
  case (Cons x xs)
  have "lev_row x rb (table a [] rb) (length a + 1) = tl (table (x # a) [] rb)"
    using lev_row_table [of x rb a "[]"] by simp
  then have "(length a + 1) # lev_row x rb (table a [] rb) (length a + 1) = table (x # a) [] rb"
    using table_Cons [of "x # a" "[]" rb] by simp
  then show ?case using Cons.IH [of "x # a"] by simp
qed simp

lemma table_last: "table a b ys ! length ys = ed a (rev ys @ b)"
  by (induction ys arbitrary: b) simp_all

lemma table_initial: "table [] b ys = [length b..<length b + length ys + 1]"
  by (induction ys arbitrary: b) (simp_all add: upt_rec)

lemma levenshtein_ed: "levenshtein a b = ed (decode_runes a) (decode_runes b)"
proof -
  have "lev_rows ra 1 rb [0..<length rb + 1] ! length rb = ed ra rb" for ra rb
    using lev_rows_table [of ra "[]" rb] table_last [of "rev ra" "[]" rb] table_initial [of "[]" rb] ed_rev [of ra rb] by simp
  then show ?thesis
    using ed_sym [of "decode_runes a" "decode_runes b"] by (simp add: levenshtein_def Let_def)
qed

text \<open>
  \<^verbatim>\<open>levenshtein\<close> is the edit distance: the least number of insertions, deletions and substitutions of
  single runes that turn one string's runes into the other's. It is a metric, and the length
  difference the suggestion matcher skips candidates by is a lower bound.
\<close>

theorem levenshtein_minimal:
  "levenshtein a b = (LEAST n. (one_edit ^^ n) (decode_runes a) (decode_runes b)) \<and>
   (one_edit ^^ levenshtein a b) (decode_runes a) (decode_runes b) \<and>
   levenshtein a b = levenshtein b a \<and> levenshtein a c \<le> levenshtein a b + levenshtein b c \<and>
   (levenshtein a b = 0) = (decode_runes a = decode_runes b) \<and>
   length (decode_runes a) - length (decode_runes b) \<le> levenshtein a b \<and>
   levenshtein a b \<le> max (length (decode_runes a)) (length (decode_runes b))"
  unfolding levenshtein_ed
  using ed_least ed_reach ed_sym ed_triangle ed_zero ed_bounds by blast

end
