(* ===== verification/StreamFormat.thy ===== *)
theory StreamFormat
  imports Category GoJson
begin

text \<open>
  The v1 findings stream: \<^verbatim>\<open>internal/stream/writer.go\<close>, the line parser of \<^verbatim>\<open>parser.go\<close> and the
  category canonicalisation of \<^verbatim>\<open>category.go\<close>. The parser of v2 bodies (\<^verbatim>\<open>parseV2Body\<close>, built on the
  module go-axi) is an argument of \<open>parse\<close>. A Go \<^verbatim>\<open>int\<close> is 64 bits wide: \<open>int64\<close> is its range and \<open>Atoi\<close>
  fails outside it. The theorems show that what the writer writes the parser reads back, that every
  row is accounted for and that no spelling is canonicalised into the token that ungates a finding.
\<close>

subsection \<open>Library operations\<close>

text \<open>\<^verbatim>\<open>strings.TrimRight\<close> and \<^verbatim>\<open>TrimLeft\<close> with an ASCII cutset, \<^verbatim>\<open>HasSuffix\<close>, \<^verbatim>\<open>LastIndex\<close> of a byte.\<close>

definition TrimRight :: "string \<Rightarrow> string \<Rightarrow> string" where
  "TrimRight s cutset = rev (dropWhile (\<lambda>c. c \<in> set cutset) (rev s))"

definition has_suffix :: "string \<Rightarrow> string \<Rightarrow> bool" where
  "has_suffix suf s \<longleftrightarrow> has_prefix (rev suf) (rev s)"

definition CutSuffix :: "string \<Rightarrow> string \<Rightarrow> string option" where
  "CutSuffix s suf = (if has_suffix suf s then Some (take (length s - length suf) s) else None)"

fun last_index :: "char \<Rightarrow> string \<Rightarrow> nat option" where
  "last_index c [] = None"
| "last_index c (x # xs) =
     (case last_index c xs of Some i \<Rightarrow> Some (Suc i) | None \<Rightarrow> if x = c then Some 0 else None)"

definition replace_char :: "char \<Rightarrow> char \<Rightarrow> string \<Rightarrow> string" where
  "replace_char a b s = map (\<lambda>c. if c = a then b else c) s"

definition int64 :: "int \<Rightarrow> bool" where
  "int64 i \<longleftrightarrow> - (2 ^ 63) \<le> i \<and> i < 2 ^ 63"

definition is_digit :: "char \<Rightarrow> bool" where
  "is_digit c \<longleftrightarrow> 48 \<le> byte c \<and> byte c \<le> (57 :: nat)"

definition Atoi :: "string \<Rightarrow> int option" where
  "Atoi s =
     (let (neg, ds) = (case s of [] \<Rightarrow> (False, []) | c # cs \<Rightarrow>
            if c = CHR ''-'' then (True, cs) else if c = CHR ''+'' then (False, cs) else (False, s))
      in if ds = [] \<or> \<not> list_all is_digit ds then None
         else let n = int (undigits ds); v = (if neg then - n else n) in
           if int64 v then Some v else None)"

text \<open>\<^verbatim>\<open>strings.Fields\<close>: the maximal runs of non-space runes, as byte strings.\<close>

function fields_loop :: "string \<Rightarrow> string \<Rightarrow> string list" where
  "fields_loop cur s =
     (case s of [] \<Rightarrow> (if cur = [] then [] else [cur])
      | _ \<Rightarrow>
        let (r, w) = decode_rune s; n = max 1 w in
        if unicode_IsSpace r then (if cur = [] then [] else [cur]) @ fields_loop [] (drop n s)
        else fields_loop (cur @ take n s) (drop n s))"
  by pat_completeness auto
termination
  by (relation "measure (\<lambda>(cur, s). length s)") auto

declare fields_loop.simps [simp del]

definition Fields :: "string \<Rightarrow> string list" where
  "Fields s = fields_loop [] s"

subsection \<open>Categories at the parse boundary\<close>

definition canonicalMembers :: "string list" where
  "canonicalMembers = filter (\<lambda>c. c \<noteq> CategoryOutOfScope) Categories"

definition pluralFolds :: "(string \<times> string) list" where
  "pluralFolds =
     filter (\<lambda>(k, target). target \<noteq> CategoryOutOfScope \<and>
         (CategoryMerges (k @ ''s'') = Some target \<or>
          has_suffix ''s'' k \<and> CategoryMerges (take (length k - 1) k) = Some target))
       category_folds"

definition numberForms :: "string \<Rightarrow> string list" where
  "numberForms w =
     [w, w @ ''s''] @ (case CutSuffix w ''ies'' of Some s \<Rightarrow> [s @ ''y''] | None \<Rightarrow> []) @
     (case CutSuffix w ''es'' of Some s \<Rightarrow> [s] | None \<Rightarrow> []) @
     (case CutSuffix w ''s'' of Some s \<Rightarrow> [s] | None \<Rightarrow> [])"

definition CanonicalCategory :: "string \<Rightarrow> string" where
  "CanonicalCategory raw =
     (if raw = CategoryOutOfScope then raw
      else let w = ToLower (Join (Fields raw) '' '') in
        if w = [] then []
        else case find (\<lambda>f. f \<in> set canonicalMembers) (numberForms w) of
          Some f \<Rightarrow> f
        | None \<Rightarrow> (case find (\<lambda>f. map_of pluralFolds f \<noteq> None) (numberForms w) of
            Some f \<Rightarrow> the (map_of pluralFolds f)
          | None \<Rightarrow> CategoryOther))"

subsection \<open>Findings\<close>

record sfinding =
  sSeverity :: string
  sFile :: string
  sLine :: int
  sProblem :: string
  sFix :: string
  sCategory :: string
  sEstMinutes :: int
  sEvidence :: string
  sReviewer :: string
  sReviewers :: "string list"
  sConfidence :: string
  sCanonicalCategory :: string
  PathValid :: bool
  PathWarning :: string
  PathSuggestion :: string
  SiblingLocation :: string
  FallbackModel :: string

record skippedRow =
  skLine :: nat
  skContent :: string
  skReason :: string

record parseResult =
  prFindings :: "sfinding list"
  prSkipped :: "skippedRow list"

definition zero_sfinding :: sfinding where
  "zero_sfinding =
     \<lparr>sSeverity = [], sFile = [], sLine = 0, sProblem = [], sFix = [], sCategory = [], sEstMinutes = 0,
      sEvidence = [], sReviewer = [], sReviewers = [], sConfidence = [], sCanonicalCategory = [],
      PathValid = False, PathWarning = [], PathSuggestion = [], SiblingLocation = [], FallbackModel = []\<rparr>"

definition Version :: string where "Version = ''# atcr-findings/v1''"
definition VersionV2 :: string where "VersionV2 = ''# atcr-findings/v2''"
definition versionPrefix :: string where "versionPrefix = ''# atcr-findings/''"
definition PerSourceColumns :: nat where "PerSourceColumns = 8"
definition ReconciledColumns :: nat where "ReconciledColumns = 9"
definition maxModelEstMinutes :: int where "maxModelEstMinutes = 7 * 24 * 60"

definition clampEstMinutes :: "int \<Rightarrow> int" where
  "clampEstMinutes n = max 0 (min n maxModelEstMinutes)"

subsection \<open>Writing\<close>

fun escapeField :: "string \<Rightarrow> string" where
  "escapeField [] = []"
| "escapeField (c # cs) =
     (if c = CHR ''|'' then CHR ''/'' # escapeField cs
      else if c = CHR 0x0D then
        (case cs of d # ds \<Rightarrow> if d = CHR 0x0A then CHR '' '' # escapeField ds else CHR '' '' # escapeField cs
                  | [] \<Rightarrow> CHR '' '' # [])
      else if c = CHR 0x0A then CHR '' '' # escapeField cs
      else c # escapeField cs)"

definition fieldsFor :: "sfinding \<Rightarrow> nat \<Rightarrow> string list" where
  "fieldsFor f cols =
     (let base = [sSeverity f, sFile f @ '':'' @ Itoa (sLine f), sProblem f, sFix f, sCategory f,
                  Itoa (sEstMinutes f), sEvidence f]
      in if cols = ReconciledColumns
         then base @ [Join (map (replace_char (CHR '','') (CHR ''/'')) (sReviewers f)) '','', sConfidence f]
         else base @ [sReviewer f])"

definition write_row :: "nat \<Rightarrow> sfinding \<Rightarrow> string" where
  "write_row cols f = Join (map escapeField (fieldsFor f cols)) ''|'' @ [CHR 0x0A]"

text \<open>The writer's output; an \<^verbatim>\<open>io.Writer\<close> that fails ends it early with the error.\<close>

definition write_stream :: "sfinding list \<Rightarrow> nat \<Rightarrow> string" where
  "write_stream findings cols = Version @ [CHR 0x0A] @ concat (map (write_row cols) findings)"

definition WriteSource :: "sfinding list \<Rightarrow> string" where
  "WriteSource findings = write_stream findings PerSourceColumns"

definition WriteReconciled :: "sfinding list \<Rightarrow> string" where
  "WriteReconciled findings = write_stream findings ReconciledColumns"

definition AsReconciled :: "sfinding \<Rightarrow> string list \<Rightarrow> string \<Rightarrow> sfinding" where
  "AsReconciled f reviewers confidence = f\<lparr>sReviewer := [], sReviewers := reviewers, sConfidence := confidence\<rparr>"

subsection \<open>Parsing\<close>

definition splitFileLine :: "string \<Rightarrow> string \<times> int" where
  "splitFileLine s =
     (case last_index (CHR '':'') s of
        None \<Rightarrow> (s, 0)
      | Some idx \<Rightarrow>
          let suffix = drop (Suc idx) s in
          if suffix = [] then (take idx s, 0)
          else case Atoi suffix of None \<Rightarrow> (s, 0) | Some n \<Rightarrow> (take idx s, n))"

definition splitReviewers :: "string \<Rightarrow> string list" where
  "splitReviewers s = filter (\<lambda>r. r \<noteq> []) (map TrimSpace (Split s '',''))"

definition atoiOrZero :: "string \<Rightarrow> int" where
  "atoiOrZero s = (case Atoi (TrimSpace s) of None \<Rightarrow> 0 | Some n \<Rightarrow> n)"

definition fieldsToFinding :: "string list \<Rightarrow> nat \<Rightarrow> sfinding" where
  "fieldsToFinding f cols =
     (let (path, line) = splitFileLine (f ! 1);
          fnd = zero_sfinding\<lparr>sSeverity := f ! 0, sFile := path, sLine := line, sProblem := f ! 2, sFix := f ! 3,
                  sCategory := f ! 4, sCanonicalCategory := CanonicalCategory (f ! 4),
                  sEstMinutes := clampEstMinutes (atoiOrZero (f ! 5)), sEvidence := f ! 6\<rparr>
      in if cols = ReconciledColumns then fnd\<lparr>sReviewers := splitReviewers (f ! 7), sConfidence := f ! 8\<rparr>
         else fnd\<lparr>sReviewer := f ! 7\<rparr>)"

definition severity_row :: "string \<Rightarrow> bool" where
  "severity_row line \<longleftrightarrow> list_ex (\<lambda>p. has_prefix p line) [''CRITICAL|'', ''HIGH|'', ''MEDIUM|'', ''LOW|'']"

definition version_token :: "string \<Rightarrow> bool" where
  "version_token s = (case s of c # ds \<Rightarrow> c = CHR ''v'' \<and> ds \<noteq> [] \<and> list_all is_digit ds | [] \<Rightarrow> False)"

text \<open>The header errors; the messages name the line found and the headers wanted for \<open>cols\<close>.\<close>

datatype stream_error = ErrMissingHeader nat | ErrUnknownVersion string nat | ErrV2Body string

definition padded_row :: "string \<Rightarrow> nat \<Rightarrow> string list" where
  "padded_row line cols =
     (let fields = Split line ''|'';
          extra = drop cols fields;
          fields = (if list_all (\<lambda>c. c = []) extra then take cols fields
                    else take cols fields @ rev (dropWhile (\<lambda>c. c = []) (rev extra)))
      in fields @ replicate (cols - length fields) [])"

definition skip_reason :: "nat \<Rightarrow> nat \<Rightarrow> string" where
  "skip_reason cols n = ''expected '' @ Itoa (int cols) @ '' columns, got '' @ Itoa (int n)"

fun parse_rows :: "nat \<Rightarrow> nat \<Rightarrow> string list \<Rightarrow> parseResult \<Rightarrow> parseResult" where
  "parse_rows cols i [] res = res"
| "parse_rows cols i (raw # lines) res =
     (let line = TrimRight raw [CHR 0x0D] in
      if TrimSpace line = [] then parse_rows cols (Suc i) lines res
      else if has_prefix ''#'' line then parse_rows cols (Suc i) lines res
      else if \<not> severity_row line then parse_rows cols (Suc i) lines res
      else let fields = padded_row line cols in
        if length fields > cols
        then parse_rows cols (Suc i) lines
               (res\<lparr>prSkipped := prSkipped res @ [\<lparr>skLine = i + 1, skContent = line, skReason = skip_reason cols (length fields)\<rparr>]\<rparr>)
        else parse_rows cols (Suc i) lines (res\<lparr>prFindings := prFindings res @ [fieldsToFinding fields cols]\<rparr>))"

fun parse_header ::
  "(string \<Rightarrow> stream_error + parseResult) \<Rightarrow> nat \<Rightarrow> nat \<Rightarrow> string list \<Rightarrow> stream_error + parseResult" where
  "parse_header v2 cols i [] = Inl (ErrMissingHeader cols)"
| "parse_header v2 cols i (raw # lines) =
     (let line = TrimRight raw [CHR 0x0D] in
      if TrimSpace line = [] then parse_header v2 cols (Suc i) lines
      else if TrimSpace line = Version then Inr (parse_rows cols (Suc i) lines \<lparr>prFindings = [], prSkipped = []\<rparr>)
      else if TrimSpace line = VersionV2 \<and> cols = PerSourceColumns then v2 (Join lines [CHR 0x0A])
      else if has_prefix versionPrefix line \<and> version_token (TrimSpace (drop (length versionPrefix) line))
        then Inl (ErrUnknownVersion (TrimSpace line) cols)
      else Inl (ErrMissingHeader cols))"

definition parse :: "(string \<Rightarrow> stream_error + parseResult) \<Rightarrow> string \<Rightarrow> nat \<Rightarrow> stream_error + parseResult" where
  "parse v2 data cols = parse_header v2 cols 0 (Split data [CHR 0x0A])"

definition ParseSource :: "(string \<Rightarrow> stream_error + parseResult) \<Rightarrow> string \<Rightarrow> stream_error + parseResult" where
  "ParseSource v2 data = parse v2 data PerSourceColumns"

definition ParseReconciled :: "(string \<Rightarrow> stream_error + parseResult) \<Rightarrow> string \<Rightarrow> stream_error + parseResult" where
  "ParseReconciled v2 data = parse v2 data ReconciledColumns"

subsection \<open>Escaped fields\<close>

lemma escapeField_clean: "CHR ''|'' \<notin> set (escapeField s)" "CHR 0x0A \<notin> set (escapeField s)" "CHR 0x0D \<notin> set (escapeField s)"
  by (induction s rule: escapeField.induct) (auto split: list.splits)

lemma escapeField_id:
  "CHR ''|'' \<notin> set s \<Longrightarrow> CHR 0x0A \<notin> set s \<Longrightarrow> CHR 0x0D \<notin> set s \<Longrightarrow> escapeField s = s"
  by (induction s) auto

lemma escapeField_append:
  assumes "c \<noteq> CHR 0x0A"
  shows "escapeField (a @ c # b) = escapeField a @ escapeField (c # b)"
proof -
  obtain e s where e: "e = escapeField s" and s: "s = c # b" by blast
  have "escapeField (a @ s) = escapeField a @ e"
  proof (induction "length a" arbitrary: a rule: less_induct)
    case less
    show ?case
    proof (cases a)
      case Nil
      then show ?thesis by (simp add: e)
    next
      case (Cons x xs)
      show ?thesis
      proof (cases xs)
        case Nil
        then show ?thesis using Cons assms e s by (simp del: escapeField.simps add: escapeField.simps(1) escapeField.simps(2) [of x])
      next
        case (Cons y ys)
        have "escapeField (xs @ s) = escapeField xs @ e" "escapeField (ys @ s) = escapeField ys @ e"
          using less [of xs] less [of ys] Cons \<open>a = x # xs\<close> by simp_all
        then show ?thesis using Cons \<open>a = x # xs\<close> by (simp del: escapeField.simps add: escapeField.simps(2) [of x])
      qed
    qed
  qed
  then show ?thesis by (simp add: e s)
qed

lemma escapeField_Join:
  "escapeField (Join rs '','') = Join (map escapeField rs) '',''"
  by (induction rs "'',''" rule: Join.induct) (simp_all add: escapeField_append)

lemma Itoa_chars: "set (Itoa i) \<subseteq> {c. is_digit c \<or> c = CHR ''-''}"
  using digits_of_chars [of "nat i"] digits_of_chars [of "nat (- i)"]
  by (auto simp: Itoa_def is_digit_def list_all_iff)

lemma Itoa_not: "\<not> is_digit c \<Longrightarrow> c \<noteq> CHR ''-'' \<Longrightarrow> c \<notin> set (Itoa i)"
  using Itoa_chars [of i] by auto

lemma not_digit: "\<not> is_digit (CHR '':'')" "\<not> is_digit (CHR ''|'')" "\<not> is_digit (CHR 0x0A)" "\<not> is_digit (CHR 0x0D)"
  by (simp_all add: is_digit_def)

lemma escapeField_Itoa: "escapeField (Itoa i) = Itoa i"
  by (rule escapeField_id) (simp_all add: Itoa_not not_digit)

subsection \<open>Numbers\<close>

lemma list_all_digits: "list_all is_digit (digits_of n)" "digits_of n \<noteq> []"
  using digits_of_chars [of n] by (simp_all add: is_digit_def [abs_def])

lemma Atoi_Itoa:
  assumes "int64 i"
  shows "Atoi (Itoa i) = Some i"
proof (cases "i < 0")
  case True
  then show ?thesis using assms by (simp add: Itoa_def Atoi_def list_all_digits undigits_digits_of)
next
  case False
  obtain d ds where d: "digits_of (nat i) = d # ds" using list_all_digits(2) by (cases "digits_of (nat i)") auto
  then have "is_digit d" using list_all_digits(1) [of "nat i"] by simp
  then have "d \<noteq> CHR ''-''" "d \<noteq> CHR ''+''" by (auto simp: is_digit_def)
  then show ?thesis using assms False d list_all_digits [of "nat i"] undigits_digits_of [of "nat i"]
    by (simp add: Itoa_def Atoi_def)
qed

lemma last_index_append: "c \<notin> set b \<Longrightarrow> last_index c (a @ c # b) = Some (length a)"
proof -
  assume "c \<notin> set b"
  then have "last_index c b = None" by (induction b) auto
  then show ?thesis by (induction a) auto
qed

lemma splitFileLine_print:
  assumes "int64 n"
  shows "splitFileLine (p @ '':'' @ Itoa n) = (p, n)"
proof -
  have "Itoa n \<noteq> []" using list_all_digits(2) by (simp add: Itoa_def)
  moreover have "last_index (CHR '':'') (p @ CHR '':'' # Itoa n) = Some (length p)"
    by (rule last_index_append) (simp add: Itoa_not not_digit)
  ultimately show ?thesis using Atoi_Itoa [OF assms] by (simp add: splitFileLine_def)
qed

subsection \<open>Trimming\<close>

lemma decode_rune_ascii: "byte c < (128 :: nat) \<Longrightarrow> decode_rune (c # cs) = (byte c, 1)"
  by (simp add: rune_width_def Let_def split: prod.splits)

lemma trim_left_stop: "byte c < (128 :: nat) \<Longrightarrow> \<not> unicode_IsSpace (byte c) \<Longrightarrow> trim_left (c # cs) = c # cs"
  by (subst trim_left.simps) (simp add: decode_rune_ascii del: decode_rune.simps)

lemma trim_right_stop:
  "s \<noteq> [] \<Longrightarrow> byte (last s) < (128 :: nat) \<Longrightarrow> \<not> unicode_IsSpace (byte (last s)) \<Longrightarrow> trim_right s = s"
  by (subst trim_right.simps) (simp add: decode_last_rune_def Let_def)

lemma decode_last_rune_first:
  assumes "byte c < (128 :: nat)" "decode_last_rune (c # cs) = (r, w)" "length (c # cs) \<le> max 1 w"
  shows "cs = [] \<and> r = byte c"
proof (cases "byte (last (c # cs)) < (128 :: nat)")
  case True
  then have "w = 1" "r = byte (last (c # cs))" using assms(2) by (auto simp: decode_last_rune_def Let_def split: if_splits)
  then show ?thesis using assms(3) by (cases cs) auto
next
  case False
  then have ne: "cs \<noteq> []" using assms(1) by auto
  have "w \<le> 1 \<or> (w = length (c # cs) \<and> decode_rune (c # cs) = (r, w))"
  proof (cases "find (\<lambda>k. k \<le> length (c # cs) \<and> rune_start ((c # cs) ! (length (c # cs) - k))) [2, 3, 4]")
    case None
    then show ?thesis using assms(2) False unfolding decode_last_rune_def Let_def by simp
  next
    case (Some k)
    then have k: "k \<le> length (c # cs)" unfolding find_Some_iff by auto
    obtain r' w' where d: "decode_rune (drop (length (c # cs) - k) (c # cs)) = (r', w')" by (metis surj_pair)
    have "(r, w) = (if w' = k then (r', k) else (RuneError, 1))"
      using assms(2) False Some d unfolding decode_last_rune_def Let_def by simp
    then show ?thesis using d k assms(3) by (auto split: if_splits)
  qed
  then show ?thesis using ne assms(1,3) by (auto simp: decode_rune_ascii simp del: decode_rune.simps)
qed

lemma trim_right_nonempty:
  assumes "byte c < (128 :: nat)" "\<not> unicode_IsSpace (byte c)"
  shows "trim_right (c # cs) \<noteq> []"
proof (induction "length cs" arbitrary: cs rule: less_induct)
  case less
  obtain r w where d: "decode_last_rune (c # cs) = (r, w)" by (metis surj_pair)
  show ?case
  proof (cases "unicode_IsSpace r")
    case False
    then show ?thesis by (subst trim_right.simps) (simp add: d)
  next
    case True
    have lt: "max 1 w < length (c # cs)"
      using decode_last_rune_first [OF assms(1) d] True assms(2) by (metis not_le)
    let ?k = "length (c # cs) - max 1 w"
    have "0 < ?k" using lt by linarith
    then obtain k where k: "?k = Suc k" using gr0_conv_Suc by blast
    then have tk: "take ?k (c # cs) = c # take k cs" by (simp only: take_Suc_Cons)
    have "?k < length (c # cs)" by simp
    then have "length (take k cs) < length cs" unfolding k by simp
    moreover have "trim_right (c # cs) = trim_right (take ?k (c # cs))"
      using True by (subst trim_right.simps) (simp add: d)
    ultimately show ?thesis using less tk by metis
  qed
qed

lemma TrimSpace_nonempty: "byte c < (128 :: nat) \<Longrightarrow> \<not> unicode_IsSpace (byte c) \<Longrightarrow> TrimSpace (c # cs) \<noteq> []"
  by (simp add: TrimSpace_def trim_left_stop trim_right_nonempty)

lemma digit_char: "is_digit c \<or> c = CHR ''-'' \<Longrightarrow> byte c < (128 :: nat) \<and> \<not> unicode_IsSpace (byte c)"
  by (auto simp: is_digit_def unicode_IsSpace_def)

lemma TrimSpace_Itoa: "TrimSpace (Itoa i) = Itoa i"
proof -
  have ne: "Itoa i \<noteq> []" using list_all_digits(2) by (simp add: Itoa_def)
  then obtain c cs where c: "Itoa i = c # cs" by (cases "Itoa i") auto
  have "is_digit x \<or> x = CHR ''-''" if "x \<in> set (Itoa i)" for x using Itoa_chars that by auto
  then have "byte c < (128 :: nat) \<and> \<not> unicode_IsSpace (byte c)"
    and "byte (last (Itoa i)) < (128 :: nat) \<and> \<not> unicode_IsSpace (byte (last (Itoa i)))"
    using digit_char last_in_set [OF ne] by (auto simp: c)
  then show ?thesis using ne by (simp add: TrimSpace_def c trim_left_stop trim_right_stop)
qed

lemma atoiOrZero_Itoa: "int64 i \<Longrightarrow> atoiOrZero (Itoa i) = i"
  by (simp add: atoiOrZero_def TrimSpace_Itoa Atoi_Itoa)

subsection \<open>A row is read back\<close>

lemma set_escapeField: "set (escapeField s) \<subseteq> set s \<union> {CHR '' '', CHR ''/''}"
proof (induction "length s" arbitrary: s rule: less_induct)
  case less
  show ?case
  proof (cases s)
    case Nil
    then show ?thesis by simp
  next
    case (Cons c cs)
    have cs: "set (escapeField cs) \<subseteq> set cs \<union> {CHR '' '', CHR ''/''}" using less [of cs] Cons by simp
    have tl: "set (escapeField (tl cs)) \<subseteq> set cs \<union> {CHR '' '', CHR ''/''}"
      using less [of "tl cs"] Cons by (cases cs) auto
    have "set (escapeField s) \<subseteq> {c, CHR '' '', CHR ''/''} \<union> set (escapeField cs) \<union> set (escapeField (tl cs))"
      unfolding Cons by (cases cs) (simp_all del: escapeField.simps add: escapeField.simps(1) escapeField.simps(2) [of c], auto)
    then show ?thesis using cs tl unfolding Cons by auto
  qed
qed

lemma set_Join: "set (Join rs sep) \<subseteq> (\<Union>r \<in> set rs. set r) \<union> set sep"
  by (induction rs sep rule: Join.induct) auto

definition reviewer_cell :: "string \<Rightarrow> string" where
  "reviewer_cell r = escapeField (replace_char (CHR '','') (CHR ''/'') r)"

lemma reviewer_cell_no_comma: "CHR '','' \<notin> set (reviewer_cell r)"
  using set_escapeField [of "replace_char (CHR '','') (CHR ''/'') r"] by (auto simp: reviewer_cell_def replace_char_def)

lemma TrimSpace_Nil: "TrimSpace [] = []"
  by code_simp

lemma splitReviewers_print:
  "splitReviewers (escapeField (Join (map (replace_char (CHR '','') (CHR ''/'')) rs) '','')) =
     filter (\<lambda>r. r \<noteq> []) (map (\<lambda>r. TrimSpace (reviewer_cell r)) rs)"
proof (cases "rs = []")
  case True
  then show ?thesis by (simp add: splitReviewers_def Split_char_end TrimSpace_Nil)
next
  case False
  have "escapeField (Join (map (replace_char (CHR '','') (CHR ''/'')) rs) '','') = Join (map reviewer_cell rs) '',''"
    by (simp add: escapeField_Join reviewer_cell_def [abs_def] comp_def)
  moreover have "Split (Join (map reviewer_cell rs) '','') '','' = map reviewer_cell rs"
    by (rule Split_Join_char) (use False reviewer_cell_no_comma in \<open>auto simp: list_all_iff\<close>)
  ultimately show ?thesis by (simp add: splitReviewers_def comp_def)
qed

definition severity_levels :: "string list" where
  "severity_levels = [''CRITICAL'', ''HIGH'', ''MEDIUM'', ''LOW'']"

definition writable :: "sfinding \<Rightarrow> bool" where
  "writable f \<longleftrightarrow> sSeverity f \<in> set severity_levels \<and> int64 (sLine f) \<and> int64 (sEstMinutes f)"

definition reread :: "nat \<Rightarrow> sfinding \<Rightarrow> sfinding" where
  "reread cols f =
     (let g = zero_sfinding\<lparr>sSeverity := sSeverity f, sFile := escapeField (sFile f), sLine := sLine f,
                sProblem := escapeField (sProblem f), sFix := escapeField (sFix f),
                sCategory := escapeField (sCategory f), sCanonicalCategory := CanonicalCategory (escapeField (sCategory f)),
                sEstMinutes := clampEstMinutes (sEstMinutes f), sEvidence := escapeField (sEvidence f)\<rparr>
      in if cols = ReconciledColumns
         then g\<lparr>sReviewers := filter (\<lambda>r. r \<noteq> []) (map (\<lambda>r. TrimSpace (reviewer_cell r)) (sReviewers f)),
                sConfidence := escapeField (sConfidence f)\<rparr>
         else g\<lparr>sReviewer := escapeField (sReviewer f)\<rparr>)"

lemma location_cell:
  assumes "int64 n"
  shows "splitFileLine (escapeField (p @ '':'' @ Itoa n)) = (escapeField p, n)"
proof -
  have "escapeField (CHR '':'' # Itoa n) = CHR '':'' # Itoa n"
    by (rule escapeField_id) (simp_all add: Itoa_not not_digit)
  then have "escapeField (p @ '':'' @ Itoa n) = escapeField p @ '':'' @ Itoa n"
    using escapeField_append [of "CHR '':''" p "Itoa n"] by simp
  then show ?thesis using splitFileLine_print [OF assms] by simp
qed

lemma fieldsToFinding_print:
  assumes "writable f" "cols = PerSourceColumns \<or> cols = ReconciledColumns"
  shows "fieldsToFinding (map escapeField (fieldsFor f cols)) cols = reread cols f"
proof -
  have "escapeField (sSeverity f) = sSeverity f"
    using assms(1) by (intro escapeField_id) (auto simp: writable_def severity_levels_def)
  then show ?thesis
    using assms location_cell [of "sLine f" "sFile f"] splitReviewers_print [of "sReviewers f"]
    by (auto simp: fieldsToFinding_def fieldsFor_def reread_def writable_def escapeField_Itoa atoiOrZero_Itoa
        PerSourceColumns_def ReconciledColumns_def Let_def)
qed

lemma length_fieldsFor: "cols = PerSourceColumns \<or> cols = ReconciledColumns \<Longrightarrow> length (fieldsFor f cols) = cols"
  by (auto simp: fieldsFor_def PerSourceColumns_def ReconciledColumns_def)

definition row_text :: "nat \<Rightarrow> sfinding \<Rightarrow> string" where
  "row_text cols f = Join (map escapeField (fieldsFor f cols)) ''|''"

lemma row_text_clean: "CHR 0x0A \<notin> set (row_text cols f)" "CHR 0x0D \<notin> set (row_text cols f)"
  using set_Join [of "map escapeField (fieldsFor f cols)" "''|''"] escapeField_clean
  by (auto simp: row_text_def)

lemma row_text_start:
  assumes "writable f"
  shows "\<exists>rest. row_text cols f = sSeverity f @ ''|'' @ rest"
proof -
  have "escapeField (sSeverity f) = sSeverity f"
    using assms(1) by (intro escapeField_id) (auto simp: writable_def severity_levels_def)
  then show ?thesis by (simp add: row_text_def fieldsFor_def Let_def)
qed

lemma row_text_checks:
  assumes "writable f"
  shows "TrimRight (row_text cols f) [CHR 0x0D] = row_text cols f" "TrimSpace (row_text cols f) \<noteq> []"
    "\<not> has_prefix ''#'' (row_text cols f)" "severity_row (row_text cols f)"
proof -
  have "dropWhile (\<lambda>c. c \<in> {CHR 0x0D}) (rev (row_text cols f)) = rev (row_text cols f)"
    using row_text_clean(2) [of cols f] by (metis dropWhile_eq_self_iff empty_iff hd_in_set insert_iff set_rev)
  then show "TrimRight (row_text cols f) [CHR 0x0D] = row_text cols f" by (simp add: TrimRight_def)
  obtain rest where r: "row_text cols f = sSeverity f @ ''|'' @ rest" using row_text_start [OF assms] by blast
  have s: "sSeverity f = ''CRITICAL'' \<or> sSeverity f = ''HIGH'' \<or> sSeverity f = ''MEDIUM'' \<or> sSeverity f = ''LOW''"
    using assms by (simp add: writable_def severity_levels_def)
  show "TrimSpace (row_text cols f) \<noteq> []"
    unfolding r using s by (elim disjE) (simp_all add: TrimSpace_nonempty unicode_IsSpace_def)
  show "\<not> has_prefix ''#'' (row_text cols f)" unfolding r using s by (elim disjE) simp_all
  show "severity_row (row_text cols f)" unfolding r severity_row_def using s by (elim disjE) simp_all
qed

lemma padded_row_text:
  assumes "cols = PerSourceColumns \<or> cols = ReconciledColumns"
  shows "padded_row (row_text cols f) cols = map escapeField (fieldsFor f cols)"
proof -
  have "Split (row_text cols f) ''|'' = map escapeField (fieldsFor f cols)"
    unfolding row_text_def using length_fieldsFor [OF assms, of f] assms escapeField_clean(1)
    by (intro Split_Join_char) (auto simp: list_all_iff PerSourceColumns_def ReconciledColumns_def)
  then show ?thesis using length_fieldsFor [OF assms, of f] by (simp add: padded_row_def)
qed

lemma parse_rows_print:
  assumes "list_all writable fs" "cols = PerSourceColumns \<or> cols = ReconciledColumns"
  shows "parse_rows cols i (map (row_text cols) fs @ [[]]) res = res\<lparr>prFindings := prFindings res @ map (reread cols) fs\<rparr>"
  using assms(1)
proof (induction fs arbitrary: i res)
  case Nil
  then show ?case by (simp add: TrimRight_def TrimSpace_Nil)
next
  case (Cons f fs)
  then have f: "writable f" by simp
  show ?case
    using Cons row_text_checks [OF f, of cols] padded_row_text [OF assms(2), of f] fieldsToFinding_print [OF f assms(2)]
      length_fieldsFor [OF assms(2), of f]
    by (simp add: Let_def)
qed

lemma parse_print:
  assumes "list_all writable fs" "cols = PerSourceColumns \<or> cols = ReconciledColumns"
  shows "parse v2 (write_stream fs cols) cols = Inr \<lparr>prFindings = map (reread cols) fs, prSkipped = []\<rparr>"
proof -
  have eq: "write_stream fs cols = concat (map (\<lambda>r. r @ [CHR 0x0A]) (Version # map (row_text cols) fs))"
    by (simp add: write_stream_def write_row_def [abs_def] row_text_def [symmetric] comp_def)
  have la: "list_all (\<lambda>r. CHR 0x0A \<notin> set r) (Version # map (row_text cols) fs)"
    by (auto simp: list_all_iff row_text_clean Version_def)
  have s: "Split (write_stream fs cols) [CHR 0x0A] = Version # map (row_text cols) fs @ [[]]"
    unfolding eq Split_lines [OF la] by simp
  have "TrimRight Version [CHR 0x0D] = Version" "TrimSpace Version = Version" "Version \<noteq> []" by code_simp+
  then show ?thesis using parse_rows_print [OF assms, of "Suc 0" "\<lparr>prFindings = [], prSkipped = []\<rparr>"]
    by (simp add: parse_def s Let_def)
qed

subsection \<open>Every row is accounted for\<close>

definition severity_line :: "string \<Rightarrow> bool" where
  "severity_line raw \<longleftrightarrow> severity_row (TrimRight raw [CHR 0x0D])"

lemma severity_row_start:
  assumes "severity_row line"
  shows "TrimSpace line \<noteq> []" "\<not> has_prefix ''#'' line" "TrimSpace line \<noteq> Version"
proof -
  obtain c cs where l: "line = c # cs" and c: "c = CHR ''C'' \<or> c = CHR ''H'' \<or> c = CHR ''M'' \<or> c = CHR ''L''"
    using assms by (cases line) (auto simp: severity_row_def)
  have a: "byte c < (128 :: nat)" "\<not> unicode_IsSpace (byte c)" using c by (auto simp: unicode_IsSpace_def)
  show "TrimSpace line \<noteq> []" unfolding l by (rule TrimSpace_nonempty [OF a])
  show "\<not> has_prefix ''#'' line" using c by (auto simp: l)
  have hd: "trim_right (c # xs) \<noteq> CHR ''#'' # ys" for xs ys
  proof (induction "length xs" arbitrary: xs rule: less_induct)
    case less
    obtain r w where d: "decode_last_rune (c # xs) = (r, w)" by (metis surj_pair)
    have rec: "trim_right (c # xs) = (if unicode_IsSpace r then trim_right (take (length (c # xs) - max 1 w) (c # xs)) else c # xs)"
      by (subst trim_right.simps) (simp add: d)
    show ?case
    proof (cases "length (c # xs) - max 1 w")
      case 0
      have "trim_right [] = []" by (subst trim_right.simps) (simp split: prod.splits)
      then show ?thesis using rec 0 c by (auto split: if_splits)
    next
      case (Suc k)
      have "length (take k xs) < length xs \<or> xs = []" using Suc by auto
      then show ?thesis using rec Suc c less [of "take k xs"] by (auto split: if_splits)
    qed
  qed
  show "TrimSpace line \<noteq> Version"
    using hd [of cs "tl Version"] by (simp add: l TrimSpace_def trim_left_stop [OF a] Version_def)
qed

lemma parse_rows_count:
  "length (prFindings (parse_rows cols i lines res)) + length (prSkipped (parse_rows cols i lines res)) =
     length (prFindings res) + length (prSkipped res) + length (filter severity_line lines)"
proof (induction lines arbitrary: i res)
  case (Cons raw lines)
  show ?case
  proof (cases "severity_line raw")
    case True
    then show ?thesis using severity_row_start [of "TrimRight raw [CHR 0x0D]"] Cons by (simp add: severity_line_def Let_def)
  next
    case False
    then show ?thesis using Cons by (simp add: severity_line_def Let_def)
  qed
qed simp

definition header_of :: "string \<Rightarrow> string option" where
  "header_of data =
     find (\<lambda>s. s \<noteq> []) (map (\<lambda>raw. TrimSpace (TrimRight raw [CHR 0x0D])) (Split data [CHR 0x0A]))"

lemma parse_header_count:
  "case parse_header v2 ReconciledColumns i lines of
     Inl e \<Rightarrow> find (\<lambda>s. s \<noteq> []) (map (\<lambda>raw. TrimSpace (TrimRight raw [CHR 0x0D])) lines) \<noteq> Some Version
   | Inr res \<Rightarrow> find (\<lambda>s. s \<noteq> []) (map (\<lambda>raw. TrimSpace (TrimRight raw [CHR 0x0D])) lines) = Some Version \<and>
       length (prFindings res) + length (prSkipped res) = length (filter severity_line lines)"
proof (induction lines arbitrary: i)
  case Nil
  then show ?case by simp
next
  case (Cons raw lines)
  let ?line = "TrimRight raw [CHR 0x0D]"
  have sev: "\<not> severity_line raw" if "TrimSpace ?line = [] \<or> TrimSpace ?line = Version"
    using that severity_row_start [of ?line] by (auto simp: severity_line_def)
  consider "TrimSpace ?line = []" | "TrimSpace ?line = Version" "Version \<noteq> []" | "TrimSpace ?line \<noteq> []" "TrimSpace ?line \<noteq> Version"
    by (auto simp: Version_def)
  then show ?case
  proof cases
    case 1
    then show ?thesis using Cons [of "Suc i"] sev by (simp add: Let_def split: sum.splits)
  next
    case 2
    then show ?thesis using sev parse_rows_count [of ReconciledColumns "Suc i" lines "\<lparr>prFindings = [], prSkipped = []\<rparr>"]
      by (simp add: Let_def)
  next
    case 3
    then show ?thesis by (simp add: Let_def PerSourceColumns_def ReconciledColumns_def)
  qed
qed

subsection \<open>Properties of the stream\<close>

text \<open>
  C40. What the writer writes the parser reads back, in both shapes: for findings with a severity of
  the format and 64-bit numbers the parser returns as many findings, skips no row, and each field is
  the one written with pipes as slashes and line breaks as spaces, the estimate clamped to a week,
  and the reviewers comma-free and trimmed. In particular no text can forge a column or a row.
  A finding with another severity is outside the claim: its row is skipped.
\<close>

theorem stream_roundtrip:
  assumes "list_all writable fs"
  shows "ParseSource v2 (WriteSource fs) = Inr \<lparr>prFindings = map (reread PerSourceColumns) fs, prSkipped = []\<rparr> \<and>
    ParseReconciled v2 (WriteReconciled fs) = Inr \<lparr>prFindings = map (reread ReconciledColumns) fs, prSkipped = []\<rparr>"
  using parse_print [OF assms] by (simp add: ParseSource_def ParseReconciled_def WriteSource_def WriteReconciled_def)

theorem stream_roundtrip_witness:
  "ParseSource (\<lambda>b. Inl (ErrV2Body b)) (WriteSource [zero_sfinding\<lparr>sSeverity := ''HIGH'', sProblem := ''a|b''\<rparr>]) =
     Inr \<lparr>prFindings = [reread PerSourceColumns (zero_sfinding\<lparr>sSeverity := ''HIGH'', sProblem := ''a|b''\<rparr>)], prSkipped = []\<rparr>"
proof -
  have "list_all writable [zero_sfinding\<lparr>sSeverity := ''HIGH'', sProblem := ''a|b''\<rparr>]"
    by (simp add: writable_def severity_levels_def int64_def zero_sfinding_def)
  from stream_roundtrip [OF this] show ?thesis by simp
qed

text \<open>
  Parsing fails precisely when the first line that is not blank is not the version header, and
  otherwise no row is lost silently: every line that starts with a severity and a pipe is a finding or
  a recorded skip, and no other line is either.
\<close>

theorem parse_accounts:
  "case ParseReconciled v2 data of
     Inl e \<Rightarrow> header_of data \<noteq> Some Version
   | Inr res \<Rightarrow> header_of data = Some Version \<and>
       length (prFindings res) + length (prSkipped res) = length (filter severity_line (Split data [CHR 0x0A]))"
  unfolding ParseReconciled_def parse_def header_of_def by (rule parse_header_count)

lemma pluralFolds_eq: "pluralFolds = [(''resource'', ''resource-leak''), (''resources'', ''resource-leak'')]"
  by code_simp

lemma CanonicalCategory_cases:
  "raw \<noteq> CategoryOutOfScope \<Longrightarrow>
   CanonicalCategory raw = [] \<or> CanonicalCategory raw \<in> set canonicalMembers"
proof -
  assume "raw \<noteq> CategoryOutOfScope"
  moreover have "''resource-leak'' \<in> set canonicalMembers" "''other'' \<in> set canonicalMembers" by code_simp+
  ultimately show ?thesis
    by (auto simp: CanonicalCategory_def Let_def pluralFolds_eq find_Some_iff split: option.splits if_splits)
qed

lemma canonicalMembers_fixed: "list_all (\<lambda>c. CanonicalCategory c = c) canonicalMembers" "CanonicalCategory [] = []"
  by code_simp+

text \<open>
  Canonicalisation is closed and cannot ungate a finding: the result is empty or a word of the
  vocabulary, canonicalising twice is canonicalising once, and \<^verbatim>\<open>out-of-scope\<close> comes out only when that
  exact text went in, whatever its spelling variants.
\<close>

theorem canonical_category_safe:
  "(CanonicalCategory raw = [] \<or> CanonicalCategory raw \<in> set Categories) \<and>
   CanonicalCategory (CanonicalCategory raw) = CanonicalCategory raw \<and>
   (CanonicalCategory raw = CategoryOutOfScope) = (raw = CategoryOutOfScope)"
proof (cases "raw = CategoryOutOfScope")
  case True
  moreover have "''out-of-scope'' \<in> set Categories" by code_simp
  ultimately show ?thesis by (simp add: CanonicalCategory_def)
next
  case False
  then show ?thesis
    using CanonicalCategory_cases [OF False] canonicalMembers_fixed by (auto simp: list_all_iff canonicalMembers_def)
qed

end
