(* ===== verification/Suggest.thy ===== *)
theory Suggest
  imports Levenshtein StreamFormat
begin

text \<open>
  Correcting a cited path that does not exist: the index of tracked files
  (\<^verbatim>\<open>internal/stream/fileindex.go\<close>) and the tiers of suggestions (\<^verbatim>\<open>suggest.go\<close>), with the operations of
  Go's \<^verbatim>\<open>path\<close> package they use. The list of tracked files, which the program reads from
  \<^verbatim>\<open>git ls-files\<close>, is the argument of \<open>indexFromPaths\<close>; a nil index is \<open>None\<close>. The theorems show that a
  suggestion is always another tracked file and that the length test that saves computing distances
  never changes the answer.
\<close>

subsection \<open>Paths\<close>

definition clean_seg :: "bool \<Rightarrow> string \<Rightarrow> string list \<Rightarrow> string list" where
  "clean_seg rooted seg stack =
     (if seg = [] \<or> seg = ''.'' then stack
      else if seg = ''..'' then
        (case stack of [] \<Rightarrow> if rooted then [] else [''..''] | s # ss \<Rightarrow> if s = ''..'' then ''..'' # stack else ss)
      else seg # stack)"

definition path_Clean :: "string \<Rightarrow> string" where
  "path_Clean p =
     (let rooted = has_prefix ''/'' p;
          body = Join (rev (fold (clean_seg rooted) (Split p ''/'') [])) ''/''
      in if rooted then CHR ''/'' # body else if body = [] then ''.'' else body)"

definition path_Base :: "string \<Rightarrow> string" where
  "path_Base p =
     (if p = [] then ''.''
      else let q = TrimRight p ''/''; r = (case last_index (CHR ''/'') q of None \<Rightarrow> q | Some i \<Rightarrow> drop (Suc i) q)
           in if r = [] then ''/'' else r)"

definition path_Dir :: "string \<Rightarrow> string" where
  "path_Dir p = path_Clean (case last_index (CHR ''/'') p of None \<Rightarrow> [] | Some i \<Rightarrow> take (Suc i) p)"

definition path_Ext :: "string \<Rightarrow> string" where
  "path_Ext p =
     (let tail = (case last_index (CHR ''/'') p of None \<Rightarrow> p | Some i \<Rightarrow> drop (Suc i) p)
      in case last_index (CHR ''.'') tail of None \<Rightarrow> [] | Some i \<Rightarrow> drop i tail)"

subsection \<open>The index\<close>

record fileIndex =
  tracked :: "string list"
  basename :: "string \<Rightarrow> string list"
  dirFiles :: "string \<Rightarrow> string list"
  folded :: "string \<Rightarrow> string list"

definition toSlashKeys :: "string \<Rightarrow> string" where
  "toSlashKeys p = replace_char (CHR 0x5C) (CHR ''/'') p"

definition push :: "string \<Rightarrow> string \<Rightarrow> (string \<Rightarrow> string list) \<Rightarrow> string \<Rightarrow> string list" where
  "push k v m = m(k := m k @ [v])"

definition index_path :: "string \<Rightarrow> fileIndex \<Rightarrow> fileIndex" where
  "index_path r idx =
     (if r = [] then idx
      else let rel = toSlashKeys r in
        if rel \<in> set (tracked idx) then idx
        else idx\<lparr>tracked := tracked idx @ [rel], basename := push (path_Base rel) rel (basename idx),
                 dirFiles := push (path_Dir rel) (path_Base rel) (dirFiles idx),
                 folded := push (ToLower rel) rel (folded idx)\<rparr>)"

definition indexFromPaths :: "string list \<Rightarrow> fileIndex" where
  "indexFromPaths raw =
     fold index_path raw \<lparr>tracked = [], basename = (\<lambda>_. []), dirFiles = (\<lambda>_. []), folded = (\<lambda>_. [])\<rparr>"

definition Has :: "fileIndex option \<Rightarrow> string \<Rightarrow> bool" where
  "Has x relpath = (case x of None \<Rightarrow> False | Some idx \<Rightarrow> toSlashKeys relpath \<in> set (tracked idx))"

definition ByBasename :: "fileIndex option \<Rightarrow> string \<Rightarrow> string list" where
  "ByBasename x base = (case x of None \<Rightarrow> [] | Some idx \<Rightarrow> basename idx base)"

definition DirBasenames :: "fileIndex option \<Rightarrow> string \<Rightarrow> string list" where
  "DirBasenames x dir = (case x of None \<Rightarrow> [] | Some idx \<Rightarrow> dirFiles idx (toSlashKeys dir))"

definition HasDir :: "fileIndex option \<Rightarrow> string \<Rightarrow> bool" where
  "HasDir x dir = (case x of None \<Rightarrow> False | Some idx \<Rightarrow> length (dirFiles idx (toSlashKeys dir)) > 0)"

definition ByFold :: "fileIndex option \<Rightarrow> string \<Rightarrow> string list" where
  "ByFold x relpath = (case x of None \<Rightarrow> [] | Some idx \<Rightarrow> folded idx (ToLower (toSlashKeys relpath)))"

subsection \<open>Tiers\<close>

definition tier2SimilarityThreshold :: rat where "tier2SimilarityThreshold = 75 / 100"

definition CaseCorrection :: "fileIndex option \<Rightarrow> string \<Rightarrow> string \<times> bool" where
  "CaseCorrection x citedRel =
     (if x = None then ([], False)
      else let rel = toSlashKeys citedRel in
        if Has x rel then ([], False)
        else case ByFold x rel of [] \<Rightarrow> ([], False) | [c] \<Rightarrow> (c, True) | _ \<Rightarrow> ([], True))"

definition segOverlap :: "string \<Rightarrow> string \<Rightarrow> nat" where
  "segOverlap a b =
     (let proper = (\<lambda>s. s \<noteq> [] \<and> s \<noteq> ''.''); S = set (filter proper (Split a ''/''))
      in length (filter (\<lambda>s. s \<in> S) (filter proper (Split b ''/''))))"

definition prefixDerivation :: "string \<Rightarrow> string \<Rightarrow> bool" where
  "prefixDerivation a b =
     (if a = b then False
      else let (short, long) = (if length b < length a then (b, a) else (a, b)) in has_prefix short long)"

definition splitStem :: "string \<Rightarrow> string \<times> string" where
  "splitStem base = (let ext = path_Ext base in (take (length base - length ext) base, ext))"

text \<open>The running best of a tier: score, candidate and whether the score is shared.\<close>

definition best_step :: "rat \<Rightarrow> string \<Rightarrow> rat \<times> string \<times> bool \<Rightarrow> rat \<times> string \<times> bool" where
  "best_step score c st =
     (case st of (bestScore, best, tie) \<Rightarrow>
        if score > bestScore then (score, c, False) else if score = bestScore then (bestScore, best, True) else st)"

definition tier1 :: "fileIndex option \<Rightarrow> string \<Rightarrow> string \<Rightarrow> string \<Rightarrow> string" where
  "tier1 x rel base dir =
     (case ByBasename x base of
        [] \<Rightarrow> []
      | [c] \<Rightarrow> if c \<noteq> rel then c else []
      | candidates \<Rightarrow>
          (case fold (\<lambda>c st. if c = rel then st else best_step (of_nat (segOverlap dir (path_Dir c))) c st)
                  candidates (- 1, [], False) of
             (bestScore, best, tie) \<Rightarrow>
               if tie \<or> best = [] then [] else if rel \<in> set candidates then [] else best))"

definition too_far :: "runtime \<Rightarrow> string \<Rightarrow> string \<Rightarrow> bool" where
  "too_far rt citedStem candStem =
     (let la = length (decode_runes citedStem); lb = length (decode_runes candStem);
          maxLen = (if lb > la then lb else la)
      in if maxLen > 0
         then \<bar>int la - int lb\<bar> > \<lfloor>fl rt (fl rt (1 - tier2SimilarityThreshold) * of_nat maxLen)\<rfloor>
         else False)"

definition tier2_step ::
  "runtime \<Rightarrow> string \<Rightarrow> string \<Rightarrow> rat \<times> string \<times> bool \<Rightarrow> rat \<times> string \<times> bool" where
  "tier2_step rt base cand st =
     (case splitStem base of (citedStem, citedExt) \<Rightarrow>
        if cand = base then st
        else case splitStem cand of (candStem, candExt) \<Rightarrow>
          if candExt \<noteq> citedExt then st
          else if prefixDerivation citedStem candStem then st
          else if too_far rt citedStem candStem then st
          else best_step (similarity rt citedStem candStem) cand st)"

definition tier2 :: "runtime \<Rightarrow> fileIndex option \<Rightarrow> string \<Rightarrow> string \<Rightarrow> string \<Rightarrow> string" where
  "tier2 rt x rel base dir =
     (if \<not> HasDir x dir then []
      else case fold (tier2_step rt base) (DirBasenames x dir) (fl rt tier2SimilarityThreshold, [], False) of
        (bestScore, best, tie) \<Rightarrow>
          if tie \<or> best = [] then [] else if dir = ''.'' then best else dir @ ''/'' @ best)"

definition MissingSuggestion :: "runtime \<Rightarrow> fileIndex option \<Rightarrow> string \<Rightarrow> string" where
  "MissingSuggestion rt x citedRel =
     (if x = None then []
      else let rel = toSlashKeys citedRel; base = path_Base rel; dir = path_Dir rel; s = tier1 x rel base dir
           in if s \<noteq> [] then s else tier2 rt x rel base dir)"

subsection \<open>Clean paths\<close>

text \<open>What \<^verbatim>\<open>git ls-files\<close> prints: proper segments joined by slashes.\<close>

definition proper_seg :: "string \<Rightarrow> bool" where
  "proper_seg s \<longleftrightarrow> s \<noteq> [] \<and> s \<noteq> ''.'' \<and> s \<noteq> ''..'' \<and> CHR ''/'' \<notin> set s"

definition clean_path :: "string \<Rightarrow> bool" where
  "clean_path p \<longleftrightarrow> list_all proper_seg (Split p ''/'')"

lemma fold_clean_proper: "list_all proper_seg segs \<Longrightarrow> fold (clean_seg r) segs st = rev segs @ st"
  by (induction segs arbitrary: st) (auto simp: clean_seg_def proper_seg_def)

lemma Join_snoc: "init \<noteq> [] \<Longrightarrow> Join (init @ [l]) sep = Join init sep @ sep @ l"
  by (induction init sep rule: Join.induct) auto

lemma last_index_none: "c \<notin> set s \<Longrightarrow> last_index c s = None"
  by (induction s) auto

lemma TrimRight_stop: "s \<noteq> [] \<Longrightarrow> last s \<notin> set cs \<Longrightarrow> TrimRight s cs = s"
  by (simp add: TrimRight_def dropWhile_eq_self_iff [THEN iffD2] hd_rev)

lemma Join_head: "list_all proper_seg segs \<Longrightarrow> segs \<noteq> [] \<Longrightarrow> Join segs ''/'' \<noteq> [] \<and> \<not> has_prefix ''/'' (Join segs ''/'')"
proof (induction segs "''/''" rule: Join.induct)
  case (2 x)
  then show ?case by (cases x) (auto simp: proper_seg_def)
next
  case (3 x y xs)
  then show ?case by (cases x) (auto simp: proper_seg_def)
qed simp

lemma clean_path_parts:
  assumes "clean_path p"
  obtains init l where "p = Join (init @ [l]) ''/''" "list_all proper_seg init" "proper_seg l"
    "path_Base p = l" "path_Dir p = (if init = [] then ''.'' else Join init ''/'')"
proof -
  define segs where "segs = Split p ''/''"
  have ne: "segs \<noteq> []" and j: "p = Join segs ''/''" and pr: "list_all proper_seg segs"
    using Split_nonempty Join_Split_char assms by (simp_all add: segs_def clean_path_def)
  obtain init l where s: "segs = init @ [l]" using ne by (metis append_butlast_last_id)
  have i: "list_all proper_seg init" and l: "proper_seg l" using pr s by auto
  have last: "p \<noteq> []" "last p = last l" "l \<noteq> []" "last p \<noteq> CHR ''/''"
    using j s l Join_snoc [of init l "''/''"] last_in_set [of l] by (cases "init = []"; auto simp: proper_seg_def)+
  have trim: "TrimRight p ''/'' = p" by (rule TrimRight_stop) (use last in auto)
  have base: "path_Base p = l \<and> path_Dir p = (if init = [] then ''.'' else Join init ''/'')"
  proof (cases "init = []")
    case True
    then have p: "p = l" using j s by simp
    have "last_index (CHR ''/'') l = None" using l by (simp add: last_index_none proper_seg_def)
    moreover have "path_Clean [] = ''.''" by code_simp
    ultimately show ?thesis using True trim last by (simp add: path_Base_def path_Dir_def p)
  next
    case False
    have p: "p = Join init ''/'' @ CHR ''/'' # l" using j s Join_snoc [OF False, of l "''/''"] by simp
    have li: "last_index (CHR ''/'') p = Some (length (Join init ''/''))"
      unfolding p by (rule last_index_append) (use l in \<open>simp add: proper_seg_def\<close>)
    have "path_Base p = l" using trim last li by (simp add: path_Base_def p)
    moreover have "path_Clean (Join init ''/'' @ ''/'') = Join init ''/''"
    proof -
      have "Join init ''/'' @ ''/'' = Join (init @ [[]]) ''/''" using Join_snoc [OF False, of "[]" "''/''"] by simp
      then have "Split (Join init ''/'' @ ''/'') ''/'' = init @ [[]]"
        using i by (simp add: Split_Join_char list_all_iff proper_seg_def del: Join.simps)
      moreover have "fold (clean_seg r) (init @ [[]]) [] = rev init" for r
        using fold_clean_proper [OF i, of r "[]"] by (simp add: clean_seg_def)
      moreover have "\<not> has_prefix ''/'' (Join init ''/'' @ ''/'')" "Join init ''/'' \<noteq> []"
        using Join_head [OF i False] by (cases "Join init ''/''"; auto)+
      ultimately show ?thesis by (simp add: path_Clean_def Let_def)
    qed
    ultimately show ?thesis using False li by (simp add: path_Dir_def p)
  qed
  show thesis by (rule that [of init l]) (use j s i l base in auto)
qed

lemma clean_path_recombines:
  assumes "clean_path p"
  shows "p = (if path_Dir p = ''.'' then path_Base p else path_Dir p @ ''/'' @ path_Base p)" "path_Base p \<noteq> []"
proof -
  from assms obtain init l where p: "p = Join (init @ [l]) ''/''" "list_all proper_seg init" "proper_seg l"
    "path_Base p = l" "path_Dir p = (if init = [] then ''.'' else Join init ''/'')" by (rule clean_path_parts)
  show "path_Base p \<noteq> []" using p by (simp add: proper_seg_def)
  show "p = (if path_Dir p = ''.'' then path_Base p else path_Dir p @ ''/'' @ path_Base p)"
  proof (cases "init = []")
    case False
    have "Join init ''/'' \<noteq> ''.''"
    proof
      assume e: "Join init ''/'' = ''.''"
      have "Split (Join init ''/'') ''/'' = init"
        by (rule Split_Join_char) (use False p(2) in \<open>auto simp: list_all_iff proper_seg_def\<close>)
      moreover have "Split ''.'' ''/'' = [''.'']" by code_simp
      ultimately have "init = [''.'']" using e by simp
      then show False using p(2) by (simp add: proper_seg_def)
    qed
    then show ?thesis using p False Join_snoc [OF False, of l "''/''"] by simp
  qed (use p in simp)
qed

lemma toSlashKeys_id: "CHR 0x5C \<notin> set p \<Longrightarrow> toSlashKeys p = p"
  unfolding toSlashKeys_def replace_char_def by (rule map_idI) auto

lemma toSlashKeys_no_backslash: "CHR 0x5C \<notin> set (toSlashKeys p)"
  by (auto simp: toSlashKeys_def replace_char_def)

lemma set_fold_clean: "x \<in> set (fold (clean_seg r) segs st) \<Longrightarrow> x \<in> set segs \<or> x \<in> set st \<or> x = ''..''"
proof (induction segs arbitrary: st)
  case (Cons a segs)
  have "x \<in> set (clean_seg r a st) \<Longrightarrow> x = a \<or> x \<in> set st \<or> x = ''..''"
    by (auto simp: clean_seg_def split: if_splits list.splits)
  then show ?case using Cons.IH [of "clean_seg r a st"] Cons.prems by auto
qed simp

lemma path_Dir_no_backslash:
  assumes "CHR 0x5C \<notin> set p" shows "CHR 0x5C \<notin> set (path_Dir p)"
proof -
  have clean: "CHR 0x5C \<notin> set (path_Clean q)" if q: "CHR 0x5C \<notin> set q" for q
  proof -
    define body where "body = Join (rev (fold (clean_seg (has_prefix ''/'' q)) (Split q ''/'') [])) ''/''"
    have "CHR 0x5C \<notin> set body"
    proof
      assume "CHR 0x5C \<in> set body"
      then obtain x where x: "x \<in> set (fold (clean_seg (has_prefix ''/'' q)) (Split q ''/'') [])" "CHR 0x5C \<in> set x"
        using set_Join [of "rev (fold (clean_seg (has_prefix ''/'' q)) (Split q ''/'') [])" "''/''"]
        by (auto simp: body_def)
      from set_fold_clean [OF x(1)] x(2) q set_Split [of x q "CHR ''/''"] show False by auto
    qed
    then show ?thesis unfolding path_Clean_def Let_def body_def [symmetric] by simp
  qed
  show ?thesis unfolding path_Dir_def
    by (rule clean) (use assms in \<open>auto split: option.splits dest: in_set_takeD\<close>)
qed

subsection \<open>The index holds exactly the tracked files\<close>

definition index_ok :: "fileIndex \<Rightarrow> bool" where
  "index_ok idx \<longleftrightarrow>
     distinct (tracked idx) \<and>
     basename idx = (\<lambda>k. filter (\<lambda>p. path_Base p = k) (tracked idx)) \<and>
     dirFiles idx = (\<lambda>d. map path_Base (filter (\<lambda>p. path_Dir p = d) (tracked idx))) \<and>
     folded idx = (\<lambda>k. filter (\<lambda>p. ToLower p = k) (tracked idx))"

lemma index_path_ok: "index_ok idx \<Longrightarrow> index_ok (index_path r idx)"
  by (simp add: index_ok_def index_path_def Let_def push_def fun_eq_iff)

lemma index_path_tracked:
  "set (tracked (index_path r idx)) = set (tracked idx) \<union> (if r = [] then {} else {toSlashKeys r})"
  by (auto simp: index_path_def Let_def)

lemma indexFromPaths_ok: "index_ok (indexFromPaths raw)"
proof -
  have "index_ok idx \<Longrightarrow> index_ok (fold index_path raw idx)" for idx
    by (induction raw arbitrary: idx) (simp_all add: index_path_ok)
  then show ?thesis by (simp add: indexFromPaths_def index_ok_def)
qed

lemma indexFromPaths_tracked: "set (tracked (indexFromPaths raw)) = toSlashKeys ` (set raw - {[]})"
proof -
  have "set (tracked (fold index_path raw idx)) = set (tracked idx) \<union> toSlashKeys ` (set raw - {[]})" for idx
    by (induction raw arbitrary: idx) (auto simp: index_path_tracked)
  then show ?thesis by (simp add: indexFromPaths_def)
qed

lemma best_step_choice:
  assumes "fold (\<lambda>c st. if skip c then st else best_step (score c) c st) cs (s0, b0, t0) = (s, b, t)"
  shows "b = b0 \<or> (b \<in> set cs \<and> \<not> skip b)"
  using assms
proof (induction cs arbitrary: s0 b0 t0)
  case (Cons c cs)
  show ?case
  proof (cases "\<not> skip c \<and> score c > s0")
    case True
    then show ?thesis using Cons.IH [of "score c" c False] Cons.prems by (auto simp: best_step_def)
  next
    case False
    then have "(if skip c then (s0, b0, t0) else best_step (score c) c (s0, b0, t0)) =
        (s0, b0, t0 \<or> \<not> skip c \<and> score c = s0)"
      by (auto simp: best_step_def)
    then show ?thesis using Cons.IH [of s0 b0 "t0 \<or> \<not> skip c \<and> score c = s0"] Cons.prems by auto
  qed
qed simp

lemma tier1_sound:
  assumes "index_ok idx" "tier1 (Some idx) rel base dir \<noteq> []"
  shows "tier1 (Some idx) rel base dir \<in> set (tracked idx)" "tier1 (Some idx) rel base dir \<noteq> rel"
    "path_Base (tier1 (Some idx) rel base dir) = base"
proof -
  have b: "basename idx base = filter (\<lambda>p. path_Base p = base) (tracked idx)" using assms(1) by (simp add: index_ok_def)
  have "tier1 (Some idx) rel base dir \<in> set (basename idx base) \<and> tier1 (Some idx) rel base dir \<noteq> rel"
  proof (cases "basename idx base" rule: remdups_adj.cases)
    case 1
    then show ?thesis using assms(2) by (simp add: tier1_def ByBasename_def)
  next
    case (2 x)
    then show ?thesis using assms(2) by (simp add: tier1_def ByBasename_def split: if_splits)
  next
    case (3 x y xs)
    obtain s c t where f: "fold (\<lambda>c st. if c = rel then st else best_step (of_nat (segOverlap dir (path_Dir c))) c st)
                  (basename idx base) (- 1, [], False) = (s, c, t)" by (rule prod_cases3)
    have "tier1 (Some idx) rel base dir =
        (if t \<or> c = [] then [] else if rel \<in> set (basename idx base) then [] else c)"
      using 3 f by (simp add: tier1_def ByBasename_def)
    with assms(2) have "tier1 (Some idx) rel base dir = c" "c \<noteq> []" by (simp_all split: if_splits)
    then show ?thesis using best_step_choice [OF f] by simp
  qed
  then show "tier1 (Some idx) rel base dir \<in> set (tracked idx)" "tier1 (Some idx) rel base dir \<noteq> rel"
    "path_Base (tier1 (Some idx) rel base dir) = base" by (auto simp: b)
qed

definition tier2_skip :: "runtime \<Rightarrow> string \<Rightarrow> string \<Rightarrow> bool" where
  "tier2_skip rt base cand \<longleftrightarrow>
     cand = base \<or> snd (splitStem cand) \<noteq> snd (splitStem base) \<or>
     prefixDerivation (fst (splitStem base)) (fst (splitStem cand)) \<or>
     too_far rt (fst (splitStem base)) (fst (splitStem cand))"

lemma tier2_step_skip:
  "tier2_step rt base = (\<lambda>cand st. if tier2_skip rt base cand then st
     else best_step (similarity rt (fst (splitStem base)) (fst (splitStem cand))) cand st)"
  by (simp add: fun_eq_iff tier2_step_def tier2_skip_def split: prod.splits)

lemma tier2_sound:
  assumes "index_ok idx" "CHR 0x5C \<notin> set dir" "list_all clean_path (tracked idx)"
    "tier2 rt (Some idx) rel base dir \<noteq> []"
  shows "tier2 rt (Some idx) rel base dir \<in> set (tracked idx)"
    "path_Base (tier2 rt (Some idx) rel base dir) \<noteq> base"
    "path_Dir (tier2 rt (Some idx) rel base dir) = dir"
proof -
  have d: "dirFiles idx dir = map path_Base (filter (\<lambda>p. path_Dir p = dir) (tracked idx))"
    using assms(1) by (simp add: index_ok_def)
  obtain s c t where f: "fold (tier2_step rt base) (dirFiles idx dir) (fl rt tier2SimilarityThreshold, [], False) = (s, c, t)"
    by (rule prod_cases3)
  have r: "tier2 rt (Some idx) rel base dir = (if dir = ''.'' then c else dir @ ''/'' @ c)" "c \<noteq> []"
    using assms(4) f toSlashKeys_id [OF assms(2)]
    by (auto simp: tier2_def HasDir_def DirBasenames_def split: if_splits)
  have c: "c \<in> set (dirFiles idx dir)" "c \<noteq> base"
    using best_step_choice [OF f [unfolded tier2_step_skip]] r(2) by (auto simp: tier2_skip_def)
  then obtain p where p: "p \<in> set (tracked idx)" "path_Dir p = dir" "path_Base p = c" by (auto simp: d)
  have "p = tier2 rt (Some idx) rel base dir"
  proof -
    have "clean_path p" using assms(3) p(1) by (simp add: list_all_iff)
    from clean_path_recombines(1) [OF this] show ?thesis unfolding r(1) p(2,3) .
  qed
  then show "tier2 rt (Some idx) rel base dir \<in> set (tracked idx)"
    "path_Base (tier2 rt (Some idx) rel base dir) \<noteq> base"
    "path_Dir (tier2 rt (Some idx) rel base dir) = dir" using p c by auto
qed

text \<open>
  Over an index of clean paths, a suggestion for a missing citation is a tracked file other than the
  cited one, and it keeps either the cited file name (found elsewhere) or the cited directory (a file name
  corrected there).
\<close>

theorem suggestion_tracked:
  assumes "list_all (\<lambda>r. r = [] \<or> clean_path (toSlashKeys r)) raw"
    "MissingSuggestion rt (Some (indexFromPaths raw)) cited = s" "s \<noteq> []"
  shows "s \<in> toSlashKeys ` set raw \<and> s \<noteq> toSlashKeys cited \<and>
    (path_Base s = path_Base (toSlashKeys cited) \<or> path_Dir s = path_Dir (toSlashKeys cited))"
proof -
  let ?i = "indexFromPaths raw" and ?rel = "toSlashKeys cited"
  have "list_all clean_path (tracked ?i)"
    using assms(1) indexFromPaths_tracked [of raw] by (auto simp: list_all_iff)
  note t2 = tier2_sound [OF indexFromPaths_ok path_Dir_no_backslash [OF toSlashKeys_no_backslash] this,
      of rt ?rel "path_Base ?rel" cited]
  note t1 = tier1_sound [OF indexFromPaths_ok, of raw ?rel "path_Base ?rel" "path_Dir ?rel"]
  have "s \<in> set (tracked ?i) \<and> s \<noteq> ?rel \<and> (path_Base s = path_Base ?rel \<or> path_Dir s = path_Dir ?rel)"
  proof (cases "tier1 (Some ?i) ?rel (path_Base ?rel) (path_Dir ?rel) = []")
    case True
    then have s: "s = tier2 rt (Some ?i) ?rel (path_Base ?rel) (path_Dir ?rel)"
      using assms(2) by (simp add: MissingSuggestion_def Let_def)
    show ?thesis using t2 assms(3) unfolding s [symmetric] by auto
  next
    case False
    then have "s = tier1 (Some ?i) ?rel (path_Base ?rel) (path_Dir ?rel)"
      using assms(2) by (simp add: MissingSuggestion_def Let_def)
    then show ?thesis using t1 False by auto
  qed
  then show ?thesis using indexFromPaths_tracked [of raw] by auto
qed

theorem suggestion_tracked_witness:
  "''internal/validate.go'' \<in> toSlashKeys ` set [''cmd/main.go'', ''internal/validate.go''] \<and>
   ''internal/validate.go'' \<noteq> toSlashKeys ''internal/validator.go''"
proof -
  have "list_all (\<lambda>r. r = [] \<or> clean_path (toSlashKeys r)) [''cmd/main.go'', ''internal/validate.go'']" by code_simp
  moreover have "MissingSuggestion exact_runtime (Some (indexFromPaths [''cmd/main.go'', ''internal/validate.go'']))
    ''internal/validator.go'' = ''internal/validate.go''" by code_simp
  ultimately show ?thesis using suggestion_tracked by blast
qed

subsection \<open>The length test is only a shortcut\<close>

definition tier2_score :: "string \<Rightarrow> string \<Rightarrow> rat" where
  "tier2_score base c = similarity exact_runtime (fst (splitStem base)) (fst (splitStem c))"

definition tier2_eligible :: "string \<Rightarrow> string \<Rightarrow> bool" where
  "tier2_eligible base c \<longleftrightarrow>
     c \<noteq> base \<and> snd (splitStem c) = snd (splitStem base) \<and>
     \<not> prefixDerivation (fst (splitStem base)) (fst (splitStem c)) \<and> tier2SimilarityThreshold \<le> tier2_score base c"

definition tier2_closest :: "string \<Rightarrow> string list \<Rightarrow> string list" where
  "tier2_closest base cs = filter (\<lambda>c. \<forall>d\<in>set cs. tier2_score base d \<le> tier2_score base c) cs"

definition tier2_all :: "fileIndex option \<Rightarrow> string \<Rightarrow> string \<Rightarrow> string" where
  "tier2_all x base dir =
     (case tier2_closest base (filter (tier2_eligible base) (DirBasenames x dir)) of
        [c] \<Rightarrow> if tier2_score base c = tier2SimilarityThreshold then [] else if dir = ''.'' then c else dir @ ''/'' @ c
      | _ \<Rightarrow> [])"

lemma too_far_dissimilar:
  assumes "too_far exact_runtime a b" shows "similarity exact_runtime a b < tier2SimilarityThreshold"
proof -
  define la lb where "la = length (decode_runes a)" and "lb = length (decode_runes b)"
  define m where "m = max la lb"
  have far: "m > 0" "\<bar>int la - int lb\<bar> > \<lfloor>(1 - tier2SimilarityThreshold) * of_nat m\<rfloor>"
    using assms by (auto simp: too_far_def Let_def la_def lb_def m_def max_def split: if_splits)
  have "la - lb \<le> levenshtein a b" "lb - la \<le> levenshtein a b"
    using ed_bounds(1) [of "decode_runes a" "decode_runes b"] ed_bounds(1) [of "decode_runes b" "decode_runes a"]
    by (simp_all add: levenshtein_ed la_def lb_def ed_sym)
  then have "\<bar>int la - int lb\<bar> \<le> int (levenshtein a b)" by linarith
  with far(2) have "(1 - tier2SimilarityThreshold) * of_nat m < of_nat (levenshtein a b)" by linarith
  then have "1 - tier2SimilarityThreshold < of_nat (levenshtein a b) / of_nat m"
    using far(1) by (simp add: pos_less_divide_eq)
  moreover have "a \<noteq> b" using far by (auto simp: la_def lb_def tier2SimilarityThreshold_def)
  moreover have "similarity exact_runtime a b = 1 - of_nat (levenshtein a b) / of_nat m"
    using \<open>a \<noteq> b\<close> far(1) by (auto simp: similarity_def Let_def m_def la_def lb_def max_def)
  ultimately show ?thesis by simp
qed

text \<open>What the running best holds after a list of candidates.\<close>

lemma best_run:
  fixes s0 :: rat
  shows "case fold (\<lambda>c. best_step (score c) c) cs (s0, [], False) of (s, b, t) \<Rightarrow>
     (\<forall>c\<in>set cs. score c \<le> s) \<and>
     (s = s0 \<and> b = [] \<or> s > s0 \<and> (\<exists>rest. filter (\<lambda>c. score c = s) cs = b # rest \<and> (t \<longleftrightarrow> rest \<noteq> [])))"
proof (induction cs rule: rev_induct)
  case (snoc c cs)
  obtain s b t where f: "fold (\<lambda>c. best_step (score c) c) cs (s0, [], False) = (s, b, t)" by (rule prod_cases3)
  with snoc have le: "\<forall>c\<in>set cs. score c \<le> s" and
    st: "s = s0 \<and> b = [] \<or> s > s0 \<and> (\<exists>rest. filter (\<lambda>c. score c = s) cs = b # rest \<and> (t \<longleftrightarrow> rest \<noteq> []))" by auto
  have gt: "filter (\<lambda>d. score d = score c) cs = []" if "score c > s" using le that by (auto simp: filter_empty_conv)
  have step: "fold (\<lambda>c. best_step (score c) c) (cs @ [c]) (s0, [], False) =
      (if score c > s then (score c, c, False) else if score c = s then (s, b, True) else (s, b, t))"
    using f by (simp add: best_step_def [of "score c" c])
  consider "score c > s" | "score c = s" | "score c < s" by fastforce
  then show ?case
  proof cases
    case 1
    have "s0 < score c" using 1 st by auto
    then show ?thesis unfolding step using 1 le gt by auto
  next
    case 2
    then show ?thesis unfolding step using le st by auto
  next
    case 3
    then show ?thesis unfolding step using le st by auto
  qed
qed simp

lemma fold_skip: "fold (\<lambda>c st. if skip c then st else f c st) cs st = fold f (filter (\<lambda>c. \<not> skip c) cs) st"
  by (induction cs arbitrary: st) auto

lemma best_step_below: "score < fst st \<Longrightarrow> best_step score c st = st"
  by (auto simp: best_step_def split: prod.splits)

lemma best_step_mono: "fst st \<le> fst (best_step score c st)"
  by (auto simp: best_step_def split: prod.splits)

lemma fold_best_below:
  "s0 \<le> fst st \<Longrightarrow> fold (\<lambda>c. best_step (score c) c) cs st =
     fold (\<lambda>c. best_step (score c) c) (filter (\<lambda>c. s0 \<le> score c) cs) st"
proof (induction cs arbitrary: st)
  case (Cons c cs)
  show ?case
  proof (cases "s0 \<le> score c")
    case True
    have "s0 \<le> fst (best_step (score c) c st)" using Cons.prems best_step_mono order_trans by blast
    then show ?thesis using Cons.IH True by simp
  next
    case False
    then show ?thesis using Cons.IH Cons.prems best_step_below [of "score c" st c] by simp
  qed
qed simp

lemma path_Base_nonempty: "path_Base p \<noteq> []"
  by (simp add: path_Base_def Let_def)

lemma tier2_fold:
  "fold (tier2_step exact_runtime base) cs (tier2SimilarityThreshold, [], False) =
   fold (\<lambda>c. best_step (tier2_score base c) c) (filter (tier2_eligible base) cs) (tier2SimilarityThreshold, [], False)"
proof -
  have "(\<not> tier2_skip exact_runtime base c \<and> tier2SimilarityThreshold \<le> tier2_score base c) = tier2_eligible base c" for c
    using too_far_dissimilar [of "fst (splitStem base)" "fst (splitStem c)"]
    by (auto simp: tier2_eligible_def tier2_skip_def tier2_score_def)
  then have eq: "filter (tier2_eligible base) cs =
      filter (\<lambda>c. tier2SimilarityThreshold \<le> tier2_score base c) (filter (\<lambda>c. \<not> tier2_skip exact_runtime base c) cs)"
    by simp
  show ?thesis unfolding tier2_step_skip fold_skip eq
    using fold_best_below [of tier2SimilarityThreshold "(tier2SimilarityThreshold, [], False)" "tier2_score base"]
    by (simp add: tier2_score_def del: filter_filter)
qed

lemma tier2_unfold:
  assumes "fold (\<lambda>c. best_step (tier2_score base c) c) (filter (tier2_eligible base) (DirBasenames x dir))
      (tier2SimilarityThreshold, [], False) = (s, b, t)"
  shows "tier2 exact_runtime x rel base dir = (if t \<or> b = [] then [] else if dir = ''.'' then b else dir @ ''/'' @ b)"
proof (cases "HasDir x dir")
  case False
  then have "DirBasenames x dir = []" by (simp add: HasDir_def DirBasenames_def split: option.splits)
  then show ?thesis using False assms by (simp add: tier2_def)
qed (use assms in \<open>simp add: tier2_def tier2_fold\<close>)

text \<open>
  In exact arithmetic the second tier, which keeps a running best and skips the candidates whose length
  alone puts them too far away, returns the one closest file of the cited directory, by similarity of the
  stem, among those of the same extension that are not a derivation, above the threshold, and nothing
  when two are equally close: the skipped candidates never matter.
\<close>

theorem tier2_is_unique_closest:
  "tier2 exact_runtime (Some (indexFromPaths raw)) rel base dir = tier2_all (Some (indexFromPaths raw)) base dir"
proof -
  let ?x = "Some (indexFromPaths raw)" and ?thr = tier2SimilarityThreshold
  define cs where "cs = filter (tier2_eligible base) (DirBasenames ?x dir)"
  have cand: "\<forall>c\<in>set cs. c \<noteq> [] \<and> ?thr \<le> tier2_score base c"
    using indexFromPaths_ok [of raw] path_Base_nonempty
    by (auto simp: cs_def tier2_eligible_def DirBasenames_def index_ok_def)
  obtain s b t where f: "fold (\<lambda>c. best_step (tier2_score base c) c) cs (?thr, [], False) = (s, b, t)" by (rule prod_cases3)
  note st = best_run [of cs "tier2_score base" ?thr, unfolded f prod.case] and lhs = tier2_unfold [OF f [unfolded cs_def]]
  show ?thesis
  proof (cases "s = ?thr")
    case True
    then have "b = []" "\<forall>c\<in>set (tier2_closest base cs). tier2_score base c = ?thr"
      using st cand by (force simp: tier2_closest_def)+
    then show ?thesis unfolding lhs tier2_all_def cs_def [symmetric]
      by (cases "tier2_closest base cs" rule: remdups_adj.cases) simp_all
  next
    case False
    then obtain rest where r: "filter (\<lambda>c. tier2_score base c = s) cs = b # rest" "t \<longleftrightarrow> rest \<noteq> []" using st by auto
    then have b: "b \<in> set cs" "tier2_score base b = s"
      by (metis (mono_tags, lifting) filter_eq_ConsD in_set_conv_decomp)+
    have "(\<forall>d\<in>set cs. tier2_score base d \<le> tier2_score base c) = (tier2_score base c = s)" if "c \<in> set cs" for c
      using st b that by fastforce
    then have "tier2_closest base cs = b # rest"
      unfolding tier2_closest_def r(1) [symmetric] by (rule filter_cong [OF refl])
    then show ?thesis unfolding lhs tier2_all_def cs_def [symmetric] using r(2) b False cand by (cases rest) auto
  qed
qed

text \<open>
  A citation of a tracked file is not always left alone: the first tier gives no answer for it, the second one
  still runs and may name its neighbour.
\<close>

lemma tracked_file_can_be_replaced:
  "''validator.go'' \<in> set (tracked (indexFromPaths [''validate.go'', ''validator.go''])) \<and>
   MissingSuggestion exact_runtime (Some (indexFromPaths [''validate.go'', ''validator.go''])) ''validator.go'' = ''validate.go''"
  by code_simp

lemma CaseCorrection_sound:
  assumes "CaseCorrection (Some (indexFromPaths raw)) cited = (s, True)"
  shows "s = [] \<or> s \<in> toSlashKeys ` set raw \<and> s \<noteq> toSlashKeys cited \<and> ToLower s = ToLower (toSlashKeys cited)"
proof (cases "s = []")
  case False
  let ?i = "indexFromPaths raw" and ?rel = "toSlashKeys cited"
  have rel: "toSlashKeys ?rel = ?rel" by (rule toSlashKeys_id [OF toSlashKeys_no_backslash])
  have "?rel \<notin> set (tracked ?i) \<and> folded ?i (ToLower ?rel) = [s]"
    using assms False by (auto simp: CaseCorrection_def Has_def ByFold_def rel Let_def split: if_splits list.splits)
  then have "s \<in> set (filter (\<lambda>p. ToLower p = ToLower ?rel) (tracked ?i))" "?rel \<notin> set (tracked ?i)"
    using indexFromPaths_ok [of raw] by (simp_all add: index_ok_def)
  then have "s \<in> set (tracked ?i)" "s \<noteq> ?rel" "ToLower s = ToLower ?rel" by auto
  then show ?thesis using indexFromPaths_tracked [of raw] by blast
qed simp

text \<open>The case tier folds letters outside ASCII too.\<close>

lemma unicode_case_is_folded:
  "CaseCorrection (Some (indexFromPaths [[CHR 0xC3, CHR 0x89, CHR ''.'', CHR ''g'', CHR ''o'']]))
     [CHR 0xC3, CHR 0xA9, CHR ''.'', CHR ''g'', CHR ''o''] =
   ([CHR 0xC3, CHR 0x89, CHR ''.'', CHR ''g'', CHR ''o''], True)"
  by code_simp

end
