(* ===== verification/JsonFinding.thy ===== *)
theory JsonFinding
  imports Reconcile StreamFormat "HOL-Library.AList"
begin

text \<open>
  The records of \<^verbatim>\<open>findings.json\<close> and what the shell around the pipeline does with them: the schema and the
  derivation of records from merged findings (\<^verbatim>\<open>internal/reconcile/emit.go\<close>), the quotes of a record
  (\<^verbatim>\<open>lib.go\<close>), the provenance of fallback models (\<^verbatim>\<open>fallback.go\<close>) and the routing of records out of
  the primary stream (\<^verbatim>\<open>unresolved.go\<close>). A Go map is an association list with one entry per key. The
  theorems show what the count of independent voices is, that it is what decides a recomputed
  confidence, and that routing keeps the two lists of findings aligned.
\<close>

subsection \<open>Schema\<close>

record visualEvidence =
  Screenshots :: "string list"
  ConsoleLog :: string
  ConsoleExcerpt :: string

record sourceReport =
  srPath :: string
  srLine :: int
  srSection :: string

record evidenceExec =
  eeCommand :: string
  eeExitCode :: int
  eeOutputExcerpt :: string
  eeBackendName :: string

record ignoreRule =
  irFile :: string
  irPackage :: string
  irCategory :: string
  irMatch :: string
  irReason :: string

record jsonFinding =
  jfSeverity :: string
  jfFile :: string
  jfLine :: int
  jfProblem :: string
  jfFix :: string
  jfCategory :: string
  jfEstMinutes :: int
  jfEvidence :: string
  jfReviewers :: "string list"
  jfConfidence :: string
  jfDisagreement :: string
  jfVerification :: "verification option"
  jfPathValid :: bool
  jfPathWarning :: string
  jfUnresolvedReason :: string
  jfSourceCategories :: "sourceCategory list"
  jfSuppressedBy :: "ignoreRule option"
  jfPathSuggestion :: string
  jfSiblingLocation :: string
  jfFallbackReviewers :: "(string \<times> string) list"
  jfClusterMerged :: bool
  jfClusterID :: string
  jfFixWarning :: string
  jfFixReview :: string
  jfEvidenceExec :: "evidenceExec option"
  jfJustification :: string
  jfSourceReport :: "sourceReport option"
  jfID :: string
  jfConfidenceDiscount :: string
  jfSourceQuotes :: "sourceQuote list"
  jfVisualEvidence :: "visualEvidence option"

definition zero_jsonFinding :: jsonFinding where
  "zero_jsonFinding =
     \<lparr>jfSeverity = [], jfFile = [], jfLine = 0, jfProblem = [], jfFix = [], jfCategory = [],
      jfEstMinutes = 0, jfEvidence = [], jfReviewers = [], jfConfidence = [], jfDisagreement = [],
      jfVerification = None, jfPathValid = False, jfPathWarning = [], jfUnresolvedReason = [],
      jfSourceCategories = [], jfSuppressedBy = None, jfPathSuggestion = [], jfSiblingLocation = [],
      jfFallbackReviewers = [], jfClusterMerged = False, jfClusterID = [], jfFixWarning = [],
      jfFixReview = [], jfEvidenceExec = None, jfJustification = [], jfSourceReport = None, jfID = [],
      jfConfidenceDiscount = [], jfSourceQuotes = [], jfVisualEvidence = None\<rparr>"

subsection \<open>Deriving records\<close>

definition recordQuotes :: "sourceQuote list \<Rightarrow> sourceQuote list" where
  "recordQuotes quotes = (if length quotes < 2 then [] else quotes)"

definition FindingID :: "runtime \<Rightarrow> string \<Rightarrow> int \<Rightarrow> string \<Rightarrow> string" where
  "FindingID rt fname line problem =
     hex_EncodeToString (take 8 (sum256 rt (fname @ [CHR 0x00] @ Itoa line @ [CHR 0x00] @ problem)))"

definition stampFindingIDs :: "runtime \<Rightarrow> jsonFinding list \<Rightarrow> jsonFinding list" where
  "stampFindingIDs rt jf = map (\<lambda>f. f\<lparr>jfID := FindingID rt (jfFile f) (jfLine f) (jfProblem f)\<rparr>) jf"

definition json_of_merged :: "merged \<Rightarrow> jsonFinding" where
  "json_of_merged m = zero_jsonFinding
     \<lparr>jfSeverity := Severity m, jfFile := File m, jfLine := Line m, jfProblem := Problem m,
      jfFix := Fix m, jfCategory := Category m, jfEstMinutes := EstMinutes m, jfEvidence := Evidence m,
      jfReviewers := Reviewers m, jfConfidence := Confidence m, jfDisagreement := Disagreement m,
      jfVerification := Verification m, jfSourceCategories := SourceCategories m,
      jfConfidenceDiscount := ConfidenceDiscount m, jfSourceQuotes := recordQuotes (SourceQuotes m)\<rparr>"

text \<open>\<open>cached\<close> is the field \<^verbatim>\<open>jsonFindings\<close> of the result, \<open>None\<close> when it is nil.\<close>

definition JSONFindings :: "runtime \<Rightarrow> jsonFinding list option \<Rightarrow> merged list \<Rightarrow> jsonFinding list" where
  "JSONFindings rt cached findings =
     (case cached of Some jf \<Rightarrow> jf | None \<Rightarrow> stampFindingIDs rt (map json_of_merged findings))"

subsection \<open>Quotes of a record\<close>

definition discountedConfidence :: "runtime \<Rightarrow> nat \<Rightarrow> string \<Rightarrow> sourceQuote list \<Rightarrow> bool \<Rightarrow> string \<times> string" where
  "discountedConfidence rt reviewerCount category quotes provenanced =
     DiscountedConfidence reviewerCount category (provenanced \<and> \<not> IsPanelWideQuotes rt quotes)"

definition quotesCategory :: "sourceQuote list \<Rightarrow> string" where
  "quotesCategory quotes = ModalCategory (map (\<lambda>q. zero_finding\<lparr>Category := sqCategory q\<rparr>) quotes)"

definition memberQuotes :: "jsonFinding \<Rightarrow> sourceQuote list \<times> bool" where
  "memberQuotes f =
     (if length (jfSourceQuotes f) > 0 then (jfSourceQuotes f, True)
      else let reviewers = (if length (jfReviewers f) = 0 then [[]] else jfReviewers f) in
        (map (\<lambda>r. \<lparr>sqReviewer = r, sqFile = jfFile f, sqCategory = ToLower (TrimSpace (jfCategory f)),
                   sqEvidence = jfEvidence f\<rparr>) reviewers,
         length (jfReviewers f) \<le> 1))"

subsection \<open>Fallback provenance\<close>

text \<open>Reading a Go map of strings: the zero value for an absent key.\<close>

definition str_at :: "(string \<times> string) list \<Rightarrow> string \<Rightarrow> string" where
  "str_at m k = (case map_of m k of None \<Rightarrow> [] | Some v \<Rightarrow> v)"

definition reviewer_fallbacks :: "sfinding list \<Rightarrow> (string \<times> string) list" where
  "reviewer_fallbacks fs =
     fold (\<lambda>f m. if FallbackModel f \<noteq> [] \<and> sReviewer f \<noteq> []
                 then AList.update (sReviewer f) (FallbackModel f) m else m) fs []"

text \<open>The part of a map of fallbacks that the given reviewers have.\<close>

definition restrict_fallbacks :: "(string \<times> string) list \<Rightarrow> string list \<Rightarrow> (string \<times> string) list" where
  "restrict_fallbacks m reviewers =
     fold (\<lambda>r fr. if str_at m r \<noteq> [] then AList.update r (str_at m r) fr else fr) reviewers []"

text \<open>\<open>discovered\<close> are the findings of all sources, in order.\<close>

definition stampFallbackProvenance :: "jsonFinding list \<Rightarrow> sfinding list \<Rightarrow> jsonFinding list" where
  "stampFallbackProvenance findings discovered =
     (let m = reviewer_fallbacks discovered in
      if length m = 0 then findings
      else map (\<lambda>f. let fr = restrict_fallbacks m (jfReviewers f) in
                    if fr \<noteq> [] then f\<lparr>jfFallbackReviewers := fr\<rparr> else f) findings)"

definition voice_step :: "(string \<times> string) list \<Rightarrow> string \<Rightarrow> nat \<times> string list \<Rightarrow> nat \<times> string list" where
  "voice_step fallback r st =
     (case st of (voices, seenTarget) \<Rightarrow>
        let target = str_at fallback r in
        if target = [] then (voices + 1, seenTarget)
        else if target \<in> set seenTarget then st
        else (voices + 1, target # seenTarget))"

definition distinctReviewerCount :: "string list \<Rightarrow> (string \<times> string) list \<Rightarrow> nat" where
  "distinctReviewerCount reviewers fallback =
     (if length fallback = 0 then length reviewers else fst (fold (voice_step fallback) reviewers (0, [])))"

definition recompute_record :: "runtime \<Rightarrow> jsonFinding \<Rightarrow> jsonFinding" where
  "recompute_record rt f =
     (if jfVerification f \<noteq> None \<or> jfConfidence f = ConfidenceVerified then f
      else let voices = distinctReviewerCount (jfReviewers f) (jfFallbackReviewers f) in
        if voices \<ge> length (jfReviewers f) then f
        else let (quotes, provenanced) = memberQuotes f;
                 (confidence, discount) = discountedConfidence rt voices (jfCategory f) quotes provenanced
          in f\<lparr>jfConfidence := confidence, jfConfidenceDiscount := discount\<rparr>)"

definition recomputeFallbackConfidence :: "runtime \<Rightarrow> jsonFinding list \<Rightarrow> jsonFinding list" where
  "recomputeFallbackConfidence rt findings = map (recompute_record rt) findings"

subsection \<open>Routing\<close>

text \<open>
  The loop over \<^verbatim>\<open>i\<close>. The capacity of \<^verbatim>\<open>make\<close> is the length less the number of different indices, and a
  negative one panics: \<open>None\<close>.
\<close>

fun route_loop ::
  "nat set \<Rightarrow> nat \<Rightarrow> merged list \<Rightarrow> jsonFinding list \<Rightarrow> merged list \<times> jsonFinding list \<times> jsonFinding list" where
  "route_loop drp i ms [] = ([], [], [])"
| "route_loop drp i ms (f # jf) =
     (case route_loop drp (i + 1) (tl ms) jf of (keptMerged, keptJSON, routed) \<Rightarrow>
        if i \<in> drp then (keptMerged, keptJSON, f # routed)
        else ((case ms of [] \<Rightarrow> keptMerged | m # _ \<Rightarrow> m # keptMerged), f # keptJSON, routed))"

definition routeUnresolved ::
  "merged list \<Rightarrow> jsonFinding list \<Rightarrow> nat list \<Rightarrow>
   (merged list \<times> jsonFinding list \<times> jsonFinding list) option" where
  "routeUnresolved ms jf idx =
     (if length idx = 0 then Some (ms, jf, [])
      else let drp = set idx in
        if length ms < card drp \<or> length jf < card drp then None
        else Some (route_loop drp 0 ms jf))"

definition countOutOfScope :: "merged list \<Rightarrow> nat" where
  "countOutOfScope ms = length (filter (\<lambda>m. Category m = CategoryOutOfScope) ms)"

subsection \<open>Independent voices\<close>

definition native :: "(string \<times> string) list \<Rightarrow> string \<Rightarrow> bool" where
  "native fallback r \<longleftrightarrow> str_at fallback r = []"

lemma voice_fold:
  "fst (fold (voice_step fb) rs (n, seen)) =
     n + length (filter (native fb) rs) + card (str_at fb ` {r \<in> set rs. \<not> native fb r} - set seen)"
proof (induction rs arbitrary: n seen)
  case (Cons r rs)
  let ?T = "\<lambda>rs. str_at fb ` {r \<in> set rs. \<not> native fb r}"
  show ?case
  proof (cases "native fb r")
    case True
    then have "?T (r # rs) = ?T rs" by auto
    moreover have step: "voice_step fb r (n, seen) = (n + 1, seen)"
      using True by (simp add: voice_step_def native_def)
    ultimately show ?thesis using True by (simp add: Cons.IH)
  next
    case False
    then have ins: "?T (r # rs) = insert (str_at fb r) (?T rs)" by auto
    show ?thesis
    proof (cases "str_at fb r \<in> set seen")
      case True
      with False have step: "voice_step fb r (n, seen) = (n, seen)" by (simp add: voice_step_def native_def)
      have "?T (r # rs) - set seen = ?T rs - set seen" using ins True by auto
      with False show ?thesis by (simp only: fold_simps comp_apply step Cons.IH) simp
    next
      case new: False
      with False have step: "voice_step fb r (n, seen) = (n + 1, str_at fb r # seen)"
        by (simp add: voice_step_def native_def)
      have "?T (r # rs) - set seen = insert (str_at fb r) (?T rs - set (str_at fb r # seen))"
        using ins new by auto
      then have "card (?T (r # rs) - set seen) = Suc (card (?T rs - set (str_at fb r # seen)))" by simp
      with False show ?thesis by (simp only: fold_simps comp_apply step Cons.IH) simp
    qed
  qed
qed simp

lemma count_voices:
  "distinctReviewerCount rs fb =
     length (filter (native fb) rs) + card (str_at fb ` {r \<in> set rs. \<not> native fb r})" if "fb \<noteq> []"
  using that voice_fold [of fb rs 0 "[]"] by (simp add: distinctReviewerCount_def)

lemma count_native: "distinctReviewerCount rs [] = length rs"
  by (simp add: distinctReviewerCount_def)

lemma voices_at_most: "distinctReviewerCount rs fb \<le> length rs"
proof (cases "fb = []")
  case False
  have "card (str_at fb ` {r \<in> set rs. \<not> native fb r}) \<le> card (set (filter (\<lambda>r. \<not> native fb r) rs))"
    by (simp add: card_image_le)
  also have "\<dots> \<le> length (filter (\<lambda>r. \<not> native fb r) rs)" by (rule card_length)
  finally show ?thesis
    using count_voices [OF False, of rs] sum_length_filter_compl [of "native fb" rs] by simp
qed (simp add: count_native)

lemma voices_positive: "rs \<noteq> [] \<Longrightarrow> 1 \<le> distinctReviewerCount rs fb"
proof (cases "fb = []")
  case False
  assume "rs \<noteq> []"
  then obtain r where r: "r \<in> set rs" by (cases rs) auto
  show ?thesis
  proof (cases "native fb r")
    case True
    then have "filter (native fb) rs \<noteq> []" using r by (simp add: filter_empty_conv) blast
    then show ?thesis using count_voices [OF False, of rs] by (simp add: Suc_leI)
  next
    case nat: False
    then have "str_at fb ` {r \<in> set rs. \<not> native fb r} \<noteq> {}" using r by blast
    then show ?thesis using count_voices [OF False, of rs] by (simp add: Suc_leI card_gt_0_iff)
  qed
qed (simp add: count_native Suc_leI)

lemma no_record_without_fallback: "jfFallbackReviewers f = [] \<Longrightarrow> recompute_record rt f = f"
  by (simp add: recompute_record_def count_native Let_def)

subsection \<open>Aligned routing\<close>

lemma route_loop_nths:
  "length ms = length jf \<Longrightarrow>
   route_loop drp i ms jf =
     (nths ms {k. i + k \<notin> drp}, nths jf {k. i + k \<notin> drp}, nths jf {k. i + k \<in> drp})"
proof (induction jf arbitrary: i ms)
  case (Cons f jf)
  then obtain m ms' where ms: "ms = m # ms'" "length ms' = length jf" by (cases ms) auto
  have "{k. i + Suc k \<notin> drp} = {k. i + 1 + k \<notin> drp}" "{k. i + Suc k \<in> drp} = {k. i + 1 + k \<in> drp}" by simp_all
  with ms Cons.IH [OF ms(2), of "i + 1"] show ?case by (simp add: nths_Cons)
qed simp

lemma routeUnresolved_nths:
  assumes "length ms = length jf" and "\<forall>i\<in>set idx. i < length jf"
  shows "routeUnresolved ms jf idx =
    Some (nths ms (- set idx), nths jf (- set idx), nths jf (set idx))"
proof (cases "idx = []")
  case False
  have "card (set idx) \<le> length jf"
    using assms(2) card_mono [of "{..<length jf}" "set idx"] by (simp add: subset_eq)
  with False assms(1) show ?thesis
    by (simp add: routeUnresolved_def Let_def route_loop_nths Compl_eq)
qed (simp add: routeUnresolved_def nths_all)

lemma nths_zip: "length xs = length ys \<Longrightarrow> zip (nths xs A) (nths ys A) = nths (zip xs ys) A"
proof (induction xs arbitrary: ys A)
  case (Cons x xs)
  then show ?case by (cases ys) (auto simp: nths_Cons)
qed simp

lemma length_nths_same: "length xs = length ys \<Longrightarrow> length (nths xs A) = length (nths ys A)"
  by (simp add: length_nths)

lemma mset_nths_split: "mset (nths xs (- A)) + mset (nths xs A) = mset xs"
proof (induction xs arbitrary: A)
  case (Cons x xs)
  have "{j. Suc j \<in> - A} = - {j. Suc j \<in> A}" by auto
  with Cons.IH [of "{j. Suc j \<in> A}"] show ?case by (simp add: nths_Cons)
qed simp

subsection \<open>One served model is one voice\<close>

text \<open>The model that served a reviewer's slot, by the last of its findings that names one.\<close>

definition slot_model :: "sfinding list \<Rightarrow> string \<Rightarrow> string" where
  "slot_model discovered r =
     (case find (\<lambda>f. sReviewer f = r \<and> FallbackModel f \<noteq> []) (rev discovered) of
        None \<Rightarrow> [] | Some f \<Rightarrow> FallbackModel f)"

lemma str_at_update: "str_at (AList.update k v m) r = (if r = k then v else str_at m r)"
  by (simp add: str_at_def update_conv)

lemma reviewer_fallbacks_snoc:
  "reviewer_fallbacks (fs @ [f]) =
     (if FallbackModel f \<noteq> [] \<and> sReviewer f \<noteq> []
      then AList.update (sReviewer f) (FallbackModel f) (reviewer_fallbacks fs) else reviewer_fallbacks fs)"
  by (simp add: reviewer_fallbacks_def)

lemma reviewer_fallbacks_at: "r \<noteq> [] \<Longrightarrow> str_at (reviewer_fallbacks ds) r = slot_model ds r"
proof (induction ds rule: rev_induct)
  case (snoc f ds)
  then show ?case by (simp add: reviewer_fallbacks_snoc str_at_update slot_model_def)
qed (simp add: reviewer_fallbacks_def slot_model_def str_at_def)

lemma reviewer_fallbacks_blank: "str_at (reviewer_fallbacks ds) [] = []"
proof (induction ds rule: rev_induct)
  case (snoc f ds)
  then show ?case by (simp add: reviewer_fallbacks_snoc str_at_update)
qed (simp add: reviewer_fallbacks_def str_at_def)

lemma restrict_fallbacks_at:
  "str_at (restrict_fallbacks m rs) r = (if r \<in> set rs then str_at m r else [])"
proof (induction rs rule: rev_induct)
  case (snoc x rs)
  have "restrict_fallbacks m (rs @ [x]) =
      (if str_at m x \<noteq> [] then AList.update x (str_at m x) (restrict_fallbacks m rs) else restrict_fallbacks m rs)"
    by (simp add: restrict_fallbacks_def)
  then show ?case using snoc by (auto simp: str_at_update)
qed (simp add: restrict_fallbacks_def str_at_def)

lemma restrict_fallbacks_empty: "restrict_fallbacks m rs = [] \<Longrightarrow> r \<in> set rs \<Longrightarrow> str_at m r = []"
  using restrict_fallbacks_at [of m rs r] by (simp add: str_at_def)

text \<open>
  The voices of a list of reviewers: those on their own model, and the models that served the others.
  A blank name is on its own model.
\<close>

definition own_model :: "sfinding list \<Rightarrow> string \<Rightarrow> bool" where
  "own_model discovered r \<longleftrightarrow> r = [] \<or> slot_model discovered r = []"

definition voices :: "sfinding list \<Rightarrow> string list \<Rightarrow> nat" where
  "voices discovered rs =
     length (filter (own_model discovered) rs) +
     card (slot_model discovered ` {r \<in> set rs. \<not> own_model discovered r})"

lemma native_own: "native (reviewer_fallbacks ds) r = own_model ds r"
  using reviewer_fallbacks_at [of r ds] reviewer_fallbacks_blank [of ds]
  by (cases "r = []") (simp_all add: native_def own_model_def)

lemma voices_stamped:
  assumes "f = (if fr \<noteq> [] then g\<lparr>jfFallbackReviewers := fr\<rparr> else g)" and "jfFallbackReviewers g = []"
    and "fr = restrict_fallbacks (reviewer_fallbacks ds) (jfReviewers g)"
  shows "distinctReviewerCount (jfReviewers f) (jfFallbackReviewers f) = voices ds (jfReviewers g)"
proof -
  let ?m = "reviewer_fallbacks ds" and ?rs = "jfReviewers g"
  have f: "jfReviewers f = ?rs" "jfFallbackReviewers f = fr" using assms(1,2) by simp_all
  have nat: "native fr r = own_model ds r" if "r \<in> set ?rs" for r
    using that native_own [of ds r] by (simp add: assms(3) native_def restrict_fallbacks_at)
  have same: "filter (native fr) ?rs = filter (own_model ds) ?rs" using nat by (intro filter_cong) auto
  have tgt: "str_at fr ` {r \<in> set ?rs. \<not> native fr r} = slot_model ds ` {r \<in> set ?rs. \<not> own_model ds r}"
    using nat reviewer_fallbacks_at by (intro image_cong) (auto simp: assms(3) restrict_fallbacks_at own_model_def)
  show ?thesis
  proof (cases "fr = []")
    case True
    then have "own_model ds r" if "r \<in> set ?rs" for r using nat [OF that] by (simp add: native_def str_at_def)
    then have "filter (own_model ds) ?rs = ?rs" "{r \<in> set ?rs. \<not> own_model ds r} = {}" by auto
    then show ?thesis unfolding f voices_def True count_native by simp
  next
    case False
    show ?thesis unfolding f voices_def count_voices [OF False] same tgt ..
  qed
qed

text \<open>A record after both passes, from a record no earlier pass has stamped.\<close>

lemma stamped_nth:
  assumes "i < length fs" "jfFallbackReviewers (fs ! i) = []"
  shows "\<exists>f. stampFallbackProvenance fs ds ! i = f \<and> length (stampFallbackProvenance fs ds) = length fs \<and>
    distinctReviewerCount (jfReviewers f) (jfFallbackReviewers f) = voices ds (jfReviewers (fs ! i)) \<and>
    jfReviewers f = jfReviewers (fs ! i) \<and> jfVerification f = jfVerification (fs ! i) \<and>
    jfConfidence f = jfConfidence (fs ! i) \<and> jfCategory f = jfCategory (fs ! i) \<and> memberQuotes f = memberQuotes (fs ! i)"
proof -
  let ?g = "fs ! i"
  let ?fr = "restrict_fallbacks (reviewer_fallbacks ds) (jfReviewers ?g)"
  let ?f = "if ?fr \<noteq> [] then ?g\<lparr>jfFallbackReviewers := ?fr\<rparr> else ?g"
  have blank: "?fr = []" if "reviewer_fallbacks ds = []"
  proof -
    have "fold (\<lambda>r fr. if str_at [] r \<noteq> [] then AList.update r (str_at [] r) fr else fr) rs [] = []" for rs
      by (induction rs) (simp_all add: str_at_def)
    then show ?thesis by (simp add: that restrict_fallbacks_def)
  qed
  have "stampFallbackProvenance fs ds ! i = ?f"
    using assms(1) blank by (simp add: stampFallbackProvenance_def Let_def)
  moreover have "length (stampFallbackProvenance fs ds) = length fs"
    by (simp add: stampFallbackProvenance_def Let_def)
  moreover have "distinctReviewerCount (jfReviewers ?f) (jfFallbackReviewers ?f) = voices ds (jfReviewers ?g)"
    by (rule voices_stamped [OF refl assms(2) refl])
  ultimately show ?thesis by (simp add: memberQuotes_def)
qed

text \<open>
  C7. Reviewers whose slots one model served are one voice: after the provenance is stamped and the
  confidence recomputed, a record no verdict owns keeps its confidence when no two of its reviewers
  were served by the same model, and otherwise has the confidence of its voices alone, HIGH for two or
  more of them unless the agreement is a panel-wide invariant, and MEDIUM with no recorded reason for a
  single one.
\<close>

theorem voices_decide_confidence:
  assumes "i < length fs" and "jfFallbackReviewers (fs ! i) = []" and "jfVerification (fs ! i) = None"
    and "jfConfidence (fs ! i) \<noteq> ConfidenceVerified" and "jfReviewers (fs ! i) \<noteq> []"
  shows "let f = fs ! i; g = recomputeFallbackConfidence rt (stampFallbackProvenance fs ds) ! i;
             n = voices ds (jfReviewers f)
    in 1 \<le> n \<and> n \<le> length (jfReviewers f) \<and> jfReviewers g = jfReviewers f \<and>
       (if n = length (jfReviewers f) then jfConfidence g = jfConfidence f
        else if n = 1 then jfConfidence g = ConfMedium \<and> jfConfidenceDiscount g = []
        else (jfConfidence g = ConfHigh \<and> jfConfidenceDiscount g = [] \<or>
              jfConfidence g = ConfMedium \<and> jfConfidenceDiscount g = PanelWideReason \<and>
              canonical (jfCategory f) = CategoryInvariant))"
proof -
  let ?st = "stampFallbackProvenance fs ds" and ?n = "voices ds (jfReviewers (fs ! i))"
  let ?f = "?st ! i"
  from stamped_nth [OF assms(1,2), of ds] have len: "length ?st = length fs"
    and n: "distinctReviewerCount (jfReviewers ?f) (jfFallbackReviewers ?f) = ?n"
    and same: "jfReviewers ?f = jfReviewers (fs ! i)" "jfVerification ?f = jfVerification (fs ! i)"
      "jfConfidence ?f = jfConfidence (fs ! i)" "jfCategory ?f = jfCategory (fs ! i)" by blast+
  have g: "recomputeFallbackConfidence rt ?st ! i = recompute_record rt ?f"
    using assms(1) len by (simp add: recomputeFallbackConfidence_def)
  have bounds: "1 \<le> ?n" "?n \<le> length (jfReviewers (fs ! i))"
    using voices_positive [of "jfReviewers ?f" "jfFallbackReviewers ?f"]
      voices_at_most [of "jfReviewers ?f" "jfFallbackReviewers ?f"] n same(1) assms(5) by simp_all
  obtain q p where q: "memberQuotes ?f = (q, p)" by (cases "memberQuotes ?f")
  obtain c d where cd: "discountedConfidence rt ?n (jfCategory (fs ! i)) q p = (c, d)"
    by (cases "discountedConfidence rt ?n (jfCategory (fs ! i)) q p")
  have rec: "recompute_record rt ?f = (if ?n \<ge> length (jfReviewers (fs ! i)) then ?f
      else ?f\<lparr>jfConfidence := c, jfConfidenceDiscount := d\<rparr>)"
    using assms(3,4) by (simp add: recompute_record_def same q n [unfolded same] cd Let_def)
  have rule: "if ?n \<ge> 2 then c = ConfHigh \<and> d = [] \<or>
      c = ConfMedium \<and> d = PanelWideReason \<and> canonical (jfCategory (fs ! i)) = CategoryInvariant
    else c = ConfMedium \<and> d = []"
    using cd by (auto simp: discountedConfidence_def DiscountedConfidence_def ConfidenceFor_def split: if_splits)
  show ?thesis unfolding Let_def g rec using bounds rule same by auto
qed

definition two_personas :: "jsonFinding list" where
  "two_personas = [zero_jsonFinding\<lparr>jfReviewers := [''a'', ''b''], jfConfidence := ConfHigh\<rparr>]"

definition overflowed :: "string \<Rightarrow> sfinding" where
  "overflowed r = zero_sfinding\<lparr>sReviewer := r, FallbackModel := ''net''\<rparr>"

theorem voices_decide_confidence_witness:
  "voices [overflowed ''a'', overflowed ''b''] [''a'', ''b''] = 1 \<and>
   jfConfidence (recomputeFallbackConfidence exact_runtime
     (stampFallbackProvenance two_personas [overflowed ''a'', overflowed ''b'']) ! 0) = ConfMedium"
proof -
  have one: "voices [overflowed ''a'', overflowed ''b''] [''a'', ''b''] = 1" by code_simp
  have f: "two_personas ! 0 = zero_jsonFinding\<lparr>jfReviewers := [''a'', ''b''], jfConfidence := ConfHigh\<rparr>"
    "length two_personas = 1" by (simp_all add: two_personas_def)
  show ?thesis
    using voices_decide_confidence [of 0 two_personas exact_runtime "[overflowed ''a'', overflowed ''b'']"] one
    by (simp add: f zero_jsonFinding_def Let_def)
qed

end
