(* ===== verification/JsonMerge.thy ===== *)
theory JsonMerge
  imports JsonFinding
begin

text \<open>
  The merge of records of \<^verbatim>\<open>findings.json\<close> a judge ruled duplicates: \<^verbatim>\<open>internal/reconcile/merge.go\<close>, with
  \<^verbatim>\<open>splitNames\<close> of \<^verbatim>\<open>disagree.go\<close> and the separator of \<^verbatim>\<open>evidence_sep.go\<close>. The lemmas give every field
  of the merged record in closed form: the union of the reviewers, the best verdict with all skeptics,
  the widest recorded range of severities.
\<close>

subsection \<open>Fields\<close>

definition ClusterEvidenceSep :: string where "ClusterEvidenceSep = '' / ''"

text \<open>\<^verbatim>\<open>strings.SplitN(s, sep, 2)\<close>: the text before the first separator and all that follows it.\<close>

definition SplitN2 :: "string \<Rightarrow> string \<Rightarrow> string list" where
  "SplitN2 s sep = (case Split s sep of x # y # ys \<Rightarrow> [x, Join (y # ys) sep] | xs \<Rightarrow> xs)"

definition splitNames :: "string \<Rightarrow> string list" where
  "splitNames s = filter (\<lambda>t. t \<noteq> []) (map TrimSpace (Split s '',''))"

definition consider_range :: "string \<Rightarrow> int \<times> string \<Rightarrow> int \<times> string" where
  "consider_range rangeAnnotation st =
     (if rangeAnnotation = [] then st
      else let lo = NormalizeSeverity (hd (SplitN2 rangeAnnotation '' vs '')) in
        case SeverityRank lo of
          None \<Rightarrow> st
        | Some r \<Rightarrow> if r < fst st then (r, lo) else st)"

definition widestDisagreement :: "string \<Rightarrow> string \<Rightarrow> jsonFinding list \<Rightarrow> string" where
  "widestDisagreement maxSev scalarDisagreement members =
     (let maxRank = rank_or_zero SeverityRank maxSev;
          (loRank, loSev) = fold consider_range (scalarDisagreement # map jfDisagreement members) (maxRank, maxSev)
      in if loRank < maxRank then loSev @ '' vs '' @ maxSev else scalarDisagreement)"

definition path_step :: "jsonFinding \<Rightarrow> string \<times> string \<Rightarrow> string \<times> string" where
  "path_step f st =
     (case st of (warning, suggestion) \<Rightarrow>
        (if warning = [] then jfPathWarning f else warning,
         if suggestion = [] then jfPathSuggestion f else suggestion))"

definition mergePathFields :: "jsonFinding list \<Rightarrow> bool \<times> string \<times> string" where
  "mergePathFields members =
     (case fold path_step members ([], []) of (warning, suggestion) \<Rightarrow>
        if warning \<noteq> [] then (False, warning, suggestion)
        else (jfPathValid (members ! 0), [], suggestion))"

definition unionReviewers :: "jsonFinding list \<Rightarrow> string list" where
  "unionReviewers members =
     sort (distinct_keys (filter (\<lambda>r. r \<noteq> []) (concat (map jfReviewers members))))"

definition joinEvidence :: "jsonFinding list \<Rightarrow> string" where
  "joinEvidence members =
     Join (distinct_keys (filter (\<lambda>e. e \<noteq> []) (map jfEvidence members))) ClusterEvidenceSep"

definition VerdictRank :: "string \<Rightarrow> nat" where
  "VerdictRank verdict =
     (let v = ToLower (TrimSpace verdict) in
      if v = VerdictConfirmed then 3 else if v = VerdictUnverifiable then 2
      else if v = VerdictRefuted then 1 else 0)"

definition skeptic_step :: "string \<Rightarrow> string list \<Rightarrow> string list" where
  "skeptic_step nm skeptics = (if nm \<noteq> [] \<and> nm \<notin> set skeptics then skeptics @ [nm] else skeptics)"

definition verification_step ::
  "jsonFinding \<Rightarrow> verification option \<times> string list \<Rightarrow> verification option \<times> string list" where
  "verification_step f st =
     (case st of (chosen, skeptics) \<Rightarrow>
        case jfVerification f of
          None \<Rightarrow> st
        | Some v \<Rightarrow>
            ((case chosen of
                None \<Rightarrow> Some v
              | Some c \<Rightarrow> if VerdictRank (Verdict v) > VerdictRank (Verdict c) then Some v else chosen),
             fold skeptic_step (splitNames (Skeptic v)) skeptics))"

definition mergeVerification :: "jsonFinding list \<Rightarrow> verification option" where
  "mergeVerification members =
     (case fold verification_step members (None, []) of (chosen, skeptics) \<Rightarrow>
        map_option (\<lambda>v. v\<lparr>Skeptic := Join skeptics '', ''\<rparr>) chosen)"

subsection \<open>Merging\<close>

definition finding_of_json :: "jsonFinding \<Rightarrow> finding" where
  "finding_of_json f = zero_finding
     \<lparr>Severity := jfSeverity f, File := jfFile f, Line := jfLine f, Problem := jfProblem f,
      Fix := jfFix f, Category := jfCategory f, EstMinutes := jfEstMinutes f, Evidence := jfEvidence f\<rparr>"

definition union_quotes :: "jsonFinding list \<Rightarrow> sourceQuote list \<times> bool" where
  "union_quotes members =
     (concat (map (\<lambda>f. fst (memberQuotes f)) members), list_all (\<lambda>f. snd (memberQuotes f)) members)"

fun MergeJSONFindings :: "runtime \<Rightarrow> jsonFinding list \<Rightarrow> jsonFinding" where
  "MergeJSONFindings rt [] = zero_jsonFinding"
| "MergeJSONFindings rt [f] = f"
| "MergeJSONFindings rt (f # f' # fs) =
     (let members = f # f' # fs;
          sf = map finding_of_json members;
          (maxSev, disagreement) = merge_severity (finding_of_json f) sf;
          disagreement = widestDisagreement maxSev disagreement members;
          reviewers = unionReviewers members;
          (quotes, provenanced) = union_quotes members;
          category = quotesCategory quotes;
          (confidence, discount) = discountedConfidence rt (length reviewers) category quotes provenanced;
          (valid, warning, suggestion) = mergePathFields members
      in zero_jsonFinding
        \<lparr>jfID := jfID f, jfSeverity := maxSev, jfFile := jfFile f, jfLine := jfLine f,
         jfProblem := LongestField sf Problem, jfFix := LongestField sf Fix, jfCategory := category,
         jfEstMinutes := MaxEstMinutes sf, jfEvidence := joinEvidence members, jfReviewers := reviewers,
         jfConfidence := confidence, jfDisagreement := disagreement,
         jfVerification := mergeVerification members, jfConfidenceDiscount := discount,
         jfSourceQuotes := (if provenanced then quotes else []),
         jfPathValid := valid, jfPathWarning := warning, jfPathSuggestion := suggestion\<rparr>)"

declare MergeJSONFindings.simps(3) [simp del]

subsection \<open>Fields of a merged record\<close>

lemma merged_record:
  assumes "2 \<le> length members"
  shows "jfSeverity (MergeJSONFindings rt members) = fst (merge_severity (finding_of_json (members ! 0)) (map finding_of_json members))"
    and "jfDisagreement (MergeJSONFindings rt members) =
      widestDisagreement (jfSeverity (MergeJSONFindings rt members))
        (snd (merge_severity (finding_of_json (members ! 0)) (map finding_of_json members))) members"
    and "jfCategory (MergeJSONFindings rt members) = quotesCategory (fst (union_quotes members))"
    and "jfVerification (MergeJSONFindings rt members) = mergeVerification members"
    and "jfReviewers (MergeJSONFindings rt members) = unionReviewers members"
    and "jfFile (MergeJSONFindings rt members) = jfFile (members ! 0)"
    and "jfLine (MergeJSONFindings rt members) = jfLine (members ! 0)"
    and "jfID (MergeJSONFindings rt members) = jfID (members ! 0)"
proof -
  obtain f f' fs where m: "members = f # f' # fs"
    using assms by (metis Suc_le_length_iff numeral_2_eq_2)
  obtain s d where sd: "merge_severity (finding_of_json f) (map finding_of_json members) = (s, d)" by (metis surj_pair)
  obtain q p where q: "union_quotes members = (q, p)" by (metis surj_pair)
  obtain c e where c: "discountedConfidence rt (length (unionReviewers members)) (quotesCategory q) q p = (c, e)"
    by (metis surj_pair)
  obtain v w u where v: "mergePathFields members = (v, w, u)" by (metis surj_pair)
  note unf = MergeJSONFindings.simps(3) [of rt f f' fs, folded m, unfolded Let_def, folded m]
  have M: "MergeJSONFindings rt members = zero_jsonFinding
        \<lparr>jfID := jfID f, jfSeverity := s, jfFile := jfFile f, jfLine := jfLine f,
         jfProblem := LongestField (map finding_of_json members) Problem,
         jfFix := LongestField (map finding_of_json members) Fix, jfCategory := quotesCategory q,
         jfEstMinutes := MaxEstMinutes (map finding_of_json members), jfEvidence := joinEvidence members,
         jfReviewers := unionReviewers members,
         jfConfidence := c, jfDisagreement := widestDisagreement s d members,
         jfVerification := mergeVerification members, jfConfidenceDiscount := e,
         jfSourceQuotes := (if p then q else []),
         jfPathValid := v, jfPathWarning := w, jfPathSuggestion := u\<rparr>"
    unfolding unf sd q c v by (simp add: sd q c v)
  have n: "members ! 0 = f" by (simp add: m)
  show "jfSeverity (MergeJSONFindings rt members) = fst (merge_severity (finding_of_json (members ! 0)) (map finding_of_json members))"
    "jfDisagreement (MergeJSONFindings rt members) =
      widestDisagreement (jfSeverity (MergeJSONFindings rt members))
        (snd (merge_severity (finding_of_json (members ! 0)) (map finding_of_json members))) members"
    "jfCategory (MergeJSONFindings rt members) = quotesCategory (fst (union_quotes members))"
    "jfVerification (MergeJSONFindings rt members) = mergeVerification members"
    "jfReviewers (MergeJSONFindings rt members) = unionReviewers members"
    "jfFile (MergeJSONFindings rt members) = jfFile (members ! 0)"
    "jfLine (MergeJSONFindings rt members) = jfLine (members ! 0)"
    "jfID (MergeJSONFindings rt members) = jfID (members ! 0)"
    unfolding M n sd by (simp_all add: q)
qed

lemma unionReviewers_eq:
  "unionReviewers members = sorted_list_of_set ((\<Union>f\<in>set members. set (jfReviewers f)) - {[]})"
  by (auto simp: unionReviewers_def sort_distinct_keys intro: arg_cong [where f = sorted_list_of_set])

subsection \<open>Verdicts\<close>

definition blocks :: "jsonFinding list \<Rightarrow> verification list" where
  "blocks members = List.map_filter jfVerification members"

lemma set_blocks: "v \<in> set (blocks members) \<longleftrightarrow> (\<exists>f\<in>set members. jfVerification f = Some v)"
  by (force simp: blocks_def map_filter_def)

definition best_block :: "verification list \<Rightarrow> verification option \<Rightarrow> bool" where
  "best_block vs chosen =
     (case chosen of None \<Rightarrow> vs = []
      | Some c \<Rightarrow> c \<in> set vs \<and> (\<forall>v\<in>set vs. VerdictRank (Verdict v) \<le> VerdictRank (Verdict c)))"

lemma best_block_step:
  assumes "best_block vs chosen"
  shows "best_block (vs @ [v]) (case chosen of None \<Rightarrow> Some v
    | Some c \<Rightarrow> if VerdictRank (Verdict v) > VerdictRank (Verdict c) then Some v else chosen)"
  using assms by (auto simp: best_block_def split: option.splits intro: order_trans less_imp_le)

lemma set_skeptic_fold: "set (fold skeptic_step ns sk) = set sk \<union> (set ns - {[]})"
  by (induction ns arbitrary: sk) (auto simp: skeptic_step_def)

lemma distinct_skeptic_fold: "distinct sk \<Longrightarrow> distinct (fold skeptic_step ns sk)"
  by (induction ns arbitrary: sk) (auto simp: skeptic_step_def)

lemma splitNames_nonempty: "[] \<notin> set (splitNames s)"
  by (simp add: splitNames_def)

lemma verification_fold:
  assumes "fold verification_step members (None, []) = (chosen, sk)"
  shows "best_block (blocks members) chosen \<and> distinct sk \<and>
    set sk = (\<Union>v\<in>set (blocks members). set (splitNames (Skeptic v)))"
  using assms
proof (induction members arbitrary: chosen sk rule: rev_induct)
  case (snoc f fs)
  obtain c s where cs: "fold verification_step fs (None, []) = (c, s)" by (metis surj_pair)
  note ih = snoc.IH [OF cs]
  show ?case
  proof (cases "jfVerification f")
    case None
    then have b: "blocks (fs @ [f]) = blocks fs" by (simp add: blocks_def map_filter_def)
    have "verification_step f (c, s) = (c, s)" using None by (simp add: verification_step_def)
    then have "chosen = c" "sk = s" using snoc.prems cs by simp_all
    then show ?thesis using ih b by simp
  next
    case (Some v)
    then have b: "blocks (fs @ [f]) = blocks fs @ [v]" by (simp add: blocks_def map_filter_def)
    have r: "chosen = (case c of None \<Rightarrow> Some v
        | Some c' \<Rightarrow> if VerdictRank (Verdict v) > VerdictRank (Verdict c') then Some v else c)"
      "sk = fold skeptic_step (splitNames (Skeptic v)) s"
      using snoc.prems cs verification_step_def [of f "(c, s)"] Some by simp_all
    show ?thesis unfolding b r using ih best_block_step [of "blocks fs" c v] splitNames_nonempty [of "Skeptic v"]
      by (auto simp: set_skeptic_fold distinct_skeptic_fold)
  qed
qed (simp add: best_block_def blocks_def map_filter_def)

lemma mergeVerification_None: "mergeVerification members = None \<longleftrightarrow> blocks members = []"
proof -
  obtain c s where cs: "fold verification_step members (None, []) = (c, s)" by (metis surj_pair)
  show ?thesis using verification_fold [OF cs] by (auto simp: mergeVerification_def cs best_block_def split: option.splits)
qed

lemma mergeVerification_Some:
  assumes "mergeVerification members = Some v"
  obtains c where "c \<in> set (blocks members)" "\<forall>w\<in>set (blocks members). VerdictRank (Verdict w) \<le> VerdictRank (Verdict c)"
    "Verdict v = Verdict c" "Notes v = Notes c" "ChallengeSurvived v = ChallengeSurvived c"
proof -
  obtain c s where cs: "fold verification_step members (None, []) = (c, s)" by (metis surj_pair)
  obtain d where d: "c = Some d" "v = d\<lparr>Skeptic := Join s '', ''\<rparr>" using assms by (auto simp: mergeVerification_def cs)
  from d verification_fold [OF cs] have "d \<in> set (blocks members)"
    "\<forall>w\<in>set (blocks members). VerdictRank (Verdict w) \<le> VerdictRank (Verdict d)" by (simp_all add: best_block_def)
  then show thesis using d(2) by (intro that [of d]) simp_all
qed

subsection \<open>Severities\<close>

abbreviation sev_rank_of :: "string \<Rightarrow> int" where
  "sev_rank_of s \<equiv> rank_or_zero SeverityRank s"

lemma sev_rank_nonneg: "0 \<le> sev_rank_of s"
  by (cases "SeverityRank s") (auto simp: rank_or_zero_def dest: SeverityRank_range)

lemma top_is_max: "s \<in> S \<Longrightarrow> sev_rank_of s \<le> sev_rank_of (top_severity S)"
proof (cases "SeverityRank s = None")
  case True
  then show ?thesis using sev_rank_nonneg [of "top_severity S"] by (simp add: rank_or_zero_def)
next
  case False
  moreover assume "s \<in> S"
  ultimately have "s = ''CRITICAL'' \<or> s = ''HIGH'' \<or> s = ''MEDIUM'' \<or> s = ''LOW''" "s \<in> S"
    using SeverityRank_known [of s] by simp_all
  then show ?thesis
    by (elim disjE) (simp_all add: top_severity_def rank_or_zero_def)
qed

lemma top_in: "S \<noteq> {} \<Longrightarrow> S \<subseteq> {SevCritical, SevHigh, SevMedium, SevLow} \<Longrightarrow> top_severity S \<in> S"
  by (auto simp: top_severity_def)

lemma merged_severity_max:
  assumes "f \<in> set fs"
  shows "sev_rank_of (NormalizeSeverity (Severity f)) \<le> sev_rank_of (fst (merge_severity g fs))"
proof (cases "SeverityRank (NormalizeSeverity (Severity f)) = None")
  case True
  then show ?thesis using sev_rank_nonneg [of "fst (merge_severity g fs)"] by (simp add: rank_or_zero_def)
next
  case False
  then have "NormalizeSeverity (Severity f) \<in> known_severities fs" using assms by (auto simp: known_severities_def)
  then show ?thesis using top_is_max [of "NormalizeSeverity (Severity f)" "known_severities fs"]
    by (auto simp: merge_severity_eq Let_def)
qed

end
