(* ===== verification/GoAscii.thy ===== *)
theory GoAscii
  imports GoText
begin

text \<open>
  Case mapping and trimming of ASCII text: on it \<^verbatim>\<open>strings.TrimSpace\<close> drops blanks at both ends, and
  normalising twice, by either case, is the same as normalising once.
\<close>

definition blank :: "char \<Rightarrow> bool" where
  "blank c \<longleftrightarrow> unicode_IsSpace (byte c)"

lemma ascii_case_table:
  "list_all (\<lambda>n. unicode_ToUpper n < 128 \<and> unicode_ToUpper (unicode_ToUpper n) = unicode_ToUpper n \<and>
     unicode_IsSpace (unicode_ToUpper n) = unicode_IsSpace n \<and>
     unicode_ToLower n < 128 \<and> unicode_ToLower (unicode_ToLower n) = unicode_ToLower n \<and>
     unicode_IsSpace (unicode_ToLower n) = unicode_IsSpace n) [0..<128]"
  by code_simp

lemma ascii_case:
  assumes "n < 128"
  shows "unicode_ToUpper n < 128" "unicode_ToUpper (unicode_ToUpper n) = unicode_ToUpper n"
    "unicode_IsSpace (unicode_ToUpper n) = unicode_IsSpace n"
    "unicode_ToLower n < 128" "unicode_ToLower (unicode_ToLower n) = unicode_ToLower n"
    "unicode_IsSpace (unicode_ToLower n) = unicode_IsSpace n"
proof -
  have "n \<in> set [0..<128]" using assms by simp
  note bspec [OF ascii_case_table [unfolded list_all_iff] this]
  then show "unicode_ToUpper n < 128" "unicode_ToUpper (unicode_ToUpper n) = unicode_ToUpper n"
    "unicode_IsSpace (unicode_ToUpper n) = unicode_IsSpace n"
    "unicode_ToLower n < 128" "unicode_ToLower (unicode_ToLower n) = unicode_ToLower n"
    "unicode_IsSpace (unicode_ToLower n) = unicode_IsSpace n" by blast+
qed

lemma trim_left_ascii: "is_ascii s \<Longrightarrow> trim_left s = dropWhile blank s"
proof (induction s)
  case (Cons c s)
  then have "decode_rune (c # s) = (byte c, 1)" by (simp add: is_ascii_def rune_width_def split: prod.splits)
  with Cons show ?case by (subst trim_left.simps) (simp add: blank_def [symmetric] is_ascii_def del: decode_rune.simps)
qed (simp add: trim_left.simps)

lemma trim_right_ascii: "is_ascii s \<Longrightarrow> trim_right s = rev (dropWhile blank (rev s))"
proof (induction s rule: rev_induct)
  case (snoc c s)
  then have "decode_last_rune (s @ [c]) = (byte c, 1)" by (simp add: is_ascii_def decode_last_rune_def)
  with snoc show ?case by (subst trim_right.simps) (simp add: blank_def [symmetric] is_ascii_def)
qed (simp add: trim_right.simps)

lemma is_ascii_dropWhile: "is_ascii s \<Longrightarrow> is_ascii (dropWhile P s)" "is_ascii (rev s) = is_ascii s"
  by (auto simp: is_ascii_def list_all_iff dest: set_dropWhileD)

lemma TrimSpace_ascii: "is_ascii s \<Longrightarrow> TrimSpace s = rev (dropWhile blank (rev (dropWhile blank s)))"
  by (simp add: TrimSpace_def trim_left_ascii trim_right_ascii is_ascii_dropWhile)

lemma hd_dropWhile_rev:
  "s = [] \<or> \<not> P (hd s) \<Longrightarrow> rev (dropWhile P (rev s)) = [] \<or> \<not> P (hd (rev (dropWhile P (rev s))))"
proof (induction s rule: rev_induct)
  case (snoc c s)
  then show ?case by (cases s) auto
qed simp

lemma trimmed_fixed:
  "s = [] \<or> \<not> P (hd s) \<Longrightarrow> dropWhile P s = s"
  by (cases s) auto

lemma trim_lists_idem:
  fixes P defines "t \<equiv> \<lambda>s. rev (dropWhile P (rev (dropWhile P s)))"
  shows "t (t s) = t s"
proof -
  have "t s = [] \<or> \<not> P (hd (t s))"
    unfolding t_def by (rule hd_dropWhile_rev) (metis hd_dropWhile)
  then have "dropWhile P (t s) = t s" by (rule trimmed_fixed)
  then show ?thesis by (simp add: t_def)
qed

text \<open>On ASCII text trimming and mapping to one case, done twice, is the same as done once.\<close>

lemma ascii_map_trim:
  assumes "is_ascii s" and f: "\<And>n. n < 128 \<Longrightarrow> f n < 128 \<and> f (f n) = f n \<and> unicode_IsSpace (f n) = unicode_IsSpace n"
  defines "m \<equiv> map (\<lambda>c. char_of (f (byte c)) :: char)"
  shows "is_ascii (m (TrimSpace s)) \<and> m (TrimSpace (m (TrimSpace s))) = m (TrimSpace s)"
proof -
  let ?g = "\<lambda>c. char_of (f (byte c)) :: char"
  have g: "byte (?g c) = f (byte c)" if "byte c < (128 :: nat)" for c
    using f [OF that] by simp
  have t: "is_ascii (TrimSpace s)" using assms(1) by (simp add: TrimSpace_ascii is_ascii_dropWhile)
  have b: "byte c < (128 :: nat)" if "c \<in> set (TrimSpace s)" for c using t that by (simp add: is_ascii_def list_all_iff)
  have asc: "is_ascii (m (TrimSpace s))" using b f g by (simp add: is_ascii_def list_all_iff m_def)
  have blank: "(blank \<circ> ?g) c = blank c" if "c \<in> set (TrimSpace s)" for c
    using f [OF b [OF that]] g [OF b [OF that]] by (simp add: blank_def)
  have move: "dropWhile blank (map ?g w) = map ?g (dropWhile blank w)" if "set w \<subseteq> set (TrimSpace s)" for w
    using blank that by (simp add: dropWhile_map cong: dropWhile_cong) (metis (no_types, lifting) dropWhile_cong subsetD)
  have "TrimSpace (m (TrimSpace s)) = m (TrimSpace (TrimSpace s))"
    unfolding TrimSpace_ascii [OF asc] TrimSpace_ascii [OF t] unfolding m_def move [OF subset_refl] rev_map
    by (subst move) (auto simp: rev_map dest: set_dropWhileD)
  moreover have "TrimSpace (TrimSpace s) = TrimSpace s"
    using trim_lists_idem [of blank s] unfolding TrimSpace_ascii [OF t] unfolding TrimSpace_ascii [OF assms(1)] .
  moreover have "m (m (TrimSpace s)) = m (TrimSpace s)"
    using b f g by (simp add: m_def)
  ultimately show ?thesis using asc by simp
qed

lemma canonical_ascii:
  assumes "is_ascii s"
  shows "is_ascii (ToLower (TrimSpace s))" "ToLower (TrimSpace (ToLower (TrimSpace s))) = ToLower (TrimSpace s)"
    "is_ascii (ToUpper (TrimSpace s))" "ToUpper (TrimSpace (ToUpper (TrimSpace s))) = ToUpper (TrimSpace s)"
proof -
  have t: "is_ascii (TrimSpace w)" if "is_ascii w" for w
    using that by (simp add: TrimSpace_ascii is_ascii_dropWhile)
  have l: "is_ascii (map (\<lambda>c. char_of (unicode_ToLower (byte c)) :: char) (TrimSpace s))"
    "map (\<lambda>c. char_of (unicode_ToLower (byte c)) :: char) (TrimSpace (map (\<lambda>c. char_of (unicode_ToLower (byte c))) (TrimSpace s)))
      = map (\<lambda>c. char_of (unicode_ToLower (byte c))) (TrimSpace s)"
    using ascii_map_trim [OF assms, of unicode_ToLower] ascii_case by blast+
  have u: "is_ascii (map (\<lambda>c. char_of (unicode_ToUpper (byte c)) :: char) (TrimSpace s))"
    "map (\<lambda>c. char_of (unicode_ToUpper (byte c)) :: char) (TrimSpace (map (\<lambda>c. char_of (unicode_ToUpper (byte c))) (TrimSpace s)))
      = map (\<lambda>c. char_of (unicode_ToUpper (byte c))) (TrimSpace s)"
    using ascii_map_trim [OF assms, of unicode_ToUpper] ascii_case by blast+
  show "is_ascii (ToLower (TrimSpace s))" "ToLower (TrimSpace (ToLower (TrimSpace s))) = ToLower (TrimSpace s)"
    using l t [OF assms] t [OF l(1)] by (simp_all add: ToLower_def)
  show "is_ascii (ToUpper (TrimSpace s))" "ToUpper (TrimSpace (ToUpper (TrimSpace s))) = ToUpper (TrimSpace s)"
    using u t [OF assms] t [OF u(1)] by (simp_all add: ToUpper_def)
qed

end
