(* ===== verification/Gate.thy ===== *)
theory Gate
  imports JsonMerge GoAscii
begin

text \<open>
  The gate that decides the exit code: \<^verbatim>\<open>internal/reconcile/gate.go\<close> without the driver \<^verbatim>\<open>RunReconcile\<close>.
  An error is its kind with the value it names. The files \<^verbatim>\<open>ValidateRequireVerified\<close> looks at are
  arguments: what decoding them gave. The theorems compose the gate with the passes around it: the
  consensus filter, the derivation of records, the routing and the merge of clusters.
\<close>

subsection \<open>Thresholds\<close>

datatype gate_error = InvalidThreshold string

definition ParseSeverity :: "string \<Rightarrow> gate_error + string" where
  "ParseSeverity s =
     (let t = ToUpper (TrimSpace s) in
      if t = SevCritical then Inr SevCritical else if t = SevHigh then Inr SevHigh
      else if t = SevMedium then Inr SevMedium else if t = SevLow then Inr SevLow
      else Inl (InvalidThreshold s))"

definition AtOrAbove :: "string \<Rightarrow> string \<Rightarrow> bool" where
  "AtOrAbove severity threshold =
     (case SeverityRank (NormalizeSeverity threshold) of
        None \<Rightarrow> False
      | Some tr \<Rightarrow> rank_or_zero SeverityRank (NormalizeSeverity severity) \<ge> tr)"

subsection \<open>The predicate and the counts\<close>

definition IsFailing :: "string \<Rightarrow> string \<Rightarrow> verification option \<Rightarrow> string \<Rightarrow> bool \<Rightarrow> bool" where
  "IsFailing severity category v threshold requireVerified =
     (if ToLower (TrimSpace category) = CategoryOutOfScope then False
      else let verdict = (case v of None \<Rightarrow> [] | Some b \<Rightarrow> ToLower (TrimSpace (Verdict b))) in
        if verdict = VerdictRefuted then False
        else if \<not> AtOrAbove (ToUpper (TrimSpace severity)) (ToUpper (TrimSpace threshold)) then False
        else if requireVerified \<and> verdict \<noteq> VerdictConfirmed then False
        else True)"

definition CountAtOrAbove :: "merged list \<Rightarrow> string \<Rightarrow> bool \<Rightarrow> nat" where
  "CountAtOrAbove findings threshold requireVerified =
     fold (\<lambda>f n. if IsFailing (Severity f) (Category f) (Verification f) threshold requireVerified
                 then n + 1 else n) findings 0"

definition CountFailingJSON :: "jsonFinding list \<Rightarrow> string \<Rightarrow> bool \<Rightarrow> nat" where
  "CountFailingJSON findings threshold requireVerified =
     fold (\<lambda>f n. if IsFailing (jfSeverity f) (jfCategory f) (jfVerification f) threshold requireVerified
                 then n + 1 else n) findings 0"

subsection \<open>Warnings about an empty gate\<close>

datatype gate_warning = VerifyNotRun | AllUnverifiable nat

text \<open>\<open>verdicts\<close> is \<open>None\<close> when \<^verbatim>\<open>verification.json\<close> cannot be read or decoded.\<close>

definition allUnverifiableCollapse :: "string list option \<Rightarrow> gate_warning option" where
  "allUnverifiableCollapse verdicts =
     (case verdicts of
        None \<Rightarrow> None
      | Some vs \<Rightarrow>
          if length vs = 0 then None
          else if list_ex (\<lambda>v. ToLower (TrimSpace v) \<noteq> VerdictUnverifiable) vs then None
          else Some (AllUnverifiable (length vs)))"

text \<open>
  \<open>ver\<close> is \<open>None\<close> when there is no regular file \<^verbatim>\<open>verification.json\<close>, \<open>stages\<close> when \<^verbatim>\<open>manifest.json\<close> cannot
  be read or decoded.
\<close>

definition ValidateRequireVerified :: "string list option option \<Rightarrow> string list option \<Rightarrow> gate_warning option" where
  "ValidateRequireVerified ver stages =
     (case ver of
        Some verdicts \<Rightarrow> allUnverifiableCollapse verdicts
      | None \<Rightarrow>
          (case stages of
             Some ss \<Rightarrow> if list_ex (\<lambda>s. s = ''verify'') ss then None else Some VerifyNotRun
           | None \<Rightarrow> Some VerifyNotRun))"

subsection \<open>Basic facts\<close>

definition failing :: "string \<Rightarrow> bool \<Rightarrow> merged \<Rightarrow> bool" where
  "failing t rv m = IsFailing (Severity m) (Category m) (Verification m) t rv"

definition failing_json :: "string \<Rightarrow> bool \<Rightarrow> jsonFinding \<Rightarrow> bool" where
  "failing_json t rv f = IsFailing (jfSeverity f) (jfCategory f) (jfVerification f) t rv"

lemma fold_count: "fold (\<lambda>x n. if P x then n + 1 else n) xs (k :: nat) = k + length (filter P xs)"
  by (induction xs arbitrary: k) simp_all

lemma CountAtOrAbove_filter: "CountAtOrAbove ms t rv = length (filter (failing t rv) ms)"
  using fold_count [of "failing t rv" ms 0] by (simp add: CountAtOrAbove_def failing_def)

lemma CountFailingJSON_filter: "CountFailingJSON fs t rv = length (filter (failing_json t rv) fs)"
  using fold_count [of "failing_json t rv" fs 0] by (simp add: CountFailingJSON_def failing_json_def)

lemma normal_levels:
  "NormalizeSeverity ''CRITICAL'' = ''CRITICAL''" "NormalizeSeverity ''HIGH'' = ''HIGH''"
  "NormalizeSeverity ''MEDIUM'' = ''MEDIUM''" "NormalizeSeverity ''LOW'' = ''LOW''"
  by code_simp+

lemma normal_known: "SeverityRank s \<noteq> None \<Longrightarrow> NormalizeSeverity s = s"
  unfolding SeverityRank_known by (auto simp: normal_levels)

text \<open>The predicate over normal forms: a severity and a threshold of the rubric are compared by rank.\<close>

lemma IsFailing_iff:
  assumes "SeverityRank (NormalizeSeverity s) \<noteq> None" and "SeverityRank t = Some r"
  shows "IsFailing s c v t rv \<longleftrightarrow>
    canonical c \<noteq> CategoryOutOfScope \<and> r \<le> sev_rank_of (NormalizeSeverity s) \<and>
    (let w = (case v of None \<Rightarrow> [] | Some b \<Rightarrow> canonical (Verdict b)) in
     w \<noteq> VerdictRefuted \<and> (rv \<longrightarrow> w = VerdictConfirmed))"
proof -
  have s: "NormalizeSeverity (ToUpper (TrimSpace s)) = NormalizeSeverity s"
    using normal_known [OF assms(1)] by (simp add: NormalizeSeverity_def)
  have "SeverityRank t \<noteq> None" using assms(2) by simp
  note t1 = normal_known [OF this]
  then have t: "NormalizeSeverity (ToUpper (TrimSpace t)) = t" by (simp add: NormalizeSeverity_def)
  show ?thesis unfolding IsFailing_def AtOrAbove_def s t assms(2) canonical_def by (auto simp: Let_def)
qed

subsection \<open>The gate and the consensus filter\<close>

lemma groups_of_sources:
  assumes "accurate (fl rt)" "first_pass rt sources opts = Some (groups, amb)" "g \<in> set groups"
  shows "g \<noteq> []" "set g \<subseteq> set (AllFindings sources)"
proof -
  obtain groups' amb' gray noise where c: "first_pass rt sources opts = Some (groups', amb')"
    "mset (concat groups') + mset noise = mset (collapseIdentical (AllFindings sources))"
    by (rule first_pass_conserves [OF assms(1)])
  have "set (concat groups) \<subseteq> set (collapseIdentical (AllFindings sources))"
    using c assms(2) by (metis fst_conv mset_subset_eq_add_left option.inject set_mset_mono set_mset_mset)
  then show "set g \<subseteq> set (AllFindings sources)" using assms(3) set_collapseIdentical by fastforce
  show "g \<noteq> []" using first_pass_nonempty [OF assms(1,2)] assms(3) by blast
qed

lemma second_pass_group:
  assumes "m \<in> set (second_pass rt sources opts groups)"
  obtains g where "g \<in> set groups" "but_confidence m = but_confidence (Merge rt g)"
proof -
  have "but_confidence m \<in># mset (map but_confidence (second_pass rt sources opts groups))" using assms by simp
  then show thesis unfolding mset_second_pass using that by auto
qed

lemma merge_level:
  assumes "g \<noteq> []" "\<forall>f\<in>set g. SeverityRank (NormalizeSeverity (Severity f)) \<noteq> None"
  shows "SeverityRank (Severity (Merge rt g)) \<noteq> None"
proof -
  obtain f fs where g: "g = f # fs" using assms(1) by (cases g) auto
  have sev: "Severity (Merge rt g) = fst (merge_severity f g)"
    by (simp add: g Merge.simps(2) Let_def split: prod.splits)
  have "known_severities g \<noteq> {}" using assms by (auto simp: known_severities_def g)
  then have "Severity (Merge rt g) = top_severity (known_severities g)"
    unfolding sev by (simp add: merge_severity_eq Let_def)
  then show ?thesis by (simp add: top_severity_def)
qed

lemma failing_kept:
  assumes sev: "SeverityRank (Severity m) \<noteq> None" and "t \<in> {SevCritical, SevHigh}" "failing t rv m"
  shows "\<not> droppable rt bar p m"
proof -
  obtain r where r: "SeverityRank t = Some r" "3 \<le> r" using assms(2) by auto
  have "SeverityRank (NormalizeSeverity (Severity m)) \<noteq> None" using sev normal_known by metis
  from IsFailing_iff [OF this r(1)] assms(3) have "r \<le> sev_rank_of (NormalizeSeverity (Severity m))"
    unfolding failing_def by blast
  then have "3 \<le> sev_rank_of (Severity m)" using r(2) normal_known [OF sev] by simp
  moreover have "Severity m \<in> {''CRITICAL'', ''HIGH'', ''MEDIUM'', ''LOW''}" using sev SeverityRank_known by simp
  ultimately have "Severity m \<in> {SevCritical, SevHigh}" by (auto simp: rank_or_zero_def)
  then have "consensusExempt (finding.truncate m)" by (intro exempt_literals) blast
  then show ?thesis by (simp add: droppable_def)
qed

text \<open>
  C4. No consensus level hides a gating finding: when the severities of the sources are of the rubric,
  the findings that fail the gate at HIGH or CRITICAL are the same, in the same order, under any two
  consensus levels, with or without the requirement of a confirmed verdict, so the count that decides
  the exit code is the same.
\<close>

theorem gate_blind_to_consensus:
  assumes "threshold \<in> {SevCritical, SevHigh}"
    and "\<forall>f\<in>set (AllFindings sources). SeverityRank (NormalizeSeverity (Severity f)) \<noteq> None"
  shows "\<exists>r r'. Reconcile go_runtime sources (opts\<lparr>Consensus := c\<rparr>) = Some r \<and>
    Reconcile go_runtime sources (opts\<lparr>Consensus := c'\<rparr>) = Some r' \<and>
    filter (failing threshold rv) (resFindings r) = filter (failing threshold rv) (resFindings r') \<and>
    CountAtOrAbove (resFindings r) threshold rv = CountAtOrAbove (resFindings r') threshold rv"
proof -
  obtain groups amb where fp: "first_pass go_runtime sources opts = Some (groups, amb)"
    by (rule first_pass_conserves [OF accurate_runtimes(1)])
  let ?ms = "second_pass go_runtime sources opts groups" and ?P = "failing threshold rv"
  have keep: "\<not> droppable go_runtime bar p m" if m: "m \<in> set ?ms" "?P m" for m bar p
  proof -
    obtain g where g: "g \<in> set groups" "but_confidence m = but_confidence (Merge go_runtime g)"
      by (rule second_pass_group [OF m(1)])
    have "SeverityRank (Severity (Merge go_runtime g)) \<noteq> None"
      using merge_level groups_of_sources [OF accurate_runtimes(1) fp g(1)] assms(2) by blast
    then have "SeverityRank (Severity m) \<noteq> None" using but_confidence_fields(1) [OF g(2)] by simp
    then show ?thesis using failing_kept assms(1) m(2) by blast
  qed
  have filt: "filter ?P (fst (consensus_filter go_runtime l n p ?ms)) = filter ?P ?ms" for l n p
    using keep by (auto simp: consensus_filter_def split: prod.splits intro: filter_cong)
  have "\<exists>r. Reconcile go_runtime sources (opts\<lparr>Consensus := d\<rparr>) = Some r \<and> filter ?P (resFindings r) = filter ?P ?ms" for d
    using Reconcile_consensus [OF fp, of d] filt by auto
  then show ?thesis unfolding CountAtOrAbove_filter by metis
qed

definition panel_of_three :: "source list" where
  "panel_of_three =
     map (\<lambda>(r, sev, path). \<lparr>Name = r, Findings =
       [zero_finding\<lparr>File := path, Line := 3, Severity := sev, Problem := ''leak'', Reviewer := r\<rparr>]\<rparr>)
     [(''ann'', ''low'', ''a.go''), (''bo'', ''High'', ''b.go''), (''cy'', ''MEDIUM'', ''c.go'')]"

theorem gate_blind_to_consensus_witness:
  "\<exists>r r'. Reconcile go_runtime panel_of_three (no_options\<lparr>Consensus := ''strict''\<rparr>) = Some r \<and>
    Reconcile go_runtime panel_of_three (no_options\<lparr>Consensus := ''off''\<rparr>) = Some r' \<and>
    filter (failing SevHigh False) (resFindings r) = filter (failing SevHigh False) (resFindings r') \<and>
    CountAtOrAbove (resFindings r) SevHigh False = CountAtOrAbove (resFindings r') SevHigh False"
proof -
  have "list_all (\<lambda>f. SeverityRank (NormalizeSeverity (Severity f)) \<noteq> None) (AllFindings panel_of_three)" by code_simp
  then have "\<forall>f\<in>set (AllFindings panel_of_three). SeverityRank (NormalizeSeverity (Severity f)) \<noteq> None"
    by (simp only: list_all_iff)
  then show ?thesis
    by (intro gate_blind_to_consensus) auto
qed

subsection \<open>The gate over records\<close>

lemma failing_json_of_merged: "failing_json t rv (json_of_merged m) = failing t rv m"
  by (simp add: failing_json_def failing_def json_of_merged_def)

lemma failing_json_stamped:
  "failing_json t rv (f\<lparr>jfID := i\<rparr>) = failing_json t rv f"
  "failing_json t rv (f\<lparr>jfFallbackReviewers := fr\<rparr>) = failing_json t rv f"
  "failing_json t rv (recompute_record rt f) = failing_json t rv f"
  by (simp_all add: failing_json_def recompute_record_def Let_def split: prod.splits)

lemma derived_failing: "map (failing_json t rv) (JSONFindings rt None ms) = map (failing t rv) ms"
  by (simp add: JSONFindings_def stampFindingIDs_def failing_json_stamped failing_json_of_merged)

lemma stamped_failing:
  "map (failing_json t rv) (recomputeFallbackConfidence rt (stampFallbackProvenance fs ds)) = map (failing_json t rv) fs"
  by (simp add: recomputeFallbackConfidence_def stampFallbackProvenance_def Let_def failing_json_stamped
      cong: map_cong split: if_split)

lemma count_as_map: "length (filter P xs) = count_list (map P xs) True"
  by (induction xs) auto

lemma map_nths: "map f (nths xs A) = nths (map f xs) A"
  by (induction xs arbitrary: A) (simp_all add: nths_Cons)

lemma count_nths_split: "count_list (nths bs (- A)) x + count_list (nths bs A) x = count_list bs x"
  by (metis count_mset count_union mset_nths_split)

lemma keys_aligned:
  "map (\<lambda>f. (jfFile f, jfLine f, jfProblem f, jfSeverity f)) fs = map (\<lambda>m. (File m, Line m, Problem m, Severity m)) ms \<Longrightarrow>
   list_all2 (\<lambda>m f. jfFile f = File m \<and> jfLine f = Line m \<and> jfProblem f = Problem m \<and> jfSeverity f = Severity m) ms fs"
proof (induction fs arbitrary: ms)
  case (Cons f fs)
  then obtain m ms' where "ms = m # ms'" by (cases ms) auto
  then show ?case using Cons by simp
qed simp

text \<open>
  C5. One gate for both streams: records are derived from the merged findings, those at the given
  indices are routed out of both lists, and the rest get their fallback provenance and confidence.
  Then every record still stands beside the finding it came from, no record is lost, the gate counts
  as many failures over the records as over the findings, and the count falls by precisely the
  failures among the records routed out.
\<close>

theorem gate_over_records:
  assumes "\<forall>i\<in>set idx. i < length ms"
  shows "\<exists>keptMerged keptJSON routed.
    routeUnresolved ms (JSONFindings rt None ms) idx = Some (keptMerged, keptJSON, routed) \<and>
    (let emitted = recomputeFallbackConfidence rt (stampFallbackProvenance keptJSON ds) in
     list_all2 (\<lambda>m f. jfFile f = File m \<and> jfLine f = Line m \<and> jfProblem f = Problem m \<and> jfSeverity f = Severity m)
       keptMerged emitted \<and>
     mset keptJSON + mset routed = mset (JSONFindings rt None ms) \<and>
     CountFailingJSON emitted threshold rv = CountAtOrAbove keptMerged threshold rv \<and>
     CountAtOrAbove keptMerged threshold rv + CountFailingJSON routed threshold rv = CountAtOrAbove ms threshold rv)"
proof -
  let ?jf = "JSONFindings rt None ms" and ?A = "set idx" and ?F = "failing_json threshold rv"
  let ?km = "nths ms (- ?A)" and ?kj = "nths ?jf (- ?A)" and ?r = "nths ?jf ?A"
  let ?e = "recomputeFallbackConfidence rt (stampFallbackProvenance ?kj ds)"
  have len: "length ms = length ?jf" by (simp add: JSONFindings_def stampFindingIDs_def)
  have route: "routeUnresolved ms ?jf idx = Some (?km, ?kj, ?r)"
    using routeUnresolved_nths [of ms ?jf idx] len assms by simp
  have e: "map ?F ?e = map ?F ?kj" by (rule stamped_failing)
  have kj: "map ?F ?kj = map (failing threshold rv) ?km" by (simp add: map_nths derived_failing)
  have c1: "CountFailingJSON ?e threshold rv = CountAtOrAbove ?km threshold rv"
    unfolding CountFailingJSON_filter CountAtOrAbove_filter count_as_map e kj ..
  have c2: "CountAtOrAbove ?km threshold rv + CountFailingJSON ?r threshold rv = CountAtOrAbove ms threshold rv"
    unfolding CountFailingJSON_filter CountAtOrAbove_filter count_as_map map_nths derived_failing
    by (rule count_nths_split)
  let ?k = "\<lambda>f. (jfFile f, jfLine f, jfProblem f, jfSeverity f)"
  have keys: "map ?k ?e = map (\<lambda>m. (File m, Line m, Problem m, Severity m)) ?km"
  proof -
    have "?k (recompute_record rt f) = ?k f" for f
      by (simp add: recompute_record_def Let_def split: prod.splits)
    then have "map ?k ?e = map ?k ?kj"
      by (simp add: recomputeFallbackConfidence_def stampFallbackProvenance_def Let_def cong: map_cong split: if_split)
    moreover have "map ?k ?jf = map (\<lambda>m. (File m, Line m, Problem m, Severity m)) ms"
      by (simp add: JSONFindings_def stampFindingIDs_def json_of_merged_def)
    ultimately show ?thesis by (simp add: map_nths)
  qed
  have "list_all2 (\<lambda>m f. jfFile f = File m \<and> jfLine f = Line m \<and> jfProblem f = Problem m \<and> jfSeverity f = Severity m) ?km ?e"
    by (rule keys_aligned [OF keys])
  then show ?thesis using route mset_nths_split [of ?jf ?A] c1 c2 by (simp add: Let_def)
qed

definition two_merged :: "merged list" where
  "two_merged = [zero_merged\<lparr>Severity := ''HIGH''\<rparr>, zero_merged\<lparr>Severity := ''CRITICAL''\<rparr>]"

theorem gate_over_records_witness:
  "\<exists>keptMerged keptJSON routed.
    routeUnresolved two_merged (JSONFindings exact_runtime None two_merged) [1] = Some (keptMerged, keptJSON, routed) \<and>
    CountAtOrAbove keptMerged SevHigh False + CountFailingJSON routed SevHigh False = 2"
proof -
  have two: "CountAtOrAbove two_merged SevHigh False = 2" by code_simp
  have "\<forall>i\<in>set [1]. i < length two_merged" by (simp add: two_merged_def)
  from gate_over_records [OF this, of exact_runtime "[]" SevHigh False, unfolded Let_def two]
  show ?thesis by blast
qed

subsection \<open>The gate and the merge of clusters\<close>

lemma quotes_in_scope:
  assumes "q \<in> set qs" "canonical (sqCategory q) \<noteq> CategoryOutOfScope" "list_all (\<lambda>q. is_ascii (sqCategory q)) qs"
  shows "canonical (quotesCategory qs) \<noteq> CategoryOutOfScope"
proof -
  let ?ms = "map (\<lambda>q. zero_finding\<lparr>Category := sqCategory q\<rparr>) qs"
  have cs: "map (\<lambda>f. canonical (Category f)) ?ms = map (\<lambda>q. canonical (sqCategory q)) qs" by simp
  have "\<not> set (map (\<lambda>q. canonical (sqCategory q)) qs) \<subseteq> {CategoryOutOfScope}" using assms(1,2) by auto
  then have "quotesCategory qs \<in> set (map (\<lambda>q. canonical (sqCategory q)) qs) - {CategoryOutOfScope}"
    using ModalCategory_spec [of ?ms] unfolding cs quotesCategory_def by presburger
  then obtain p where p: "p \<in> set qs" "quotesCategory qs = canonical (sqCategory p)" "quotesCategory qs \<noteq> CategoryOutOfScope"
    by auto
  have "is_ascii (sqCategory p)" using assms(3) p(1) by (simp add: list_all_iff)
  then have "canonical (quotesCategory qs) = quotesCategory qs"
    unfolding p(2) canonical_def by (rule canonical_ascii(2))
  then show ?thesis using p(3) by simp
qed

lemma verdict_rank_cases:
  "VerdictRank w = (if canonical w = VerdictConfirmed then 3 else if canonical w = VerdictUnverifiable then 2
     else if canonical w = VerdictRefuted then 1 else 0)"
  by (simp add: VerdictRank_def canonical_def Let_def)

lemma merged_verdict:
  assumes "f \<in> set members" "jfVerification f = Some v" "2 \<le> VerdictRank (Verdict v)"
  obtains w where "mergeVerification members = Some w" "canonical (Verdict w) \<noteq> VerdictRefuted"
    "canonical (Verdict v) = VerdictConfirmed \<longrightarrow> canonical (Verdict w) = VerdictConfirmed"
proof -
  have v: "v \<in> set (blocks members)" using assms(1,2) set_blocks by blast
  then obtain w where w: "mergeVerification members = Some w"
    using mergeVerification_None [of members] by (cases "mergeVerification members") auto
  then obtain c :: verification where c: "\<forall>u\<in>set (blocks members). VerdictRank (Verdict u) \<le> VerdictRank (Verdict c)" "Verdict w = Verdict c"
    by (rule mergeVerification_Some) blast
  have le: "VerdictRank (Verdict v) \<le> VerdictRank (Verdict w)" using c v by simp
  have "canonical (Verdict w) \<noteq> VerdictRefuted"
    using le assms(3) by (auto simp: verdict_rank_cases split: if_splits)
  moreover have "canonical (Verdict v) = VerdictConfirmed \<longrightarrow> canonical (Verdict w) = VerdictConfirmed"
    using le by (auto simp: verdict_rank_cases split: if_splits)
  ultimately show thesis using w by (intro that [of w])
qed

lemma merged_level:
  assumes "f \<in> set fs" "SeverityRank (NormalizeSeverity (Severity f)) \<noteq> None"
  shows "SeverityRank (fst (merge_severity g fs)) \<noteq> None"
proof -
  have "known_severities fs \<noteq> {}" using assms by (auto simp: known_severities_def)
  then show ?thesis by (simp add: merge_severity_eq Let_def top_severity_def)
qed

text \<open>
  C6. Merging a cluster does not open the gate: when one of two or more records fails the gate at a known threshold, has a
  known severity, was found confirmed or unverifiable and has a quote in scope, and the categories quoted by the cluster are
  ASCII, the merged record fails the gate too, at the same threshold and under the same requirement, whatever the verdicts,
  severities and scopes of the others; and its severity is at least that of every member. The scope of the merged
  record is decided by the quotes, so a failing member all of whose quotes are out of scope is not covered.
\<close>

theorem merged_cluster_still_gates:
  assumes "2 \<le> length members" and "f \<in> set members"
    and "IsFailing (jfSeverity f) (jfCategory f) (jfVerification f) threshold rv"
    and "SeverityRank threshold \<noteq> None" and "SeverityRank (NormalizeSeverity (jfSeverity f)) \<noteq> None"
    and "jfVerification f = Some v" and "2 \<le> VerdictRank (Verdict v)"
    and "q \<in> set (fst (memberQuotes f))" and "canonical (sqCategory q) \<noteq> CategoryOutOfScope"
    and "list_all (\<lambda>p. is_ascii (sqCategory p)) (fst (union_quotes members))"
  shows "let m = MergeJSONFindings rt members in
    IsFailing (jfSeverity m) (jfCategory m) (jfVerification m) threshold rv \<and>
    (\<forall>g\<in>set members. sev_rank_of (NormalizeSeverity (jfSeverity g)) \<le> sev_rank_of (jfSeverity m))"
proof -
  let ?m = "MergeJSONFindings rt members" and ?sf = "map finding_of_json members"
  note M = merged_record [OF assms(1), of rt]
  have sevf: "Severity (finding_of_json g) = jfSeverity g" for g by (simp add: finding_of_json_def)
  have ge: "sev_rank_of (NormalizeSeverity (jfSeverity g)) \<le> sev_rank_of (jfSeverity ?m)" if "g \<in> set members" for g
    using merged_severity_max [of "finding_of_json g" ?sf] that by (simp add: M(1) sevf)
  have known: "SeverityRank (jfSeverity ?m) \<noteq> None"
    using merged_level [of "finding_of_json f" ?sf] assms(2,5) by (simp add: M(1) sevf)
  obtain r where r: "SeverityRank threshold = Some r" using assms(4) by blast
  from IsFailing_iff [OF assms(5) r] assms(3,6) have f: "r \<le> sev_rank_of (NormalizeSeverity (jfSeverity f))"
    "rv \<longrightarrow> canonical (Verdict v) = VerdictConfirmed" by (simp_all add: Let_def)
  obtain w where w: "mergeVerification members = Some w" "canonical (Verdict w) \<noteq> VerdictRefuted"
    "canonical (Verdict v) = VerdictConfirmed \<longrightarrow> canonical (Verdict w) = VerdictConfirmed"
    by (rule merged_verdict [OF assms(2,6,7)])
  have "q \<in> set (fst (union_quotes members))" using assms(2,8) by (auto simp: union_quotes_def)
  then have cat: "canonical (jfCategory ?m) \<noteq> CategoryOutOfScope"
    unfolding M(3) by (rule quotes_in_scope [OF _ assms(9,10)])
  have norm: "NormalizeSeverity (jfSeverity ?m) = jfSeverity ?m" by (rule normal_known [OF known])
  have "IsFailing (jfSeverity ?m) (jfCategory ?m) (jfVerification ?m) threshold rv"
    using IsFailing_iff [of "jfSeverity ?m" threshold r] known r cat ge [OF assms(2)] f w
    unfolding norm M(4) by (simp add: Let_def)
  then show ?thesis using ge by (simp add: Let_def)
qed

definition cluster_pair :: "jsonFinding list" where
  "cluster_pair =
     [zero_jsonFinding\<lparr>jfSeverity := ''high'', jfCategory := ''leak'', jfReviewers := [''ann''],
        jfVerification := Some \<lparr>Verdict = ''confirmed'', Skeptic = ''sam'', Notes = [], ChallengeSurvived = False, Truncated = False\<rparr>\<rparr>,
      zero_jsonFinding\<lparr>jfSeverity := ''LOW'', jfCategory := ''out-of-scope'', jfReviewers := [''bo''],
        jfVerification := Some \<lparr>Verdict = ''refuted'', Skeptic = ''tim'', Notes = [], ChallengeSurvived = False, Truncated = False\<rparr>\<rparr>]"

theorem merged_cluster_still_gates_witness:
  "let m = MergeJSONFindings exact_runtime cluster_pair in
    IsFailing (jfSeverity m) (jfCategory m) (jfVerification m) SevHigh True \<and>
    (\<forall>g\<in>set cluster_pair. sev_rank_of (NormalizeSeverity (jfSeverity g)) \<le> sev_rank_of (jfSeverity m))"
proof -
  let ?f = "cluster_pair ! 0"
  have h: "2 \<le> length cluster_pair" "IsFailing (jfSeverity ?f) (jfCategory ?f) (jfVerification ?f) SevHigh True"
    "SeverityRank SevHigh \<noteq> None" "SeverityRank (NormalizeSeverity (jfSeverity ?f)) \<noteq> None"
    "jfVerification ?f = Some (the (jfVerification ?f))" "2 \<le> VerdictRank (Verdict (the (jfVerification ?f)))"
    "canonical (sqCategory (fst (memberQuotes ?f) ! 0)) \<noteq> CategoryOutOfScope"
    "list_all (\<lambda>p. is_ascii (sqCategory p)) (fst (union_quotes cluster_pair))" by code_simp+
  have "?f \<in> set cluster_pair" "fst (memberQuotes ?f) ! 0 \<in> set (fst (memberQuotes ?f))"
    by (simp_all add: cluster_pair_def memberQuotes_def zero_jsonFinding_def)
  from merged_cluster_still_gates [OF h(1) this(1) h(2-6) this(2) h(7,8)] show ?thesis .
qed

text \<open>
  The condition on the verdict is needed: a record no skeptic has judged stops failing the gate when it
  is merged with a refuted one, since an absent verdict ranks below every other.
\<close>

lemma unjudged_member_masked:
  "let pair = [zero_jsonFinding\<lparr>jfSeverity := ''HIGH'', jfCategory := ''leak''\<rparr>, cluster_pair ! 1]
   in CountFailingJSON pair SevHigh False = 1 \<and> CountFailingJSON [MergeJSONFindings exact_runtime pair] SevHigh False = 0"
  by code_simp

end
