(* ===== verification/Radar.thy ===== *)
theory Radar
  imports Gate
begin

text \<open>
  The disagreement radar: \<^verbatim>\<open>internal/reconcile/disagree.go\<close> without its Markdown rendering. A set of keys
  that is only looked up is the list of its keys. The scores are \<^verbatim>\<open>float64\<close>, computed with the rounding of
  the \<open>runtime\<close>. The theorems say which findings and clusters the radar shows, in which order, and that
  the spread it reads from an annotation is the spread of the severities that were merged.
\<close>

subsection \<open>Items\<close>

definition DisagreementsSchemaVersion :: string where "DisagreementsSchemaVersion = ''1.0''"
definition IndependenceModelReviewerCount :: string where
  "IndependenceModelReviewerCount = ''distinct-reviewer-count''"

definition KindSeveritySplit :: string where "KindSeveritySplit = ''severity_split''"
definition KindSoloFinding :: string where "KindSoloFinding = ''solo_finding''"
definition KindGrayZone :: string where "KindGrayZone = ''gray_zone''"
definition KindVerificationDisagreement :: string where
  "KindVerificationDisagreement = ''verification_disagreement''"

record position =
  posReviewer :: string
  posSeverity :: string
  posProblem :: string

record disagreementItem =
  itKind :: string
  itFile :: string
  itLine :: int
  itSeverity :: string
  itProblem :: string
  itScore :: rat
  itSpread :: int
  itIndependence :: int
  itReviewers :: "string list"
  itDisagreement :: string
  itSkeptics :: string
  itDetail :: string
  itPositions :: "position list"

record disagreementsFile =
  dfSchemaVersion :: string
  dfIndependenceModel :: string
  dfItems :: "disagreementItem list"

subsection \<open>Predicates\<close>

definition categoryIsOutOfScope :: "string \<Rightarrow> bool" where
  "categoryIsOutOfScope c \<longleftrightarrow> ToLower (TrimSpace c) = CategoryOutOfScope"

definition allOutOfScope :: "finding list \<Rightarrow> bool" where
  "allOutOfScope fs = (if length fs = 0 then False else list_all (\<lambda>f. categoryIsOutOfScope (Category f)) fs)"

definition locationKey :: "string \<Rightarrow> int \<Rightarrow> string" where
  "locationKey fname line = fname @ [CHR 0x00] @ Itoa line"

definition canonVerdict :: "string \<Rightarrow> string" where
  "canonVerdict s = ToLower (TrimSpace s)"

definition isRefutedJSON :: "jsonFinding \<Rightarrow> bool" where
  "isRefutedJSON f = (case jfVerification f of None \<Rightarrow> False | Some v \<Rightarrow> canonVerdict (Verdict v) = VerdictRefuted)"

definition isVerificationTie :: "verification option \<Rightarrow> bool" where
  "isVerificationTie v =
     (case v of None \<Rightarrow> False
      | Some b \<Rightarrow> if canonVerdict (Verdict b) \<noteq> VerdictUnverifiable then False
                 else length (splitNames (Skeptic b)) \<ge> 2)"

subsection \<open>Spread and score\<close>

definition spreadFromDisagreement :: "string \<Rightarrow> int" where
  "spreadFromDisagreement d =
     (case SplitN2 d '' vs '' of
        [p0, p1] \<Rightarrow>
          (let lo = rank_or_zero SeverityRank (NormalizeSeverity p0);
               hi = rank_or_zero SeverityRank (NormalizeSeverity p1)
           in if hi < lo then 0 else hi - lo)
      | _ \<Rightarrow> 0)"

definition scoreFor :: "runtime \<Rightarrow> int \<Rightarrow> int \<Rightarrow> int \<Rightarrow> rat" where
  "scoreFor rt spread independence sevRank =
     (if spread > 0 then fl rt (fl rt (of_int spread) * fl rt (of_int independence)) else fl rt (of_int sevRank))"

definition atLeastOne :: "int \<Rightarrow> int" where
  "atLeastOne n = (if n < 1 then 1 else n)"

subsection \<open>Items of findings\<close>

definition independence_of :: "jsonFinding \<Rightarrow> int" where
  "independence_of f = atLeastOne (int (distinctReviewerCount (jfReviewers f) (jfFallbackReviewers f)))"

definition severitySplitItem :: "runtime \<Rightarrow> jsonFinding \<Rightarrow> disagreementItem" where
  "severitySplitItem rt f =
     (let spread = spreadFromDisagreement (jfDisagreement f); indep = independence_of f in
      \<lparr>itKind = KindSeveritySplit, itFile = jfFile f, itLine = jfLine f, itSeverity = jfSeverity f,
       itProblem = jfProblem f,
       itScore = scoreFor rt spread indep (rank_or_zero SeverityRank (NormalizeSeverity (jfSeverity f))),
       itSpread = spread, itIndependence = indep, itReviewers = jfReviewers f,
       itDisagreement = jfDisagreement f, itSkeptics = [], itDetail = [], itPositions = []\<rparr>)"

definition soloItem :: "runtime \<Rightarrow> jsonFinding \<Rightarrow> disagreementItem" where
  "soloItem rt f =
     (let indep = independence_of f in
      \<lparr>itKind = KindSoloFinding, itFile = jfFile f, itLine = jfLine f, itSeverity = jfSeverity f,
       itProblem = jfProblem f,
       itScore = scoreFor rt 0 indep (rank_or_zero SeverityRank (NormalizeSeverity (jfSeverity f))),
       itSpread = 0, itIndependence = indep, itReviewers = jfReviewers f,
       itDisagreement = [], itSkeptics = [], itDetail = [], itPositions = []\<rparr>)"

definition verificationItem :: "runtime \<Rightarrow> jsonFinding \<Rightarrow> disagreementItem" where
  "verificationItem rt f =
     (let spread = spreadFromDisagreement (jfDisagreement f); indep = independence_of f;
          (skeptic, notes) = (case jfVerification f of None \<Rightarrow> ([], []) | Some v \<Rightarrow> (Skeptic v, Notes v)) in
      \<lparr>itKind = KindVerificationDisagreement, itFile = jfFile f, itLine = jfLine f,
       itSeverity = jfSeverity f, itProblem = jfProblem f,
       itScore = scoreFor rt spread indep (rank_or_zero SeverityRank (NormalizeSeverity (jfSeverity f))),
       itSpread = spread, itIndependence = indep, itReviewers = jfReviewers f,
       itDisagreement = jfDisagreement f, itSkeptics = skeptic, itDetail = notes, itPositions = []\<rparr>)"

subsection \<open>Items of clusters\<close>

text \<open>\<^verbatim>\<open>strconv.FormatFloat(x, 'f', 2, 64)\<close>: the exact value rounded to two decimals, ties to even.\<close>

definition FormatFloat2 :: "rat \<Rightarrow> string" where
  "FormatFloat2 x =
     (let n = round_half_even (\<bar>x\<bar> * 100) in
      (if x < 0 then ''-'' else []) @ Itoa (n div 100) @ ''.'' @ Itoa (n div 10 mod 10) @ Itoa (n mod 10))"

definition ClusterDisplayProblem :: "finding list \<Rightarrow> string" where
  "ClusterDisplayProblem fs =
     fold (\<lambda>f best. if length (Problem f) > length best then Problem f else best) fs []"

definition sortedKeys :: "string list \<Rightarrow> string list" where
  "sortedKeys ks = sort (distinct_keys ks)"

definition gray_step :: "finding \<Rightarrow> int \<times> int \<times> string \<Rightarrow> int \<times> int \<times> string" where
  "gray_step f st =
     (case st of (maxRank, minRank, maxSev) \<Rightarrow>
        let norm = NormalizeSeverity (Severity f) in
        case SeverityRank norm of
          None \<Rightarrow> st
        | Some r \<Rightarrow>
            (if r > maxRank then r else maxRank, if r < minRank then r else minRank,
             if r > maxRank then norm else maxSev))"

definition grayZoneItem :: "runtime \<Rightarrow> ambiguousCluster \<Rightarrow> (string \<times> string) list \<Rightarrow> disagreementItem" where
  "grayZoneItem rt c reviewerFallback =
     (let fs = ambFindings c;
          (maxRank, minRank, maxSev) = fold gray_step fs (0, 2 ^ 31, []);
          spread = (if maxRank > 0 \<and> minRank \<le> maxRank then maxRank - minRank else 0);
          maxSev = (if maxSev = [] \<and> length fs > 0 then NormalizeSeverity (Severity (fs ! 0)) else maxSev);
          reviewers = sortedKeys (filter (\<lambda>r. r \<noteq> []) (map Reviewer fs));
          clusterFallback = restrict_fallbacks reviewerFallback reviewers;
          indep = atLeastOne (int (distinctReviewerCount reviewers clusterFallback));
          score = scoreFor rt spread indep (rank_or_zero SeverityRank maxSev);
          score = (if score = 0 \<and> length fs > 0 then 1 else score) in
      \<lparr>itKind = KindGrayZone, itFile = ambFile c, itLine = ambLine c, itSeverity = maxSev,
       itProblem = ClusterDisplayProblem fs, itScore = score, itSpread = spread, itIndependence = indep,
       itReviewers = reviewers, itDisagreement = [], itSkeptics = [],
       itDetail = ''similarity '' @ FormatFloat2 (Similarity c),
       itPositions = map (\<lambda>f. \<lparr>posReviewer = Reviewer f, posSeverity = Severity f, posProblem = Problem f\<rparr>) fs\<rparr>)"

subsection \<open>The radar\<close>

definition item_key :: "disagreementItem \<Rightarrow> rat \<times> int \<times> string \<times> int \<times> string \<times> string" where
  "item_key it =
     (- itScore it, - rank_or_zero SeverityRank (NormalizeSeverity (itSeverity it)), itFile it, itLine it,
      itKind it, itProblem it)"

definition sortDisagreements :: "disagreementItem list \<Rightarrow> disagreementItem list" where
  "sortDisagreements its = sort_key item_key its"

definition gray_keys :: "ambiguousCluster list \<Rightarrow> string list" where
  "gray_keys clusters = concat (map (\<lambda>c. map (\<lambda>f. locationKey (File f) (Line f)) (ambFindings c)) clusters)"

definition finding_item :: "runtime \<Rightarrow> string list \<Rightarrow> jsonFinding \<Rightarrow> disagreementItem option" where
  "finding_item rt grayKeys f =
     (if isRefutedJSON f then None
      else if categoryIsOutOfScope (jfCategory f) then None
      else if locationKey (jfFile f) (jfLine f) \<in> set grayKeys then None
      else if isVerificationTie (jfVerification f) then Some (verificationItem rt f)
      else if jfDisagreement f \<noteq> [] then Some (severitySplitItem rt f)
      else if length (jfReviewers f) = 0 then None
      else if length (jfReviewers f) = 1 then Some (soloItem rt f)
      else None)"

text \<open>The fallback targets of all records; the entries of one record have different keys.\<close>

definition run_fallbacks :: "jsonFinding list \<Rightarrow> (string \<times> string) list" where
  "run_fallbacks fs =
     fold (\<lambda>f m. fold (\<lambda>(rev, target) m. if target = [] then m else AList.update rev target m)
                   (jfFallbackReviewers f) m) fs []"

definition shown_cluster :: "ambiguousCluster \<Rightarrow> bool" where
  "shown_cluster c \<longleftrightarrow> \<not> (length (ambFindings c) = 0 \<or> allOutOfScope (ambFindings c))"

definition BuildDisagreements :: "runtime \<Rightarrow> jsonFinding list \<Rightarrow> ambiguousCluster list \<Rightarrow> disagreementsFile" where
  "BuildDisagreements rt fs clusters =
     (let items = List.map_filter (finding_item rt (gray_keys clusters)) fs;
          reviewerFallback = run_fallbacks fs;
          items = items @ map (\<lambda>c. grayZoneItem rt c reviewerFallback) (filter shown_cluster clusters)
      in \<lparr>dfSchemaVersion = DisagreementsSchemaVersion, dfIndependenceModel = IndependenceModelReviewerCount,
          dfItems = sortDisagreements items\<rparr>)"

subsection \<open>Spread of an annotation\<close>

definition levels :: "string list" where
  "levels = [SevCritical, SevHigh, SevMedium, SevLow]"

lemma rubric_known: "SeverityRank s \<noteq> None \<longleftrightarrow> s \<in> set levels"
  unfolding SeverityRank_known levels_def by auto

lemma spread_table:
  "list_all (\<lambda>lo. list_all (\<lambda>hi. spreadFromDisagreement (lo @ '' vs '' @ hi) = max 0 (sev_rank_of hi - sev_rank_of lo) \<and>
      NormalizeSeverity (hd (SplitN2 (lo @ '' vs '' @ hi) '' vs '')) = lo) levels) levels"
  by code_simp

lemma spread_level:
  assumes "SeverityRank lo \<noteq> None" "SeverityRank hi \<noteq> None"
  shows "spreadFromDisagreement (lo @ '' vs '' @ hi) = max 0 (sev_rank_of hi - sev_rank_of lo)"
    "NormalizeSeverity (hd (SplitN2 (lo @ '' vs '' @ hi) '' vs '')) = lo"
proof -
  have "lo \<in> set levels" "hi \<in> set levels" using assms rubric_known by blast+
  from bspec [OF bspec [OF spread_table [unfolded list_all_iff] this(1)] this(2)]
  show "spreadFromDisagreement (lo @ '' vs '' @ hi) = max 0 (sev_rank_of hi - sev_rank_of lo)"
    "NormalizeSeverity (hd (SplitN2 (lo @ '' vs '' @ hi) '' vs '')) = lo" by blast+
qed

lemma spread_none: "spreadFromDisagreement [] = 0"
  by code_simp

lemma known_bottom: "SeverityRank (bottom_severity S) \<noteq> None" "SeverityRank (top_severity S) \<noteq> None"
  by (simp_all add: bottom_severity_def top_severity_def)

lemma bottom_is_min: "s \<in> S \<Longrightarrow> SeverityRank s \<noteq> None \<Longrightarrow> sev_rank_of (bottom_severity S) \<le> sev_rank_of s"
  unfolding rubric_known by (auto simp: levels_def bottom_severity_def rank_or_zero_def)

text \<open>
  The radar reads back what the merge wrote: for every group the spread it finds in the severity
  annotation of the merged finding is the distance between the highest and the lowest severity of the
  rubric that a member was given, and zero when there are none.
\<close>

theorem annotation_spread:
  "spreadFromDisagreement (Disagreement (Merge rt members)) =
     (let R = sev_rank_of ` known_severities members in if R = {} then 0 else Max R - Min R)"
proof (cases members)
  case Nil
  then show ?thesis by (simp add: zero_merged_def zero_finding_def finding.extend_def spread_none known_severities_def)
next
  case (Cons f fs)
  let ?S = "known_severities members"
  have d: "Disagreement (Merge rt members) = snd (merge_severity f members)"
    by (simp add: Cons Merge.simps(2) Let_def split: prod.splits)
  show ?thesis
  proof (cases "?S = {}")
    case True
    then show ?thesis by (simp add: d merge_severity_eq spread_none)
  next
    case False
    have sub: "?S \<subseteq> {SevCritical, SevHigh, SevMedium, SevLow}"
      using SeverityRank_known by (auto simp: known_severities_def)
    have fin: "finite (sev_rank_of ` ?S)" using sub by (meson finite.emptyI finite.insertI finite_imageI finite_subset)
    have top: "top_severity ?S \<in> ?S" and bot: "bottom_severity ?S \<in> ?S"
      using sub False by (auto simp: top_severity_def bottom_severity_def)
    have known: "SeverityRank s \<noteq> None" if "s \<in> ?S" for s using that by (simp add: known_severities_def)
    have "Max (sev_rank_of ` ?S) = sev_rank_of (top_severity ?S)"
      using fin top top_is_max by (intro Max_eqI) auto
    moreover have "Min (sev_rank_of ` ?S) = sev_rank_of (bottom_severity ?S)"
      using fin bot bottom_is_min known by (intro Min_eqI) auto
    moreover have "sev_rank_of (bottom_severity ?S) \<le> sev_rank_of (top_severity ?S)" using top_is_max [OF bot] .
    moreover have "snd (merge_severity f members) = (if top_severity ?S = bottom_severity ?S then []
        else bottom_severity ?S @ '' vs '' @ top_severity ?S)" using False by (simp add: merge_severity_eq Let_def)
    ultimately show ?thesis using False spread_level(1) [OF known_bottom, of ?S ?S] spread_none by (simp add: d Let_def)
  qed
qed

subsection \<open>The widest range\<close>

lemma consider_fold:
  assumes "SeverityRank s = Some r"
  shows "\<exists>r' s'. fold consider_range anns (r, s) = (r', s') \<and> SeverityRank s' = Some r' \<and> r' \<le> r \<and>
    (\<forall>a\<in>set anns. a \<noteq> [] \<longrightarrow> (\<forall>l. SeverityRank (NormalizeSeverity (hd (SplitN2 a '' vs ''))) = Some l \<longrightarrow> r' \<le> l))"
  using assms
proof (induction anns arbitrary: r s)
  case (Cons a anns)
  obtain r1 s1 where st: "consider_range a (r, s) = (r1, s1)" by (metis surj_pair)
  have one: "SeverityRank s1 = Some r1" "r1 \<le> r"
    "a \<noteq> [] \<longrightarrow> (\<forall>l. SeverityRank (NormalizeSeverity (hd (SplitN2 a '' vs ''))) = Some l \<longrightarrow> r1 \<le> l)"
    using st Cons.prems by (auto simp: consider_range_def Let_def split: if_splits option.splits)
  obtain r' s' where ih: "fold consider_range anns (r1, s1) = (r', s')" "SeverityRank s' = Some r'" "r' \<le> r1"
    "\<forall>a\<in>set anns. a \<noteq> [] \<longrightarrow> (\<forall>l. SeverityRank (NormalizeSeverity (hd (SplitN2 a '' vs ''))) = Some l \<longrightarrow> r' \<le> l)"
    using Cons.IH [OF one(1)] by blast
  show ?case
  proof (intro exI conjI)
    show "fold consider_range (a # anns) (r, s) = (r', s')" using ih(1) st by simp
    show "SeverityRank s' = Some r'" "r' \<le> r" using ih(2,3) one(2) by simp_all
    show "\<forall>b\<in>set (a # anns). b \<noteq> [] \<longrightarrow> (\<forall>l. SeverityRank (NormalizeSeverity (hd (SplitN2 b '' vs ''))) = Some l \<longrightarrow> r' \<le> l)"
      using ih(3,4) one(3) by (metis order_trans set_ConsD)
  qed
qed simp

text \<open>
  Merging a cluster never narrows a recorded tension: when a member carries the range from a level
  of the rubric to its own severity, the spread of the merged record's annotation is at least the spread
  of the member's, although the merge compares single severities.
\<close>

theorem merge_never_narrows:
  assumes "2 \<le> length members" and "f \<in> set members" and "SeverityRank (jfSeverity f) \<noteq> None"
    and "SeverityRank lo \<noteq> None" and "jfDisagreement f = lo @ '' vs '' @ jfSeverity f"
  shows "spreadFromDisagreement (jfDisagreement f) \<le> spreadFromDisagreement (jfDisagreement (MergeJSONFindings rt members))"
proof -
  let ?sf = "map finding_of_json members" and ?g = "finding_of_json (members ! 0)"
  obtain mx sc where ms: "merge_severity ?g ?sf = (mx, sc)" by (metis surj_pair)
  note M = merged_record [OF assms(1), of rt]
  have sevf: "Severity (finding_of_json f) = jfSeverity f" "NormalizeSeverity (jfSeverity f) = jfSeverity f"
    using normal_known [OF assms(3)] by (simp_all add: finding_of_json_def)
  have mxk: "SeverityRank mx \<noteq> None" using merged_level [of "finding_of_json f" ?sf ?g] assms(2,3) sevf ms by simp
  then obtain R where R: "SeverityRank mx = Some R" "sev_rank_of mx = R" by (auto simp: rank_or_zero_def)
  have ge: "sev_rank_of (jfSeverity f) \<le> R"
    using merged_severity_max [of "finding_of_json f" ?sf ?g] assms(2) sevf ms R(2) by simp
  obtain r' s' where w: "fold consider_range (sc # map jfDisagreement members) (R, mx) = (r', s')"
    "SeverityRank s' = Some r'" "r' \<le> R"
    "\<forall>a\<in>set (sc # map jfDisagreement members). a \<noteq> [] \<longrightarrow>
       (\<forall>l. SeverityRank (NormalizeSeverity (hd (SplitN2 a '' vs ''))) = Some l \<longrightarrow> r' \<le> l)"
    using consider_fold [OF R(1)] by blast
  obtain l where l: "SeverityRank lo = Some l" "sev_rank_of lo = l" using assms(4) by (auto simp: rank_or_zero_def)
  have "r' \<le> l" using w(4) assms(2,5) spread_level(2) [OF assms(4,3)] l(1) by auto
  have d: "jfDisagreement (MergeJSONFindings rt members) = (if r' < R then s' @ '' vs '' @ mx else sc)"
    unfolding M(2) unfolding M(1) ms by (simp add: widestDisagreement_def R(2) w(1) [simplified] Let_def)
  have f: "spreadFromDisagreement (jfDisagreement f) = max 0 (sev_rank_of (jfSeverity f) - l)"
    unfolding assms(5) using spread_level(1) [OF assms(4,3)] l(2) by simp
  show ?thesis
  proof (cases "r' < R")
    case True
    have "spreadFromDisagreement (s' @ '' vs '' @ mx) = max 0 (R - r')"
      using spread_level(1) [of s' mx] w(2) R by (simp add: rank_or_zero_def)
    then show ?thesis unfolding d f using True \<open>r' \<le> l\<close> ge by simp
  next
    case False
    have "0 \<le> spreadFromDisagreement sc" by (auto simp: spreadFromDisagreement_def Let_def split: list.splits)
    then show ?thesis unfolding d f using False w(3) \<open>r' \<le> l\<close> ge by simp
  qed
qed

definition range_pair :: "jsonFinding list" where
  "range_pair = [zero_jsonFinding\<lparr>jfSeverity := ''HIGH'', jfDisagreement := ''LOW vs HIGH''\<rparr>,
     zero_jsonFinding\<lparr>jfSeverity := ''MEDIUM''\<rparr>]"

theorem merge_never_narrows_witness:
  "2 \<le> spreadFromDisagreement (jfDisagreement (MergeJSONFindings exact_runtime range_pair))"
proof -
  have h: "2 \<le> length range_pair" "SeverityRank (jfSeverity (range_pair ! 0)) \<noteq> None" "SeverityRank ''LOW'' \<noteq> None"
    "jfDisagreement (range_pair ! 0) = ''LOW'' @ '' vs '' @ jfSeverity (range_pair ! 0)"
    "spreadFromDisagreement (jfDisagreement (range_pair ! 0)) = 2" by code_simp+
  have "range_pair ! 0 \<in> set range_pair" by (simp add: range_pair_def)
  from merge_never_narrows [OF h(1) this h(2-4), of exact_runtime] show ?thesis unfolding h(5) .
qed

subsection \<open>What the radar shows\<close>

definition tension :: "jsonFinding \<Rightarrow> bool" where
  "tension f \<longleftrightarrow> \<not> isRefutedJSON f \<and> \<not> categoryIsOutOfScope (jfCategory f) \<and>
     (isVerificationTie (jfVerification f) \<or> jfDisagreement f \<noteq> [] \<or> length (jfReviewers f) = 1)"

definition about :: "jsonFinding \<Rightarrow> disagreementItem \<Rightarrow> bool" where
  "about f it \<longleftrightarrow> itFile it = jfFile f \<and> itLine it = jfLine f \<and> itSeverity it = jfSeverity f \<and>
     itProblem it = jfProblem f \<and> itReviewers it = jfReviewers f \<and> itKind it \<noteq> KindGrayZone"

lemma items_about:
  "about f (verificationItem rt f)" "about f (severitySplitItem rt f)" "about f (soloItem rt f)"
  by (simp_all add: about_def verificationItem_def severitySplitItem_def soloItem_def Let_def
      KindGrayZone_def KindVerificationDisagreement_def KindSeveritySplit_def KindSoloFinding_def split: prod.splits)

lemma finding_item_Some:
  "finding_item rt gk f = Some it \<Longrightarrow> tension f \<and> locationKey (jfFile f) (jfLine f) \<notin> set gk \<and> about f it"
  using items_about [of f rt] by (auto simp: finding_item_def tension_def split: if_splits)

lemma finding_item_tension:
  "tension f \<Longrightarrow> locationKey (jfFile f) (jfLine f) \<notin> set gk \<Longrightarrow> \<exists>it. finding_item rt gk f = Some it"
  by (auto simp: finding_item_def tension_def)

lemma set_map_filter_eq: "set (List.map_filter h xs) = {y. \<exists>x\<in>set xs. h x = Some y}"
  by (force simp: map_filter_def)

lemma radar_items:
  "it \<in> set (dfItems (BuildDisagreements rt fs clusters)) \<longleftrightarrow>
     (\<exists>f\<in>set fs. finding_item rt (gray_keys clusters) f = Some it) \<or>
     (\<exists>c\<in>set clusters. shown_cluster c \<and> it = grayZoneItem rt c (run_fallbacks fs))"
  by (auto simp: BuildDisagreements_def sortDisagreements_def set_map_filter_eq Let_def)

lemma set_gray_keys: "k \<in> set (gray_keys clusters) \<longleftrightarrow> (\<exists>c\<in>set clusters. \<exists>m\<in>set (ambFindings c). k = locationKey (File m) (Line m))"
  by (auto simp: gray_keys_def)

lemma grayZoneItem_fields:
  "itKind (grayZoneItem rt c fb) = KindGrayZone" "itFile (grayZoneItem rt c fb) = ambFile c"
  "itLine (grayZoneItem rt c fb) = ambLine c" "itProblem (grayZoneItem rt c fb) = ClusterDisplayProblem (ambFindings c)"
  by (simp_all add: grayZoneItem_def Let_def split: prod.splits)

lemma length_map_filter: "length (List.map_filter h xs) \<le> length xs"
  by (simp add: map_filter_def)

text \<open>
  C8. The radar is sound, complete and ranked: its items are ordered by score, severity, file, line, kind
  and problem; every item is a shown cluster or one finding that is in scope, not refuted, contested and
  at the location of no cluster member; every such finding and every cluster with a member in scope has
  an item; and there are at most as many items as findings and clusters.
\<close>

theorem radar_sound_complete:
  "let its = dfItems (BuildDisagreements rt fs clusters) in
     sorted (map item_key its) \<and> length its \<le> length fs + length clusters \<and>
     (\<forall>it\<in>set its. itKind it = KindGrayZone \<and> (\<exists>c\<in>set clusters. itFile it = ambFile c \<and> itLine it = ambLine c) \<or>
        (\<exists>f\<in>set fs. tension f \<and> about f it \<and>
           (\<forall>c\<in>set clusters. \<forall>m\<in>set (ambFindings c). locationKey (File m) (Line m) \<noteq> locationKey (itFile it) (itLine it)))) \<and>
     (\<forall>f\<in>set fs. tension f \<longrightarrow>
        (\<exists>it\<in>set its. about f it) \<or>
        (\<exists>c\<in>set clusters. \<exists>m\<in>set (ambFindings c). locationKey (File m) (Line m) = locationKey (jfFile f) (jfLine f))) \<and>
     (\<forall>c\<in>set clusters. (\<exists>m\<in>set (ambFindings c). \<not> categoryIsOutOfScope (Category m)) \<longrightarrow>
        (\<exists>it\<in>set its. itKind it = KindGrayZone \<and> itFile it = ambFile c \<and> itLine it = ambLine c))"
proof -
  let ?its = "dfItems (BuildDisagreements rt fs clusters)" and ?gk = "gray_keys clusters"
  have "sorted (map item_key ?its)" by (simp add: BuildDisagreements_def sortDisagreements_def Let_def)
  moreover have "length ?its \<le> length fs + length clusters"
    using length_map_filter [of "finding_item rt ?gk" fs] length_filter_le [of shown_cluster clusters]
    by (simp add: BuildDisagreements_def sortDisagreements_def Let_def add_mono)
  moreover have "itKind it = KindGrayZone \<and> (\<exists>c\<in>set clusters. itFile it = ambFile c \<and> itLine it = ambLine c) \<or>
      (\<exists>f\<in>set fs. tension f \<and> about f it \<and>
         (\<forall>c\<in>set clusters. \<forall>m\<in>set (ambFindings c). locationKey (File m) (Line m) \<noteq> locationKey (itFile it) (itLine it)))"
    if it: "it \<in> set ?its" for it
  proof -
    from it [unfolded radar_items] consider (f) f where "f \<in> set fs" "finding_item rt ?gk f = Some it"
      | (c) c where "c \<in> set clusters" "it = grayZoneItem rt c (run_fallbacks fs)" by blast
    then show ?thesis
    proof cases
      case f
      from finding_item_Some [OF f(2)] have "tension f" "about f it"
        "locationKey (itFile it) (itLine it) \<notin> set ?gk" by (simp_all add: about_def)
      then show ?thesis using f(1) unfolding set_gray_keys by metis
    next
      case c
      then show ?thesis by (auto simp: grayZoneItem_fields)
    qed
  qed
  moreover have "(\<exists>it\<in>set ?its. about f it) \<or>
      (\<exists>c\<in>set clusters. \<exists>m\<in>set (ambFindings c). locationKey (File m) (Line m) = locationKey (jfFile f) (jfLine f))"
    if f: "f \<in> set fs" "tension f" for f
  proof (cases "locationKey (jfFile f) (jfLine f) \<in> set ?gk")
    case True
    then show ?thesis unfolding set_gray_keys by metis
  next
    case False
    obtain it where "finding_item rt ?gk f = Some it" using finding_item_tension [OF f(2) False] by blast
    then show ?thesis using finding_item_Some f(1) radar_items by blast
  qed
  moreover have "\<exists>it\<in>set ?its. itKind it = KindGrayZone \<and> itFile it = ambFile c \<and> itLine it = ambLine c"
    if c: "c \<in> set clusters" "m \<in> set (ambFindings c)" "\<not> categoryIsOutOfScope (Category m)" for c m
  proof -
    have "shown_cluster c" using c(2,3) by (auto simp: shown_cluster_def allOutOfScope_def list_all_iff)
    then have "grayZoneItem rt c (run_fallbacks fs) \<in> set ?its" using c(1) radar_items by blast
    then show ?thesis using grayZoneItem_fields by blast
  qed
  ultimately show ?thesis unfolding Let_def by blast
qed

text \<open>A witness: a solo finding beside a gray pair in another file.\<close>

definition radar_solo :: jsonFinding where
  "radar_solo = zero_jsonFinding\<lparr>jfSeverity := ''CRITICAL'', jfFile := ''a.go'', jfLine := 3, jfReviewers := [''ann'']\<rparr>"

definition pair_at :: "string \<Rightarrow> string \<Rightarrow> ambiguousCluster" where
  "pair_at fname cat = \<lparr>ambID = ''amb-1'', ambFile = fname, ambLine = 3, Similarity = 1 / 2, ambFindings =
     [zero_finding\<lparr>File := fname, Line := 3, Category := cat, Reviewer := ''bo'', Problem := ''p''\<rparr>,
      zero_finding\<lparr>File := fname, Line := 3, Category := cat, Reviewer := ''cy'', Problem := ''q''\<rparr>]\<rparr>"

theorem radar_sound_complete_witness:
  "\<exists>it\<in>set (dfItems (BuildDisagreements exact_runtime [radar_solo] [pair_at ''b.go'' ''leak''])). about radar_solo it"
proof -
  let ?c = "pair_at ''b.go'' ''leak''"
  have "tension radar_solo" by code_simp
  moreover have "list_all (\<lambda>m. locationKey (File m) (Line m) \<noteq> locationKey (jfFile radar_solo) (jfLine radar_solo)) (ambFindings ?c)"
    by code_simp
  ultimately show ?thesis
    using radar_sound_complete [of exact_runtime "[radar_solo]" "[?c]"] by (simp add: Let_def list_all_iff)
qed

text \<open>
  A finding in scope is hidden by a cluster that is not shown: the locations of all clusters are
  excluded, also of those whose members are all out of scope and which get no item themselves.
\<close>

lemma hidden_by_unshown_cluster:
  "tension radar_solo \<and> dfItems (BuildDisagreements exact_runtime [radar_solo] [pair_at ''a.go'' ''out-of-scope'']) = []"
  by code_simp

text \<open>
  A critical solo finding does not always outrank a split between LOW and MEDIUM: five independent
  reviewers give the split the score five.
\<close>

lemma split_outranks_critical_solo:
  "map itSeverity (dfItems (BuildDisagreements exact_runtime
     [radar_solo, zero_jsonFinding\<lparr>jfSeverity := ''MEDIUM'', jfFile := ''b.go'', jfDisagreement := ''LOW vs MEDIUM'',
        jfReviewers := [''a'', ''b'', ''c'', ''d'', ''e'']\<rparr>] [])) = [''MEDIUM'', ''CRITICAL'']"
  by code_simp

end
