(* ===== verification/DebateRun.thy ===== *)
theory DebateRun
  imports Radar
begin

text \<open>
  The cross-examination stage as a function of what it reads: \<^verbatim>\<open>internal/debate/select.go\<close>, \<^verbatim>\<open>cluster.go\<close>, the
  rulings and the attempts of \<^verbatim>\<open>emit.go\<close>, the stage \<^verbatim>\<open>runDebate\<close> of \<^verbatim>\<open>debate.go\<close> and \<^verbatim>\<open>symbol_anchor.go\<close> of
  \<^verbatim>\<open>internal/reconcile\<close>. The debate of one item is a parameter here, stated as a locale and interpreted on
  \<^verbatim>\<open>debateOne\<close> in the theory \<open>Debate\<close>. The files of the review directory are arguments and results; the
  correction of \<^verbatim>\<open>verification.json\<close> and the log are left out.
\<close>

subsection \<open>Symbol anchors\<close>

definition safeSymbolAnchor :: "string \<Rightarrow> bool" where
  "safeSymbolAnchor name =
     (if name = [] then False
      else list_all (\<lambda>r. \<not> (r = 124 \<or> r = 40 \<or> r = 41) \<and> \<not> r \<le> 32) (decode_runes name))"

text \<open>\<open>None\<close> when no anchor was removed, which the code reports with its second result.\<close>

definition stripOneAnchor :: "string \<Rightarrow> string option" where
  "stripOneAnchor s =
     (if length s < 4 \<or> hd s \<noteq> CHR ''('' then None
      else let name = takeWhile (\<lambda>c. c \<noteq> CHR '')'') (tl s); rest = dropWhile (\<lambda>c. c \<noteq> CHR '')'') (tl s) in
        if rest = [] then None
        else if \<not> safeSymbolAnchor name then None
        else case tl rest of
          [] \<Rightarrow> None
        | c # after \<Rightarrow> if c \<noteq> CHR '' '' then None else Some after)"

lemma stripOneAnchor_shorter: "stripOneAnchor s = Some t \<Longrightarrow> length t < length s"
proof -
  assume "stripOneAnchor s = Some t"
  then obtain c where "tl (dropWhile (\<lambda>c. c \<noteq> CHR '')'') (tl s)) = c # t"
    by (auto simp: stripOneAnchor_def Let_def split: if_splits list.splits)
  then have "Suc (length t) = length (dropWhile (\<lambda>c. c \<noteq> CHR '')'') (tl s)) - 1" by (metis length_Cons length_tl)
  moreover have "length (dropWhile (\<lambda>c. c \<noteq> CHR '')'') (tl s)) \<le> length (tl s)" by (rule length_dropWhile_le)
  ultimately show ?thesis by simp
qed

function StripSymbolAnchors :: "string \<Rightarrow> string" where
  "StripSymbolAnchors problem =
     (case stripOneAnchor problem of None \<Rightarrow> problem | Some rest \<Rightarrow> StripSymbolAnchors rest)"
  by pat_completeness auto
termination
  by (relation "measure length") (auto dest: stripOneAnchor_shorter)

declare StripSymbolAnchors.simps [simp del]

text \<open>The resolver is \<open>None\<close> for a grouper that cannot name the enclosing block.\<close>

definition stampSymbolAnchors :: "(string \<Rightarrow> int \<Rightarrow> string) option \<Rightarrow> jsonFinding list \<Rightarrow> jsonFinding list" where
  "stampSymbolAnchors resolver jf =
     (case resolver of
        None \<Rightarrow> jf
      | Some enclosing \<Rightarrow>
          map (\<lambda>f. let name = enclosing (jfFile f) (jfLine f); prefix = ''('' @ name @ '') '' in
                   if \<not> safeSymbolAnchor name then f
                   else if has_prefix prefix (jfProblem f) then f
                   else f\<lparr>jfProblem := prefix @ jfProblem f\<rparr>) jf)"

subsection \<open>Configuration and selection\<close>

definition DefaultDebateMaxItems :: int where "DefaultDebateMaxItems = 5"

definition DefaultDebateTriggers :: "string list" where
  "DefaultDebateTriggers = [''severity_split'', ''gray_zone'', ''verification_disagreement'']"

record debateConfig =
  dcTriggers :: "string list"
  dcMaxItems :: "int option"
  dcAllowSingleModel :: bool
  dcMaxParallel :: int

record config =
  Triggers :: "string list"
  MaxItems :: int
  AllowSingleModel :: bool
  MaxParallel :: int

definition ResolveConfig :: "debateConfig \<Rightarrow> config" where
  "ResolveConfig dc =
     \<lparr>Triggers = (if length (dcTriggers dc) = 0 then DefaultDebateTriggers else dcTriggers dc),
      MaxItems = (case dcMaxItems dc of None \<Rightarrow> DefaultDebateMaxItems | Some n \<Rightarrow> n),
      AllowSingleModel = dcAllowSingleModel dc, MaxParallel = dcMaxParallel dc\<rparr>"

definition priority_key :: "disagreementItem \<Rightarrow> int \<times> rat \<times> string \<times> int \<times> string" where
  "priority_key it =
     (- rank_or_zero SeverityRank (NormalizeSeverity (itSeverity it)), - itScore it, itFile it, itLine it, itKind it)"

definition sortByPriority :: "disagreementItem list \<Rightarrow> disagreementItem list" where
  "sortByPriority its = sort_key priority_key its"

definition SelectItems :: "disagreementItem list \<Rightarrow> config \<Rightarrow> disagreementItem list \<times> disagreementItem list" where
  "SelectItems its cfg =
     (let matched = sortByPriority (filter (\<lambda>it. itKind it \<in> set (Triggers cfg)) its) in
      if MaxItems cfg \<le> 0 \<or> int (length matched) \<le> MaxItems cfg then (matched, [])
      else (take (nat (MaxItems cfg)) matched, drop (nat (MaxItems cfg)) matched))"

subsection \<open>Artifacts\<close>

type_synonym findingKey = "string \<times> int \<times> string"

record ruleApply =
  raVerdict :: string
  raSurvived :: bool
  raSeverity :: string
  raJudge :: string
  raReasoning :: string

record itemResult =
  irFile :: string
  irLine :: int
  irKind :: string
  irProblem :: string
  irOutcome :: string
  irReason :: string
  irUnresolvedAttempts :: int
  irOriginalSeverity :: string
  irSettledSeverity :: string
  irClusterDecision :: string
  irChallengeSurvived :: bool
  irSingleModel :: bool
  irProposer :: string
  irChallenger :: string
  irJudge :: string
  irReasoning :: string
  irTranscript :: string

record overflowItem =
  ovFile :: string
  ovLine :: int
  ovKind :: string
  ovSeverity :: string
  ovProblem :: string
  ovUnresolvedAttempts :: int
  ovReason :: string

record debateFile =
  dbItems :: "itemResult list"
  dbOverflow :: "overflowItem list"

definition OverflowAttemptsExhausted :: string where "OverflowAttemptsExhausted = ''unresolved_attempts_exhausted''"
definition maxUnresolvedAttempts :: int where "maxUnresolvedAttempts = 3"

definition OutcomeUphold :: string where "OutcomeUphold = ''uphold''"
definition OutcomeOverturn :: string where "OutcomeOverturn = ''overturn''"
definition OutcomeSplit :: string where "OutcomeSplit = ''split''"
definition OutcomeUnresolved :: string where "OutcomeUnresolved = ''unresolved''"
definition ClusterMerge :: string where "ClusterMerge = ''merge''"
definition ClusterSeparate :: string where "ClusterSeparate = ''separate''"

definition ReasonNoProposer :: string where "ReasonNoProposer = ''no_resolvable_proposer''"
definition ReasonInsufficientModels :: string where "ReasonInsufficientModels = ''insufficient_distinct_models''"
definition ReasonHarnessUnavailable :: string where "ReasonHarnessUnavailable = ''harness_unavailable''"
definition ReasonContextCancelled :: string where "ReasonContextCancelled = ''context_cancelled''"
definition ReasonNoClusterDecision :: string where "ReasonNoClusterDecision = ''no_cluster_decision''"

abbreviation item_fkey :: "disagreementItem \<Rightarrow> findingKey" where
  "item_fkey it \<equiv> (itFile it, itLine it, itProblem it)"

abbreviation json_fkey :: "jsonFinding \<Rightarrow> findingKey" where
  "json_fkey f \<equiv> (jfFile f, jfLine f, jfProblem f)"

abbreviation result_fkey :: "itemResult \<Rightarrow> findingKey" where
  "result_fkey ir \<equiv> (irFile ir, irLine ir, irProblem ir)"

abbreviation overflow_fkey :: "overflowItem \<Rightarrow> findingKey" where
  "overflow_fkey ov \<equiv> (ovFile ov, ovLine ov, ovProblem ov)"

subsection \<open>Filters of a re-run\<close>

definition deduplicateFindings :: "jsonFinding list \<Rightarrow> jsonFinding list" where
  "deduplicateFindings fs =
     rev (snd (fold (\<lambda>f (seen, out). if json_fkey f \<in> set seen then (seen, out) else (json_fkey f # seen, f # out)) fs ([], [])))"

definition filterAlreadyDebated :: "disagreementItem list \<Rightarrow> jsonFinding list \<Rightarrow> disagreementItem list" where
  "filterAlreadyDebated its fs =
     (let debated = map json_fkey
            (filter (\<lambda>f. case jfVerification f of None \<Rightarrow> False | Some v \<Rightarrow> ChallengeSurvived v) fs) in
      if length debated = 0 then its else filter (\<lambda>it. item_fkey it \<notin> set debated) its)"

type_synonym attempts = "(findingKey \<times> int) list"

definition int_at :: "('k \<times> int) list \<Rightarrow> 'k \<Rightarrow> int" where
  "int_at m k = (case map_of m k of None \<Rightarrow> 0 | Some n \<Rightarrow> n)"

definition withholdExhausted :: "disagreementItem list \<Rightarrow> attempts \<Rightarrow> disagreementItem list \<times> overflowItem list" where
  "withholdExhausted its atts =
     (if length atts = 0 then (its, [])
      else (filter (\<lambda>it. int_at atts (item_fkey it) < maxUnresolvedAttempts) its,
            map (\<lambda>it. \<lparr>ovFile = itFile it, ovLine = itLine it, ovKind = itKind it, ovSeverity = itSeverity it,
                       ovProblem = itProblem it, ovUnresolvedAttempts = int_at atts (item_fkey it),
                       ovReason = OverflowAttemptsExhausted\<rparr>)
              (filter (\<lambda>it. \<not> int_at atts (item_fkey it) < maxUnresolvedAttempts) its)))"

definition overflowItems :: "disagreementItem list \<Rightarrow> attempts \<Rightarrow> overflowItem list" where
  "overflowItems its atts =
     map (\<lambda>it. \<lparr>ovFile = itFile it, ovLine = itLine it, ovKind = itKind it, ovSeverity = itSeverity it,
                ovProblem = itProblem it, ovUnresolvedAttempts = int_at atts (item_fkey it), ovReason = []\<rparr>) its"

definition countsTowardWithholding :: "string \<Rightarrow> bool" where
  "countsTowardWithholding reason \<longleftrightarrow>
     \<not> (reason = ReasonContextCancelled \<or> reason = ReasonHarnessUnavailable \<or>
        reason = ReasonInsufficientModels \<or> reason = ReasonNoProposer)"

definition carryUnresolvedAttempts :: "int \<Rightarrow> string \<Rightarrow> int" where
  "carryUnresolvedAttempts prior reason = (if countsTowardWithholding reason then prior + 1 else prior)"

definition prior_item :: "itemResult \<Rightarrow> attempts \<Rightarrow> attempts" where
  "prior_item ir out =
     (if irOutcome ir \<noteq> OutcomeUnresolved then out
      else let n = irUnresolvedAttempts ir;
               n = (if n < 1 \<and> countsTowardWithholding (irReason ir) then 1 else n)
        in AList.update (result_fkey ir) n out)"

definition prior_overflow :: "overflowItem \<Rightarrow> attempts \<Rightarrow> attempts" where
  "prior_overflow ov out =
     (let n = ovUnresolvedAttempts ov;
          n = (if ovReason ov = OverflowAttemptsExhausted \<and> n < maxUnresolvedAttempts then maxUnresolvedAttempts else n)
      in if n < 1 then out
         else if n > int_at out (overflow_fkey ov) then AList.update (overflow_fkey ov) n out else out)"

text \<open>\<open>None\<close> is a \<^verbatim>\<open>debate.json\<close> that is absent or cannot be read.\<close>

definition priorUnresolvedAttempts :: "debateFile option \<Rightarrow> attempts" where
  "priorUnresolvedAttempts prior =
     (case prior of
        None \<Rightarrow> []
      | Some df \<Rightarrow> fold prior_overflow (dbOverflow df) (fold prior_item (dbItems df) []))"

subsection \<open>Clusters\<close>

definition collisionSentinelID :: string where "collisionSentinelID = ''atcr:collision''"

definition collision_cluster :: ambiguousCluster where
  "collision_cluster = \<lparr>ambID = collisionSentinelID, ambFile = [], ambLine = 0, Similarity = 0, ambFindings = []\<rparr>"

type_synonym cluster_index = "(findingKey \<times> ambiguousCluster) list"

definition index_step :: "ambiguousCluster \<Rightarrow> cluster_index \<Rightarrow> cluster_index" where
  "index_step c out =
     (let key = (ambFile c, ambLine c, ClusterDisplayProblem (ambFindings c)) in
      AList.update key (if map_of out key \<noteq> None then collision_cluster else c) out)"

definition indexClusters :: "ambiguousCluster list \<Rightarrow> cluster_index" where
  "indexClusters clusters = fold index_step clusters []"

definition suppressed_item :: "jsonFinding list \<Rightarrow> cluster_index option \<Rightarrow> disagreementItem \<Rightarrow> bool" where
  "suppressed_item fs clusterIdx it =
     (let flagged = filter (\<lambda>f. jfClusterMerged f \<and> jfClusterID f \<noteq> []) fs;
          found = (case clusterIdx of None \<Rightarrow> None | Some idx \<Rightarrow> map_of idx (item_fkey it)) in
      if itKind it \<noteq> KindGrayZone then False
      else case found of
        Some c \<Rightarrow> ambID c \<noteq> [] \<and> ambID c \<in> set (map jfClusterID flagged)
      | None \<Rightarrow> clusterIdx \<noteq> None \<and>
          locationKey (itFile it) (itLine it) \<in> set (map (\<lambda>f. locationKey (jfFile f) (jfLine f)) flagged))"

definition filterMergedClusters ::
  "disagreementItem list \<Rightarrow> jsonFinding list \<Rightarrow> cluster_index option \<Rightarrow> disagreementItem list" where
  "filterMergedClusters its fs clusterIdx =
     (if list_all (\<lambda>f. \<not> (jfClusterMerged f \<and> jfClusterID f \<noteq> [])) fs then its
      else filter (\<lambda>it. \<not> suppressed_item fs clusterIdx it) its)"

definition firstClusterRulingCollision :: "(findingKey \<times> ruleApply) list \<Rightarrow> ambiguousCluster list \<Rightarrow> string" where
  "firstClusterRulingCollision rulings clusters =
     (if length rulings = 0 then []
      else let ruledLocs = map (\<lambda>((fname, line, _), _). locationKey fname line) rulings in
        case find (\<lambda>m. locationKey (File m) (Line m) \<in> set ruledLocs) (concat (map ambFindings clusters)) of
          None \<Rightarrow> [] | Some m \<Rightarrow> File m @ '':'' @ Itoa (Line m))"

definition json_location :: "jsonFinding \<Rightarrow> string" where
  "json_location f = locationKey (jfFile f) (jfLine f)"

definition exact_member :: "ambiguousCluster \<Rightarrow> jsonFinding \<Rightarrow> bool" where
  "exact_member c f \<longleftrightarrow>
     (jfFile f, jfLine f, StripSymbolAnchors (jfProblem f)) \<in>
       set (map (\<lambda>m. (File m, Line m, StripSymbolAnchors (Problem m))) (ambFindings c))"

text \<open>The one record left at a member's location where another member matched exactly.\<close>

definition recovered_member :: "ambiguousCluster \<Rightarrow> jsonFinding list \<Rightarrow> jsonFinding \<Rightarrow> bool" where
  "recovered_member c fs f \<longleftrightarrow>
     \<not> exact_member c f \<and>
     json_location f \<in> set (map (\<lambda>m. locationKey (File m) (Line m)) (ambFindings c)) \<and>
     list_ex (\<lambda>g. exact_member c g \<and> json_location g = json_location f) fs \<and>
     length (filter (\<lambda>g. \<not> exact_member c g \<and> json_location g = json_location f) fs) = 1"

definition matched_member :: "ambiguousCluster \<Rightarrow> jsonFinding list \<Rightarrow> jsonFinding \<Rightarrow> bool" where
  "matched_member c fs f \<longleftrightarrow> exact_member c f \<or> recovered_member c fs f"

definition applyOneClusterMerge ::
  "runtime \<Rightarrow> jsonFinding list \<Rightarrow> ambiguousCluster \<Rightarrow> jsonFinding list \<times> bool" where
  "applyOneClusterMerge rt fs c =
     (if ambID c = [] then (fs, False)
      else let mt = matched_member c fs; members = filter mt fs in
        if length (filter (exact_member c) fs) = 0 \<or> length members < 2 then (fs, False)
        else if list_ex jfClusterMerged members then (fs, False)
        else let m = (MergeJSONFindings rt members)
                   \<lparr>jfFile := ambFile c, jfLine := ambLine c, jfClusterMerged := True, jfClusterID := ambID c\<rparr> in
          (takeWhile (\<lambda>f. \<not> mt f) fs @ m # filter (\<lambda>f. \<not> mt f) (tl (dropWhile (\<lambda>f. \<not> mt f) fs)), True))"

definition applyClusterMerges ::
  "runtime \<Rightarrow> jsonFinding list \<Rightarrow> ambiguousCluster list \<Rightarrow> jsonFinding list \<times> nat \<times> nat" where
  "applyClusterMerges rt fs clusters =
     fold (\<lambda>c (fs, applied, skipped).
             if length (ambFindings c) < 2 then (fs, applied, skipped + 1)
             else case applyOneClusterMerge rt fs c of (fs', ok) \<Rightarrow> (fs', if ok then applied + 1 else applied, skipped))
       clusters (fs, 0, 0)"

subsection \<open>Rulings\<close>

definition validVerdict :: "string \<Rightarrow> bool" where
  "validVerdict v \<longleftrightarrow> v = VerdictConfirmed \<or> v = VerdictRefuted \<or> v = VerdictUnverifiable"

definition apply_ruling :: "ruleApply \<Rightarrow> jsonFinding \<Rightarrow> jsonFinding" where
  "apply_ruling ra f0 =
     (let f = (if raSeverity ra \<noteq> [] then f0\<lparr>jfSeverity := raSeverity ra\<rparr> else f0);
          f = (case jfVerification f of
                 Some v \<Rightarrow> f\<lparr>jfVerification :=
                   Some (v\<lparr>Verdict := raVerdict ra, ChallengeSurvived := raSurvived ra, Truncated := False\<rparr>)\<rparr>
               | None \<Rightarrow> f\<lparr>jfVerification :=
                   Some \<lparr>Verdict = raVerdict ra, Skeptic = raJudge ra, Notes = raReasoning ra,
                         ChallengeSurvived = raSurvived ra, Truncated = False\<rparr>\<rparr>)
      in f\<lparr>jfConfidence := ConfidenceForVerdict (jfConfidence f) (raVerdict ra)\<rparr>)"

definition rules :: "(findingKey \<times> ruleApply) list \<Rightarrow> jsonFinding \<Rightarrow> ruleApply option" where
  "rules rulings f =
     (case map_of rulings (json_fkey f) of
        None \<Rightarrow> None | Some ra \<Rightarrow> if validVerdict (raVerdict ra) then Some ra else None)"

text \<open>The findings after the rulings, and the rulings that cleared a truncation caveat.\<close>

definition applyRulings ::
  "jsonFinding list \<Rightarrow> (findingKey \<times> ruleApply) list \<Rightarrow> jsonFinding list \<times> (findingKey \<times> ruleApply) list" where
  "applyRulings fs rulings =
     (map (\<lambda>f. case rules rulings f of None \<Rightarrow> f | Some ra \<Rightarrow> apply_ruling ra f) fs,
      fold (\<lambda>f cleared. case rules rulings f of
              None \<Rightarrow> cleared
            | Some ra \<Rightarrow>
                (case jfVerification f of
                   Some v \<Rightarrow> if Truncated v then AList.update (json_fkey f) ra cleared else cleared
                 | None \<Rightarrow> cleared)) fs [])"

definition ruling_Verdict :: "string \<Rightarrow> string" where
  "ruling_Verdict outcome =
     (if outcome = OutcomeUphold \<or> outcome = OutcomeSplit then VerdictConfirmed
      else if outcome = OutcomeOverturn then VerdictRefuted else [])"

definition ruleVerdict :: "itemResult \<Rightarrow> string" where
  "ruleVerdict ir = ruling_Verdict (irOutcome ir)"

definition splitSeverity :: "itemResult \<Rightarrow> string" where
  "splitSeverity ir = (if irOutcome ir = OutcomeSplit then irSettledSeverity ir else [])"
subsection \<open>The stage\<close>

record debateResult =
  rsSelected :: nat
  rsUpheld :: nat
  rsOverturned :: nat
  rsSplit :: nat
  rsUnresolved :: nat
  rsOverflow :: nat
  rsWithheld :: nat

definition tally :: "itemResult \<Rightarrow> debateResult \<Rightarrow> debateResult" where
  "tally ir res =
     (if irOutcome ir = OutcomeUphold then res\<lparr>rsUpheld := rsUpheld res + 1\<rparr>
      else if irOutcome ir = OutcomeOverturn then res\<lparr>rsOverturned := rsOverturned res + 1\<rparr>
      else if irOutcome ir = OutcomeSplit then res\<lparr>rsSplit := rsSplit res + 1\<rparr>
      else res\<lparr>rsUnresolved := rsUnresolved res + 1\<rparr>)"

definition zero_itemResult :: itemResult where
  "zero_itemResult =
     \<lparr>irFile = [], irLine = 0, irKind = [], irProblem = [], irOutcome = [], irReason = [],
      irUnresolvedAttempts = 0, irOriginalSeverity = [], irSettledSeverity = [], irClusterDecision = [],
      irChallengeSurvived = False, irSingleModel = False, irProposer = [], irChallenger = [], irJudge = [],
      irReasoning = [], irTranscript = []\<rparr>"

definition itemResult_for :: "disagreementItem \<Rightarrow> itemResult" where
  "itemResult_for it = zero_itemResult
     \<lparr>irFile := itFile it, irLine := itLine it, irKind := itKind it, irProblem := itProblem it,
      irOriginalSeverity := itSeverity it\<rparr>"

definition unresolved_result :: "disagreementItem \<Rightarrow> string \<Rightarrow> itemResult" where
  "unresolved_result it reason = (itemResult_for it)\<lparr>irOutcome := OutcomeUnresolved, irReason := reason\<rparr>"

definition rule_of :: "itemResult \<Rightarrow> ruleApply" where
  "rule_of ir =
     \<lparr>raVerdict = ruleVerdict ir, raSurvived = irChallengeSurvived ir, raSeverity = splitSeverity ir,
      raJudge = irJudge ir, raReasoning = irReasoning ir\<rparr>"

record itemOutcome =
  ocResult :: itemResult
  ocRule :: "(findingKey \<times> ruleApply) option"
  ocCluster :: "ambiguousCluster option"

text \<open>What the code does with the result of one debate: \<open>ocRule\<close> and \<open>ocCluster\<close> are \<open>None\<close> where it leaves its flags unset.\<close>

definition outcome_of :: "cluster_index option \<Rightarrow> disagreementItem \<Rightarrow> itemResult \<Rightarrow> itemOutcome" where
  "outcome_of clusterIdx it ir =
     (if irOutcome ir = OutcomeUnresolved then \<lparr>ocResult = ir, ocRule = None, ocCluster = None\<rparr>
      else if itKind it = KindGrayZone then
        (if irClusterDecision ir = ClusterMerge then
           \<lparr>ocResult = ir, ocRule = None,
            ocCluster = (case clusterIdx of None \<Rightarrow> None | Some idx \<Rightarrow> map_of idx (item_fkey it))\<rparr>
         else if irClusterDecision ir = ClusterSeparate then \<lparr>ocResult = ir, ocRule = None, ocCluster = None\<rparr>
         else \<lparr>ocResult = ir\<lparr>irReason := ReasonNoClusterDecision\<rparr>, ocRule = None, ocCluster = None\<rparr>)
      else \<lparr>ocResult = ir,
            ocRule = Some (item_fkey it, rule_of ir),
            ocCluster = None\<rparr>)"

definition carried :: "attempts \<Rightarrow> itemResult \<Rightarrow> itemResult" where
  "carried atts ir =
     (if irOutcome ir = OutcomeUnresolved
      then ir\<lparr>irUnresolvedAttempts := carryUnresolvedAttempts (int_at atts (result_fkey ir)) (irReason ir)\<rparr>
      else ir)"

text \<open>
  The circumstances of one run that the stage does not decide: whether the tool harness could be built,
  whether the context was cancelled when the turn of the i-th selected item came, and the debate of that
  item. \<open>debated\<close> is \<^verbatim>\<open>debateOne\<close> with the replies of the models of that run.
\<close>

record circumstances =
  harnessFailed :: bool
  cancelled :: "nat \<Rightarrow> bool"
  debated :: "nat \<Rightarrow> disagreementItem \<Rightarrow> itemResult"

definition item_result :: "circumstances \<Rightarrow> nat \<Rightarrow> disagreementItem \<Rightarrow> itemResult" where
  "item_result env i it =
     (if harnessFailed env then unresolved_result it ReasonHarnessUnavailable
      else if cancelled env i then unresolved_result it ReasonContextCancelled
      else debated env i it)"

definition outcomes_of ::
  "circumstances \<Rightarrow> cluster_index option \<Rightarrow> disagreementItem list \<Rightarrow> itemOutcome list" where
  "outcomes_of env clusterIdx selected =
     map (\<lambda>(i, it). outcome_of clusterIdx it (item_result env i it)) (List.enumerate 0 selected)"

definition debatable ::
  "runtime \<Rightarrow> jsonFinding list \<Rightarrow> ambiguousCluster list \<Rightarrow> disagreementItem list" where
  "debatable rt fs clusters =
     (let clusterIdx = (if length clusters > 0 then Some (indexClusters clusters) else None) in
      filterAlreadyDebated (filterMergedClusters (dfItems (BuildDisagreements rt fs clusters)) fs clusterIdx) fs)"

definition rulings_of :: "itemOutcome list \<Rightarrow> (findingKey \<times> ruleApply) list" where
  "rulings_of ocs = fold (\<lambda>oc m. case ocRule oc of None \<Rightarrow> m | Some (k, ra) \<Rightarrow> AList.update k ra m) ocs []"

record stage_output =
  soResult :: debateResult
  soFindings :: "jsonFinding list"
  soDebate :: debateFile
  soCleared :: "(findingKey \<times> ruleApply) list"

definition runDebate ::
  "runtime \<Rightarrow> config \<Rightarrow> circumstances \<Rightarrow> jsonFinding list \<Rightarrow> ambiguousCluster list \<Rightarrow> debateFile option \<Rightarrow> stage_output" where
  "runDebate rt cfg env findings0 clusters prior =
     (let findings = deduplicateFindings findings0;
          clusterIdx = (if length clusters > 0 then Some (indexClusters clusters) else None);
          atts = priorUnresolvedAttempts prior;
          (kept, withheld) = withholdExhausted (debatable rt findings clusters) atts;
          (selected, overflow) = SelectItems kept cfg;
          outcomes = outcomes_of env clusterIdx selected;
          items = map (\<lambda>oc. carried atts (ocResult oc)) outcomes;
          res = fold tally items \<lparr>rsSelected = length selected, rsUpheld = 0, rsOverturned = 0, rsSplit = 0,
                                  rsUnresolved = 0, rsOverflow = length overflow, rsWithheld = length withheld\<rparr>;
          rulings = rulings_of outcomes;
          mergeClusters = List.map_filter ocCluster outcomes;
          (findings, cleared) = (if length rulings > 0 then applyRulings findings rulings else (findings, []));
          findings = (if length mergeClusters > 0 then fst (applyClusterMerges rt findings mergeClusters) else findings)
      in \<lparr>soResult = res, soFindings = findings,
          soDebate = \<lparr>dbItems = items, dbOverflow = overflowItems overflow atts @ withheld\<rparr>,
          soCleared = cleared\<rparr>)"

subsection \<open>Selection\<close>

lemma triggered_split:
  "case SelectItems its cfg of (sel, ov) \<Rightarrow>
     sel @ ov = sortByPriority (filter (\<lambda>it. itKind it \<in> set (Triggers cfg)) its) \<and>
     (0 < MaxItems cfg \<longrightarrow> int (length sel) \<le> MaxItems cfg) \<and> (ov \<noteq> [] \<longrightarrow> int (length sel) = MaxItems cfg)"
  by (auto simp: SelectItems_def Let_def)

lemma sortByPriority_facts: "sorted (map priority_key (sortByPriority its))" "mset (sortByPriority its) = mset its"
  by (simp_all add: sortByPriority_def)

text \<open>
  Selection spends the cost cap on the worst disputes: the debated items and the overflow are together
  the triggered items in priority order (severity, score, file, line, kind), a positive cap bounds the
  debated items, an overflow means that the cap is used up, and no item left over comes before a debated one.
\<close>

theorem selection_by_priority:
  "case SelectItems its cfg of (sel, ov) \<Rightarrow>
     mset (sel @ ov) = mset (filter (\<lambda>it. itKind it \<in> set (Triggers cfg)) its) \<and>
     sorted (map priority_key (sel @ ov)) \<and>
     (0 < MaxItems cfg \<longrightarrow> int (length sel) \<le> MaxItems cfg) \<and> (ov \<noteq> [] \<longrightarrow> int (length sel) = MaxItems cfg) \<and>
     (\<forall>a\<in>set sel. \<forall>b\<in>set ov. priority_key a \<le> priority_key b)"
proof -
  obtain sel ov where s: "SelectItems its cfg = (sel, ov)" by (cases "SelectItems its cfg")
  have all: "sel @ ov = sortByPriority (filter (\<lambda>it. itKind it \<in> set (Triggers cfg)) its)"
    using triggered_split [of cfg its] s by simp
  have sorted: "sorted (map priority_key sel @ map priority_key ov)"
    using sortByPriority_facts(1) all by (metis map_append)
  have m: "mset (sel @ ov) = mset (filter (\<lambda>it. itKind it \<in> set (Triggers cfg)) its)"
    by (simp only: all sortByPriority_facts(2))
  show ?thesis
    using triggered_split [of cfg its] s sorted by (simp add: m sorted_append sortByPriority_facts(2) del: mset_append mset_filter)
qed

definition disputed :: "string \<Rightarrow> int \<Rightarrow> disagreementItem" where
  "disputed sev line =
     \<lparr>itKind = KindSeveritySplit, itFile = ''a.go'', itLine = line, itSeverity = sev, itProblem = ''leak'', itScore = 4,
      itSpread = 1, itIndependence = 1, itReviewers = [''ann''], itDisagreement = ''HIGH vs LOW'', itSkeptics = [], itDetail = [],
      itPositions = []\<rparr>"

theorem selection_by_priority_witness:
  "case SelectItems [disputed ''LOW'' 1, disputed ''HIGH'' 2]
       \<lparr>Triggers = DefaultDebateTriggers, MaxItems = 1, AllowSingleModel = False, MaxParallel = 4\<rparr> of (sel, ov) \<Rightarrow>
     ov \<noteq> [] \<and> int (length sel) = 1 \<and> (\<forall>a\<in>set sel. \<forall>b\<in>set ov. priority_key a \<le> priority_key b)"
proof -
  define cfg where "cfg = \<lparr>Triggers = DefaultDebateTriggers, MaxItems = 1, AllowSingleModel = False, MaxParallel = 4\<rparr>"
  define its where "its = [disputed ''LOW'' 1, disputed ''HIGH'' 2]"
  obtain sel ov where s: "SelectItems its cfg = (sel, ov)" by (cases "SelectItems its cfg")
  have "length (filter (\<lambda>it. itKind it \<in> set (Triggers cfg)) its) = 2"
    by (simp add: its_def cfg_def disputed_def KindSeveritySplit_def DefaultDebateTriggers_def)
  then have "ov \<noteq> []" using s by (auto simp: SelectItems_def Let_def cfg_def sortByPriority_def split: if_splits)
  then show ?thesis using selection_by_priority [of cfg its] s unfolding its_def [symmetric] cfg_def [symmetric] by (simp add: cfg_def)
qed

subsection \<open>Unique findings\<close>

definition first_occurrences :: "jsonFinding list \<Rightarrow> findingKey list \<Rightarrow> jsonFinding list" where
  "first_occurrences fs seen =
     rev (snd (fold (\<lambda>f (seen, out). if json_fkey f \<in> set seen then (seen, out) else (json_fkey f # seen, f # out)) fs (seen, [])))"

lemma dedup_fold:
  "snd (fold (\<lambda>f (seen, out). if json_fkey f \<in> set seen then (seen, out) else (json_fkey f # seen, f # out)) fs (seen, out)) =
     rev (first_occurrences fs seen) @ out"
proof (induction fs arbitrary: seen out)
  case (Cons f fs)
  show ?case
  proof (cases "json_fkey f \<in> set seen")
    case True
    then show ?thesis using Cons.IH [of seen out] by (simp add: first_occurrences_def)
  next
    case False
    then show ?thesis
      using Cons.IH [of "json_fkey f # seen" "f # out"] Cons.IH [of "json_fkey f # seen" "[f]"]
      by (simp add: first_occurrences_def)
  qed
qed (simp add: first_occurrences_def)

lemma first_occurrences_simps [simp]:
  "first_occurrences [] seen = []"
  "first_occurrences (f # fs) seen =
     (if json_fkey f \<in> set seen then first_occurrences fs seen else f # first_occurrences fs (json_fkey f # seen))"
proof -
  show "first_occurrences [] seen = []" by (simp add: first_occurrences_def)
  have "first_occurrences (f # fs) seen =
      rev (snd (fold (\<lambda>f (seen, out). if json_fkey f \<in> set seen then (seen, out) else (json_fkey f # seen, f # out)) fs
        (if json_fkey f \<in> set seen then (seen, []) else (json_fkey f # seen, [f]))))"
    by (simp add: first_occurrences_def)
  then show "first_occurrences (f # fs) seen =
     (if json_fkey f \<in> set seen then first_occurrences fs seen else f # first_occurrences fs (json_fkey f # seen))"
    by (simp only: dedup_fold split: if_split) simp
qed

lemma dedup_first: "deduplicateFindings fs = first_occurrences fs []"
  by (simp only: deduplicateFindings_def first_occurrences_def)

lemma first_occurrences_subset: "set (first_occurrences fs seen) \<subseteq> set fs"
proof (induction fs arbitrary: seen)
  case (Cons f fs)
  then show ?case by (simp add: subset_insertI2)
qed simp

lemma first_occurrences_keys: "json_fkey ` set (first_occurrences fs seen) = json_fkey ` set fs - set seen"
proof (induction fs arbitrary: seen)
  case (Cons f fs)
  show ?case
  proof (cases "json_fkey f \<in> set seen")
    case True
    then show ?thesis using Cons.IH [of seen] by auto
  next
    case False
    then show ?thesis using Cons.IH [of "json_fkey f # seen"] by auto
  qed
qed simp

lemma first_occurrences_distinct: "distinct (map json_fkey (first_occurrences fs seen))"
proof (induction fs arbitrary: seen)
  case (Cons f fs)
  have "json_fkey f \<notin> json_fkey ` set (first_occurrences fs (json_fkey f # seen))"
    by (simp add: first_occurrences_keys)
  then show ?case using Cons.IH by simp
qed simp

lemma dedup_facts:
  "set (deduplicateFindings fs) \<subseteq> set fs"
  "json_fkey ` set (deduplicateFindings fs) = json_fkey ` set fs"
  "distinct (map json_fkey (deduplicateFindings fs))"
  unfolding dedup_first
  by (rule first_occurrences_subset, simp only: first_occurrences_keys list.set Diff_empty, rule first_occurrences_distinct)

lemma unique_finding:
  "f \<in> set fs \<Longrightarrow> g \<in> set fs \<Longrightarrow> distinct (map json_fkey fs) \<Longrightarrow> json_fkey f = json_fkey g \<Longrightarrow> f = g"
  unfolding distinct_map by (blast dest: inj_onD)

lemma dedup_keeps_only:
  assumes "f \<in> set fs" "\<forall>g\<in>set fs. json_fkey g = json_fkey f \<longrightarrow> g = f"
  shows "f \<in> set (deduplicateFindings fs)"
proof -
  have "json_fkey f \<in> json_fkey ` set (deduplicateFindings fs)"
    using assms(1) unfolding dedup_facts(2) by blast
  then show ?thesis
  proof (rule imageE)
    fix g
    assume "json_fkey f = json_fkey g" and g: "g \<in> set (deduplicateFindings fs)"
    moreover have "g \<in> set fs" using g dedup_facts(1) by blast
    ultimately have "g = f" using assms(2) by simp
    then show ?thesis using g by simp
  qed
qed

subsection \<open>The parts of a run\<close>

lemma withhold_split:
  "withholdExhausted its atts = (kept, withheld) \<Longrightarrow>
     kept = filter (\<lambda>it. int_at atts (item_fkey it) < maxUnresolvedAttempts) its \<and>
     withheld = map (\<lambda>it. \<lparr>ovFile = itFile it, ovLine = itLine it, ovKind = itKind it, ovSeverity = itSeverity it,
                       ovProblem = itProblem it, ovUnresolvedAttempts = int_at atts (item_fkey it),
                       ovReason = OverflowAttemptsExhausted\<rparr>)
       (filter (\<lambda>it. \<not> int_at atts (item_fkey it) < maxUnresolvedAttempts) its)"
  by (auto simp: withholdExhausted_def int_at_def maxUnresolvedAttempts_def split: if_splits)

record run_parts =
  rpAttempts :: attempts
  rpIndex :: "cluster_index option"
  rpKept :: "disagreementItem list"
  rpWithheld :: "overflowItem list"
  rpSelected :: "disagreementItem list"
  rpOverflow :: "disagreementItem list"
  rpOutcomes :: "itemOutcome list"

definition parts_of ::
  "runtime \<Rightarrow> config \<Rightarrow> circumstances \<Rightarrow> jsonFinding list \<Rightarrow> ambiguousCluster list \<Rightarrow> debateFile option \<Rightarrow> run_parts" where
  "parts_of rt cfg env fs clusters prior =
     (let idx = (if length clusters > 0 then Some (indexClusters clusters) else None);
          atts = priorUnresolvedAttempts prior;
          wh = withholdExhausted (debatable rt (deduplicateFindings fs) clusters) atts;
          so = SelectItems (fst wh) cfg
      in \<lparr>rpAttempts = atts, rpIndex = idx, rpKept = fst wh, rpWithheld = snd wh, rpSelected = fst so,
          rpOverflow = snd so, rpOutcomes = outcomes_of env idx (fst so)\<rparr>)"

lemma parts_facts:
  "rpAttempts (parts_of rt cfg env fs clusters prior) = priorUnresolvedAttempts prior"
  "rpIndex (parts_of rt cfg env fs clusters prior) = (if length clusters > 0 then Some (indexClusters clusters) else None)"
  "rpOutcomes (parts_of rt cfg env fs clusters prior) =
     outcomes_of env (rpIndex (parts_of rt cfg env fs clusters prior)) (rpSelected (parts_of rt cfg env fs clusters prior))"
  by (simp_all add: parts_of_def Let_def)

lemma parts_withheld:
  "withholdExhausted (debatable rt (deduplicateFindings fs) clusters) (priorUnresolvedAttempts prior) =
     (rpKept (parts_of rt cfg env fs clusters prior), rpWithheld (parts_of rt cfg env fs clusters prior))"
  by (simp add: parts_of_def Let_def)

lemma parts_selected:
  "rpSelected (parts_of rt cfg env fs clusters prior) @ rpOverflow (parts_of rt cfg env fs clusters prior) =
     sortByPriority (filter (\<lambda>it. itKind it \<in> set (Triggers cfg)) (rpKept (parts_of rt cfg env fs clusters prior)))"
  using triggered_split [of cfg "rpKept (parts_of rt cfg env fs clusters prior)"]
  by (simp add: parts_of_def Let_def split: prod.splits)

lemma runDebate_debate:
  "soDebate (runDebate rt cfg env fs clusters prior) =
     (let p = parts_of rt cfg env fs clusters prior in
      \<lparr>dbItems = map (\<lambda>oc. carried (rpAttempts p) (ocResult oc)) (rpOutcomes p),
       dbOverflow = overflowItems (rpOverflow p) (rpAttempts p) @ rpWithheld p\<rparr>)"
  by (simp add: runDebate_def parts_of_def Let_def split: prod.splits)

lemma runDebate_findings:
  "soFindings (runDebate rt cfg env fs clusters prior) =
     (let p = parts_of rt cfg env fs clusters prior; ruled = fst (applyRulings (deduplicateFindings fs) (rulings_of (rpOutcomes p))) in
      fst (applyClusterMerges rt ruled (List.map_filter ocCluster (rpOutcomes p))))"
proof -
  have none: "fst (applyRulings g []) = g" for g by (simp add: applyRulings_def rules_def)
  have no_merge: "fst (applyClusterMerges rt g []) = g" for g by (simp add: applyClusterMerges_def)
  show ?thesis
    by (simp add: runDebate_def parts_of_def Let_def none no_merge split: prod.splits)
qed

lemma runDebate_result:
  "soResult (runDebate rt cfg env fs clusters prior) =
     (let p = parts_of rt cfg env fs clusters prior in
      fold tally (dbItems (soDebate (runDebate rt cfg env fs clusters prior)))
        \<lparr>rsSelected = length (rpSelected p), rsUpheld = 0, rsOverturned = 0, rsSplit = 0, rsUnresolved = 0,
         rsOverflow = length (rpOverflow p), rsWithheld = length (rpWithheld p)\<rparr>)"
  by (simp add: runDebate_def parts_of_def Let_def split: prod.splits)

abbreviation item_id :: "disagreementItem \<Rightarrow> string \<times> int \<times> string \<times> string" where
  "item_id it \<equiv> (itFile it, itLine it, itKind it, itProblem it)"

abbreviation result_id :: "itemResult \<Rightarrow> string \<times> int \<times> string \<times> string" where
  "result_id ir \<equiv> (irFile ir, irLine ir, irKind ir, irProblem ir)"

abbreviation overflow_id :: "overflowItem \<Rightarrow> string \<times> int \<times> string \<times> string" where
  "overflow_id ov \<equiv> (ovFile ov, ovLine ov, ovKind ov, ovProblem ov)"

lemma outcome_of_id: "result_id (ocResult (outcome_of idx it ir)) = result_id ir"
  "irOutcome (ocResult (outcome_of idx it ir)) = irOutcome ir"
  by (simp_all add: outcome_of_def)

lemma carried_id: "result_id (carried atts ir) = result_id ir" "irOutcome (carried atts ir) = irOutcome ir"
  by (simp_all add: carried_def)

lemma tally_step:
  "rsUpheld (tally ir r) + rsOverturned (tally ir r) + rsSplit (tally ir r) + rsUnresolved (tally ir r) =
     Suc (rsUpheld r + rsOverturned r + rsSplit r + rsUnresolved r)"
  "rsSelected (tally ir r) = rsSelected r" "rsOverflow (tally ir r) = rsOverflow r" "rsWithheld (tally ir r) = rsWithheld r"
  unfolding tally_def by (simp_all split: if_split)

lemma tally_sum:
  "rsUpheld (fold tally irs r) + rsOverturned (fold tally irs r) + rsSplit (fold tally irs r) + rsUnresolved (fold tally irs r) =
     rsUpheld r + rsOverturned r + rsSplit r + rsUnresolved r + length irs"
  "rsSelected (fold tally irs r) = rsSelected r" "rsOverflow (fold tally irs r) = rsOverflow r"
  "rsWithheld (fold tally irs r) = rsWithheld r"
  by (induction irs arbitrary: r) (simp_all add: tally_step)

subsection \<open>What the stage relies on in the debate of one item\<close>

text \<open>The recorded outcome names the item it belongs to, is one of four, and the finding survives exactly when it is upheld or split.\<close>

locale item_debater =
  fixes debates :: "nat \<Rightarrow> disagreementItem \<Rightarrow> itemResult"
  assumes echoes: "result_id (debates i it) = item_id it"
    and outcomes: "irOutcome (debates i it) \<in> {OutcomeUphold, OutcomeOverturn, OutcomeSplit, OutcomeUnresolved}"
    and survives: "irChallengeSurvived (debates i it) \<longleftrightarrow> irOutcome (debates i it) \<in> {OutcomeUphold, OutcomeSplit}"
    and settles: "irSettledSeverity (debates i it) = [] \<or> irOutcome (debates i it) = OutcomeSplit"

lemma outcomes_distinct:
  "OutcomeUphold \<noteq> OutcomeUnresolved" "OutcomeOverturn \<noteq> OutcomeUnresolved" "OutcomeSplit \<noteq> OutcomeUnresolved"
  "OutcomeUphold \<noteq> OutcomeOverturn" "OutcomeSplit \<noteq> OutcomeOverturn" "OutcomeUphold \<noteq> OutcomeSplit"
  by (simp_all add: OutcomeUphold_def OutcomeOverturn_def OutcomeSplit_def OutcomeUnresolved_def)

lemma verdict_of_outcome:
  "ruling_Verdict OutcomeUphold = VerdictConfirmed" "ruling_Verdict OutcomeSplit = VerdictConfirmed"
  "ruling_Verdict OutcomeOverturn = VerdictRefuted" "ruling_Verdict OutcomeUnresolved = []"
  using outcomes_distinct by (simp_all add: ruling_Verdict_def)

lemma unresolved_result_fields:
  "result_id (unresolved_result it r) = item_id it" "irOutcome (unresolved_result it r) = OutcomeUnresolved"
  "irChallengeSurvived (unresolved_result it r) = False" "irSettledSeverity (unresolved_result it r) = []"
  "irReason (unresolved_result it r) = r"
  by (simp_all add: unresolved_result_def itemResult_for_def zero_itemResult_def)

context item_debater
begin

lemma result_echo: "debated env = debates \<Longrightarrow> result_id (item_result env i it) = item_id it"
  using echoes [of i it] by (simp add: item_result_def unresolved_result_fields [unfolded prod.inject])

lemma result_outcome:
  "debated env = debates \<Longrightarrow>
     irOutcome (item_result env i it) \<in> {OutcomeUphold, OutcomeOverturn, OutcomeSplit, OutcomeUnresolved}"
  using outcomes [of i it] by (simp add: item_result_def unresolved_result_fields)

lemma result_survives:
  "debated env = debates \<Longrightarrow>
     irChallengeSurvived (item_result env i it) \<longleftrightarrow> irOutcome (item_result env i it) \<in> {OutcomeUphold, OutcomeSplit}"
  using survives [of i it] outcomes_distinct by (simp add: item_result_def unresolved_result_fields)

lemma items_of_selected:
  assumes "debated env = debates"
  shows "map result_id (map (\<lambda>oc. carried atts (ocResult oc)) (outcomes_of env idx selected)) = map item_id selected"
proof -
  have "map result_id (map (\<lambda>oc. carried atts (ocResult oc)) (outcomes_of env idx selected)) =
      map (\<lambda>(i, it). item_id it) (List.enumerate 0 selected)"
    unfolding outcomes_of_def map_map comp_def
    by (rule map_cong [OF refl]) (simp add: case_prod_beta carried_id outcome_of_id result_echo [OF assms] del: prod.inject)
  also have "\<dots> = map item_id (map snd (List.enumerate 0 selected))"
    by (simp add: comp_def case_prod_beta del: map_snd_enumerate)
  finally show ?thesis by simp
qed

lemma accounts:
  assumes "debated env = debates"
  shows "let out = soDebate (runDebate rt cfg env fs clusters prior) in
    mset (map result_id (dbItems out)) +
      mset (map overflow_id (filter (\<lambda>ov. ovKind ov \<in> set (Triggers cfg)) (dbOverflow out))) =
    mset (map item_id (filter (\<lambda>it. itKind it \<in> set (Triggers cfg)) (debatable rt (deduplicateFindings fs) clusters)))"
proof -
  define p where "p = parts_of rt cfg env fs clusters prior"
  define ds where "ds = debatable rt (deduplicateFindings fs) clusters"
  define low where "low it \<longleftrightarrow> int_at (rpAttempts p) (item_fkey it) < maxUnresolvedAttempts" for it
  let ?trig = "\<lambda>it. itKind it \<in> set (Triggers cfg)"
  have "withholdExhausted ds (rpAttempts p) = (rpKept p, rpWithheld p)"
    by (simp add: p_def ds_def parts_of_def Let_def)
  note w = withhold_split [OF this]
  have low: "(\<lambda>it. int_at (rpAttempts p) (item_fkey it) < maxUnresolvedAttempts) = low" by (rule ext) (simp only: low_def)
  have kept: "rpKept p = filter low ds" using w by (simp only: low)
  have held: "map overflow_id (filter (\<lambda>ov. ovKind ov \<in> set (Triggers cfg)) (rpWithheld p)) =
      map item_id (filter ?trig (filter (\<lambda>it. \<not> low it) ds))"
    using w by (simp add: low_def filter_map comp_def del: filter_filter)
  have sel: "rpSelected p @ rpOverflow p = sortByPriority (filter ?trig (rpKept p))"
    unfolding p_def by (rule parts_selected)
  have trig: "\<forall>it\<in>set (rpOverflow p). ?trig it"
  proof
    fix it assume "it \<in> set (rpOverflow p)"
    then have "it \<in> set (sortByPriority (filter ?trig (rpKept p)))" using sel by (metis UnI2 set_append)
    then show "?trig it" by (simp add: sortByPriority_def)
  qed
  have over: "map overflow_id (filter (\<lambda>ov. ovKind ov \<in> set (Triggers cfg)) (overflowItems (rpOverflow p) (rpAttempts p))) =
      map item_id (rpOverflow p)"
    using trig by (simp add: overflowItems_def filter_map comp_def)
  have items: "map result_id (map (\<lambda>oc. carried (rpAttempts p) (ocResult oc)) (rpOutcomes p)) = map item_id (rpSelected p)"
    using items_of_selected [OF assms] by (simp add: p_def parts_of_def Let_def)
  have "mset (map item_id (rpSelected p)) + mset (map item_id (rpOverflow p)) =
      image_mset item_id (mset (rpSelected p @ rpOverflow p))"
    by simp
  also have "\<dots> = image_mset item_id (mset (filter ?trig (filter low ds)))"
    by (simp only: sel sortByPriority_facts(2) kept)
  finally have "mset (map item_id (rpSelected p)) + mset (map item_id (rpOverflow p)) +
      mset (map item_id (filter ?trig (filter (\<lambda>it. \<not> low it) ds))) =
      image_mset item_id (mset (filter low (filter ?trig ds)) + mset (filter (\<lambda>it. \<not> low it) (filter ?trig ds)))"
    by (simp add: conj_commute)
  also have "\<dots> = mset (map item_id (filter ?trig ds))"
    by (simp only: mset_filter multiset_partition [symmetric] mset_map)
  finally show ?thesis
    by (simp only: runDebate_debate Let_def p_def [symmetric] ds_def [symmetric] debateFile.select_convs
        filter_append map_append mset_append items held over add.assoc)
qed

end

subsection \<open>Rulings and clusters do not meet\<close>

lemma set_update: "set (AList.update k v al) \<subseteq> insert (k, v) (set al)"
  by (induction al) auto

lemma indexClusters_values:
  "map_of (indexClusters clusters) k = Some c \<Longrightarrow> c \<in> set clusters \<or> c = collision_cluster"
proof -
  have step: "map_of (index_step d out) k = Some c \<Longrightarrow> c = d \<or> c = collision_cluster \<or> map_of out k = Some c" for d out
    by (auto simp: index_step_def Let_def update_conv' split: if_splits)
  have "map_of (fold index_step cs out) k = Some c \<Longrightarrow> c \<in> set cs \<or> c = collision_cluster \<or> map_of out k = Some c" for cs out
  proof (induction cs arbitrary: out)
    case (Cons d cs)
    then show ?case using Cons.IH [of "index_step d out"] step [of d out] by auto
  qed simp
  from this [of clusters "[]"] show "map_of (indexClusters clusters) k = Some c \<Longrightarrow> ?thesis"
    by (simp add: indexClusters_def)
qed

lemma outcome_rule:
  "ocRule (outcome_of idx it ir) = Some kr \<Longrightarrow>
     itKind it \<noteq> KindGrayZone \<and> irOutcome ir \<noteq> OutcomeUnresolved \<and>
     kr = (item_fkey it, rule_of ir)"
  unfolding outcome_of_def by (cases "irOutcome ir = OutcomeUnresolved"; cases "itKind it = KindGrayZone") (simp_all split: if_splits)

lemma outcome_rule_given:
  "itKind it \<noteq> KindGrayZone \<Longrightarrow> irOutcome ir \<noteq> OutcomeUnresolved \<Longrightarrow> \<exists>ra. ocRule (outcome_of idx it ir) = Some (item_fkey it, ra)"
  unfolding outcome_of_def by simp

lemma outcome_cluster:
  "ocCluster (outcome_of idx it ir) = Some c \<Longrightarrow>
     itKind it = KindGrayZone \<and> irClusterDecision ir = ClusterMerge \<and> (\<exists>m. idx = Some m \<and> map_of m (item_fkey it) = Some c)"
  unfolding outcome_of_def
  by (cases "irOutcome ir = OutcomeUnresolved"; cases "itKind it = KindGrayZone") (simp_all split: if_splits option.splits)

lemma outcomes_of_member:
  "oc \<in> set (outcomes_of env idx selected) \<Longrightarrow> \<exists>i it. it \<in> set selected \<and> oc = outcome_of idx it (item_result env i it)"
  by (force simp: outcomes_of_def in_set_enumerate_eq)

lemma rulings_fold:
  "set (fold (\<lambda>oc m. case ocRule oc of None \<Rightarrow> m | Some (k, ra) \<Rightarrow> AList.update k ra m) ocs m0) \<subseteq>
     set m0 \<union> {kr. \<exists>oc\<in>set ocs. ocRule oc = Some kr}"
proof (induction ocs arbitrary: m0)
  case (Cons oc ocs)
  show ?case
  proof (cases "ocRule oc")
    case None
    then show ?thesis using Cons.IH [of m0] by auto
  next
    case (Some kr)
    obtain k ra where kr: "kr = (k, ra)" by (cases kr)
    have "set (AList.update k ra m0) \<subseteq> insert kr (set m0)" using set_update [of k ra m0] kr by simp
    then show ?thesis using Cons.IH [of "AList.update k ra m0"] Some kr by auto
  qed
qed simp

lemma rulings_from: "kr \<in> set (rulings_of ocs) \<Longrightarrow> \<exists>oc\<in>set ocs. ocRule oc = Some kr"
  using rulings_fold [of ocs "[]"] by (auto simp: rulings_of_def)

lemma rulings_cover: "oc \<in> set ocs \<Longrightarrow> ocRule oc = Some (k, ra) \<Longrightarrow> map_of (rulings_of ocs) k \<noteq> None"
proof -
  have keep: "map_of m k \<noteq> None \<Longrightarrow>
      map_of (fold (\<lambda>oc m. case ocRule oc of None \<Rightarrow> m | Some (k, ra) \<Rightarrow> AList.update k ra m) ocs m) k \<noteq> None" for ocs m
    by (induction ocs arbitrary: m) (simp_all add: update_conv' split: option.splits prod.splits)
  have "oc \<in> set ocs \<Longrightarrow> ocRule oc = Some (k, ra) \<Longrightarrow>
      map_of (fold (\<lambda>oc m. case ocRule oc of None \<Rightarrow> m | Some (k, ra) \<Rightarrow> AList.update k ra m) ocs m) k \<noteq> None" for m
  proof (induction ocs arbitrary: m)
    case (Cons x ocs)
    show ?case
    proof (cases "x = oc")
      case True
      then show ?thesis using Cons.prems(2) keep [of "AList.update k ra m" ocs] by (simp add: update_conv')
    next
      case False
      then show ?thesis using Cons by simp
    qed
  qed simp
  then show "oc \<in> set ocs \<Longrightarrow> ocRule oc = Some (k, ra) \<Longrightarrow> ?thesis" by (simp add: rulings_of_def)
qed

lemma selected_debatable:
  "it \<in> set (rpSelected (parts_of rt cfg env fs clusters prior)) \<Longrightarrow>
     it \<in> set (debatable rt (deduplicateFindings fs) clusters) \<and> itKind it \<in> set (Triggers cfg)"
proof -
  define p where "p = parts_of rt cfg env fs clusters prior"
  assume "it \<in> set (rpSelected (parts_of rt cfg env fs clusters prior))"
  then have "it \<in> set (rpSelected p @ rpOverflow p)" by (simp add: p_def)
  moreover have "rpSelected p @ rpOverflow p = sortByPriority (filter (\<lambda>it. itKind it \<in> set (Triggers cfg)) (rpKept p))"
    unfolding p_def by (rule parts_selected)
  ultimately have "it \<in> set (rpKept p) \<and> itKind it \<in> set (Triggers cfg)" by (simp add: sortByPriority_def)
  moreover have "withholdExhausted (debatable rt (deduplicateFindings fs) clusters) (rpAttempts p) = (rpKept p, rpWithheld p)"
    by (simp add: p_def parts_of_def Let_def)
  ultimately show ?thesis using withhold_split by fastforce
qed

lemma debatable_radar:
  "it \<in> set (debatable rt fs clusters) \<Longrightarrow> it \<in> set (dfItems (BuildDisagreements rt fs clusters))"
  by (auto simp: debatable_def filterAlreadyDebated_def filterMergedClusters_def Let_def split: if_splits)

lemma finding_of_item:
  assumes "it \<in> set (dfItems (BuildDisagreements rt fs clusters))" "itKind it \<noteq> KindGrayZone"
  shows "\<exists>f\<in>set fs. json_fkey f = item_fkey it \<and> tension f \<and> json_location f \<notin> set (gray_keys clusters) \<and>
    locationKey (itFile it) (itLine it) \<notin> set (gray_keys clusters)"
proof -
  obtain f where "f \<in> set fs" "finding_item rt (gray_keys clusters) f = Some it"
    using assms grayZoneItem_fields(1) by (auto simp: radar_items)
  then show ?thesis using finding_item_Some [of rt "gray_keys clusters" f it] by (auto simp: about_def json_location_def)
qed

lemma merge_clusters_from:
  assumes c: "c \<in> set (List.map_filter ocCluster (rpOutcomes (parts_of rt cfg env fs clusters prior)))"
  shows "c \<in> set clusters \<or> c = collision_cluster"
proof -
  define p where "p = parts_of rt cfg env fs clusters prior"
  have ocs: "rpOutcomes p = outcomes_of env (rpIndex p) (rpSelected p)" unfolding p_def by (rule parts_facts)
  obtain oc where "oc \<in> set (rpOutcomes p)" "ocCluster oc = Some c" using c by (auto simp: p_def set_map_filter_eq)
  then obtain i it where "ocCluster (outcome_of (rpIndex p) it (item_result env i it)) = Some c"
    using outcomes_of_member ocs by metis
  then obtain idx where "rpIndex p = Some idx" "map_of idx (item_fkey it) = Some c" using outcome_cluster by blast
  then show ?thesis using indexClusters_values by (auto simp: p_def parts_of_def Let_def split: if_splits)
qed

text \<open>
  C14. A run's rulings and its cluster merges never meet: the code's guard for a single-finding ruling at the
  location of a member of a merged cluster never fires, whatever the findings, the clusters, the selection and
  the debates, so the two write to different findings.
\<close>

theorem rulings_miss_clusters:
  "let ocs = rpOutcomes (parts_of rt cfg env fs clusters prior) in
     firstClusterRulingCollision (rulings_of ocs) (List.map_filter ocCluster ocs) = []"
proof -
  define p where "p = parts_of rt cfg env fs clusters prior"
  have ocs: "rpOutcomes p = outcomes_of env (rpIndex p) (rpSelected p)" unfolding p_def by (rule parts_facts)
  have loc: "locationKey (fst k) (fst (snd k)) \<notin> set (gray_keys clusters)" if kr: "(k, ra) \<in> set (rulings_of (rpOutcomes p))" for k ra
  proof -
    obtain oc where "oc \<in> set (rpOutcomes p)" "ocRule oc = Some (k, ra)" using rulings_from [OF kr] by blast
    then obtain i it where it: "it \<in> set (rpSelected p)" "ocRule (outcome_of (rpIndex p) it (item_result env i it)) = Some (k, ra)"
      using outcomes_of_member ocs by metis
    then have "itKind it \<noteq> KindGrayZone" "k = item_fkey it" using outcome_rule [OF it(2)] by simp_all
    moreover have "it \<in> set (dfItems (BuildDisagreements rt (deduplicateFindings fs) clusters))"
      using selected_debatable it(1) debatable_radar by (simp add: p_def)
    ultimately show ?thesis using finding_of_item by fastforce
  qed
  have mem: "locationKey (File m) (Line m) \<in> set (gray_keys clusters)"
    if c: "c \<in> set (List.map_filter ocCluster (rpOutcomes p))" and m: "m \<in> set (ambFindings c)" for c m
  proof -
    have "c \<in> set clusters \<or> c = collision_cluster" using merge_clusters_from c by (simp add: p_def)
    then have "c \<in> set clusters" using m by (auto simp: collision_cluster_def)
    then show ?thesis using m by (auto simp: set_gray_keys)
  qed
  have "find (\<lambda>m. locationKey (File m) (Line m) \<in> set (map (\<lambda>((fname, line, _), _). locationKey fname line) (rulings_of (rpOutcomes p))))
      (concat (map ambFindings (List.map_filter ocCluster (rpOutcomes p)))) = None"
  proof (subst find_None_iff, rule notI, elim exE conjE)
    fix m
    assume "m \<in> set (concat (map ambFindings (List.map_filter ocCluster (rpOutcomes p))))"
    then have "locationKey (File m) (Line m) \<in> set (gray_keys clusters)" using mem by auto
    moreover assume "locationKey (File m) (Line m) \<in> set (map (\<lambda>((fname, line, _), _). locationKey fname line) (rulings_of (rpOutcomes p)))"
    then obtain k ra where "(k, ra) \<in> set (rulings_of (rpOutcomes p))" "locationKey (File m) (Line m) = locationKey (fst k) (fst (snd k))"
      by (auto simp: case_prod_beta)
    ultimately show False using loc by simp
  qed
  then show ?thesis by (simp add: firstClusterRulingCollision_def p_def [symmetric] Let_def)
qed

subsection \<open>What a merge leaves\<close>

abbreviation member_locations :: "ambiguousCluster \<Rightarrow> string set" where
  "member_locations c \<equiv> set (map (\<lambda>m. locationKey (File m) (Line m)) (ambFindings c))"

lemma matched_location: "matched_member c fs f \<Longrightarrow> json_location f \<in> member_locations c"
  by (auto simp: matched_member_def exact_member_def recovered_member_def json_location_def)

lemma merge_replaces:
  assumes "applyOneClusterMerge rt fs c = (fs', ok)"
  shows "\<not> ok \<and> fs' = fs \<or>
    ok \<and> ambID c \<noteq> [] \<and> (\<exists>m. jfFile m = ambFile c \<and> jfLine m = ambLine c \<and> jfClusterMerged m \<and> jfClusterID m = ambID c \<and>
      set fs' = insert m {f \<in> set fs. \<not> matched_member c fs f})"
proof -
  define mt where "mt = matched_member c fs"
  define m where "m = (MergeJSONFindings rt (filter mt fs))
    \<lparr>jfFile := ambFile c, jfLine := ambLine c, jfClusterMerged := True, jfClusterID := ambID c\<rparr>"
  have tail: "set (takeWhile (\<lambda>f. \<not> mt f) fs @ m # filter (\<lambda>f. \<not> mt f) (tl (dropWhile (\<lambda>f. \<not> mt f) fs))) =
      insert m {f \<in> set fs. \<not> mt f}" if ne: "filter mt fs \<noteq> []"
  proof -
    obtain x xs where d: "dropWhile (\<lambda>f. \<not> mt f) fs = x # xs"
      using ne by (cases "dropWhile (\<lambda>f. \<not> mt f) fs") (auto simp: dropWhile_eq_Nil_conv filter_empty_conv)
    then have "mt x" using hd_dropWhile [of "\<lambda>f. \<not> mt f" fs] by simp
    moreover have "fs = takeWhile (\<lambda>f. \<not> mt f) fs @ x # xs" using takeWhile_dropWhile_id [of "\<lambda>f. \<not> mt f" fs] d by simp
    then have "{f \<in> set fs. \<not> mt f} = {f \<in> set (takeWhile (\<lambda>f. \<not> mt f) fs @ x # xs). \<not> mt f}" by simp
    ultimately show ?thesis using d by (auto dest: set_takeWhileD)
  qed
  show ?thesis
  proof (cases ok)
    case False
    then show ?thesis using assms by (auto simp: applyOneClusterMerge_def Let_def split: if_splits)
  next
    case True
    then have "filter mt fs \<noteq> []" and id: "ambID c \<noteq> []"
      and "fs' = takeWhile (\<lambda>f. \<not> mt f) fs @ m # filter (\<lambda>f. \<not> mt f) (tl (dropWhile (\<lambda>f. \<not> mt f) fs))"
      using assms by (auto simp: applyOneClusterMerge_def Let_def mt_def m_def split: if_splits)
    then have "set fs' = insert m {f \<in> set fs. \<not> mt f}" using tail by simp
    then show ?thesis using True id by (intro disjI2 conjI exI [of _ m]) (simp_all add: m_def mt_def)
  qed
qed

lemma merges_keep_elsewhere:
  assumes "\<forall>c\<in>set cs. json_location f \<notin> member_locations c" "f \<in> set fs"
  shows "f \<in> set (fst (applyClusterMerges rt fs cs))"
proof -
  have "f \<in> set (fst (fold (\<lambda>c (fs, applied, skipped).
             if length (ambFindings c) < 2 then (fs, applied, skipped + 1)
             else case applyOneClusterMerge rt fs c of (fs', ok) \<Rightarrow> (fs', if ok then applied + 1 else applied, skipped))
       cs (fs, a, s)))" for a s
    using assms
  proof (induction cs arbitrary: fs a s)
    case (Cons c cs)
    obtain fs' ok where one: "applyOneClusterMerge rt fs c = (fs', ok)" by (cases "applyOneClusterMerge rt fs c")
    have "f \<in> set fs'" using merge_replaces [OF one] Cons.prems matched_location [of c fs f] by auto
    then show ?case using Cons.IH Cons.prems by (simp add: one)
  qed simp
  then show ?thesis by (simp add: applyClusterMerges_def)
qed

lemma merges_add_at_clusters:
  assumes "g \<in> set (fst (applyClusterMerges rt fs cs))"
  shows "g \<in> set fs \<or> (\<exists>c\<in>set cs. 2 \<le> length (ambFindings c) \<and> jfFile g = ambFile c \<and> jfLine g = ambLine c)"
proof -
  have "g \<in> set (fst (fold (\<lambda>c (fs, applied, skipped).
             if length (ambFindings c) < 2 then (fs, applied, skipped + 1)
             else case applyOneClusterMerge rt fs c of (fs', ok) \<Rightarrow> (fs', if ok then applied + 1 else applied, skipped))
       cs (fs, a, s))) \<Longrightarrow> ?thesis" for a s
  proof (induction cs arbitrary: fs a s)
    case (Cons c cs)
    obtain fs' ok where one: "applyOneClusterMerge rt fs c = (fs', ok)" by (cases "applyOneClusterMerge rt fs c")
    show ?case
    proof (cases "length (ambFindings c) < 2")
      case True
      then show ?thesis using Cons.IH [of fs a "s + 1"] Cons.prems by auto
    next
      case False
      then have "g \<in> set fs' \<or> (\<exists>c\<in>set cs. 2 \<le> length (ambFindings c) \<and> jfFile g = ambFile c \<and> jfLine g = ambLine c)"
        using Cons.IH [of fs' "if ok then a + 1 else a" s] Cons.prems by (simp add: one)
      then show ?thesis using merge_replaces [OF one] False by auto
    qed
  qed simp
  then show ?thesis using assms by (simp add: applyClusterMerges_def)
qed

subsection \<open>Settled disputes\<close>

lemma apply_ruling_fields:
  "json_fkey (apply_ruling ra f) = json_fkey f"
  "\<exists>v. jfVerification (apply_ruling ra f) = Some v \<and> Verdict v = raVerdict ra \<and> ChallengeSurvived v = raSurvived ra"
  by (simp_all add: apply_ruling_def Let_def split: option.splits)

lemma ruled_keys: "map json_fkey (fst (applyRulings fs rulings)) = map json_fkey fs"
proof -
  have "json_fkey (case rules rulings f of None \<Rightarrow> f | Some ra \<Rightarrow> apply_ruling ra f) = json_fkey f" for f
    by (cases "rules rulings f") (simp_all only: option.case apply_ruling_fields)
  then show ?thesis unfolding applyRulings_def fst_conv map_map comp_def by (rule map_cong [OF refl])
qed

definition located :: "ambiguousCluster \<Rightarrow> bool" where
  "located c \<longleftrightarrow> ambFindings c = [] \<or> list_ex (\<lambda>m. File m = ambFile c \<and> Line m = ambLine c) (ambFindings c)"

lemma located_gray:
  "c \<in> set clusters \<Longrightarrow> located c \<Longrightarrow> ambFindings c \<noteq> [] \<Longrightarrow> locationKey (ambFile c) (ambLine c) \<in> set (gray_keys clusters)"
  unfolding located_def set_gray_keys list_ex_iff by metis

lemma refuted_verdict: "canonVerdict VerdictRefuted = VerdictRefuted"
  by code_simp


lemma gray_item_location:
  assumes "it \<in> set (dfItems (BuildDisagreements rt fs clusters))" "itKind it = KindGrayZone" "\<forall>c\<in>set clusters. located c"
  shows "locationKey (itFile it) (itLine it) \<in> set (gray_keys clusters)"
proof -
  have "\<exists>c\<in>set clusters. shown_cluster c \<and> it = grayZoneItem rt c (run_fallbacks fs)"
    using assms(1,2) finding_item_Some [of rt "gray_keys clusters" _ it] by (auto simp: radar_items about_def)
  then show ?thesis using assms(3) located_gray [of _ clusters] by (auto simp: grayZoneItem_fields shown_cluster_def)
qed

lemma filterAlreadyDebated_drops:
  assumes it: "it \<in> set (filterAlreadyDebated its fs)" and f: "f \<in> set fs" "jfVerification f = Some v" "ChallengeSurvived v"
  shows "item_fkey it \<noteq> json_fkey f"
proof -
  define db where "db = map json_fkey (filter (\<lambda>f. case jfVerification f of None \<Rightarrow> False | Some v \<Rightarrow> ChallengeSurvived v) fs)"
  have k: "json_fkey f \<in> set db" unfolding db_def set_map using f by (intro image_eqI [of _ _ f]) simp_all
  then have "length db \<noteq> 0" by auto
  then have "item_fkey it \<notin> set db" using it unfolding filterAlreadyDebated_def Let_def db_def [symmetric] by simp
  then show ?thesis using k by (metis prod.inject)
qed

lemma no_item_for_settled:
  assumes f: "f \<in> set fs" "\<forall>g\<in>set fs. json_fkey g = json_fkey f \<longrightarrow> g = f"
    and v: "jfVerification f = Some v" "ChallengeSurvived v \<or> Verdict v = VerdictRefuted"
    and loc: "json_location f \<notin> set (gray_keys clusters)" "\<forall>c\<in>set clusters. located c"
    and it: "it \<in> set (debatable rt (deduplicateFindings fs) clusters)"
  shows "item_fkey it \<noteq> json_fkey f"
proof
  assume key: "item_fkey it = json_fkey f"
  let ?fs = "deduplicateFindings fs"
  have mem: "f \<in> set ?fs" using dedup_keeps_only [OF f] .
  have radar: "it \<in> set (dfItems (BuildDisagreements rt ?fs clusters))" using debatable_radar [OF it] .
  have "itKind it \<noteq> KindGrayZone"
    using gray_item_location [OF radar _ loc(2)] loc(1) key by (auto simp: json_location_def)
  then obtain g where g: "g \<in> set ?fs" "json_fkey g = item_fkey it" "tension g" using finding_of_item [OF radar] by blast
  moreover have "g \<in> set fs" using g(1) dedup_facts(1) by blast
  ultimately have "g = f" using f(2) key by simp
  then have "\<not> isRefutedJSON f" using g(3) by (simp add: tension_def)
  then have "ChallengeSurvived v" using v refuted_verdict by (auto simp: isRefutedJSON_def)
  then have "item_fkey it \<noteq> json_fkey f"
    using filterAlreadyDebated_drops [OF _ mem v(1)] it unfolding debatable_def Let_def by blast
  then show False using key by contradiction
qed

lemma debated_item:
  assumes "ir \<in> set (dbItems (soDebate (runDebate rt cfg env fs clusters prior)))"
  shows "\<exists>i it. it \<in> set (rpSelected (parts_of rt cfg env fs clusters prior)) \<and>
    outcome_of (rpIndex (parts_of rt cfg env fs clusters prior)) it (item_result env i it) \<in>
      set (rpOutcomes (parts_of rt cfg env fs clusters prior)) \<and>
    ir = carried (priorUnresolvedAttempts prior)
      (ocResult (outcome_of (rpIndex (parts_of rt cfg env fs clusters prior)) it (item_result env i it)))"
proof -
  define p where "p = parts_of rt cfg env fs clusters prior"
  have ocs: "rpOutcomes p = outcomes_of env (rpIndex p) (rpSelected p)" and atts: "rpAttempts p = priorUnresolvedAttempts prior"
    by (simp_all add: p_def parts_of_def Let_def)
  obtain oc where oc: "oc \<in> set (rpOutcomes p)" "ir = carried (rpAttempts p) (ocResult oc)"
    using assms by (auto simp: runDebate_debate Let_def p_def)
  then obtain i it where "it \<in> set (rpSelected p)" "oc = outcome_of (rpIndex p) it (item_result env i it)"
    using outcomes_of_member ocs by metis
  then show ?thesis using oc atts by (intro exI [of _ i] exI [of _ it]) (simp add: p_def)
qed

context item_debater
begin

lemma ruling_settles:
  assumes env: "debated env = debates"
    and kr: "(k, ra) \<in> set (rulings_of (outcomes_of env idx selected))"
  shows "validVerdict (raVerdict ra) \<and> (raSurvived ra \<or> raVerdict ra = VerdictRefuted)"
proof -
  obtain oc where "oc \<in> set (outcomes_of env idx selected)" "ocRule oc = Some (k, ra)" using rulings_from [OF kr] by blast
  then obtain i it where it: "ocRule (outcome_of idx it (item_result env i it)) = Some (k, ra)"
    using outcomes_of_member by metis
  define ir where "ir = item_result env i it"
  have "irOutcome ir \<noteq> OutcomeUnresolved" and ra: "raVerdict ra = ruleVerdict ir" "raSurvived ra = irChallengeSurvived ir"
    using outcome_rule [OF it] by (simp_all add: ir_def rule_of_def)
  then have "irOutcome ir \<in> {OutcomeUphold, OutcomeSplit} \<or> irOutcome ir = OutcomeOverturn"
    using result_outcome [OF env, of i it] by (auto simp: ir_def)
  then show ?thesis
    using result_survives [OF env, of i it] ra verdict_of_outcome by (auto simp: ir_def ruleVerdict_def validVerdict_def)
qed

lemma settled_finding:
  assumes env: "debated env = debates"
    and ir: "ir \<in> set (dbItems (soDebate (runDebate rt cfg env fs clusters prior)))"
    and settled: "irKind ir \<noteq> KindGrayZone" "irOutcome ir \<noteq> OutcomeUnresolved"
    and loc: "\<forall>c\<in>set clusters. located c"
  shows "\<exists>f v. f \<in> set (soFindings (runDebate rt cfg env fs clusters prior)) \<and> json_fkey f = result_fkey ir \<and>
    (\<forall>g\<in>set (soFindings (runDebate rt cfg env fs clusters prior)). json_fkey g = json_fkey f \<longrightarrow> g = f) \<and>
    json_location f \<notin> set (gray_keys clusters) \<and>
    jfVerification f = Some v \<and> (ChallengeSurvived v \<or> Verdict v = VerdictRefuted)"
proof -
  define p where "p = parts_of rt cfg env fs clusters prior"
  define merges where "merges = List.map_filter ocCluster (rpOutcomes p)"
  define ruled where "ruled = fst (applyRulings (deduplicateFindings fs) (rulings_of (rpOutcomes p)))"
  have ocs: "rpOutcomes p = outcomes_of env (rpIndex p) (rpSelected p)" unfolding p_def by (rule parts_facts)
  have out: "soFindings (runDebate rt cfg env fs clusters prior) = fst (applyClusterMerges rt ruled merges)"
    by (simp add: runDebate_findings Let_def ruled_def merges_def p_def)
  obtain i it where it: "it \<in> set (rpSelected p)"
      "outcome_of (rpIndex p) it (item_result env i it) \<in> set (rpOutcomes p)"
      "ir = carried (priorUnresolvedAttempts prior) (ocResult (outcome_of (rpIndex p) it (item_result env i it)))"
    using debated_item [OF ir] unfolding p_def by blast
  have "result_id ir = item_id it" "irOutcome (item_result env i it) = irOutcome ir"
    using it(3) result_echo [OF env, of i it] by (simp_all only: carried_id outcome_of_id)
  then have key: "result_fkey ir = item_fkey it" and kind: "itKind it \<noteq> KindGrayZone"
    and res: "irOutcome (item_result env i it) \<noteq> OutcomeUnresolved"
    using settled by simp_all
  have "it \<in> set (dfItems (BuildDisagreements rt (deduplicateFindings fs) clusters))"
    using selected_debatable it(1) debatable_radar by (simp add: p_def)
  then obtain f where f: "f \<in> set (deduplicateFindings fs)" "json_fkey f = item_fkey it" "json_location f \<notin> set (gray_keys clusters)"
    using finding_of_item kind by blast
  obtain ra0 where "ocRule (outcome_of (rpIndex p) it (item_result env i it)) = Some (item_fkey it, ra0)"
    using outcome_rule_given [OF kind res] by blast
  then obtain ra where ra: "map_of (rulings_of (rpOutcomes p)) (json_fkey f) = Some ra"
    using rulings_cover [OF it(2)] f(2) by fastforce
  then have valid: "validVerdict (raVerdict ra)" "raSurvived ra \<or> raVerdict ra = VerdictRefuted"
    using ruling_settles [OF env] map_of_SomeD [OF ra] ocs by auto
  define f' where "f' = apply_ruling ra f"
  have "rules (rulings_of (rpOutcomes p)) f = Some ra" unfolding rules_def using ra valid by simp
  then have mem: "f' \<in> set ruled" using f(1) unfolding ruled_def applyRulings_def f'_def by force
  have key': "json_fkey f' = json_fkey f" by (simp only: f'_def apply_ruling_fields)
  have member: "c \<in> set clusters" if "c \<in> set merges" "ambFindings c \<noteq> []" for c
  proof -
    have "c \<in> set clusters \<or> c = collision_cluster" using merge_clusters_from that(1) by (simp add: p_def merges_def)
    then show ?thesis using that(2) by (auto simp: collision_cluster_def)
  qed
  have loc': "json_location f' \<notin> set (gray_keys clusters)" using f(3) key' by (simp add: json_location_def)
  have away: "\<forall>c\<in>set merges. json_location f' \<notin> member_locations c"
    using loc' member by (fastforce simp: set_gray_keys)
  have here: "f' \<in> set (fst (applyClusterMerges rt ruled merges))" using merges_keep_elsewhere [OF away mem] .
  have alone: "g = f'" if g: "g \<in> set (fst (applyClusterMerges rt ruled merges))" "json_fkey g = json_fkey f'" for g
    using merges_add_at_clusters [OF g(1)]
  proof
    assume "g \<in> set ruled"
    moreover have "distinct (map json_fkey ruled)" unfolding ruled_def ruled_keys by (rule dedup_facts(3))
    ultimately show ?thesis using unique_finding mem g(2) by blast
  next
    assume "\<exists>c\<in>set merges. 2 \<le> length (ambFindings c) \<and> jfFile g = ambFile c \<and> jfLine g = ambLine c"
    then obtain c where c: "c \<in> set merges" "2 \<le> length (ambFindings c)" "jfFile g = ambFile c" "jfLine g = ambLine c" by blast
    then have "ambFindings c \<noteq> []" by auto
    then have "locationKey (ambFile c) (ambLine c) \<in> set (gray_keys clusters)"
      using located_gray member c(1) loc by blast
    then show ?thesis using loc' g(2) c(3,4) by (simp add: json_location_def)
  qed
  obtain v where v: "jfVerification f' = Some v" "Verdict v = raVerdict ra" "ChallengeSurvived v = raSurvived ra"
    using apply_ruling_fields(2) unfolding f'_def by blast
  show ?thesis
    unfolding out
  proof (intro exI conjI ballI impI)
    show "json_fkey f' = result_fkey ir" using key key' f(2) by (simp only:)
    show "ChallengeSurvived v \<or> Verdict v = VerdictRefuted" using valid(2) v by simp
  qed (fact here, rule alone, assumption, assumption, fact loc', fact v(1))
qed

lemma settled_not_again:
  assumes "debated env = debates"
    and "ir \<in> set (dbItems (soDebate (runDebate rt cfg env fs clusters prior)))"
    and "irKind ir \<noteq> KindGrayZone" "irOutcome ir \<noteq> OutcomeUnresolved"
    and loc: "\<forall>c\<in>set clusters. located c"
    and it: "it \<in> set (debatable rt (deduplicateFindings (soFindings (runDebate rt cfg env fs clusters prior))) clusters)"
  shows "item_fkey it \<noteq> result_fkey ir"
proof -
  obtain f v where f: "f \<in> set (soFindings (runDebate rt cfg env fs clusters prior))" "json_fkey f = result_fkey ir"
      "\<forall>g\<in>set (soFindings (runDebate rt cfg env fs clusters prior)). json_fkey g = json_fkey f \<longrightarrow> g = f"
      "json_location f \<notin> set (gray_keys clusters)"
      "jfVerification f = Some v" "ChallengeSurvived v \<or> Verdict v = VerdictRefuted"
    using settled_finding [OF assms(1-5)] by blast
  show ?thesis using no_item_for_settled [OF f(1,3,5,6,4) loc it] f(2) by simp
qed

end


subsection \<open>Attempts across runs\<close>

lemma int_at_update: "int_at (AList.update k n m) k' = (if k' = k then n else int_at m k')"
  by (simp add: int_at_def update_conv')

lemma prior_items_least:
  assumes "\<forall>ir\<in>set irs. result_fkey ir = k \<and> irOutcome ir = OutcomeUnresolved \<longrightarrow> b \<le> irUnresolvedAttempts ir"
    and "b \<le> int_at m k \<or> (\<exists>ir\<in>set irs. result_fkey ir = k \<and> irOutcome ir = OutcomeUnresolved)"
  shows "b \<le> int_at (fold prior_item irs m) k"
  using assms
proof (induction irs arbitrary: m)
  case (Cons ir irs)
  show ?case
  proof (cases "result_fkey ir = k \<and> irOutcome ir = OutcomeUnresolved")
    case True
    then have "b \<le> int_at (prior_item ir m) k"
      using Cons.prems(1) by (auto simp: prior_item_def Let_def int_at_update)
    then show ?thesis using Cons.IH [of "prior_item ir m"] Cons.prems(1) by simp
  next
    case False
    then have "int_at (prior_item ir m) k = int_at m k" by (auto simp: prior_item_def Let_def int_at_update)
    moreover have "b \<le> int_at m k \<or> (\<exists>ir\<in>set irs. result_fkey ir = k \<and> irOutcome ir = OutcomeUnresolved)"
      using Cons.prems(2) False by auto
    ultimately show ?thesis using Cons.IH [of "prior_item ir m"] Cons.prems(1) by simp
  qed
qed simp

lemma prior_overflow_grows: "int_at m k \<le> int_at (fold prior_overflow ovs m) k"
proof (induction ovs arbitrary: m)
  case (Cons ov ovs)
  have "int_at m k \<le> int_at (prior_overflow ov m) k" by (simp add: prior_overflow_def Let_def int_at_update)
  then show ?case using Cons.IH [of "prior_overflow ov m"] by simp
qed simp

lemma prior_overflow_reads:
  assumes "ov \<in> set ovs" "overflow_fkey ov = k" "1 \<le> ovUnresolvedAttempts ov"
  shows "ovUnresolvedAttempts ov \<le> int_at (fold prior_overflow ovs m) k"
  using assms(1)
proof (induction ovs arbitrary: m)
  case (Cons x ovs)
  show ?case
  proof (cases "x = ov")
    case True
    have "ovUnresolvedAttempts ov \<le> int_at (prior_overflow ov m) k"
      using assms(2,3) by (auto simp: prior_overflow_def Let_def int_at_update maxUnresolvedAttempts_def)
    then show ?thesis using True prior_overflow_grows [of "prior_overflow ov m" k ovs] by simp
  next
    case False
    then show ?thesis using Cons by simp
  qed
qed simp

abbreviation attempts_at :: "debateFile option \<Rightarrow> findingKey \<Rightarrow> int" where
  "attempts_at prior k \<equiv> int_at (priorUnresolvedAttempts prior) k"

definition in_play :: "runtime \<Rightarrow> config \<Rightarrow> jsonFinding list \<Rightarrow> ambiguousCluster list \<Rightarrow> findingKey \<Rightarrow> bool" where
  "in_play rt cfg fs clusters k \<longleftrightarrow>
     list_ex (\<lambda>it. item_fkey it = k \<and> itKind it \<in> set (Triggers cfg)) (debatable rt (deduplicateFindings fs) clusters)"

definition unsettled :: "debateFile \<Rightarrow> findingKey \<Rightarrow> bool" where
  "unsettled df k \<longleftrightarrow> list_all (\<lambda>ir. result_fkey ir = k \<longrightarrow> irOutcome ir = OutcomeUnresolved) (dbItems df)"

definition attempt_spent :: "debateFile \<Rightarrow> findingKey \<Rightarrow> bool" where
  "attempt_spent df k \<longleftrightarrow> list_ex (\<lambda>ir. result_fkey ir = k) (dbItems df) \<and>
     list_all (\<lambda>ir. result_fkey ir = k \<longrightarrow> irOutcome ir = OutcomeUnresolved \<and> countsTowardWithholding (irReason ir)) (dbItems df)"

definition item_withheld :: "debateFile \<Rightarrow> findingKey \<Rightarrow> bool" where
  "item_withheld df k \<longleftrightarrow> list_all (\<lambda>ir. result_fkey ir \<noteq> k) (dbItems df) \<and>
     list_ex (\<lambda>ov. overflow_fkey ov = k \<and> ovReason ov = OverflowAttemptsExhausted) (dbOverflow df)"

lemma carried_attempts:
  "result_fkey (carried atts ir) = k \<Longrightarrow> irOutcome (carried atts ir) = OutcomeUnresolved \<Longrightarrow>
     irUnresolvedAttempts (carried atts ir) = carryUnresolvedAttempts (int_at atts k) (irReason (carried atts ir))"
  by (auto simp: carried_def)

lemma item_attempts:
  assumes "ir \<in> set (dbItems (soDebate (runDebate rt cfg env fs clusters prior)))" "result_fkey ir = k" "irOutcome ir = OutcomeUnresolved"
  shows "irUnresolvedAttempts ir = attempts_at prior k + (if countsTowardWithholding (irReason ir) then 1 else 0)"
proof -
  obtain oc :: itemOutcome where "ir = carried (priorUnresolvedAttempts prior) (ocResult oc)"
    using debated_item [OF assms(1)] by blast
  then show ?thesis using carried_attempts [of "priorUnresolvedAttempts prior" "ocResult oc" k] assms(2,3)
    by (simp add: carryUnresolvedAttempts_def)
qed

lemma exhausted_overflow:
  assumes "it \<in> set (debatable rt (deduplicateFindings fs) clusters)" "item_fkey it = k" "maxUnresolvedAttempts \<le> attempts_at prior k"
  shows "\<exists>ov\<in>set (dbOverflow (soDebate (runDebate rt cfg env fs clusters prior))).
    overflow_fkey ov = k \<and> ovReason ov = OverflowAttemptsExhausted \<and> ovUnresolvedAttempts ov = attempts_at prior k"
proof -
  define p where "p = parts_of rt cfg env fs clusters prior"
  note w = withhold_split [OF parts_withheld [of rt fs clusters prior cfg env, folded p_def], THEN conjunct2]
  have "\<exists>ov\<in>set (rpWithheld p). overflow_fkey ov = k \<and> ovReason ov = OverflowAttemptsExhausted \<and> ovUnresolvedAttempts ov = attempts_at prior k"
    unfolding w set_map using assms by (intro bexI [OF _ imageI [of it]]) simp_all
  then show ?thesis by (auto simp: runDebate_debate Let_def p_def)
qed

lemma cap_overflow:
  assumes "it \<in> set (rpOverflow (parts_of rt cfg env fs clusters prior))" "item_fkey it = k"
  shows "\<exists>ov\<in>set (dbOverflow (soDebate (runDebate rt cfg env fs clusters prior))).
    overflow_fkey ov = k \<and> ovUnresolvedAttempts ov = attempts_at prior k"
proof -
  define p where "p = parts_of rt cfg env fs clusters prior"
  have "\<exists>ov\<in>set (overflowItems (rpOverflow p) (priorUnresolvedAttempts prior)).
      overflow_fkey ov = k \<and> ovUnresolvedAttempts ov = attempts_at prior k"
    unfolding overflowItems_def set_map using assms by (intro bexI [OF _ imageI [of it]]) (simp_all add: p_def)
  moreover have "rpAttempts p = priorUnresolvedAttempts prior" by (simp add: p_def parts_of_def Let_def)
  ultimately show ?thesis by (auto simp: runDebate_debate Let_def p_def [symmetric])
qed

lemma kept_selected_or_overflow:
  assumes "it \<in> set (debatable rt (deduplicateFindings fs) clusters)" "itKind it \<in> set (Triggers cfg)"
    and "attempts_at prior (item_fkey it) < maxUnresolvedAttempts"
  shows "it \<in> set (rpSelected (parts_of rt cfg env fs clusters prior)) \<or> it \<in> set (rpOverflow (parts_of rt cfg env fs clusters prior))"
proof -
  define p where "p = parts_of rt cfg env fs clusters prior"
  note w = withhold_split [OF parts_withheld [of rt fs clusters prior cfg env, folded p_def], THEN conjunct1]
  have "it \<in> set (rpKept p)" unfolding w using assms by simp
  then have "it \<in> set (sortByPriority (filter (\<lambda>it. itKind it \<in> set (Triggers cfg)) (rpKept p)))"
    using assms(2) by (simp add: sortByPriority_def)
  moreover have "rpSelected p @ rpOverflow p = sortByPriority (filter (\<lambda>it. itKind it \<in> set (Triggers cfg)) (rpKept p))"
    unfolding p_def by (rule parts_selected)
  ultimately show ?thesis unfolding p_def by (metis Un_iff set_append)
qed

lemma bex_map_eq: "map g xs = map h ys \<Longrightarrow> (\<exists>x\<in>set xs. g x = k) \<longleftrightarrow> (\<exists>y\<in>set ys. h y = k)"
proof -
  assume "map g xs = map h ys"
  then have "k \<in> set (map g xs) \<longleftrightarrow> k \<in> set (map h ys)" by simp
  then show ?thesis by auto
qed

lemma selected_below_limit:
  "it \<in> set (rpSelected (parts_of rt cfg env fs clusters prior)) \<Longrightarrow> attempts_at prior (item_fkey it) < maxUnresolvedAttempts"
proof -
  define p where "p = parts_of rt cfg env fs clusters prior"
  assume "it \<in> set (rpSelected (parts_of rt cfg env fs clusters prior))"
  then have "it \<in> set (rpSelected p @ rpOverflow p)" by (simp add: p_def)
  moreover have "rpSelected p @ rpOverflow p = sortByPriority (filter (\<lambda>it. itKind it \<in> set (Triggers cfg)) (rpKept p))"
    unfolding p_def by (rule parts_selected)
  ultimately have kept: "it \<in> set (rpKept p)" by (simp add: sortByPriority_def)
  note w = withhold_split [OF parts_withheld [of rt fs clusters prior cfg env, folded p_def], THEN conjunct1]
  show ?thesis using kept unfolding w by simp
qed

context item_debater
begin

lemma debated_keys:
  assumes "debated env = debates"
  shows "(\<exists>ir\<in>set (dbItems (soDebate (runDebate rt cfg env fs clusters prior))). result_fkey ir = k) \<longleftrightarrow>
    (\<exists>it\<in>set (rpSelected (parts_of rt cfg env fs clusters prior)). item_fkey it = k)"
proof -
  define p where "p = parts_of rt cfg env fs clusters prior"
  define fkey :: "string \<times> int \<times> string \<times> string \<Rightarrow> findingKey" where "fkey = (\<lambda>(a, b, c, d). (a, b, d))"
  have "map fkey (map result_id (dbItems (soDebate (runDebate rt cfg env fs clusters prior)))) = map fkey (map item_id (rpSelected p))"
    using items_of_selected [OF assms] by (simp add: runDebate_debate Let_def p_def parts_of_def)
  then have "map result_fkey (dbItems (soDebate (runDebate rt cfg env fs clusters prior))) = map item_fkey (rpSelected p)"
    by (simp add: comp_def fkey_def)
  then show ?thesis using bex_map_eq [of result_fkey _ item_fkey "rpSelected p" k] unfolding p_def by blast
qed

end
context item_debater
begin

lemma attempts_never_fall:
  assumes env: "debated env = debates" and n: "0 \<le> attempts_at prior k"
    and play: "in_play rt cfg fs clusters k"
    and open_: "unsettled (soDebate (runDebate rt cfg env fs clusters prior)) k"
  shows "attempts_at prior k + (if attempt_spent (soDebate (runDebate rt cfg env fs clusters prior)) k then 1 else 0) \<le>
    attempts_at (Some (soDebate (runDebate rt cfg env fs clusters prior))) k"
proof -
  define df where "df = soDebate (runDebate rt cfg env fs clusters prior)"
  define b where "b = attempts_at prior k + (if attempt_spent df k then 1 else 0)"
  have read: "attempts_at (Some df) k = int_at (fold prior_overflow (dbOverflow df) (fold prior_item (dbItems df) [])) k"
    by (simp add: priorUnresolvedAttempts_def)
  have items: "\<forall>ir\<in>set (dbItems df). result_fkey ir = k \<and> irOutcome ir = OutcomeUnresolved \<longrightarrow> b \<le> irUnresolvedAttempts ir"
    using item_attempts [of _ rt cfg env fs clusters prior k] by (auto simp: b_def df_def attempt_spent_def list_all_iff)
  obtain it where it: "it \<in> set (debatable rt (deduplicateFindings fs) clusters)" "item_fkey it = k" "itKind it \<in> set (Triggers cfg)"
    using play by (auto simp: in_play_def list_ex_iff)
  show ?thesis
  proof (cases "\<exists>ir\<in>set (dbItems df). result_fkey ir = k")
    case True
    then have "\<exists>ir\<in>set (dbItems df). result_fkey ir = k \<and> irOutcome ir = OutcomeUnresolved"
      using open_ unfolding unsettled_def df_def [symmetric] list_all_iff by blast
    then have "b \<le> int_at (fold prior_item (dbItems df) []) k" using prior_items_least [OF items] by blast
    then show ?thesis using prior_overflow_grows [of "fold prior_item (dbItems df) []" k "dbOverflow df"]
      unfolding read df_def [symmetric] b_def by linarith
  next
    case False
    then have b: "b = attempts_at prior k" by (auto simp: b_def attempt_spent_def list_ex_iff)
    have unselected: "it \<notin> set (rpSelected (parts_of rt cfg env fs clusters prior))"
      using False it(2) unfolding df_def debated_keys [OF env] by blast
    have "\<exists>ov\<in>set (dbOverflow df). overflow_fkey ov = k \<and> ovUnresolvedAttempts ov = attempts_at prior k"
    proof (cases "attempts_at prior k < maxUnresolvedAttempts")
      case True
      then have "it \<in> set (rpOverflow (parts_of rt cfg env fs clusters prior))"
        using kept_selected_or_overflow [OF it(1,3), of prior env] it(2) unselected by blast
      then show ?thesis using cap_overflow it(2) unfolding df_def by blast
    next
      case False
      then show ?thesis using exhausted_overflow [OF it(1,2), of prior cfg env] unfolding df_def by auto
    qed
    then obtain ov where ov: "ov \<in> set (dbOverflow df)" "overflow_fkey ov = k" "ovUnresolvedAttempts ov = attempts_at prior k" by blast
    have "attempts_at prior k \<le> attempts_at (Some df) k"
    proof (cases "1 \<le> attempts_at prior k")
      case True
      then show ?thesis using prior_overflow_reads [OF ov(1,2)] ov(3) unfolding read by simp
    next
      case False
      then have zero: "attempts_at prior k = 0" using n by simp
      have "0 \<le> int_at (fold prior_item (dbItems df) []) k"
        using prior_items_least [OF items, of "[]"] b zero by (simp add: int_at_def)
      then show ?thesis using zero prior_overflow_grows [of "fold prior_item (dbItems df) []" k "dbOverflow df"]
        unfolding read by linarith
    qed
    then show ?thesis unfolding df_def [symmetric] using b unfolding b_def by simp
  qed
qed

lemma exhausted_is_withheld:
  assumes env: "debated env = debates" and n: "maxUnresolvedAttempts \<le> attempts_at prior k"
    and play: "in_play rt cfg fs clusters k"
  shows "item_withheld (soDebate (runDebate rt cfg env fs clusters prior)) k"
proof -
  obtain it where it: "it \<in> set (debatable rt (deduplicateFindings fs) clusters)" "item_fkey it = k"
    using play by (auto simp: in_play_def list_ex_iff)
  have "\<not> (\<exists>ir\<in>set (dbItems (soDebate (runDebate rt cfg env fs clusters prior))). result_fkey ir = k)"
    unfolding debated_keys [OF env] using selected_below_limit [of _ rt cfg env fs clusters prior] n by fastforce
  then show ?thesis
    using exhausted_overflow [OF it n, of cfg env] unfolding item_withheld_def list_all_iff list_ex_iff by blast
qed

end

text \<open>The runs of one review, each reading the debate file of the one before it.\<close>

record run =
  ruConfig :: config
  ruEnv :: circumstances
  ruFindings :: "jsonFinding list"
  ruClusters :: "ambiguousCluster list"

fun history :: "runtime \<Rightarrow> debateFile option \<Rightarrow> run list \<Rightarrow> debateFile list" where
  "history rt prior [] = []"
| "history rt prior (r # rs) =
     (let df = soDebate (runDebate rt (ruConfig r) (ruEnv r) (ruFindings r) (ruClusters r) prior) in df # history rt (Some df) rs)"

lemma withheld_not_spent: "item_withheld df k \<Longrightarrow> \<not> attempt_spent df k"
  by (auto simp: item_withheld_def attempt_spent_def list_all_iff list_ex_iff)

lemma spent_runs_bounded:
  assumes "\<forall>r\<in>set runs. item_debater (debated (ruEnv r)) \<and> in_play rt (ruConfig r) (ruFindings r) (ruClusters r) k"
    and "\<forall>df\<in>set (history rt prior runs). unsettled df k"
    and "0 \<le> attempts_at prior k"
  shows "int (length (filter (\<lambda>df. attempt_spent df k) (history rt prior runs))) \<le> max 0 (maxUnresolvedAttempts - attempts_at prior k) \<and>
    (maxUnresolvedAttempts \<le> attempts_at prior k \<longrightarrow> (\<forall>df\<in>set (history rt prior runs). item_withheld df k))"
  using assms
proof (induction runs arbitrary: prior)
  case (Cons r runs)
  define df where "df = soDebate (runDebate rt (ruConfig r) (ruEnv r) (ruFindings r) (ruClusters r) prior)"
  have hist: "history rt prior (r # runs) = df # history rt (Some df) runs" by (simp add: df_def Let_def)
  have run: "item_debater (debated (ruEnv r))" "in_play rt (ruConfig r) (ruFindings r) (ruClusters r) k" "unsettled df k"
    using Cons.prems(1,2) unfolding hist by simp_all
  note grow = item_debater.attempts_never_fall [OF run(1) refl Cons.prems(3) run(2), folded df_def, OF run(3)]
  note held = item_debater.exhausted_is_withheld [OF run(1) refl _ run(2), of prior, folded df_def]
  have "0 \<le> attempts_at (Some df) k" using grow Cons.prems(3) by (simp split: if_splits)
  then have IH: "int (length (filter (\<lambda>df. attempt_spent df k) (history rt (Some df) runs))) \<le> max 0 (maxUnresolvedAttempts - attempts_at (Some df) k)"
      "maxUnresolvedAttempts \<le> attempts_at (Some df) k \<longrightarrow> (\<forall>df\<in>set (history rt (Some df) runs). item_withheld df k)"
    using Cons.IH [of "Some df"] Cons.prems(1,2) unfolding hist by simp_all
  show ?case
  proof (cases "maxUnresolvedAttempts \<le> attempts_at prior k")
    case True
    then have "item_withheld df k" using held by blast
    moreover have "maxUnresolvedAttempts \<le> attempts_at (Some df) k" using True grow by (simp split: if_splits)
    ultimately show ?thesis using IH withheld_not_spent [of df k] unfolding hist by simp
  next
    case False
    then show ?thesis using IH(1) grow unfolding hist by (simp split: if_splits)
  qed
qed simp

subsection \<open>Rulings and the gate\<close>

lemma apply_ruling_gate_fields:
  "jfCategory (apply_ruling ra f) = jfCategory f"
  "jfSeverity (apply_ruling ra f) = (if raSeverity ra \<noteq> [] then raSeverity ra else jfSeverity f)"
  by (simp_all add: apply_ruling_def Let_def split: option.splits)

lemma canonical_verdicts:
  "ToLower (TrimSpace VerdictConfirmed) = VerdictConfirmed" "ToLower (TrimSpace VerdictRefuted) = VerdictRefuted"
  "VerdictConfirmed \<noteq> VerdictRefuted" "([] :: string) \<noteq> VerdictRefuted"
  by code_simp+

lemma gate_by_verdict:
  "Verdict v = VerdictRefuted \<Longrightarrow> \<not> IsFailing s c (Some v) t rv"
  "Verdict v = VerdictConfirmed \<Longrightarrow> IsFailing s c (Some v) t rv \<longleftrightarrow> IsFailing s c None t False"
  using canonical_verdicts by (simp_all add: IsFailing_def)

text \<open>
  C13. A ruling decides the gate: an overturned finding never fails it; an upheld or split one fails it exactly when its
  severity (the settled one of a split, where the judge gave one) reaches the threshold in scope, with or without
  \<^verbatim>\<open>--require-verified\<close> and whatever verdict it had before.
\<close>

theorem ruling_decides_gate:
  assumes "irOutcome ir \<in> {OutcomeUphold, OutcomeOverturn, OutcomeSplit}"
  shows "failing_json t rv (apply_ruling (rule_of ir) f) \<longleftrightarrow>
    irOutcome ir \<noteq> OutcomeOverturn \<and>
    IsFailing (if irOutcome ir = OutcomeSplit \<and> irSettledSeverity ir \<noteq> [] then irSettledSeverity ir else jfSeverity f)
      (jfCategory f) None t False"
proof -
  obtain v where v: "jfVerification (apply_ruling (rule_of ir) f) = Some v" "Verdict v = ruleVerdict ir"
    using apply_ruling_fields(2) [of "rule_of ir" f] by (auto simp: rule_of_def)
  have sev: "jfSeverity (apply_ruling (rule_of ir) f) =
      (if irOutcome ir = OutcomeSplit \<and> irSettledSeverity ir \<noteq> [] then irSettledSeverity ir else jfSeverity f)"
    by (simp add: apply_ruling_gate_fields rule_of_def splitSeverity_def)
  have gate: "failing_json t rv (apply_ruling (rule_of ir) f) =
      IsFailing (if irOutcome ir = OutcomeSplit \<and> irSettledSeverity ir \<noteq> [] then irSettledSeverity ir else jfSeverity f)
        (jfCategory f) (Some v) t rv"
    unfolding failing_json_def sev v(1) apply_ruling_gate_fields(1) ..
  show ?thesis
  proof (cases "irOutcome ir = OutcomeOverturn")
    case True
    then have "Verdict v = VerdictRefuted" using v(2) verdict_of_outcome by (simp add: ruleVerdict_def)
    then show ?thesis unfolding gate using gate_by_verdict(1) True by blast
  next
    case False
    then have "Verdict v = VerdictConfirmed" using v(2) verdict_of_outcome assms by (auto simp: ruleVerdict_def)
    then show ?thesis unfolding gate using gate_by_verdict(2) False by blast
  qed
qed

definition refuted_finding :: jsonFinding where
  "refuted_finding = zero_jsonFinding
     \<lparr>jfSeverity := ''CRITICAL'', jfVerification := Some \<lparr>Verdict = VerdictRefuted, Skeptic = ''bob'', Notes = [], ChallengeSurvived = False, Truncated = False\<rparr>\<rparr>"

theorem ruling_decides_gate_witness:
  "let ir = zero_itemResult\<lparr>irOutcome := OutcomeUphold\<rparr> in
     irOutcome ir \<in> {OutcomeUphold, OutcomeOverturn, OutcomeSplit} \<and>
     \<not> failing_json ''HIGH'' True refuted_finding \<and> failing_json ''HIGH'' True (apply_ruling (rule_of ir) refuted_finding)"
proof -
  define ir where "ir = zero_itemResult\<lparr>irOutcome := OutcomeUphold\<rparr>"
  have out: "irOutcome ir \<in> {OutcomeUphold, OutcomeOverturn, OutcomeSplit}" "irOutcome ir = OutcomeUphold" by (simp_all add: ir_def)
  have "IsFailing ''CRITICAL'' [] None ''HIGH'' False" by code_simp
  moreover have "jfSeverity refuted_finding = ''CRITICAL''" "jfCategory refuted_finding = []"
    by (simp_all add: refuted_finding_def zero_jsonFinding_def)
  ultimately have "failing_json ''HIGH'' True (apply_ruling (rule_of ir) refuted_finding)"
    using ruling_decides_gate [OF out(1), of "''HIGH''" True refuted_finding] out(2) outcomes_distinct by simp
  moreover have "\<not> failing_json ''HIGH'' True refuted_finding" by code_simp
  ultimately show ?thesis using out(1) unfolding ir_def Let_def by blast
qed

subsection \<open>Clusters ruled but not merged\<close>

text \<open>
  A gray-zone item whose cluster the judge does not order to merge leaves no mark: its outcome is not unresolved, so no
  attempt is counted, and nothing is written to a finding. The run repeats without end.
\<close>

lemma no_attempts_from_settled:
  "\<forall>ir\<in>set (dbItems df). irOutcome ir \<noteq> OutcomeUnresolved \<Longrightarrow> dbOverflow df = [] \<Longrightarrow> priorUnresolvedAttempts (Some df) = []"
proof -
  assume items: "\<forall>ir\<in>set (dbItems df). irOutcome ir \<noteq> OutcomeUnresolved" and "dbOverflow df = []"
  have "\<forall>ir\<in>set irs. irOutcome ir \<noteq> OutcomeUnresolved \<Longrightarrow> fold prior_item irs [] = []" for irs
    by (induction irs) (simp_all add: prior_item_def)
  then show ?thesis using items \<open>dbOverflow df = []\<close> by (simp add: priorUnresolvedAttempts_def)
qed

lemma undecided_cluster_recurs:
  assumes "\<not> harnessFailed (ruEnv r)" "\<forall>i. \<not> cancelled (ruEnv r) i" "MaxItems (ruConfig r) \<le> 0"
    and "\<forall>i it. irOutcome (debated (ruEnv r) i it) \<noteq> OutcomeUnresolved"
  shows "history rt None (replicate n r) =
    replicate n (soDebate (runDebate rt (ruConfig r) (ruEnv r) (ruFindings r) (ruClusters r) None))"
proof -
  define out where "out prior = soDebate (runDebate rt (ruConfig r) (ruEnv r) (ruFindings r) (ruClusters r) prior)" for prior
  have fresh: "out prior = out None" if "priorUnresolvedAttempts prior = []" for prior
    unfolding out_def runDebate_debate parts_of_def using that by (simp add: priorUnresolvedAttempts_def)
  have "\<forall>ir\<in>set (dbItems (out None)). irOutcome ir \<noteq> OutcomeUnresolved"
  proof
    fix ir assume "ir \<in> set (dbItems (out None))"
    then obtain i it oc where "irOutcome ir = irOutcome (item_result (ruEnv r) i it)"
      unfolding out_def using debated_item carried_id(2) outcome_of_id(2) by metis
    then show "irOutcome ir \<noteq> OutcomeUnresolved" using assms by (simp add: item_result_def)
  qed
  moreover have "dbOverflow (out None) = []"
    using assms(3) unfolding out_def runDebate_debate
    by (simp add: Let_def parts_of_def overflowItems_def SelectItems_def withholdExhausted_def priorUnresolvedAttempts_def)
  ultimately have again: "out (Some (out None)) = out None" using no_attempts_from_settled fresh by blast
  have "prior = None \<or> prior = Some (out None) \<Longrightarrow> history rt prior (replicate n r) = replicate n (out None)" for prior
  proof (induction n arbitrary: prior)
    case (Suc n)
    have "out prior = out None" using Suc.prems again by auto
    then show ?case using Suc.IH [of "Some (out None)"] by (simp add: out_def [symmetric] Let_def)
  qed simp
  then show ?thesis unfolding out_def by blast
qed

lemma undecided_writes_nothing:
  assumes "\<forall>it\<in>set (debatable rt (deduplicateFindings fs) clusters). itKind it = KindGrayZone"
    and "\<forall>i it. irClusterDecision (item_result env i it) \<noteq> ClusterMerge"
  shows "soFindings (runDebate rt cfg env fs clusters prior) = deduplicateFindings fs"
proof -
  define p where "p = parts_of rt cfg env fs clusters prior"
  have src: "\<exists>i it. it \<in> set (rpSelected p) \<and> oc = outcome_of (rpIndex p) it (item_result env i it)" if "oc \<in> set (rpOutcomes p)" for oc
    using outcomes_of_member that unfolding p_def parts_facts(3) by blast
  have unruled: "ocRule oc = None" if oc: "oc \<in> set (rpOutcomes p)" for oc
  proof -
    obtain i it where it: "it \<in> set (rpSelected p)" "oc = outcome_of (rpIndex p) it (item_result env i it)" using src [OF oc] by blast
    then have "itKind it = KindGrayZone" using assms(1) selected_debatable unfolding p_def by blast
    then show ?thesis using outcome_rule it(2) by (cases "ocRule oc") auto
  qed
  have "rulings_of (rpOutcomes p) = []"
  proof (rule ccontr)
    assume "rulings_of (rpOutcomes p) \<noteq> []"
    then obtain oc where "oc \<in> set (rpOutcomes p)" "ocRule oc = Some (hd (rulings_of (rpOutcomes p)))"
      using rulings_from [OF hd_in_set] by blast
    then show False using unruled by simp
  qed
  moreover have "ocCluster oc = None" if oc: "oc \<in> set (rpOutcomes p)" for oc
  proof (rule ccontr)
    assume "ocCluster oc \<noteq> None"
    then obtain c where "ocCluster oc = Some c" by blast
    then obtain i it where "ocCluster (outcome_of (rpIndex p) it (item_result env i it)) = Some c" using src [OF oc] by blast
    then show False using outcome_cluster assms(2) by blast
  qed
  then have "List.map_filter ocCluster (rpOutcomes p) = []" by (simp add: map_filter_def filter_empty_conv)
  ultimately show ?thesis
    by (simp add: runDebate_findings p_def [symmetric] Let_def applyRulings_def rules_def applyClusterMerges_def)
qed

subsection \<open>Disclosure\<close>

lemma overflow_from:
  assumes "ov \<in> set (dbOverflow (soDebate (runDebate rt cfg env fs clusters prior)))"
  shows "\<exists>it\<in>set (debatable rt (deduplicateFindings fs) clusters). overflow_fkey ov = item_fkey it"
proof -
  define p where "p = parts_of rt cfg env fs clusters prior"
  note w = withhold_split [OF parts_withheld [of rt fs clusters prior cfg env, folded p_def]]
  have "set (rpOverflow p) \<subseteq> set (sortByPriority (filter (\<lambda>it. itKind it \<in> set (Triggers cfg)) (rpKept p)))"
    using parts_selected [of rt cfg env fs clusters prior, folded p_def] by (metis Un_upper2 set_append)
  then have over: "set (rpOverflow p) \<subseteq> set (debatable rt (deduplicateFindings fs) clusters)"
    using w by (auto simp: sortByPriority_def)
  have "ov \<in> set (overflowItems (rpOverflow p) (rpAttempts p)) \<or> ov \<in> set (rpWithheld p)"
    using assms by (auto simp: runDebate_debate Let_def p_def)
  then show ?thesis
  proof
    assume "ov \<in> set (overflowItems (rpOverflow p) (rpAttempts p))"
    then show ?thesis using over by (auto simp: overflowItems_def)
  next
    assume "ov \<in> set (rpWithheld p)"
    then show ?thesis using w by auto
  qed
qed

lemma withheld_after:
  assumes "\<forall>r\<in>set runs. item_debater (debated (ruEnv r)) \<and> in_play rt (ruConfig r) (ruFindings r) (ruClusters r) k"
    and "\<forall>df\<in>set (history rt prior runs). unsettled df k"
    and "0 \<le> attempts_at prior k" "j < length (history rt prior runs)"
    and "maxUnresolvedAttempts \<le> attempts_at prior k + int (length (filter (\<lambda>df. attempt_spent df k) (take j (history rt prior runs))))"
  shows "item_withheld (history rt prior runs ! j) k"
  using assms
proof (induction runs arbitrary: prior j)
  case (Cons r runs)
  define df where "df = soDebate (runDebate rt (ruConfig r) (ruEnv r) (ruFindings r) (ruClusters r) prior)"
  have hist: "history rt prior (r # runs) = df # history rt (Some df) runs" by (simp add: df_def Let_def)
  have run: "item_debater (debated (ruEnv r))" "in_play rt (ruConfig r) (ruFindings r) (ruClusters r) k" "unsettled df k"
    using Cons.prems(1,2) unfolding hist by simp_all
  note grow = item_debater.attempts_never_fall [OF run(1) refl Cons.prems(3) run(2), folded df_def, OF run(3)]
  show ?case
  proof (cases j)
    case 0
    then show ?thesis
      using item_debater.exhausted_is_withheld [OF run(1) refl _ run(2), of prior, folded df_def] Cons.prems(5) unfolding hist by simp
  next
    case (Suc i)
    have "0 \<le> attempts_at (Some df) k" using grow Cons.prems(3) by (simp split: if_splits)
    moreover have "maxUnresolvedAttempts \<le> attempts_at (Some df) k + int (length (filter (\<lambda>df. attempt_spent df k) (take i (history rt (Some df) runs))))"
      using Cons.prems(5) grow unfolding hist Suc by (simp split: if_splits)
    ultimately show ?thesis using Cons.IH [of "Some df" i] Cons.prems(1,2,4) unfolding hist Suc by simp
  qed
qed simp


end
