(* ===== verification/Cast.thy ===== *)
theory Cast
  imports DebateRun
begin

text \<open>
  The seats of a debate: \<^verbatim>\<open>internal/debate/cast.go\<close> with the lookup of agents by role of
  \<^verbatim>\<open>internal/registry/config.go\<close>. The maps of the registry are association lists with distinct keys; \<open>None\<close> is a nil
  registry or a nil map. Shown here: the models of a cast are pairwise distinct unless the single-model fallback
  was allowed, each seat is held by an agent of its role with a usable provider, and the greedy choice of the
  challenger can refuse an item although three distinct models are at hand.
\<close>

subsection \<open>The registry\<close>

definition RoleReviewer :: string where "RoleReviewer = ''reviewer''"
definition RoleSkeptic :: string where "RoleSkeptic = ''skeptic''"
definition RoleJudge :: string where "RoleJudge = ''judge''"

record provider =
  pvAPIKeyEnv :: string
  pvBaseURL :: string

record agentConfig =
  acProvider :: string
  acModel :: string
  acRole :: string
  acTemperature :: "rat option"
  acTimeoutSecs :: "int option"
  acMaxTurns :: "int option"
  acToolBudgetBytes :: "int option"
  acMaxRetries :: "int option"
  acInitialBackoffMs :: "int option"
  acMaxTokens :: "int option"
  acSupportsFC :: bool
  acResponseFormat :: string
  acThinking :: string
  acThinkingLevel :: string
  acThinkingStyle :: string
  acPreserveThinking :: string
  acReplayReasoning :: string

record agentRegistry =
  rgAgents :: "(string \<times> agentConfig) list"
  rgProviders :: "(string \<times> provider) list option"

definition effective_role :: "agentConfig \<Rightarrow> string" where
  "effective_role a = (if acRole a = [] then RoleReviewer else acRole a)"

definition AgentsByRole :: "agentRegistry option \<Rightarrow> string \<Rightarrow> (string \<times> agentConfig) list" where
  "AgentsByRole reg role =
     (case reg of None \<Rightarrow> [] | Some r \<Rightarrow> filter (\<lambda>(name, a). effective_role a = role) (rgAgents r))"

subsection \<open>The seats\<close>

definition LabelProposer :: string where "LabelProposer = ''proposer''"
definition LabelChallenger :: string where "LabelChallenger = ''challenger''"
definition LabelJudge :: string where "LabelJudge = ''judge''"

definition ReasonJudgeHalted :: string where "ReasonJudgeHalted = ''judge_halted''"
definition ReasonUnparseableRuling :: string where "ReasonUnparseableRuling = ''unparseable_ruling''"
definition ReasonEmptyRuling :: string where "ReasonEmptyRuling = ''empty_ruling''"
definition ReasonJudgeThinkMarkup :: string where "ReasonJudgeThinkMarkup = ''judge_think_markup''"
definition ReasonSeatHalted :: string where "ReasonSeatHalted = ''seat_halted''"
definition ReasonSeatSilent :: string where "ReasonSeatSilent = ''seat_silent''"
definition ReasonSeatSuppressed :: string where "ReasonSeatSuppressed = ''seat_suppressed''"
definition ReasonJudgeSuppressed :: string where "ReasonJudgeSuppressed = ''judge_suppressed''"

record caster =
  csLabel :: string
  csAgent :: string
  csConfig :: agentConfig
  csProvider :: provider

record seats =
  Proposer :: caster
  Challenger :: caster
  Judge :: caster
  SingleModel :: bool

definition resolveProvider :: "agentRegistry \<Rightarrow> agentConfig \<Rightarrow> provider option" where
  "resolveProvider reg cfg =
     (case rgProviders reg of
        None \<Rightarrow> None
      | Some ps \<Rightarrow>
          (case map_of ps (acProvider cfg) of
             None \<Rightarrow> None
           | Some p \<Rightarrow> if pvBaseURL p = [] then None else Some p))"

fun first_some :: "('a \<Rightarrow> 'b option) \<Rightarrow> 'a list \<Rightarrow> 'b option" where
  "first_some f [] = None"
| "first_some f (x # xs) = (case f x of None \<Rightarrow> first_some f xs | Some y \<Rightarrow> Some y)"

definition pickDistinct :: "agentRegistry \<Rightarrow> string \<Rightarrow> string \<Rightarrow> string list \<Rightarrow> caster option" where
  "pickDistinct reg role label excludeModels =
     (let candidates = AgentsByRole (Some reg) role in
      first_some (\<lambda>name.
        case map_of candidates name of
          None \<Rightarrow> None
        | Some cfg \<Rightarrow>
            if acModel cfg \<in> set excludeModels then None
            else map_option (\<lambda>prov. \<lparr>csLabel = label, csAgent = name, csConfig = cfg, csProvider = prov\<rparr>) (resolveProvider reg cfg))
        (sort (map fst candidates)))"

definition resolveProposer :: "agentRegistry \<Rightarrow> disagreementItem \<Rightarrow> caster option" where
  "resolveProposer reg it =
     (case first_some (\<lambda>name.
        case map_of (rgAgents reg) name of
          None \<Rightarrow> None
        | Some cfg \<Rightarrow>
            map_option (\<lambda>prov. \<lparr>csLabel = LabelProposer, csAgent = name, csConfig = cfg, csProvider = prov\<rparr>) (resolveProvider reg cfg))
        (sort (itReviewers it)) of
        Some seat \<Rightarrow> Some seat
      | None \<Rightarrow> pickDistinct reg RoleReviewer LabelProposer [])"

text \<open>The cast, or the reason why the item cannot be cast.\<close>

definition CastRoles :: "agentRegistry option \<Rightarrow> disagreementItem \<Rightarrow> config \<Rightarrow> string + seats" where
  "CastRoles reg it cfg =
     (case reg of
        None \<Rightarrow> Inl ReasonNoProposer
      | Some r \<Rightarrow>
          (case resolveProposer r it of
             None \<Rightarrow> Inl ReasonNoProposer
           | Some p \<Rightarrow>
               let distinct_cast =
                 Option.bind (pickDistinct r RoleSkeptic LabelChallenger [acModel (csConfig p)]) (\<lambda>c.
                   map_option (\<lambda>j. \<lparr>Proposer = p, Challenger = c, Judge = j, SingleModel = False\<rparr>)
                     (pickDistinct r RoleJudge LabelJudge [acModel (csConfig p), acModel (csConfig c)]))
               in case distinct_cast of
                 Some s \<Rightarrow> Inr s
               | None \<Rightarrow>
                   if \<not> AllowSingleModel cfg then Inl ReasonInsufficientModels
                   else Inr \<lparr>Proposer = p, Challenger = p\<lparr>csLabel := LabelChallenger\<rparr>,
                             Judge = p\<lparr>csLabel := LabelJudge\<rparr>, SingleModel = True\<rparr>))"

subsection \<open>What a cast holds\<close>

lemma first_some_Some: "first_some f xs = Some y \<Longrightarrow> \<exists>x\<in>set xs. f x = Some y"
  by (induction xs) (auto split: option.splits)

lemma first_some_None: "first_some f xs = None \<longleftrightarrow> (\<forall>x\<in>set xs. f x = None)"
  by (induction xs) (auto split: option.splits)

definition seated :: "agentRegistry \<Rightarrow> string \<Rightarrow> caster \<Rightarrow> bool" where
  "seated reg label s \<longleftrightarrow> csLabel s = label \<and> map_of (rgAgents reg) (csAgent s) = Some (csConfig s) \<and>
     resolveProvider reg (csConfig s) = Some (csProvider s)"

lemma map_of_filter_distinct:
  "distinct (map fst xs) \<Longrightarrow> map_of (filter (\<lambda>(k, v). P v) xs) k = Some v \<Longrightarrow> map_of xs k = Some v \<and> P v"
proof -
  assume d: "distinct (map fst xs)" and "map_of (filter (\<lambda>(k, v). P v) xs) k = Some v"
  then have "(k, v) \<in> set (filter (\<lambda>(k, v). P v) xs)" using map_of_SomeD by fastforce
  then show ?thesis using d by simp
qed

lemma pickDistinct_Some:
  assumes "pickDistinct reg role label ex = Some s" "distinct (map fst (rgAgents reg))"
  shows "seated reg label s \<and> effective_role (csConfig s) = role \<and> acModel (csConfig s) \<notin> set ex"
proof -
  obtain name where n: "(case map_of (AgentsByRole (Some reg) role) name of
          None \<Rightarrow> None
        | Some cfg \<Rightarrow>
            if acModel cfg \<in> set ex then None
            else map_option (\<lambda>prov. \<lparr>csLabel = label, csAgent = name, csConfig = cfg, csProvider = prov\<rparr>) (resolveProvider reg cfg)) = Some s"
    using first_some_Some assms(1) unfolding pickDistinct_def Let_def by fastforce
  then obtain cfg where cfg: "map_of (AgentsByRole (Some reg) role) name = Some cfg" by (auto split: option.splits)
  then have "map_of (rgAgents reg) name = Some cfg \<and> effective_role cfg = role"
    using map_of_filter_distinct [OF assms(2), of "\<lambda>a. effective_role a = role" name cfg] by (simp add: AgentsByRole_def)
  then show ?thesis using n cfg by (auto simp: seated_def split: if_splits)
qed

lemma pickDistinct_None:
  assumes "pickDistinct reg role label ex = None" "(name, cfg) \<in> set (rgAgents reg)" "distinct (map fst (rgAgents reg))"
    and "effective_role cfg = role" "acModel cfg \<notin> set ex"
  shows "resolveProvider reg cfg = None"
proof -
  have mem: "(name, cfg) \<in> set (AgentsByRole (Some reg) role)" using assms(2,4) by (simp add: AgentsByRole_def)
  moreover have "distinct (map fst (AgentsByRole (Some reg) role))"
    using assms(3) by (simp add: AgentsByRole_def distinct_map_filter)
  ultimately have "map_of (AgentsByRole (Some reg) role) name = Some cfg" by simp
  then show ?thesis using assms(1,5) mem unfolding pickDistinct_def Let_def first_some_None by force
qed
lemma resolveProposer_Some:
  assumes "resolveProposer reg it = Some s" "distinct (map fst (rgAgents reg))"
  shows "seated reg LabelProposer s"
proof (cases "first_some (\<lambda>name.
        case map_of (rgAgents reg) name of
          None \<Rightarrow> None
        | Some cfg \<Rightarrow>
            map_option (\<lambda>prov. \<lparr>csLabel = LabelProposer, csAgent = name, csConfig = cfg, csProvider = prov\<rparr>) (resolveProvider reg cfg))
        (sort (itReviewers it))")
  case None
  then show ?thesis using assms pickDistinct_Some unfolding resolveProposer_def by fastforce
next
  case (Some x)
  then show ?thesis using assms(1) first_some_Some [OF Some] unfolding resolveProposer_def
    by (auto simp: seated_def split: option.splits)
qed

lemma resolveProposer_None:
  assumes none: "resolveProposer reg it = None" and mem: "(name, a) \<in> set (rgAgents reg)"
    and d: "distinct (map fst (rgAgents reg))" and who: "name \<in> set (itReviewers it) \<or> effective_role a = RoleReviewer"
  shows "resolveProvider reg a = None"
proof -
  have "pickDistinct reg RoleReviewer LabelProposer [] = None"
    using none unfolding resolveProposer_def by (simp split: option.splits)
  note fallback = pickDistinct_None [OF this mem d]
  have "first_some (\<lambda>name.
        case map_of (rgAgents reg) name of
          None \<Rightarrow> None
        | Some cfg \<Rightarrow>
            map_option (\<lambda>prov. \<lparr>csLabel = LabelProposer, csAgent = name, csConfig = cfg, csProvider = prov\<rparr>) (resolveProvider reg cfg))
        (sort (itReviewers it)) = None"
    using none unfolding resolveProposer_def by (simp split: option.splits)
  moreover have "map_of (rgAgents reg) name = Some a" using mem d by simp
  ultimately show ?thesis using who fallback by (auto simp: first_some_None)
qed

definition roles_filled :: "agentRegistry \<Rightarrow> seats \<Rightarrow> bool" where
  "roles_filled r s \<longleftrightarrow>
     seated r LabelChallenger (Challenger s) \<and> effective_role (csConfig (Challenger s)) = RoleSkeptic \<and>
     seated r LabelJudge (Judge s) \<and> effective_role (csConfig (Judge s)) = RoleJudge"

definition models :: "seats \<Rightarrow> string list" where
  "models s = map (\<lambda>c. acModel (csConfig c)) [Proposer s, Challenger s, Judge s]"

text \<open>
  C17. Independence of a debate's seats: the proposer is a registered agent with a usable provider, and either the
  challenger is a skeptic, the judge is a judge and the three models are pairwise distinct, or the fallback
  was allowed, is disclosed, and puts the proposer's agent on all seats. An item is refused only when the fallback
  is not allowed, or when no crediting reviewer and no reviewer has a usable provider.
\<close>

theorem cast_independence:
  assumes "distinct (map fst (rgAgents r))"
  shows "case CastRoles (Some r) it cfg of
      Inr s \<Rightarrow> seated r LabelProposer (Proposer s) \<and>
        (if SingleModel s
         then AllowSingleModel cfg \<and> Challenger s = (Proposer s)\<lparr>csLabel := LabelChallenger\<rparr> \<and>
           Judge s = (Proposer s)\<lparr>csLabel := LabelJudge\<rparr>
         else roles_filled r s \<and> distinct (models s))
    | Inl reason \<Rightarrow>
        reason = ReasonInsufficientModels \<and> \<not> AllowSingleModel cfg \<or>
        reason = ReasonNoProposer \<and>
          (\<forall>(name, a)\<in>set (rgAgents r). name \<in> set (itReviewers it) \<or> effective_role a = RoleReviewer \<longrightarrow> resolveProvider r a = None)"
proof (cases "resolveProposer r it")
  case None
  then have "CastRoles (Some r) it cfg = Inl ReasonNoProposer" by (simp add: CastRoles_def)
  then show ?thesis using resolveProposer_None [OF None _ assms] by auto
next
  case (Some p)
  note seat = resolveProposer_Some [OF Some assms]
  show ?thesis
  proof (cases "\<exists>c j. pickDistinct r RoleSkeptic LabelChallenger [acModel (csConfig p)] = Some c \<and>
      pickDistinct r RoleJudge LabelJudge [acModel (csConfig p), acModel (csConfig c)] = Some j")
    case True
    then obtain c j where c: "pickDistinct r RoleSkeptic LabelChallenger [acModel (csConfig p)] = Some c"
      and j: "pickDistinct r RoleJudge LabelJudge [acModel (csConfig p), acModel (csConfig c)] = Some j" by blast
    have "CastRoles (Some r) it cfg = Inr \<lparr>Proposer = p, Challenger = c, Judge = j, SingleModel = False\<rparr>"
      by (simp add: CastRoles_def Some c j)
    then show ?thesis
      using seat pickDistinct_Some [OF c assms] pickDistinct_Some [OF j assms] by (auto simp: roles_filled_def models_def)
  next
    case False
    then have "Option.bind (pickDistinct r RoleSkeptic LabelChallenger [acModel (csConfig p)]) (\<lambda>c.
        map_option (\<lambda>j. \<lparr>Proposer = p, Challenger = c, Judge = j, SingleModel = False\<rparr>)
          (pickDistinct r RoleJudge LabelJudge [acModel (csConfig p), acModel (csConfig c)])) = None"
      by (cases "pickDistinct r RoleSkeptic LabelChallenger [acModel (csConfig p)]") auto
    then show ?thesis using seat by (simp add: CastRoles_def Some)
  qed
qed

definition sample_agent :: "string \<Rightarrow> string \<Rightarrow> agentConfig" where
  "sample_agent model role =
     \<lparr>acProvider = ''p'', acModel = model, acRole = role, acTemperature = None, acTimeoutSecs = None, acMaxTurns = None,
      acToolBudgetBytes = None, acMaxRetries = None, acInitialBackoffMs = None, acMaxTokens = None, acSupportsFC = True,
      acResponseFormat = ''json_object'', acThinking = [], acThinkingLevel = [], acThinkingStyle = [],
      acPreserveThinking = [], acReplayReasoning = []\<rparr>"

definition sample_registry :: agentRegistry where
  "sample_registry =
     \<lparr>rgAgents = [(''ann'', sample_agent ''m1'' ''reviewer''), (''bob'', sample_agent ''m2'' ''skeptic''),
                  (''cat'', sample_agent ''m3'' ''skeptic''), (''dan'', sample_agent ''m2'' ''judge'')],
      rgProviders = Some [(''p'', \<lparr>pvAPIKeyEnv = ''KEY'', pvBaseURL = ''https://api''\<rparr>)]\<rparr>"

definition sample_item :: disagreementItem where
  "sample_item =
     \<lparr>itKind = KindSeveritySplit, itFile = ''a.go'', itLine = 3, itSeverity = ''HIGH'', itProblem = ''leak'', itScore = 4,
      itSpread = 1, itIndependence = 1, itReviewers = [''ann''], itDisagreement = ''HIGH vs LOW'', itSkeptics = [], itDetail = [],
      itPositions = []\<rparr>"

definition sample_config :: "bool \<Rightarrow> config" where
  "sample_config allow = \<lparr>Triggers = DefaultDebateTriggers, MaxItems = 5, AllowSingleModel = allow, MaxParallel = 4\<rparr>"

theorem cast_independence_witness:
  "distinct (map fst (rgAgents sample_registry)) \<and>
   (case CastRoles (Some sample_registry) sample_item (sample_config True) of
      Inr s \<Rightarrow> seated sample_registry LabelProposer (Proposer s) \<and> SingleModel s
    | Inl _ \<Rightarrow> False)"
proof -
  have d: "distinct (map fst (rgAgents sample_registry))" by code_simp
  have "case CastRoles (Some sample_registry) sample_item (sample_config True) of Inr s \<Rightarrow> SingleModel s | Inl _ \<Rightarrow> False"
    by code_simp
  then show ?thesis
    using d cast_independence [OF d, of "sample_config True" sample_item] by (auto split: sum.splits)
qed

text \<open>
  The challenger is the first skeptic by name whose model differs from the proposer's, even when that leaves no
  judge: here the models m1, m3 and m2 can fill the seats, and the item is refused.
\<close>

lemma greedy_challenger_refuses:
  "CastRoles (Some sample_registry) sample_item (sample_config False) = Inl ReasonInsufficientModels"
  "pickDistinct sample_registry RoleSkeptic LabelChallenger [''m1'', ''m2''] \<noteq> None"
  "pickDistinct sample_registry RoleJudge LabelJudge [''m1'', ''m3''] \<noteq> None"
  by code_simp+


end
