(* ===== verification/Chunker.thy ===== *)
theory Chunker
  imports GoText "HOL-Library.Sublist"
begin

text \<open>
  Splitting a diff into chunks and joining the replies: the chunker of \<^verbatim>\<open>internal/fanout/chunker.go\<close> and the reader
  of its boundaries, \<^verbatim>\<open>chunkSegmentBounds\<close> of \<^verbatim>\<open>internal/reconcile/justification.go\<close>. The loops over lines are folds
  whose state holds the variables of the loop. The theorems show that no byte is lost and no file split, within
  which bounds a chunk stays, and that the reader finds exactly the replies that were joined, whatever they contain.
\<close>

abbreviation NL :: char where "NL \<equiv> CHR 0x0A"

text \<open>\<^verbatim>\<open>strings.SplitAfter(s, "\n")\<close>: every segment keeps its newline; the last one may be empty.\<close>

fun split_after :: "char \<Rightarrow> string \<Rightarrow> string \<Rightarrow> string list" where
  "split_after c cur [] = [rev cur]"
| "split_after c cur (x # xs) =
     (if x = c then rev (x # cur) # split_after c [] xs else split_after c (x # cur) xs)"

definition SplitAfter :: "string \<Rightarrow> char \<Rightarrow> string list" where
  "SplitAfter s c = split_after c [] s"

subsection \<open>Files of a diff\<close>

definition isGitMarker :: "string \<Rightarrow> bool" where
  "isGitMarker ln \<longleftrightarrow>
     has_prefix ''diff --git '' ln \<or> has_prefix ''diff --cc '' ln \<or> has_prefix ''diff --combined '' ln"

definition isDiffFileMarker :: "string \<Rightarrow> bool" where
  "isDiffFileMarker ln \<longleftrightarrow>
     has_prefix ''diff --git '' ln \<or> has_prefix ''diff --cc '' ln \<or> has_prefix ''diff --combined '' ln \<or>
     has_prefix ''=== FILE: '' ln \<or> has_prefix ''[deleted file: '' ln \<or>
     has_prefix ''[binary file changed: '' ln"

definition hasGitDiffMarker :: "string \<Rightarrow> bool" where
  "hasGitDiffMarker diff \<longleftrightarrow> list_ex isGitMarker (SplitAfter diff NL)"

definition countLines :: "string \<Rightarrow> nat" where
  "countLines s =
     (if s = [] then 0
      else length (filter (\<lambda>c. c = NL) s) + (if last s \<noteq> NL then 1 else 0))"

fun prefix_lines :: "nat \<Rightarrow> string list \<Rightarrow> nat" where
  "prefix_lines i [] = 0"
| "prefix_lines i (ln # lns) = (if isDiffFileMarker ln then i else prefix_lines (Suc i) lns)"

definition diffPrefixLines :: "string \<Rightarrow> nat" where
  "diffPrefixLines chunk = prefix_lines 0 (SplitAfter chunk NL)"

definition countDiffFiles :: "string \<Rightarrow> nat" where
  "countDiffFiles diff =
     (if diff = [] then 0 else length (filter isDiffFileMarker (SplitAfter diff NL)))"

definition segment_step :: "string \<Rightarrow> string list \<times> string \<times> bool \<Rightarrow> string list \<times> string \<times> bool" where
  "segment_step ln st =
     (case st of (segments, cur, started) \<Rightarrow>
        if isDiffFileMarker ln \<and> started then (segments @ [cur], ln, True)
        else (segments, cur @ ln, started \<or> isDiffFileMarker ln))"

definition splitDiffFiles :: "string \<Rightarrow> string list" where
  "splitDiffFiles diff =
     (if diff = [] then []
      else case fold segment_step (SplitAfter diff NL) ([], [], False) of
        (segments, cur, _) \<Rightarrow> if length cur > 0 then segments @ [cur] else segments)"

subsection \<open>Chunks\<close>

definition maxChunksPerAgent :: nat where
  "maxChunksPerAgent = 64"

definition chunk_step :: "int \<Rightarrow> string \<Rightarrow> string list \<times> string \<times> nat \<Rightarrow> string list \<times> string \<times> nat" where
  "chunk_step maxLines f st =
     (case st of (chunks, cur, curLines) \<Rightarrow>
        let fl = countLines f
        in if length cur > 0 \<and> int (curLines + fl) > maxLines \<and> length chunks < maxChunksPerAgent - 1
           then (chunks @ [cur], f, fl)
           else (chunks, cur @ f, curLines + fl))"

definition chunkDiff :: "string \<Rightarrow> int \<Rightarrow> string list" where
  "chunkDiff diff maxLines =
     (if diff = [] then []
      else let files = splitDiffFiles diff
        in if maxLines \<le> 0 \<or> length files \<le> 1 then [diff]
           else case fold (chunk_step maxLines) files ([], [], 0) of
             (chunks, cur, _) \<Rightarrow> if length cur > 0 then chunks @ [cur] else chunks)"

subsection \<open>Joining the replies\<close>

definition chunkBoundaryLine :: string where
  "chunkBoundaryLine = ''<!-- atcr:chunk-boundary -->''"

definition neutralLine :: string where
  "neutralLine = ''<!-- atcr:chunk-boundary (model-issued copy; not a chunk delimiter) -->''"

definition neutraliseChunkBoundary :: "string \<Rightarrow> string" where
  "neutraliseChunkBoundary content =
     (if \<not> contains chunkBoundaryLine content then content
      else Join (map (\<lambda>ln. if ln = chunkBoundaryLine then neutralLine else ln) (Split content [NL])) [NL])"

definition joinChunkContents :: "string list \<Rightarrow> string" where
  "joinChunkContents contents =
     (let neutralised = map neutraliseChunkBoundary contents
      in if length neutralised < 2 then Join neutralised [NL]
         else Join neutralised ([NL] @ chunkBoundaryLine @ [NL]))"

text \<open>The reader walks back and forth from a line to the nearest boundaries. \<open>back_to\<close> returns the index after
  the boundary it finds, \<open>forth_to\<close> the index of the boundary.\<close>

fun back_to :: "string list \<Rightarrow> nat \<Rightarrow> nat option" where
  "back_to lns 0 = None"
| "back_to lns (Suc i) = (if lns ! i = chunkBoundaryLine then Some (Suc i) else back_to lns i)"

definition forth_to :: "string list \<Rightarrow> nat \<Rightarrow> nat option" where
  "forth_to lns i = find (\<lambda>j. lns ! j = chunkBoundaryLine) [i..<length lns]"

definition chunkSegmentBounds :: "string list \<Rightarrow> nat \<Rightarrow> nat \<times> nat \<times> bool" where
  "chunkSegmentBounds lns idx =
     (let b = back_to lns idx; f = forth_to lns (Suc idx)
      in (case b of None \<Rightarrow> 0 | Some lo \<Rightarrow> lo, case f of None \<Rightarrow> length lns | Some hi \<Rightarrow> hi,
          b \<noteq> None \<or> f \<noteq> None))"

subsection \<open>Lines\<close>

definition whole :: "string \<Rightarrow> bool" where
  "whole s \<longleftrightarrow> s = [] \<or> last s = NL"

definition full_line :: "string \<Rightarrow> bool" where
  "full_line l \<longleftrightarrow> (\<exists>a. l = a @ [NL] \<and> NL \<notin> set a)"

lemma whole_simps [simp]: "whole []" "full_line l \<Longrightarrow> whole l"
  by (auto simp: whole_def full_line_def)

lemma whole_append: "whole y \<Longrightarrow> whole x \<Longrightarrow> whole (x @ y)"
  by (cases "y = []") (auto simp: whole_def)

lemma full_line_nonempty: "full_line l \<Longrightarrow> l \<noteq> []"
  by (auto simp: full_line_def)

lemma concat_split_after: "concat (split_after c cur s) = rev cur @ s"
  by (induction c cur s rule: split_after.induct) auto

lemma concat_SplitAfter [simp]: "concat (SplitAfter s c) = s"
  by (simp add: SplitAfter_def concat_split_after)

lemma split_after_nonempty [simp]: "split_after c cur s \<noteq> []"
  by (induction c cur s rule: split_after.induct) auto

lemma SplitAfter_nonempty [simp]: "SplitAfter s c \<noteq> []"
  by (simp add: SplitAfter_def)

lemma split_after_lines:
  "NL \<notin> set cur \<Longrightarrow> (\<forall>l\<in>set (butlast (split_after NL cur s)). full_line l) \<and> NL \<notin> set (last (split_after NL cur s))"
proof (induction NL cur s rule: split_after.induct)
  case (2 cur x xs)
  then show ?case by (auto simp: full_line_def split: if_splits)
qed simp

lemma SplitAfter_lines:
  "l \<in> set (butlast (SplitAfter s NL)) \<Longrightarrow> full_line l" "NL \<notin> set (last (SplitAfter s NL))"
  using split_after_lines [of "[]" s] by (auto simp: SplitAfter_def)

lemma split_after_append:
  "x = [] \<and> cur = [] \<or> x \<noteq> [] \<and> last x = c \<Longrightarrow>
     split_after c cur (x @ y) = butlast (split_after c cur x) @ split_after c [] y"
proof (induction x arbitrary: cur)
  case (Cons a x)
  then show ?case
    by (cases "x = []") (auto split: if_splits)
qed simp

lemma SplitAfter_append: "whole x \<Longrightarrow> SplitAfter (x @ y) NL = butlast (SplitAfter x NL) @ SplitAfter y NL"
  unfolding SplitAfter_def by (rule split_after_append) (auto simp: whole_def)

lemma split_after_last: "x \<noteq> [] \<Longrightarrow> last x = c \<Longrightarrow> last (split_after c cur x) = []"
proof (induction x arbitrary: cur)
  case (Cons a x)
  then show ?case by (cases "x = []") auto
qed simp

lemma SplitAfter_last: "whole x \<Longrightarrow> last (SplitAfter x NL) = []"
  by (cases "x = []") (auto simp: whole_def SplitAfter_def intro: split_after_last)

lemma split_after_no: "c \<notin> set z \<Longrightarrow> split_after c cur z = [rev cur @ z]"
  by (induction z arbitrary: cur) auto

lemma no_marker_Nil [simp]: "\<not> isDiffFileMarker []"
  by (simp add: isDiffFileMarker_def)

lemma countDiffFiles_alt: "countDiffFiles x = length (filter isDiffFileMarker (SplitAfter x NL))"
  by (simp add: countDiffFiles_def SplitAfter_def)

lemma countDiffFiles_append: "whole x \<Longrightarrow> countDiffFiles (x @ y) = countDiffFiles x + countDiffFiles y"
proof -
  assume w: "whole x"
  have "SplitAfter x NL = butlast (SplitAfter x NL) @ [[]]"
    using SplitAfter_last [OF w] append_butlast_last_id [OF SplitAfter_nonempty [of x NL]] by simp
  then have "length (filter isDiffFileMarker (SplitAfter x NL)) = length (filter isDiffFileMarker (butlast (SplitAfter x NL)))"
    by (metis append_Nil2 filter.simps filter_append no_marker_Nil)
  then show ?thesis by (simp add: countDiffFiles_alt SplitAfter_append [OF w])
qed

lemma countDiffFiles_line:
  "full_line l \<or> NL \<notin> set l \<Longrightarrow> countDiffFiles l = (if isDiffFileMarker l then 1 else 0)"
proof (elim disjE)
  assume "full_line l"
  then obtain a where a: "l = a @ [NL]" "NL \<notin> set a" by (auto simp: full_line_def)
  have "split_after NL cur (a @ [NL]) = [rev cur @ a @ [NL], []]" for cur
    using a(2) by (induction a arbitrary: cur) auto
  then have "SplitAfter l NL = [l, []]" using a by (simp add: SplitAfter_def)
  then show ?thesis by (simp add: countDiffFiles_alt)
next
  assume "NL \<notin> set l"
  then have "SplitAfter l NL = [l]" by (simp add: SplitAfter_def split_after_no)
  then show ?thesis by (simp add: countDiffFiles_alt)
qed

lemma countLines_append: "whole x \<Longrightarrow> countLines (x @ y) = countLines x + countLines y"
  by (auto simp: whole_def countLines_def)

lemma countLines_Nil [simp]: "countLines [] = 0"
  by (simp add: countLines_def)

lemma countLines_pos: "x \<noteq> [] \<Longrightarrow> 0 < countLines x"
  by (cases x rule: rev_cases) (auto simp: countLines_def)

lemma countLines_concat:
  "\<forall>x\<in>set (butlast xs). whole x \<Longrightarrow> countLines (concat xs) = (\<Sum>x\<leftarrow>xs. countLines x)"
proof (induction xs)
  case (Cons x xs)
  show ?case
  proof (cases "xs = []")
    case False
    then show ?thesis using Cons by (simp add: countLines_append)
  qed simp
qed simp

text \<open>A diff with a git header has a file to review.\<close>

lemma git_marker_counts: "hasGitDiffMarker d \<Longrightarrow> 0 < countDiffFiles d"
  by (auto simp: hasGitDiffMarker_def countDiffFiles_alt list_ex_iff isGitMarker_def isDiffFileMarker_def filter_empty_conv)

subsection \<open>No file is split\<close>

definition seg_ok :: "string list \<times> string \<times> bool \<Rightarrow> bool" where
  "seg_ok st \<longleftrightarrow>
     (case st of (segs, cur, started) \<Rightarrow>
        (\<forall>s\<in>set segs. whole s \<and> s \<noteq> [] \<and> countDiffFiles s = 1) \<and>
        countDiffFiles cur = (if started then 1 else 0) \<and> (\<not> started \<longrightarrow> segs = []))"

definition seg_cur :: "string list \<times> string \<times> bool \<Rightarrow> string" where
  "seg_cur st = fst (snd st)"

lemma countDiffFiles_Nil [simp]: "countDiffFiles [] = 0"
  by (simp add: countDiffFiles_def)

lemma segment_step_ok:
  assumes "seg_ok st" "whole (seg_cur st)" "full_line l \<or> NL \<notin> set l"
  shows "seg_ok (segment_step l st)" "full_line l \<Longrightarrow> whole (seg_cur (segment_step l st))"
    "concat (fst (segment_step l st)) @ seg_cur (segment_step l st) = concat (fst st) @ seg_cur st @ l"
proof -
  obtain segs cur started where st: "st = (segs, cur, started)" by (rule prod_cases3)
  have c: "countDiffFiles (cur @ l) = countDiffFiles cur + (if isDiffFileMarker l then 1 else 0)"
    using assms by (simp add: countDiffFiles_append countDiffFiles_line st seg_cur_def)
  have n: "started \<Longrightarrow> cur \<noteq> []"
    using assms(1) by (auto simp: st seg_ok_def)
  show "seg_ok (segment_step l st)"
    using assms c n countDiffFiles_line [OF assms(3)] by (auto simp: st segment_step_def seg_ok_def seg_cur_def)
  show "full_line l \<Longrightarrow> whole (seg_cur (segment_step l st))"
    using assms by (auto simp: st segment_step_def seg_cur_def intro: whole_append)
  show "concat (fst (segment_step l st)) @ seg_cur (segment_step l st) = concat (fst st) @ seg_cur st @ l"
    by (simp add: st segment_step_def seg_cur_def)
qed

lemma segment_fold_ok:
  "seg_ok st \<Longrightarrow> whole (seg_cur st) \<Longrightarrow> \<forall>l\<in>set ls. full_line l \<Longrightarrow>
     seg_ok (fold segment_step ls st) \<and> whole (seg_cur (fold segment_step ls st)) \<and>
     concat (fst (fold segment_step ls st)) @ seg_cur (fold segment_step ls st) = concat (fst st) @ seg_cur st @ concat ls"
proof (induction ls arbitrary: st)
  case (Cons l ls)
  then show ?case
    using segment_step_ok [of st l] by (simp flip: append_assoc)
qed simp

lemma split_files_spec:
  assumes "d \<noteq> []"
  shows "concat (splitDiffFiles d) = d" "[] \<notin> set (splitDiffFiles d)"
    "\<forall>s\<in>set (butlast (splitDiffFiles d)). whole s"
    "countDiffFiles d = 0 \<Longrightarrow> splitDiffFiles d = [d]"
    "0 < countDiffFiles d \<Longrightarrow> \<forall>s\<in>set (splitDiffFiles d). countDiffFiles s = 1"
proof -
  define ls where "ls = butlast (SplitAfter d NL)"
  define z where "z = last (SplitAfter d NL)"
  have lz: "SplitAfter d NL = ls @ [z]" by (simp add: ls_def z_def)
  have d: "concat ls @ z = d" using concat_SplitAfter [of d NL] unfolding lz by simp
  have l: "\<forall>l\<in>set ls. full_line l" "NL \<notin> set z"
    using SplitAfter_lines(1) SplitAfter_lines(2) [of d] by (auto simp: ls_def z_def)
  define st1 where "st1 = fold segment_step ls ([], [], False)"
  have s1: "seg_ok st1" "whole (seg_cur st1)" "concat (fst st1) @ seg_cur st1 = concat ls"
    using segment_fold_ok [of "([], [], False)" ls] l by (simp_all add: st1_def seg_ok_def seg_cur_def)
  obtain segs cur started where st: "segment_step z st1 = (segs, cur, started)" by (rule prod_cases3)
  have ok: "seg_ok (segs, cur, started)" "concat segs @ cur = d"
    using segment_step_ok(1,3) [OF s1(1,2), of z] l(2) s1(3) d by (simp_all add: st seg_cur_def flip: append_assoc)
  have f: "splitDiffFiles d = (if cur \<noteq> [] then segs @ [cur] else segs)"
    using assms by (simp add: splitDiffFiles_def lz st1_def [symmetric] st)
  show "concat (splitDiffFiles d) = d" using ok(2) by (auto simp: f)
  show "[] \<notin> set (splitDiffFiles d)" "\<forall>s\<in>set (butlast (splitDiffFiles d)). whole s"
    using ok(1) by (auto simp: f seg_ok_def dest: in_set_butlastD)
  have sum: "countDiffFiles d = length segs + countDiffFiles cur"
  proof -
    have "\<forall>s\<in>set segs. whole s \<and> s \<noteq> [] \<and> countDiffFiles s = 1" using ok(1) by (simp add: seg_ok_def)
    then have "countDiffFiles (concat segs @ cur) = length segs + countDiffFiles cur"
      by (induction segs) (simp_all add: countDiffFiles_append)
    then show ?thesis using ok(2) by simp
  qed
  show "splitDiffFiles d = [d]" if "countDiffFiles d = 0"
    using that sum ok(2) assms by (auto simp: f)
  show "\<forall>s\<in>set (splitDiffFiles d). countDiffFiles s = 1" if "0 < countDiffFiles d"
    using that sum ok(1) by (auto simp: f seg_ok_def split: if_splits)
qed

subsection \<open>The bounds of a chunk\<close>

text \<open>The packing with the files of a chunk kept apart.\<close>

definition file_lines :: "string list \<Rightarrow> nat" where
  "file_lines g = (\<Sum>f\<leftarrow>g. countLines f)"

definition group_step :: "int \<Rightarrow> string \<Rightarrow> string list list \<times> string list \<Rightarrow> string list list \<times> string list" where
  "group_step n f st =
     (case st of (gs, g) \<Rightarrow>
        if g \<noteq> [] \<and> int (file_lines g + countLines f) > n \<and> length gs < 63 then (gs @ [g], [f])
        else (gs, g @ [f]))"

definition group_ok :: "int \<Rightarrow> string list list \<times> string list \<Rightarrow> bool" where
  "group_ok n st \<longleftrightarrow>
     (case st of (gs, g) \<Rightarrow>
        length gs \<le> 63 \<and> (\<forall>h\<in>set gs. h \<noteq> [] \<and> (int (file_lines h) \<le> n \<or> length h = 1)) \<and>
        (length gs < 63 \<longrightarrow> int (file_lines g) \<le> n \<or> length g = 1) \<and> (gs \<noteq> [] \<longrightarrow> g \<noteq> []) \<and>
        (\<forall>i<length gs. int (file_lines (gs ! i) + countLines (hd ((gs @ [g]) ! Suc i))) > n))"

lemma file_lines_simps [simp]: "file_lines [] = 0" "file_lines (g @ h) = file_lines g + file_lines h" "file_lines [f] = countLines f"
  by (simp_all add: file_lines_def)

lemma group_step_ok: "group_ok n st \<Longrightarrow> group_ok n (group_step n f st)"
proof -
  assume ok: "group_ok n st"
  obtain gs g where st: "st = (gs, g)" by fastforce
  show ?thesis
  proof (cases "g \<noteq> [] \<and> int (file_lines g + countLines f) > n \<and> length gs < 63")
    case True
    have "int (file_lines ((gs @ [g]) ! i) + countLines (hd ((gs @ [g, [f]]) ! Suc i))) > n"
      if "i < length (gs @ [g])" for i
    proof (cases "i < length gs")
      case i: True
      then have "(gs @ [g, [f]]) ! Suc i = (gs @ [g]) ! Suc i" by (simp add: nth_append)
      then show ?thesis using ok i by (simp add: st group_ok_def nth_append)
    next
      case False
      then have "i = length gs" using that by simp
      then show ?thesis using True by (simp add: nth_append)
    qed
    then show ?thesis using True ok by (auto simp: st group_step_def group_ok_def)
  next
    case False
    have "(gs @ [g @ [f]]) ! Suc i \<noteq> [] \<and> hd ((gs @ [g @ [f]]) ! Suc i) = hd ((gs @ [g]) ! Suc i)" if "i < length gs" for i
      using that ok by (auto simp: nth_append st group_ok_def)
    then show ?thesis using False ok by (auto simp: st group_step_def group_ok_def)
  qed
qed

lemma group_fold_ok: "group_ok n st \<Longrightarrow> group_ok n (fold (group_step n) fs st)"
  by (induction fs arbitrary: st) (simp_all add: group_step_ok)

lemma chunk_fold_groups:
  assumes "[] \<notin> set fs" "[] \<notin> set g"
  shows "fold (chunk_step n) fs (map concat gs, concat g, file_lines g) =
      (case fold (group_step n) fs (gs, g) of (gs', g') \<Rightarrow> (map concat gs', concat g', file_lines g')) \<and>
      (case fold (group_step n) fs (gs, g) of (gs', g') \<Rightarrow> concat gs' @ g' = concat gs @ g @ fs \<and> [] \<notin> set g' \<and> (fs \<noteq> [] \<longrightarrow> g' \<noteq> []))"
  using assms
proof (induction fs arbitrary: gs g)
  case (Cons f fs)
  have e: "concat g \<noteq> [] \<longleftrightarrow> g \<noteq> []" using Cons.prems(2) by (cases g) auto
  show ?case
  proof (cases "g \<noteq> [] \<and> int (file_lines g + countLines f) > n \<and> length gs < 63")
    case True
    have c: "chunk_step n f (map concat gs, concat g, file_lines g) = (map concat (gs @ [g]), concat [f], file_lines [f])"
      using True e by (simp add: chunk_step_def maxChunksPerAgent_def)
    have s: "group_step n f (gs, g) = (gs @ [g], [f])" using True by (simp add: group_step_def)
    have f: "[] \<notin> set fs" "[] \<notin> set [f]" using Cons.prems by auto
    show ?thesis using Cons.IH [OF f, of "gs @ [g]"] unfolding fold_simps c s
      by (cases "fs = []") (auto split: prod.splits)
  next
    case False
    have c: "chunk_step n f (map concat gs, concat g, file_lines g) = (map concat gs, concat (g @ [f]), file_lines (g @ [f]))"
      using False e by (auto simp: chunk_step_def maxChunksPerAgent_def)
    have s: "group_step n f (gs, g) = (gs, g @ [f])" using False by (auto simp: group_step_def)
    have f: "[] \<notin> set fs" "[] \<notin> set (g @ [f])" using Cons.prems by auto
    show ?thesis using Cons.IH [OF f, of "gs"] unfolding fold_simps c s
      by (cases "fs = []") (auto split: prod.splits)
  qed
qed simp

lemma chunk_whole_files:
  assumes g: "concat gs = fs" "\<forall>s\<in>set (butlast fs). whole s" and i: "i < length gs"
  shows "countLines (concat (gs ! i)) = file_lines (gs ! i)"
proof -
  have "concat gs = concat (take i gs) @ gs ! i @ concat (drop (Suc i) gs)"
    using id_take_nth_drop [OF i] by (metis concat.simps(2) concat_append)
  then have fs: "fs = concat (take i gs) @ gs ! i @ concat (drop (Suc i) gs)" using g(1) by simp
  have "s \<in> set (butlast fs)" if "s \<in> set (butlast (gs ! i))" for s
  proof (cases "concat (drop (Suc i) gs) = []")
    case True
    have "gs ! i \<noteq> []" using that by auto
    then have "butlast fs = concat (take i gs) @ butlast (gs ! i)"
      unfolding fs True by (simp add: butlast_append)
    then show ?thesis using that by simp
  next
    case False
    then have "butlast fs = concat (take i gs) @ gs ! i @ butlast (concat (drop (Suc i) gs))"
      unfolding fs by (auto simp add: butlast_append)
    then show ?thesis using in_set_butlastD [OF that] by simp
  qed
  then show ?thesis using g(2) by (simp add: countLines_concat file_lines_def)
qed

lemma countDiffFiles_concat:
  "\<forall>s\<in>set (butlast fs). whole s \<Longrightarrow> countDiffFiles (concat fs) = (\<Sum>s\<leftarrow>fs. countDiffFiles s)"
proof (induction fs)
  case (Cons s fs)
  then show ?case by (cases "fs = []") (simp_all add: countDiffFiles_append)
qed simp

lemma files_counted:
  assumes "d \<noteq> []" "0 < countDiffFiles d"
  shows "length (splitDiffFiles d) = countDiffFiles d"
proof -
  note f = split_files_spec [OF assms(1)]
  have "countDiffFiles d = (\<Sum>s\<leftarrow>splitDiffFiles d. countDiffFiles s)"
    using countDiffFiles_concat [OF f(3)] by (simp add: f(1))
  also have "\<dots> = (\<Sum>s\<leftarrow>splitDiffFiles d. 1)"
    by (rule arg_cong [of _ _ sum_list], rule map_cong) (use f(5) [OF assms(2)] in auto)
  finally show ?thesis by (simp add: sum_list_triv)
qed

lemma chunk_groups:
  assumes "d \<noteq> []" and "0 < n"
  shows "\<exists>gs. concat gs = splitDiffFiles d \<and> map concat gs = chunkDiff d n \<and> [] \<notin> set gs \<and> length gs \<le> 64 \<and>
       (\<forall>i<length gs. Suc i < length gs \<or> length gs < 64 \<longrightarrow> int (file_lines (gs ! i)) \<le> n \<or> length (gs ! i) = 1) \<and>
       (\<forall>i. Suc i < length gs \<longrightarrow> n < int (file_lines (gs ! i) + countLines (hd (gs ! Suc i))))"
proof -
  note f = split_files_spec [OF assms(1)]
  show ?thesis
  proof (cases "length (splitDiffFiles d) \<le> 1")
    case True
    then obtain s where s: "splitDiffFiles d = [s]" using f(1) assms(1) by (cases "splitDiffFiles d") auto
    then have "s = d" using f(1) by simp
    then show ?thesis using s assms by (intro exI [of _ "[[d]]"]) (simp add: chunkDiff_def)
  next
    case False
    obtain gs g where r: "fold (group_step n) (splitDiffFiles d) ([], []) = (gs, g)" by fastforce
    have k: "fold (chunk_step n) (splitDiffFiles d) ([], [], 0) = (map concat gs, concat g, file_lines g)"
      "concat gs @ g = splitDiffFiles d" "[] \<notin> set g" "g \<noteq> []"
      using chunk_fold_groups [OF f(2), of "[]" n "[]"] False by (simp_all add: r) (metis False le0 list.size(3))
    have ok: "group_ok n (gs, g)"
      using group_fold_ok [of n "([], [])" "splitDiffFiles d"] assms(2) by (simp add: r group_ok_def)
    have "concat g \<noteq> []" using k(3,4) by (cases g) auto
    then have "map concat (gs @ [g]) = chunkDiff d n"
      using False assms by (simp add: chunkDiff_def k(1))
    moreover have "int (file_lines ((gs @ [g]) ! i)) \<le> n \<or> length ((gs @ [g]) ! i) = 1"
      if "i < length (gs @ [g])" "Suc i < length (gs @ [g]) \<or> length (gs @ [g]) < 64" for i
      using that ok k(4) by (cases "i < length gs") (auto simp: group_ok_def nth_append less_Suc_eq)
    moreover have "n < int (file_lines ((gs @ [g]) ! i) + countLines (hd ((gs @ [g]) ! Suc i)))" if "Suc i < length (gs @ [g])" for i
      using that ok by (auto simp: group_ok_def nth_append)
    moreover have "concat (gs @ [g]) = splitDiffFiles d" "[] \<notin> set (gs @ [g])" "length (gs @ [g]) \<le> 64"
      using k(2,4) ok by (auto simp: group_ok_def)
    ultimately show ?thesis by blast
  qed
qed

text \<open>
  C23. No byte of a diff is lost and no file is split. The files are the segments of the diff that start at its file
  headers, one header each (a preamble goes with the first; a diff without a header is one segment). The chunks
  are runs of whole files in order, at most 64 of them; a chunk stays within the line limit unless it is a single
  file, or the last of 64; and a chunk is closed only when its next file would not have fitted.
\<close>

theorem chunks_hold_whole_files:
  assumes "d \<noteq> []" and "0 < n"
  shows "concat (chunkDiff d n) = d \<and> concat (splitDiffFiles d) = d \<and>
    (if countDiffFiles d = 0 then splitDiffFiles d = [d]
     else length (splitDiffFiles d) = countDiffFiles d \<and> list_all (\<lambda>s. countDiffFiles s = 1) (splitDiffFiles d)) \<and>
    (\<exists>gs. concat gs = splitDiffFiles d \<and> map concat gs = chunkDiff d n \<and> [] \<notin> set gs \<and>
       length gs \<le> maxChunksPerAgent \<and>
       (\<forall>i<length gs. Suc i < length gs \<or> length gs < maxChunksPerAgent \<longrightarrow>
          int (countLines (chunkDiff d n ! i)) \<le> n \<or> length (gs ! i) = 1) \<and>
       (\<forall>i. Suc i < length gs \<longrightarrow>
          n < int (countLines (chunkDiff d n ! i) + countLines (hd (gs ! Suc i)))))"
proof -
  note f = split_files_spec [OF assms(1)]
  from chunk_groups [OF assms] obtain gs where gs: "concat gs = splitDiffFiles d" "map concat gs = chunkDiff d n" "[] \<notin> set gs" "length gs \<le> 64"
    "\<forall>i<length gs. Suc i < length gs \<or> length gs < 64 \<longrightarrow> int (file_lines (gs ! i)) \<le> n \<or> length (gs ! i) = 1"
    "\<forall>i. Suc i < length gs \<longrightarrow> n < int (file_lines (gs ! i) + countLines (hd (gs ! Suc i)))"
    by blast
  have c: "countLines (chunkDiff d n ! i) = file_lines (gs ! i)" if "i < length gs" for i
    using chunk_whole_files [OF gs(1) f(3) that] that by (simp flip: gs(2))
  have "concat (map concat gs) = concat (concat gs)" for gs :: "string list list"
    by (induction gs) simp_all
  then have "concat (chunkDiff d n) = d"
    using f(1) by (simp only: gs(1) flip: gs(2))
  moreover have "if countDiffFiles d = 0 then splitDiffFiles d = [d]
      else length (splitDiffFiles d) = countDiffFiles d \<and> list_all (\<lambda>s. countDiffFiles s = 1) (splitDiffFiles d)"
  proof (cases "countDiffFiles d = 0")
    case False
    have "list_all (\<lambda>s. countDiffFiles s = 1) (splitDiffFiles d)"
      unfolding list_all_iff by (rule f(5)) (use False in simp)
    moreover have "length (splitDiffFiles d) = countDiffFiles d"
      by (rule files_counted [OF assms(1)]) (use False in simp)
    ultimately show ?thesis using False by simp
  qed (simp add: f(4))
  moreover have "\<forall>i<length gs. Suc i < length gs \<or> length gs < maxChunksPerAgent \<longrightarrow>
      int (countLines (chunkDiff d n ! i)) \<le> n \<or> length (gs ! i) = 1"
    using gs(5) c by (simp add: maxChunksPerAgent_def)
  moreover have "\<forall>i. Suc i < length gs \<longrightarrow> n < int (countLines (chunkDiff d n ! i) + countLines (hd (gs ! Suc i)))"
    using gs(6) c by (simp del: of_nat_add)
  ultimately show ?thesis
    using f(1) gs(1-4) unfolding maxChunksPerAgent_def by blast
qed

theorem chunks_hold_whole_files_witness:
  "chunkDiff (''diff --git a'' @ [NL] @ ''x'' @ [NL] @ ''diff --cc b'') 2 = [''diff --git a'' @ [NL] @ ''x'' @ [NL], ''diff --cc b''] \<and>
   concat (chunkDiff (''diff --git a'' @ [NL] @ ''x'' @ [NL] @ ''diff --cc b'') 2) = ''diff --git a'' @ [NL] @ ''x'' @ [NL] @ ''diff --cc b''"
proof
  show "chunkDiff (''diff --git a'' @ [NL] @ ''x'' @ [NL] @ ''diff --cc b'') 2 = [''diff --git a'' @ [NL] @ ''x'' @ [NL], ''diff --cc b'']"
    by code_simp
  show "concat (chunkDiff (''diff --git a'' @ [NL] @ ''x'' @ [NL] @ ''diff --cc b'') 2) = ''diff --git a'' @ [NL] @ ''x'' @ [NL] @ ''diff --cc b''"
    by (rule chunks_hold_whole_files [THEN conjunct1]) simp_all
qed

subsection \<open>Boundaries cannot be forged\<close>

definition reply_lines :: "string \<Rightarrow> string list" where
  "reply_lines c = map (\<lambda>ln. if ln = chunkBoundaryLine then neutralLine else ln) (Split c [NL])"

fun framed :: "string list list \<Rightarrow> string list" where
  "framed [] = []"
| "framed [s] = s"
| "framed (s # t # ss) = s @ [chunkBoundaryLine] @ framed (t # ss)"

lemma boundary_facts: "NL \<notin> set chunkBoundaryLine" "NL \<notin> set neutralLine" "neutralLine \<noteq> chunkBoundaryLine"
  by (simp_all add: chunkBoundaryLine_def neutralLine_def)

lemma reply_lines_no_boundary: "chunkBoundaryLine \<notin> set (reply_lines c)"
  using boundary_facts(3) by (auto simp: reply_lines_def split: if_splits)

lemma Split_neutralise: "Split (neutraliseChunkBoundary c) [NL] = reply_lines c"
proof (cases "contains chunkBoundaryLine c")
  case True
  have "Split (Join (reply_lines c) [NL]) [NL] = reply_lines c"
    by (rule Split_Join_char)
      (auto simp: list_all_iff reply_lines_def Split_nonempty boundary_facts dest: Split_no_char split: if_splits)
  then show ?thesis using True by (simp add: neutraliseChunkBoundary_def reply_lines_def)
next
  case False
  then have "chunkBoundaryLine \<notin> set (Split c [NL])" using Split_contains by blast
  then have "reply_lines c = Split c [NL]" by (auto simp: reply_lines_def intro: map_idI)
  then show ?thesis using False by (simp add: neutraliseChunkBoundary_def)
qed

lemma Split_framed:
  "cs \<noteq> [] \<Longrightarrow> Split (Join (map neutraliseChunkBoundary cs) ([NL] @ chunkBoundaryLine @ [NL])) [NL] = framed (map reply_lines cs)"
proof (induction cs rule: induct_list012)
  case (3 c c' cs)
  have "Split (chunkBoundaryLine @ NL # s) [NL] = chunkBoundaryLine # Split s [NL]" for s
    by (rule Split_char) (rule boundary_facts)
  then show ?case using 3 by (simp add: Split_append_char Split_neutralise)
qed (simp_all add: Split_neutralise)

lemma join_lines: "cs \<noteq> [] \<Longrightarrow> Split (joinChunkContents cs) [NL] = framed (map reply_lines cs)"
proof (cases "length cs < 2")
  case True
  assume "cs \<noteq> []"
  with True obtain c where "cs = [c]" by (cases cs) auto
  then show ?thesis by (simp add: joinChunkContents_def Split_neutralise)
next
  case False
  assume "cs \<noteq> []"
  then show ?thesis using False by (simp add: joinChunkContents_def Let_def flip: Split_framed)
qed

lemma framed_split:
  assumes "k < length ss" "list_all (\<lambda>s. chunkBoundaryLine \<notin> set s) ss"
  shows "\<exists>pre post. framed ss = pre @ ss ! k @ post \<and> (pre = [] \<or> last pre = chunkBoundaryLine) \<and>
     (post = [] \<or> hd post = chunkBoundaryLine) \<and> count_list pre chunkBoundaryLine = k \<and>
     count_list post chunkBoundaryLine = length ss - 1 - k"
  using assms
proof (induction ss arbitrary: k rule: framed.induct)
  case (3 s t ss)
  have tail: "count_list (framed (t # ss)) chunkBoundaryLine = length ss"
  proof -
    obtain pre post where "framed (t # ss) = pre @ (t # ss) ! 0 @ post" "count_list pre chunkBoundaryLine = 0"
      "count_list post chunkBoundaryLine = length (t # ss) - 1 - 0"
      using "3.IH" [of 0] "3.prems" by auto
    then show ?thesis using "3.prems" by (simp add: count_notin)
  qed
  show ?case
  proof (cases k)
    case 0
    have "framed (s # t # ss) = [] @ (s # t # ss) ! k @ (chunkBoundaryLine # framed (t # ss))" using 0 by simp
    then show ?thesis using 0 tail by (intro exI [of _ "[]"] exI [of _ "chunkBoundaryLine # framed (t # ss)"]) simp
  next
    case (Suc j)
    then obtain pre post where p: "framed (t # ss) = pre @ (t # ss) ! j @ post"
      "pre = [] \<or> last pre = chunkBoundaryLine" "post = [] \<or> hd post = chunkBoundaryLine"
      "count_list pre chunkBoundaryLine = j" "count_list post chunkBoundaryLine = length (t # ss) - 1 - j"
      using "3.IH" [of j] "3.prems" by auto
    then show ?thesis using Suc "3.prems"
      by (intro exI [of _ "s @ chunkBoundaryLine # pre"] exI [of _ post]) (auto simp: count_notin)
  qed
qed (auto intro: exI [of _ "[]"])

lemma back_to_seg: "j \<le> length seg \<Longrightarrow> chunkBoundaryLine \<notin> set seg \<Longrightarrow> pre = [] \<or> last pre = chunkBoundaryLine \<Longrightarrow>
  back_to (pre @ seg @ post) (length pre + j) = (if pre = [] then None else Some (length pre))"
proof (induction j)
  case 0
  then show ?case by (cases pre rule: rev_cases) (auto simp: nth_append)
next
  case (Suc j)
  have "(pre @ seg @ post) ! (length pre + j) = seg ! j" using Suc.prems by (simp add: nth_append)
  moreover have "seg ! j \<noteq> chunkBoundaryLine" using Suc.prems by (metis Suc_le_lessD nth_mem)
  ultimately show ?case using Suc by simp
qed

lemma forth_to_seg:
  assumes "i \<le> length (pre @ seg)" "length pre \<le> i" "chunkBoundaryLine \<notin> set seg" "post = [] \<or> hd post = chunkBoundaryLine"
  shows "forth_to (pre @ seg @ post) i = (if post = [] then None else Some (length (pre @ seg)))"
  using assms
proof (induction "length (pre @ seg) - i" arbitrary: i)
  case 0
  then have i: "i = length (pre @ seg)" by simp
  show ?case
  proof (cases post)
    case (Cons p ps)
    then have "[i..<length (pre @ seg @ post)] = i # [Suc i..<length (pre @ seg @ post)]" using i by (intro upt_conv_Cons) simp
    moreover have "(pre @ seg @ post) ! i = p" using i Cons by (simp flip: append_assoc add: nth_append)
    ultimately show ?thesis using Cons 0 i by (simp add: forth_to_def)
  qed (use i in \<open>simp add: forth_to_def\<close>)
next
  case (Suc d)
  then have "i < length (pre @ seg)" by simp
  then have u: "[i..<length (pre @ seg @ post)] = i # [Suc i..<length (pre @ seg @ post)]" by (intro upt_conv_Cons) simp
  have "i - length pre < length seg" using Suc.prems \<open>i < length (pre @ seg)\<close> by simp
  then have "seg ! (i - length pre) \<noteq> chunkBoundaryLine" using Suc.prems(3) by (metis nth_mem)
  moreover have "(pre @ seg @ post) ! i = seg ! (i - length pre)" using Suc.prems(2) \<open>i - length pre < length seg\<close> by (simp add: nth_append)
  ultimately have "forth_to (pre @ seg @ post) i = forth_to (pre @ seg @ post) (Suc i)" unfolding forth_to_def u by simp
  then show ?case using Suc \<open>i < length (pre @ seg)\<close> by simp
qed

lemma segment_bounds:
  assumes "j < length seg" "chunkBoundaryLine \<notin> set seg" "pre = [] \<or> last pre = chunkBoundaryLine" "post = [] \<or> hd post = chunkBoundaryLine"
  shows "chunkSegmentBounds (pre @ seg @ post) (length pre + j) = (length pre, length pre + length seg, pre \<noteq> [] \<or> post \<noteq> [])"
  using back_to_seg [of j seg pre post] forth_to_seg [of "Suc (length pre + j)" pre seg post] assms
  by (simp add: chunkSegmentBounds_def Let_def)

text \<open>
  C24. A reply cannot forge a boundary. The lines of the joined replies are the lines of each reply in turn, a
  line that copies the boundary replaced by a harmless one, with one boundary between consecutive replies; and from any line of
  the k-th reply the reader of the joined text recovers exactly the lines of that reply.
\<close>

theorem joined_replies_recovered:
  assumes "k < length cs"
  shows "\<exists>pre post. Split (joinChunkContents cs) [NL] = pre @ reply_lines (cs ! k) @ post \<and>
     count_list pre chunkBoundaryLine = k \<and> count_list post chunkBoundaryLine = length cs - 1 - k \<and>
     chunkBoundaryLine \<notin> set (reply_lines (cs ! k)) \<and>
     (\<forall>j<length (reply_lines (cs ! k)).
        chunkSegmentBounds (Split (joinChunkContents cs) [NL]) (length pre + j) =
          (length pre, length pre + length (reply_lines (cs ! k)), 1 < length cs))"
proof -
  have l: "Split (joinChunkContents cs) [NL] = framed (map reply_lines cs)" using assms by (intro join_lines) auto
  obtain pre post where p: "framed (map reply_lines cs) = pre @ reply_lines (cs ! k) @ post"
    "pre = [] \<or> last pre = chunkBoundaryLine" "post = [] \<or> hd post = chunkBoundaryLine"
    "count_list pre chunkBoundaryLine = k" "count_list post chunkBoundaryLine = length cs - 1 - k"
    using framed_split [of k "map reply_lines cs"] assms by (auto simp: list_all_iff reply_lines_no_boundary)
  have "pre \<noteq> [] \<or> post \<noteq> [] \<longleftrightarrow> 1 < length cs"
  proof
    assume "pre \<noteq> [] \<or> post \<noteq> []"
    then have "0 < count_list pre chunkBoundaryLine \<or> 0 < count_list post chunkBoundaryLine"
      using p(2,3) by (metis count_list_0_iff gr0I last_in_set list.set_sel(1))
    then show "1 < length cs" using p(4,5) assms by auto
  next
    assume "1 < length cs"
    then show "pre \<noteq> [] \<or> post \<noteq> []" using p(4,5) by (cases k) auto
  qed
  then have "chunkSegmentBounds (pre @ reply_lines (cs ! k) @ post) (length pre + j) =
      (length pre, length pre + length (reply_lines (cs ! k)), 1 < length cs)" if "j < length (reply_lines (cs ! k))" for j
    using segment_bounds [OF that reply_lines_no_boundary p(2,3)] by simp
  then show ?thesis
    using l p(1,4,5) reply_lines_no_boundary [of "cs ! k"] by (intro exI [of _ pre] exI [of _ post]) simp
qed

theorem joined_replies_recovered_witness:
  "\<exists>pre post. Split (joinChunkContents [chunkBoundaryLine, ''b'']) [NL] = pre @ [''b''] @ post \<and> count_list pre chunkBoundaryLine = 1"
proof -
  have "reply_lines ''b'' = [''b'']" by code_simp
  then show ?thesis using joined_replies_recovered [of 1 "[chunkBoundaryLine, ''b'']"] by auto
qed

end
