(* ===== verification/Think.thy ===== *)
theory Think
  imports GoText "HOL-Library.Sublist"
begin

text \<open>
  Reasoning markup in a reply: \<^verbatim>\<open>internal/llmclient/think.go\<close>. The loops that slice their input are functions on the
  slice; an index is a \<open>nat option\<close> where the code returns \<open>-1\<close> for none. The theorems show what is
  stripped, that stripping is idempotent, how the detectors relate, and that the mask of quoted text keeps every
  offset and invents no tag.
\<close>

fun Index :: "string \<Rightarrow> string \<Rightarrow> nat option" where
  "Index [] sub = (if sub = [] then Some 0 else None)"
| "Index (c # cs) sub = (if has_prefix sub (c # cs) then Some 0 else map_option Suc (Index cs sub))"

lemma has_prefix_iff: "has_prefix p s \<longleftrightarrow> (\<exists>t. s = p @ t)"
  by (induction p s rule: has_prefix.induct) auto

lemma Index_Some: "Index s sub = Some n \<Longrightarrow> has_prefix sub (drop n s) \<and> n + length sub \<le> length s"
proof (induction s arbitrary: n)
  case (Cons c cs)
  show ?case
  proof (cases "has_prefix sub (c # cs)")
    case True
    then obtain t where "c # cs = sub @ t" by (auto simp: has_prefix_iff)
    then have "length sub \<le> length (c # cs)" by (metis le_add1 length_append)
    then show ?thesis using Cons.prems True by simp
  next
    case False
    then obtain m where "Index cs sub = Some m" "n = Suc m" using Cons.prems by auto
    then show ?thesis using Cons.IH by simp
  qed
qed (auto split: if_splits)

text \<open>\<^verbatim>\<open>strings.Count\<close> for a non-empty argument: occurrences that do not overlap.\<close>

function Count :: "string \<Rightarrow> string \<Rightarrow> nat" where
  "Count [] sub = 0"
| "Count (c # cs) sub = (if has_prefix sub (c # cs) then Suc (Count (drop (length sub - 1) cs) sub) else Count cs sub)"
  by pat_completeness auto
termination
  by (relation "measure (\<lambda>(s, sub). length s)") auto

definition thinkOpen :: string where "thinkOpen = ''<think>''"
definition thinkClose :: string where "thinkClose = ''</think>''"

lemma tag_lengths [simp]: "length thinkOpen = 7" "length thinkClose = 8"
  by (simp_all add: thinkOpen_def thinkClose_def)

subsection \<open>Stripping a leading run\<close>

text \<open>The inner loop of \<^verbatim>\<open>SplitThink\<close>: the offset of the closer that matches an opener just consumed.\<close>

function match_end :: "nat \<Rightarrow> nat \<Rightarrow> string \<Rightarrow> nat option" where
  "match_end depth offset rest =
     (let tail = drop offset rest in
      case Index tail thinkClose of
        None \<Rightarrow> None
      | Some nextClose \<Rightarrow>
          if (case Index tail thinkOpen of None \<Rightarrow> False | Some nextOpen \<Rightarrow> nextOpen < nextClose)
          then match_end (depth + 1) (offset + the (Index tail thinkOpen) + length thinkOpen) rest
          else if depth - 1 = 0 then Some (offset + nextClose)
          else match_end (depth - 1) (offset + nextClose + length thinkClose) rest)"
  by pat_completeness auto
termination
  by (relation "measure (\<lambda>(depth, offset, rest). length rest - offset)")
    (auto split: option.splits dest!: Index_Some)

record think_buffer =
  thought :: string
  firstReasoning :: string
  sawFirst :: bool
  promoted :: bool

definition add_reasoning :: "string \<Rightarrow> think_buffer \<Rightarrow> think_buffer" where
  "add_reasoning piece b =
     (if \<not> sawFirst b then b\<lparr>firstReasoning := piece, sawFirst := True\<rparr>
      else b\<lparr>thought := (if promoted b then thought b else thought b @ firstReasoning b) @ piece, promoted := True\<rparr>)"

declare match_end.simps [simp del]

lemma suffix_trim_left: "suffix (trim_left s) s"
proof (induction s rule: trim_left.induct)
  case (1 s)
  obtain r w where d: "decode_rune s = (r, w)" by fastforce
  show ?case
  proof (cases "s \<noteq> [] \<and> unicode_IsSpace r")
    case True
    then have "trim_left s = trim_left (drop (max 1 w) s)" by (subst trim_left.simps) (simp add: d)
    moreover have "suffix (trim_left (drop (max 1 w) s)) (drop (max 1 w) s)" using 1 [OF d [symmetric]] True by simp
    ultimately show ?thesis using suffix_drop suffix_order.trans by metis
  qed (subst trim_left.simps, auto simp add: d)
qed

lemma length_trim_left: "length (trim_left s) \<le> length s"
  by (rule suffix_length_le [OF suffix_trim_left])

function think_loop :: "string \<Rightarrow> think_buffer \<Rightarrow> bool \<Rightarrow> string \<Rightarrow> string \<times> string" where
  "think_loop content b stripped rest =
     (let lead = trim_left rest in
      if \<not> has_prefix thinkOpen lead
      then (if stripped then (rest, if promoted b then thought b else firstReasoning b) else (content, []))
      else let rest' = drop (length thinkOpen) lead in
        case match_end 1 0 rest' of
          None \<Rightarrow>
            if contains (take (length thinkClose - 1) thinkClose) rest' then (content, [])
            else ([], thought b @ (if sawFirst b then firstReasoning b else []) @ rest')
        | Some end \<Rightarrow>
            think_loop content (add_reasoning (take end rest') b) True (drop (end + length thinkClose) rest'))"
  by pat_completeness auto
termination
proof (relation "measure (\<lambda>(content, b, stripped, rest). length rest)")
  fix content b stripped rest lead rest' e
  assume "lead = trim_left rest" "\<not> \<not> has_prefix thinkOpen lead" "rest' = drop (length thinkOpen) lead"
  moreover from this have "7 \<le> length lead" by (auto simp: has_prefix_iff thinkOpen_def)
  ultimately show "((content, add_reasoning (take e rest') b, True, drop (e + length thinkClose) rest'), content, b, stripped, rest)
      \<in> measure (\<lambda>(content, b, stripped, rest). length rest)"
    using length_trim_left [of rest] by simp
qed simp

declare think_loop.simps [simp del]

definition SplitThink :: "string \<Rightarrow> string \<times> string" where
  "SplitThink content =
     think_loop content \<lparr>thought = [], firstReasoning = [], sawFirst = False, promoted = False\<rparr> False content"

subsection \<open>Detecting markup\<close>

function HasEnclosingThinkBlock :: "string \<Rightarrow> bool" where
  "HasEnclosingThinkBlock rest =
     (case Index rest thinkOpen of
        None \<Rightarrow> False
      | Some op \<Rightarrow>
          let rest' = drop (op + length thinkOpen) rest in
          case Index rest' thinkClose of
            None \<Rightarrow> TrimSpace rest' \<noteq> []
          | Some end \<Rightarrow>
              if TrimSpace (take end rest') \<noteq> [] then True
              else HasEnclosingThinkBlock (drop (end + length thinkClose) rest'))"
  by pat_completeness auto
termination
  by (relation "measure length") (auto dest!: Index_Some)

function HasThinkMarkup :: "string \<Rightarrow> bool" where
  "HasThinkMarkup rest =
     (let op = Index rest thinkOpen; closer = Index rest thinkClose in
      if (case closer of None \<Rightarrow> False | Some k \<Rightarrow> (case op of None \<Rightarrow> True | Some j \<Rightarrow> k < j))
      then TrimSpace (take (the closer) rest) \<noteq> []
      else case op of
        None \<Rightarrow> False
      | Some j \<Rightarrow>
          let rest' = drop (j + length thinkOpen) rest in
          case Index rest' thinkClose of
            None \<Rightarrow> TrimSpace rest' \<noteq> []
          | Some end \<Rightarrow>
              if TrimSpace (take end rest') \<noteq> [] then True
              else HasThinkMarkup (drop (end + length thinkClose) rest'))"
  by pat_completeness auto
termination
  by (relation "measure length") (auto dest!: Index_Some)

declare HasEnclosingThinkBlock.simps [simp del] HasThinkMarkup.simps [simp del]

text \<open>The loop of \<^verbatim>\<open>IndexAfterUnopenedCloser\<close> at offset \<open>i\<close>, on the content from there.\<close>

function unopened_loop :: "nat \<Rightarrow> nat \<Rightarrow> nat option \<Rightarrow> string \<Rightarrow> nat option" where
  "unopened_loop depth i lst [] = lst"
| "unopened_loop depth i lst (c # cs) =
     (if has_prefix thinkOpen (c # cs)
      then unopened_loop (depth + 1) (i + length thinkOpen) lst (drop (length thinkOpen - 1) cs)
      else if has_prefix thinkClose (c # cs)
      then (if depth = 0
            then unopened_loop 0 (i + length thinkClose) (Some (i + length thinkClose)) (drop (length thinkClose - 1) cs)
            else unopened_loop (depth - 1) (i + length thinkClose) lst (drop (length thinkClose - 1) cs))
      else unopened_loop depth (i + 1) lst cs)"
  by pat_completeness auto
termination
  by (relation "measure (\<lambda>(depth, i, lst, s). length s)") auto

definition IndexAfterUnopenedCloser :: "string \<Rightarrow> nat option" where
  "IndexAfterUnopenedCloser content = unopened_loop 0 0 None content"

subsection \<open>Masking quoted text\<close>

record mask_state =
  inStr :: bool
  escaped :: bool
  openCtx :: bool
  cutPair :: bool
  runHasOpener :: bool

definition mask_step :: "char \<Rightarrow> string \<Rightarrow> mask_state \<Rightarrow> char \<times> mask_state" where
  "mask_step c s st =
     (if \<not> inStr st then
        (c, if c = CHR 0x22 \<and> openCtx st then st\<lparr>inStr := True, openCtx := False, runHasOpener := False\<rparr>
            else if c = CHR '' '' \<or> c = CHR 0x09 \<or> c = CHR 0x0A \<or> c = CHR 0x0D then st
            else st\<lparr>openCtx := (c = CHR ''{'' \<or> c = CHR ''['' \<or> c = CHR '','' \<or> c = CHR '':'')\<rparr>)
      else if escaped st then (CHR '' '', st\<lparr>escaped := False\<rparr>)
      else
        let st' = (if has_prefix thinkOpen s then st\<lparr>runHasOpener := True\<rparr>
                   else if runHasOpener st \<and> (c = CHR ''{'' \<or> c = CHR ''['') then st\<lparr>cutPair := True\<rparr>
                   else st)
        in if c = CHR 0x5C then (CHR '' '', st'\<lparr>escaped := True\<rparr>)
           else if c = CHR 0x22 then (c, st'\<lparr>inStr := False, openCtx := False\<rparr>)
           else (CHR '' '', st'))"

fun mask_loop :: "mask_state \<Rightarrow> string \<Rightarrow> string \<times> bool" where
  "mask_loop st [] = ([], cutPair st)"
| "mask_loop st (c # cs) =
     (let (b, st') = mask_step c (c # cs) st; (bs, cp) = mask_loop st' cs in (b # bs, cp))"

definition MaskJSONStrings :: "string \<Rightarrow> string" where
  "MaskJSONStrings s =
     (let (masked, cp) = mask_loop \<lparr>inStr = False, escaped = False, openCtx = True, cutPair = False, runHasOpener = False\<rparr> s
      in if cp \<or> (contains thinkClose masked \<and>
            int (Count s thinkOpen) - int (Count masked thinkOpen) > int (Count s thinkClose) - int (Count masked thinkClose))
         then s else masked)"

datatype CloserSection = SectionWholeAnswer | SectionAfterCloser | SectionAmbiguous

definition ClassifyUnopenedCloser :: "string \<Rightarrow> (string \<Rightarrow> bool) \<Rightarrow> CloserSection \<times> string \<times> bool" where
  "ClassifyUnopenedCloser answer hasEnvelope =
     (case IndexAfterUnopenedCloser (MaskJSONStrings answer) of
        None \<Rightarrow> (SectionWholeAnswer, answer, False)
      | Some i \<Rightarrow>
          if i > length answer then (SectionWholeAnswer, answer, False)
          else let suffix = drop i answer; prefixHasEnvelope = hasEnvelope (take i answer)
            in if \<not> hasEnvelope suffix then (SectionWholeAnswer, answer, prefixHasEnvelope)
               else if prefixHasEnvelope then (SectionAmbiguous, suffix, True)
               else (SectionAfterCloser, suffix, False))"

subsection \<open>The matching closer\<close>

text \<open>One pass from left to right with a counter: the offset of the closer that ends the block.\<close>

function scan_end :: "nat \<Rightarrow> string \<Rightarrow> nat option" where
  "scan_end d [] = None"
| "scan_end d (c # cs) =
     (if has_prefix thinkOpen (c # cs) then map_option ((+) 7) (scan_end (d + 1) (drop 6 cs))
      else if has_prefix thinkClose (c # cs)
      then (if d \<le> 1 then Some 0 else map_option ((+) 8) (scan_end (d - 1) (drop 7 cs)))
      else map_option Suc (scan_end d cs))"
  by pat_completeness auto
termination
  by (relation "measure (\<lambda>(d, s). length s)") auto

lemma Index_before: "Index s sub = Some n \<Longrightarrow> k < n \<Longrightarrow> \<not> has_prefix sub (drop k s)"
proof (induction s arbitrary: n k)
  case (Cons c cs)
  then show ?case by (cases k) (auto split: if_splits)
qed (auto split: if_splits)

lemma Index_None: "Index s sub = None \<Longrightarrow> \<not> has_prefix sub (drop k s)"
proof (induction s arbitrary: k)
  case Nil
  then show ?case by (cases sub) auto
next
  case (Cons c cs)
  then show ?case by (cases k) (auto split: if_splits)
qed

lemma scan_skip:
  "n \<le> length s \<Longrightarrow> \<forall>k<n. \<not> has_prefix thinkOpen (drop k s) \<and> \<not> has_prefix thinkClose (drop k s) \<Longrightarrow>
     scan_end d s = map_option ((+) n) (scan_end d (drop n s))"
proof (induction n arbitrary: s)
  case 0
  then show ?case by (simp add: map_option.identity map_option_idI)
next
  case (Suc n)
  then obtain c cs where s: "s = c # cs" by (cases s) auto
  have "\<not> has_prefix thinkOpen s" "\<not> has_prefix thinkClose s" using Suc.prems(2) by auto
  moreover have "scan_end d cs = map_option ((+) n) (scan_end d (drop n cs))"
    using Suc s by (intro Suc.IH) (auto dest: spec [of _ "Suc k" for k])
  ultimately show ?case by (cases "scan_end d (drop n cs)") (simp_all add: s)
qed

lemma scan_no_close: "\<forall>k. \<not> has_prefix thinkClose (drop k s) \<Longrightarrow> scan_end d s = None"
proof (induction d s rule: scan_end.induct)
  case (2 d c cs)
  have "\<not> has_prefix thinkClose (c # cs)" using 2(4) by (metis drop0)
  moreover have "\<forall>k. \<not> has_prefix thinkClose (drop k (drop 6 cs))" "\<forall>k. \<not> has_prefix thinkClose (drop k cs)"
    using 2(4) by (metis drop_Suc_Cons drop_drop)+
  ultimately show ?case using 2(1,3) by simp
qed simp

lemma not_both_tags: "has_prefix thinkOpen s \<Longrightarrow> \<not> has_prefix thinkClose s"
  by (auto simp: has_prefix_iff thinkOpen_def thinkClose_def)

lemma scan_open: "has_prefix thinkOpen s \<Longrightarrow> scan_end d s = map_option ((+) 7) (scan_end (d + 1) (drop 7 s))"
  by (cases s) (simp_all add: thinkOpen_def)

lemma scan_close:
  "has_prefix thinkClose s \<Longrightarrow>
     scan_end d s = (if d \<le> 1 then Some 0 else map_option ((+) 8) (scan_end (d - 1) (drop 8 s)))"
  using not_both_tags [of s] by (cases s) (auto simp: thinkClose_def)

lemma scan_at_open:
  assumes "Index t thinkClose = Some nc" "Index t thinkOpen = Some no" "no < nc"
  shows "scan_end d t = map_option ((+) (no + 7)) (scan_end (d + 1) (drop (no + 7) t))"
proof -
  note o = Index_Some [OF assms(2)] Index_before [OF assms(2)]
  have "scan_end d t = map_option ((+) no) (scan_end d (drop no t))"
    using o Index_before [OF assms(1)] assms(3) by (intro scan_skip) auto
  also have "scan_end d (drop no t) = map_option ((+) 7) (scan_end (d + 1) (drop (no + 7) t))"
    using o by (simp add: scan_open add.commute)
  finally show ?thesis by (cases "scan_end (d + 1) (drop (no + 7) t)") simp_all
qed

lemma scan_at_close:
  assumes "Index t thinkClose = Some nc" "\<not> (case Index t thinkOpen of None \<Rightarrow> False | Some no \<Rightarrow> no < nc)"
  shows "scan_end d t = (if d \<le> 1 then Some nc else map_option ((+) (nc + 8)) (scan_end (d - 1) (drop (nc + 8) t)))"
proof -
  note c = Index_Some [OF assms(1)]
  have "\<not> has_prefix thinkOpen (drop k t)" if "k < nc" for k
  proof (cases "Index t thinkOpen")
    case None
    then show ?thesis by (rule Index_None)
  next
    case no: (Some no)
    then show ?thesis using assms(2) that by (intro Index_before [OF no]) simp
  qed
  then have "scan_end d t = map_option ((+) nc) (scan_end d (drop nc t))"
    using c Index_before [OF assms(1)] by (intro scan_skip) auto
  also have "scan_end d (drop nc t) = (if d \<le> 1 then Some 0 else map_option ((+) 8) (scan_end (d - 1) (drop (nc + 8) t)))"
    using c scan_close [of "drop nc t" d] by (simp add: add.commute)
  finally show ?thesis by (cases "scan_end (d - 1) (drop (nc + 8) t)") simp_all
qed

lemma map_option_add: "map_option ((+) a) (map_option ((+) b) x) = map_option ((+) (a + b)) x" for a b :: nat
  by (cases x) simp_all

lemma match_end_scan:
  "1 \<le> depth \<Longrightarrow> match_end depth offset rest = map_option ((+) offset) (scan_end depth (drop offset rest))"
proof (induction depth offset rest rule: match_end.induct)
  case (1 depth offset rest)
  define tail where "tail = drop offset rest"
  have dr: "drop (offset + n + k) rest = drop (n + k) tail" for n k by (simp add: tail_def ac_simps)
  show ?case
  proof (cases "Index tail thinkClose")
    case None
    then have "scan_end depth tail = None" by (intro scan_no_close) (auto dest: Index_None)
    then show ?thesis using None by (subst match_end.simps) (simp add: tail_def [symmetric])
  next
    case (Some nc)
    show ?thesis
    proof (cases "case Index tail thinkOpen of None \<Rightarrow> False | Some no \<Rightarrow> no < nc")
      case True
      then obtain no where no: "Index tail thinkOpen = Some no" "no < nc" by (auto split: option.splits)
      have "match_end depth offset rest = match_end (depth + 1) (offset + no + 7) rest"
        using True Some no by (subst match_end.simps) (simp add: tail_def [symmetric])
      also have "\<dots> = map_option ((+) (offset + no + 7)) (scan_end (depth + 1) (drop (no + 7) tail))"
        using 1(1) [OF tail_def Some True] no(1) by (simp add: dr)
      finally show ?thesis
        unfolding tail_def [symmetric] scan_at_open [OF Some no, of depth] map_option_add by (simp only: add.assoc)
    next
      case False
      have m: "match_end depth offset rest =
          (if depth - 1 = 0 then Some (offset + nc) else match_end (depth - 1) (offset + nc + 8) rest)"
        using False Some by (subst match_end.simps) (simp add: tail_def [symmetric])
      show ?thesis
      proof (cases "depth - 1 = 0")
        case True
        then show ?thesis using m scan_at_close [OF Some False, of depth] by (simp add: tail_def [symmetric])
      next
        case d: False
        then have "match_end (depth - 1) (offset + nc + 8) rest =
            map_option ((+) (offset + nc + 8)) (scan_end (depth - 1) (drop (nc + 8) tail))"
          using 1(2) [OF tail_def Some False d] by (simp add: dr)
        moreover have "scan_end depth tail = map_option ((+) (nc + 8)) (scan_end (depth - 1) (drop (nc + 8) tail))"
          using d scan_at_close [OF Some False, of depth] by simp
        ultimately show ?thesis
          unfolding tail_def [symmetric] using d m by (simp only: map_option_add add.assoc if_False)
      qed
    qed
  qed
qed

subsection \<open>What is stripped\<close>

text \<open>A leading run: blocks with only white space before each, and the text after the last.\<close>

inductive think_run :: "string \<Rightarrow> string list \<Rightarrow> string \<Rightarrow> bool" where
  run_end: "think_run s [] s"
| run_block: "trim_left s = thinkOpen @ r @ thinkClose @ t \<Longrightarrow> scan_end 1 (r @ thinkClose @ t) = Some (length r) \<Longrightarrow>
    think_run t rs u \<Longrightarrow> think_run s (r # rs) u"

lemma think_run_suffix: "think_run s rs u \<Longrightarrow> suffix u s"
proof (induction rule: think_run.induct)
  case (run_block s r t rs u)
  have "suffix t (trim_left s)" unfolding run_block(1) by (metis append_assoc suffix_def)
  then show ?case using run_block(4) suffix_trim_left suffix_order.trans by metis
qed simp

lemma scan_end_close: "scan_end d s = Some e \<Longrightarrow> has_prefix thinkClose (drop e s)"
proof (induction d s arbitrary: e rule: scan_end.induct)
  case (2 d c cs)
  consider (op) "has_prefix thinkOpen (c # cs)" | (cl) "\<not> has_prefix thinkOpen (c # cs)" "has_prefix thinkClose (c # cs)"
    | (no) "\<not> has_prefix thinkOpen (c # cs)" "\<not> has_prefix thinkClose (c # cs)" by blast
  then show ?case
  proof cases
    case op
    then obtain m where m: "scan_end (d + 1) (drop 6 cs) = Some m" "e = 7 + m" using 2(4) by auto
    then show ?thesis using 2(1) [OF op m(1)] by (simp add: numeral_eq_Suc drop_drop)
  next
    case cl
    show ?thesis
    proof (cases "d \<le> 1")
      case True
      then show ?thesis using cl 2(4) by simp
    next
      case False
      then obtain m where m: "scan_end (d - 1) (drop 7 cs) = Some m" "e = 8 + m" using cl 2(4) by auto
      then show ?thesis using 2(2) [OF cl False m(1)] by (simp add: numeral_eq_Suc drop_drop)
    qed
  next
    case no
    then obtain m where m: "scan_end d cs = Some m" "e = Suc m" using 2(4) by auto
    then show ?thesis using 2(3) [OF no m(1)] by simp
  qed
qed simp

lemma has_prefix_split: "has_prefix p s \<Longrightarrow> s = p @ drop (length p) s"
  by (auto simp: has_prefix_iff)

lemma block_split:
  assumes "scan_end d s = Some e"
  shows "s = take e s @ thinkClose @ drop (e + 8) s" "length (take e s) = e"
proof -
  have h: "has_prefix thinkClose (drop e s)" by (rule scan_end_close [OF assms])
  then have "drop e s = thinkClose @ drop (e + 8) s" using has_prefix_split [OF h] by (simp add: add.commute)
  then show "s = take e s @ thinkClose @ drop (e + 8) s" by (metis append_take_drop_id)
  show "length (take e s) = e" using h by (cases "e \<le> length s") (auto simp: thinkClose_def)
qed

definition buffered :: "think_buffer \<Rightarrow> string list \<Rightarrow> bool" where
  "buffered b ps \<longleftrightarrow>
     sawFirst b = (ps \<noteq> []) \<and> promoted b = (2 \<le> length ps) \<and> (ps \<noteq> [] \<longrightarrow> firstReasoning b = hd ps) \<and>
     (ps = [] \<longrightarrow> firstReasoning b = []) \<and> thought b = (if 2 \<le> length ps then concat ps else [])"

lemma buffered_add: "buffered b ps \<Longrightarrow> buffered (add_reasoning p b) (ps @ [p])"
  by (cases ps; cases "tl ps") (auto simp: buffered_def add_reasoning_def)

lemma buffered_concat: "buffered b ps \<Longrightarrow> (if promoted b then thought b else firstReasoning b) = concat ps"
  by (cases ps; cases "tl ps") (auto simp: buffered_def)

text \<open>The reasoning of a reply that ends inside a block: after two or more closed blocks the first is repeated.\<close>

definition cut_reasoning :: "string list \<Rightarrow> string \<Rightarrow> string" where
  "cut_reasoning rs u = concat rs @ (if 2 \<le> length rs then hd rs else []) @ u"

lemma buffered_cut: "buffered b ps \<Longrightarrow> thought b @ (if sawFirst b then firstReasoning b else []) @ u = cut_reasoning ps u"
  by (cases ps; cases "tl ps") (auto simp: buffered_def cut_reasoning_def)

definition strip_result :: "string \<Rightarrow> string list \<Rightarrow> string \<Rightarrow> string \<times> string" where
  "strip_result content rs u =
     (if \<not> has_prefix thinkOpen (trim_left u) then (u, concat rs)
      else let v = drop 7 (trim_left u)
        in if contains ''</think'' v then (content, []) else ([], cut_reasoning rs v))"

definition run_stops :: "string \<Rightarrow> bool" where
  "run_stops u \<longleftrightarrow> (has_prefix thinkOpen (trim_left u) \<longrightarrow> scan_end 1 (drop 7 (trim_left u)) = None)"

lemma think_loop_run:
  assumes "buffered b ps" "stripped = (ps \<noteq> [])" "ps = [] \<Longrightarrow> rest = content"
  shows "\<exists>rs u. think_run rest rs u \<and> run_stops u \<and> think_loop content b stripped rest = strip_result content (ps @ rs) u"
  using assms
proof (induction content b stripped rest arbitrary: ps rule: think_loop.induct)
  case (1 content b stripped rest)
  define rest' where "rest' = drop 7 (trim_left rest)"
  have rd: "rest' = drop (length thinkOpen) (trim_left rest)" by (simp add: rest'_def)
  show ?case
  proof (cases "has_prefix thinkOpen (trim_left rest)")
    case False
    then have "think_loop content b stripped rest = strip_result content ps rest"
      using 1(2-4) buffered_concat [OF 1(2)] by (subst think_loop.simps) (auto simp: strip_result_def Let_def)
    then show ?thesis using False run_end by (intro exI [of _ "[]"] exI [of _ rest]) (simp add: run_stops_def)
  next
    case True
    show ?thesis
    proof (cases "match_end 1 0 rest'")
      case None
      have "take (length thinkClose - 1) thinkClose = ''</think''" by (simp add: thinkClose_def)
      then have "think_loop content b stripped rest = strip_result content ps rest"
        using True None buffered_cut [OF 1(2)]
        by (subst think_loop.simps) (simp add: strip_result_def Let_def flip: rest'_def)
      moreover have "run_stops rest"
        using None by (simp add: run_stops_def rest'_def match_end_scan)
      ultimately show ?thesis using run_end by (intro exI [of _ "[]"] exI [of _ rest]) simp
    next
      case (Some e)
      have e: "scan_end 1 rest' = Some e" using Some by (cases "scan_end 1 rest'") (simp_all add: match_end_scan)
      define t where "t = drop (e + 8) rest'"
      have r: "rest' = take e rest' @ thinkClose @ t" and l: "length (take e rest') = e"
        using block_split [OF e] by (simp_all add: t_def)
      have lead: "trim_left rest = thinkOpen @ rest'"
        using has_prefix_split [OF True] by (simp add: rest'_def)
      have step: "think_loop content b stripped rest = think_loop content (add_reasoning (take e rest') b) True t"
        using True Some by (subst think_loop.simps) (simp add: Let_def t_def flip: rest'_def)
      have "\<exists>rs u. think_run t rs u \<and> run_stops u \<and>
          think_loop content (add_reasoning (take e rest') b) True t = strip_result content ((ps @ [take e rest']) @ rs) u"
        using 1(1) [OF refl _ rd Some, of "ps @ [take e rest']"] True buffered_add [OF 1(2)] by (simp add: t_def)
      then obtain rs u where i: "think_run t rs u" "run_stops u"
        "think_loop content (add_reasoning (take e rest') b) True t = strip_result content ((ps @ [take e rest']) @ rs) u" by blast
      have "think_run rest (take e rest' # rs) u"
      proof (rule run_block [OF _ _ i(1)])
        show "trim_left rest = thinkOpen @ take e rest' @ thinkClose @ t" using lead r by simp
        show "scan_end 1 (take e rest' @ thinkClose @ t) = Some (length (take e rest'))" using e r l by simp
      qed
      then show ?thesis using i step by (intro exI [of _ "take e rest' # rs"] exI [of _ u]) simp
    qed
  qed
qed

lemma SplitThink_run:
  "\<exists>rs u. think_run content rs u \<and> run_stops u \<and> SplitThink content = strip_result content rs u"
  unfolding SplitThink_def using think_loop_run [of _ "[]" False content content] by (simp add: buffered_def)

lemma SplitThink_not_leading: "\<not> has_prefix thinkOpen (trim_left s) \<Longrightarrow> SplitThink s = (s, [])"
  unfolding SplitThink_def by (subst think_loop.simps) simp

lemma trim_left_Nil: "trim_left [] = []"
  by (subst trim_left.simps) simp

lemma SplitThink_answer: "suffix (fst (SplitThink s)) s" "fst (SplitThink (fst (SplitThink s))) = fst (SplitThink s)"
proof -
  obtain rs u where u: "think_run s rs u" "SplitThink s = strip_result s rs u" using SplitThink_run by blast
  consider "\<not> has_prefix thinkOpen (trim_left u)" "SplitThink s = (u, concat rs)" | "fst (SplitThink s) = s" | "fst (SplitThink s) = []"
    unfolding u(2) strip_result_def Let_def by (cases "has_prefix thinkOpen (trim_left u)"; cases "contains ''</think'' (drop 7 (trim_left u))") simp_all
  then have "suffix (fst (SplitThink s)) s \<and> fst (SplitThink (fst (SplitThink s))) = fst (SplitThink s)"
  proof cases
    case 1
    then show ?thesis using think_run_suffix [OF u(1)] SplitThink_not_leading by simp
  next
    case 3
    then show ?thesis using SplitThink_not_leading [of "[]"] by (simp add: trim_left_Nil thinkOpen_def)
  qed simp
  then show "suffix (fst (SplitThink s)) s" "fst (SplitThink (fst (SplitThink s))) = fst (SplitThink s)" by blast+
qed

lemma think_run_unique: "think_run s rs u \<Longrightarrow> run_stops u \<Longrightarrow> think_run s rs' u' \<Longrightarrow> run_stops u' \<Longrightarrow> rs = rs' \<and> u = u'"
proof (induction arbitrary: rs' rule: think_run.induct)
  case (run_end s)
  from run_end(2) show ?case
  proof (cases rule: think_run.cases)
    case (run_block r t rs)
    then show ?thesis using run_end(1) by (simp add: run_stops_def has_prefix_append)
  qed simp
next
  case (run_block s r t rs u)
  from run_block(6) show ?case
  proof (cases rule: think_run.cases)
    case run_end
    then show ?thesis using run_block(1,2,7) by (simp add: run_stops_def has_prefix_append)
  next
    case other: (run_block r' t' rs'')
    have e: "r @ thinkClose @ t = r' @ thinkClose @ t'" using run_block(1) other(2) by simp
    have "length r = length r'" using run_block(2) other(3) unfolding e by simp
    then have "r = r'" "t = t'" using e by simp_all
    then show ?thesis using run_block(4) [OF run_block(5) _ run_block(7)] other by simp
  qed
qed

text \<open>
  C27. What \<^verbatim>\<open>SplitThink\<close> removes is exactly the leading run of reasoning blocks, each ended by the closer that a single
  left-to-right count of tags matches to its opener. If the run ends in an opener that is never
  closed, nothing is removed when something like a closer follows, and else the answer is empty. The answer is always a
  suffix of the reply, stripping it again changes nothing, and the reasoning is the text of the blocks in
  order; but a reply cut off inside its third or a later block has its first block reported twice.
\<close>

theorem leading_run_stripped:
  "(\<exists>rs u. think_run s rs u \<and> run_stops u) \<and>
   (\<forall>rs u. think_run s rs u \<and> run_stops u \<longrightarrow> SplitThink s = strip_result s rs u) \<and>
   suffix (fst (SplitThink s)) s \<and> fst (SplitThink (fst (SplitThink s))) = fst (SplitThink s)"
proof -
  obtain rs u where u: "think_run s rs u" "run_stops u" "SplitThink s = strip_result s rs u" using SplitThink_run by blast
  then have "\<forall>rs u. think_run s rs u \<and> run_stops u \<longrightarrow> SplitThink s = strip_result s rs u"
    using think_run_unique by blast
  then show ?thesis using u(1,2) SplitThink_answer by blast
qed

theorem leading_run_stripped_witness:
  "SplitThink ''<think>a</think><think>b</think><think>c'' = ([], ''abac'') \<and>
   suffix (fst (SplitThink ''<think>a</think><think>b</think><think>c'')) ''<think>a</think><think>b</think><think>c''"
proof
  show "SplitThink ''<think>a</think><think>b</think><think>c'' = ([], ''abac'')" by code_simp
  show "suffix (fst (SplitThink ''<think>a</think><think>b</think><think>c'')) ''<think>a</think><think>b</think><think>c''"
    using leading_run_stripped by blast
qed

subsection \<open>Blank text holds no tag\<close>

lemma decode_rune_wide:
  assumes "decode_rune s = (r, w)" "2 \<le> w" "x \<in> set (take w s)"
  shows "128 \<le> byte x"
proof -
  obtain c cs where s: "s = c # cs" using assms(1,2) by (cases s) auto
  have b: "128 \<le> byte c" using assms(1,2) by (auto simp: s rune_width_def Let_def split: if_splits prod.splits list.splits)
  have lo: "128 \<le> fst (second_range n)" for n by (simp add: second_range_def)
  obtain c1 cs1 where c1: "cs = c1 # cs1" "fst (second_range (byte c)) \<le> byte c1"
    using assms(1,2) by (cases cs) (auto simp: s Let_def split: if_splits prod.splits)
  have "128 \<le> byte c1" using lo c1(2) by (meson order_trans)
  show ?thesis
  proof (cases "w = 2")
    case True
    then show ?thesis using assms(3) b \<open>128 \<le> byte c1\<close> by (auto simp: s c1)
  next
    case False
    then obtain c2 cs2 where c2: "cs1 = c2 # cs2" "is_cont c2"
      using assms(1,2) by (cases cs1) (auto simp: s c1(1) Let_def split: if_splits prod.splits list.splits)
    show ?thesis
    proof (cases "w = 3")
      case True
      then show ?thesis using assms(3) b \<open>128 \<le> byte c1\<close> c2 by (auto simp: s c1 is_cont_def numeral_eq_Suc)
    next
      case F3: False
      then obtain c3 cs3 where c3: "cs2 = c3 # cs3" "is_cont c3" "w = 4"
        using assms(1,2) False by (cases cs2) (auto simp: s c1(1) c2(1) Let_def split: if_splits prod.splits list.splits)
      then show ?thesis using assms(3) b \<open>128 \<le> byte c1\<close> c2 by (auto simp: s c1 is_cont_def numeral_eq_Suc)
    qed
  qed
qed

lemma decode_rune_narrow: "decode_rune s = (r, w) \<Longrightarrow> s \<noteq> [] \<Longrightarrow> w \<le> 1 \<Longrightarrow> r = byte (hd s) \<or> r = RuneError"
  by (cases s) (auto simp: Let_def split: if_splits prod.splits list.splits)

text \<open>A character that trimming never removes.\<close>

definition visible :: "char \<Rightarrow> bool" where
  "visible z \<longleftrightarrow> byte z < (128 :: nat) \<and> \<not> unicode_IsSpace (byte z)"

lemma no_space_error: "\<not> unicode_IsSpace RuneError"
  by (simp add: unicode_IsSpace_def RuneError_def)

lemma trim_left_keeps: "visible z \<Longrightarrow> z \<in> set s \<Longrightarrow> z \<in> set (trim_left s)"
proof (induction s rule: trim_left.induct)
  case (1 s)
  obtain r w where d: "decode_rune s = (r, w)" by fastforce
  show ?case
  proof (cases "s \<noteq> [] \<and> unicode_IsSpace r")
    case True
    have "z \<notin> set (take (max 1 w) s)"
    proof (cases "w \<le> 1")
      case w: True
      then have "hd s \<noteq> z" using decode_rune_narrow [OF d] True no_space_error 1(2) by (auto simp: visible_def)
      then show ?thesis using w True by (cases s) auto
    next
      case False
      then have "max 1 w = w" by simp
      then show ?thesis using decode_rune_wide [OF d, of z] False 1(2) by (auto simp: visible_def)
    qed
    then have "z \<in> set (drop (max 1 w) s)" using 1(3) by (metis Un_iff append_take_drop_id set_append)
    then show ?thesis using 1(1) [OF d [symmetric]] 1(2) True by (subst trim_left.simps) (simp add: d)
  next
    case False
    then show ?thesis using 1(3) by (subst trim_left.simps) (auto simp: d)
  qed
qed

lemma decode_last_rune_visible:
  assumes z: "visible z" and "decode_last_rune s = (r, w)" "s \<noteq> []" "unicode_IsSpace r"
  shows "z \<notin> set (drop (length s - max 1 w) s)"
proof -
  have lst: "drop (length s - 1) s = [last s]" using assms(3) by (metis append_butlast_last_id append_eq_conv_conj length_butlast)
  consider (narrow) "w = 1" "r = byte (last s) \<or> r = RuneError"
    | (wide) k where "k \<in> {2, 3, 4}" "w = k" "k \<le> length s" "decode_rune (drop (length s - k) s) = (r, k)" "128 \<le> byte (last s)"
  proof (cases "byte (last s) < (128 :: nat)")
    case True
    then show ?thesis using assms(2,3) narrow by (simp add: decode_last_rune_def Let_def)
  next
    case False
    show ?thesis
    proof (cases "find (\<lambda>k. k \<le> length s \<and> rune_start (s ! (length s - k))) [2, 3, 4]")
      case None
      then show ?thesis using assms(2,3) False narrow unfolding decode_last_rune_def Let_def by simp
    next
      case (Some k)
      then have k: "k \<in> {2, 3, 4}" "k \<le> length s" unfolding find_Some_iff by (auto simp: less_Suc_eq numeral_eq_Suc)
      obtain r' w' where d: "decode_rune (drop (length s - k) s) = (r', w')" by fastforce
      have "(r, w) = (if w' = k then (r', k) else (RuneError, 1))"
        using assms(2,3) False Some d unfolding decode_last_rune_def Let_def by simp
      then show ?thesis using d k False narrow wide by (cases "w' = k") auto
    qed
  qed
  then show ?thesis
  proof cases
    case narrow
    then have "last s \<noteq> z" using assms(4) z no_space_error by (auto simp: visible_def)
    then show ?thesis using narrow lst by simp
  next
    case wide
    then have "max 1 w = k" "take k (drop (length s - k) s) = drop (length s - k) s" by auto
    then show ?thesis using decode_rune_wide [OF wide(4), of z] wide(1) z by (auto simp: visible_def)
  qed
qed

lemma trim_right_keeps: "visible z \<Longrightarrow> z \<in> set s \<Longrightarrow> z \<in> set (trim_right s)"
proof (induction s rule: trim_right.induct)
  case (1 s)
  obtain r w where d: "decode_last_rune s = (r, w)" by fastforce
  show ?case
  proof (cases "s \<noteq> [] \<and> unicode_IsSpace r")
    case True
    then have "z \<in> set (take (length s - max 1 w) s)"
      using decode_last_rune_visible [OF 1(2) d] 1(3) by (metis Un_iff append_take_drop_id set_append)
    then show ?thesis using 1(1) [OF d [symmetric]] 1(2) True by (subst trim_right.simps) (simp add: d)
  next
    case False
    then show ?thesis using 1(3) by (subst trim_right.simps) (auto simp: d)
  qed
qed

lemma blank_no_visible: "TrimSpace s = [] \<Longrightarrow> visible z \<Longrightarrow> z \<notin> set s"
  using trim_left_keeps trim_right_keeps by (fastforce simp: TrimSpace_def)

lemma visible_marks: "visible (CHR ''<'')" "visible (CHR ''{'')"
  by (simp_all add: visible_def unicode_IsSpace_def)

lemma blank_no_lt: "TrimSpace s = [] \<Longrightarrow> CHR ''<'' \<notin> set s"
  by (rule blank_no_visible [OF _ visible_marks(1)])

subsection \<open>Unopened closers and the detectors\<close>

lemma unopened_shift:
  "unopened_loop d i lst s = (case unopened_loop d 0 None s of None \<Rightarrow> lst | Some k \<Rightarrow> Some (i + k))"
proof (induction "length s" arbitrary: d i lst s rule: less_induct)
  case less
  show ?case
  proof (cases s)
    case (Cons c cs)
    show ?thesis
      using less [of "drop 6 cs" "d + 1" "i + 7" lst] less [of "drop 6 cs" "d + 1" 7 None]
        less [of "drop 7 cs" 0 "i + 8" "Some (i + 8)"] less [of "drop 7 cs" 0 8 "Some 8"]
        less [of "drop 7 cs" "d - 1" "i + 8" lst] less [of "drop 7 cs" "d - 1" 8 None]
        less [of cs d "i + 1" lst] less [of cs d 1 None]
      by (auto simp: Cons ac_simps split: option.splits)
  qed simp
qed

abbreviation unopened :: "nat \<Rightarrow> string \<Rightarrow> nat option" where
  "unopened d s \<equiv> unopened_loop d 0 None s"

lemma no_tag_Nil [simp]: "\<not> has_prefix thinkOpen []" "\<not> has_prefix thinkClose []"
  by (simp_all add: thinkOpen_def thinkClose_def)

lemma unopened_open: "has_prefix thinkOpen s \<Longrightarrow> unopened d s = map_option ((+) 7) (unopened (d + 1) (drop 7 s))"
  using unopened_shift [of "Suc d" 7 None "drop 7 s"]
  by (cases s) (auto split: option.splits)

lemma unopened_close_deep: "has_prefix thinkClose s \<Longrightarrow> unopened (Suc d) s = map_option ((+) 8) (unopened d (drop 8 s))"
  using unopened_shift [of d 8 None "drop 8 s"] not_both_tags [of s]
  by (cases s) (auto split: option.splits)

lemma unopened_close:
  "has_prefix thinkClose s \<Longrightarrow> unopened 0 s = Some (8 + (case unopened 0 (drop 8 s) of None \<Rightarrow> 0 | Some k \<Rightarrow> k))"
  using unopened_shift [of 0 8 "Some 8" "drop 8 s"] not_both_tags [of s]
  by (cases s) (auto split: option.splits)

lemma unopened_other:
  "\<not> has_prefix thinkOpen (c # cs) \<Longrightarrow> \<not> has_prefix thinkClose (c # cs) \<Longrightarrow>
     unopened d (c # cs) = map_option Suc (unopened d cs)"
  using unopened_shift [of d 1 None cs] by (auto split: option.splits)

lemma unopened_skip:
  "n \<le> length s \<Longrightarrow> \<forall>k<n. \<not> has_prefix thinkOpen (drop k s) \<and> \<not> has_prefix thinkClose (drop k s) \<Longrightarrow>
     unopened d s = map_option ((+) n) (unopened d (drop n s))"
proof (induction n arbitrary: s)
  case 0
  then show ?case by (simp add: map_option.identity map_option_idI)
next
  case (Suc n)
  then obtain c cs where s: "s = c # cs" by (cases s) auto
  have "\<not> has_prefix thinkOpen (c # cs)" "\<not> has_prefix thinkClose (c # cs)" using Suc.prems(2) s by auto
  moreover have "unopened d cs = map_option ((+) n) (unopened d (drop n cs))"
    using Suc s by (intro Suc.IH) (auto dest: spec [of _ "Suc k" for k])
  ultimately show ?case
    unfolding s by (cases "unopened d (drop n cs)") (simp_all add: unopened_other del: unopened_loop.simps)
qed

lemma unopened_pair:
  assumes "Index s thinkOpen = Some j" "\<not> (case Index s thinkClose of None \<Rightarrow> False | Some k \<Rightarrow> k < j)"
    "Index (drop (j + 7) s) thinkClose = Some e" "TrimSpace (take e (drop (j + 7) s)) = []" "unopened 0 s = None"
  shows "unopened 0 (drop (e + 8) (drop (j + 7) s)) = None"
proof -
  define t where "t = drop (j + 7) s"
  note o = Index_Some [OF assms(1)] Index_before [OF assms(1)]
  note e = Index_Some [OF assms(3)] Index_before [OF assms(3)]
  have "\<not> has_prefix thinkClose (drop k s)" if "k < j" for k
    using assms(2) that Index_None [of s thinkClose k] Index_before [of s thinkClose _ k] by (cases "Index s thinkClose") auto
  then have "unopened 0 s = map_option ((+) j) (unopened 0 (drop j s))"
    using o by (intro unopened_skip) auto
  moreover have "unopened 0 (drop j s) = map_option ((+) 7) (unopened (Suc 0) t)"
    using o unopened_open [of "drop j s" 0] by (simp add: t_def add.commute)
  ultimately have 1: "unopened (Suc 0) t = None" using assms(5) by simp
  have "\<not> has_prefix thinkOpen (drop k t)" if "k < e" for k
  proof
    assume "has_prefix thinkOpen (drop k t)"
    then obtain x where "drop k t = CHR ''<'' # x" by (auto simp: has_prefix_iff thinkOpen_def)
    moreover have "k < length t" using e(1) that by (simp add: t_def)
    ultimately have "t ! k = CHR ''<''" by (metis Cons_nth_drop_Suc list.inject)
    then have "CHR ''<'' \<in> set (take e t)" using that \<open>k < length t\<close> by (auto simp: in_set_conv_nth intro!: exI [of _ k])
    then show False using blank_no_lt assms(4) by (auto simp: t_def)
  qed
  then have "unopened (Suc 0) t = map_option ((+) e) (unopened (Suc 0) (drop e t))"
    using e by (intro unopened_skip) (auto simp: t_def)
  moreover have "unopened (Suc 0) (drop e t) = map_option ((+) 8) (unopened 0 (drop (e + 8) t))"
    using e(1) unopened_close_deep [of "drop e t" 0] by (simp add: t_def add.commute)
  ultimately show ?thesis using 1 by (simp add: t_def)
qed

lemma detectors_agree: "unopened 0 s = None \<Longrightarrow> HasThinkMarkup s = HasEnclosingThinkBlock s"
proof (induction s rule: HasThinkMarkup.induct)
  case (1 s)
  have nc: "\<not> (case Index s thinkClose of None \<Rightarrow> False | Some k \<Rightarrow> (case Index s thinkOpen of None \<Rightarrow> True | Some j \<Rightarrow> k < j))"
  proof
    assume a: "case Index s thinkClose of None \<Rightarrow> False | Some k \<Rightarrow> (case Index s thinkOpen of None \<Rightarrow> True | Some j \<Rightarrow> k < j)"
    then obtain k where k: "Index s thinkClose = Some k" by (auto split: option.splits)
    have "\<not> has_prefix thinkOpen (drop m s)" if "m < k" for m
      using a k that Index_None [of s thinkOpen m] Index_before [of s thinkOpen _ m] by (cases "Index s thinkOpen") auto
    then have "unopened 0 s = map_option ((+) k) (unopened 0 (drop k s))"
      using Index_Some [OF k] Index_before [OF k] by (intro unopened_skip) auto
    then show False using 1(2) unopened_close [of "drop k s"] Index_Some [OF k] by simp
  qed
  show ?case
  proof (cases "Index s thinkOpen")
    case None
    then show ?thesis using nc by (subst HasThinkMarkup.simps, subst HasEnclosingThinkBlock.simps) (auto simp: Let_def split: option.splits)
  next
    case (Some j)
    define t where "t = drop (j + 7) s"
    have nj: "\<not> (case Index s thinkClose of None \<Rightarrow> False | Some k \<Rightarrow> k < j)" using nc Some by (auto split: option.splits)
    have m: "HasThinkMarkup s = (case Index t thinkClose of None \<Rightarrow> TrimSpace t \<noteq> []
        | Some e \<Rightarrow> if TrimSpace (take e t) \<noteq> [] then True else HasThinkMarkup (drop (e + 8) t))"
      unfolding t_def by (subst HasThinkMarkup.simps, unfold Let_def tag_lengths, subst if_not_P [OF nc]) (simp add: Some)
    have h: "HasEnclosingThinkBlock s = (case Index t thinkClose of None \<Rightarrow> TrimSpace t \<noteq> []
        | Some e \<Rightarrow> if TrimSpace (take e t) \<noteq> [] then True else HasEnclosingThinkBlock (drop (e + 8) t))"
      unfolding t_def by (subst HasEnclosingThinkBlock.simps, unfold Let_def tag_lengths) (simp add: Some)
    have "HasThinkMarkup (drop (e + 8) t) = HasEnclosingThinkBlock (drop (e + 8) t)"
      if "Index t thinkClose = Some e" "TrimSpace (take e t) = []" for e
      using 1(1) [OF refl refl nc Some _ _ ] that unopened_pair [OF Some nj _ _ 1(2)] by (simp add: t_def)
    then show ?thesis unfolding m h by (auto split: option.splits)
  qed
qed

text \<open>
  C28. On a reply without an unopened closer the two detectors give the same answer: what \<^verbatim>\<open>HasThinkMarkup\<close> adds
  is only the rule on closers that no opener precedes. That rule also hides: a closer at the start of a reply makes it
  miss a block of reasoning after it, which \<^verbatim>\<open>HasEnclosingThinkBlock\<close> reports.
\<close>

theorem think_detectors_agree:
  "(IndexAfterUnopenedCloser s = None \<longrightarrow> HasThinkMarkup s = HasEnclosingThinkBlock s) \<and>
   HasEnclosingThinkBlock ''</think><think>x</think>'' \<and> \<not> HasThinkMarkup ''</think><think>x</think>''"
proof (intro conjI impI)
  show "IndexAfterUnopenedCloser s = None \<Longrightarrow> HasThinkMarkup s = HasEnclosingThinkBlock s"
    unfolding IndexAfterUnopenedCloser_def by (rule detectors_agree)
  show "HasEnclosingThinkBlock ''</think><think>x</think>''" by code_simp
  show "\<not> HasThinkMarkup ''</think><think>x</think>''" by code_simp
qed

theorem think_detectors_agree_witness:
  "IndexAfterUnopenedCloser ''<think> </think>a'' = None \<and> HasThinkMarkup ''<think> </think>a'' = HasEnclosingThinkBlock ''<think> </think>a''"
proof -
  have "IndexAfterUnopenedCloser ''<think> </think>a'' = None" by code_simp
  then show ?thesis using think_detectors_agree [of "''<think> </think>a''"] by simp
qed

subsection \<open>Masks and sections\<close>

definition blanks :: "string \<Rightarrow> string \<Rightarrow> bool" where
  "blanks m s \<longleftrightarrow> list_all2 (\<lambda>b c. b = c \<or> b = CHR '' '') m s"

lemma mask_loop_blanks: "blanks (fst (mask_loop st s)) s"
proof (induction s arbitrary: st)
  case (Cons c cs)
  obtain b st' where m: "mask_step c (c # cs) st = (b, st')" by fastforce
  have "b = c \<or> b = CHR '' ''" using m by (auto simp: mask_step_def Let_def split: if_splits)
  then show ?case using Cons [of st'] m by (auto simp: blanks_def split: prod.splits)
qed (simp add: blanks_def)

lemma mask_blanks: "blanks (MaskJSONStrings s) s"
proof -
  have "blanks s s" by (simp add: blanks_def list.rel_refl)
  then show ?thesis
    using mask_loop_blanks [of "\<lparr>inStr = False, escaped = False, openCtx = True, cutPair = False, runHasOpener = False\<rparr>" s]
    by (auto simp: MaskJSONStrings_def split: prod.splits)
qed

lemma blanks_prefix: "CHR '' '' \<notin> set p \<Longrightarrow> blanks m s \<Longrightarrow> has_prefix p m \<Longrightarrow> has_prefix p s"
proof (induction p arbitrary: m s)
  case (Cons a p)
  then obtain m' where m: "m = a # m'" "has_prefix p m'" by (cases m) auto
  then obtain s' where s: "s = a # s'" "blanks m' s'" using Cons.prems by (cases s) (auto simp: blanks_def)
  then show ?case using Cons m by simp
qed simp

lemma mask_tag:
  "p \<in> {thinkOpen, thinkClose} \<Longrightarrow> has_prefix p (drop i (MaskJSONStrings s)) \<Longrightarrow> has_prefix p (drop i s)"
  using blanks_prefix [of p "drop i (MaskJSONStrings s)" "drop i s"] mask_blanks [of s]
  by (auto simp: blanks_def thinkOpen_def thinkClose_def intro: list_all2_dropI)

definition closer_end :: "nat \<Rightarrow> string \<Rightarrow> bool" where
  "closer_end i s \<longleftrightarrow> 8 \<le> i \<and> i \<le> length s \<and> has_prefix thinkClose (drop (i - 8) s) \<and> unopened 0 (drop i s) = None"

lemma closer_end_shift: "closer_end m (drop n s) \<Longrightarrow> n \<le> length s \<Longrightarrow> closer_end (n + m) s"
  by (auto simp: closer_end_def add.commute)

lemma unopened_Some: "unopened d s = Some i \<Longrightarrow> closer_end i s"
proof (induction "length s" arbitrary: d s i rule: less_induct)
  case less
  consider (nil) "s = []" | (op) "has_prefix thinkOpen s" | (cl) "has_prefix thinkClose s"
    | (other) c cs where "s = c # cs" "\<not> has_prefix thinkOpen s" "\<not> has_prefix thinkClose s" by (cases s) auto
  then show ?case
  proof cases
    case nil
    then show ?thesis using less.prems by simp
  next
    case op
    then obtain m where m: "unopened (d + 1) (drop 7 s) = Some m" "i = 7 + m"
      using less.prems unopened_open [OF op, of d] by auto
    have l: "7 \<le> length s" using op by (auto simp: has_prefix_iff thinkOpen_def)
    have "closer_end m (drop 7 s)" by (rule less.hyps [OF _ m(1)]) (use l in simp)
    then show ?thesis using closer_end_shift l m(2) by blast
  next
    case cl
    have l: "8 \<le> length s" using cl by (auto simp: has_prefix_iff thinkClose_def)
    show ?thesis
    proof (cases "d = 0 \<and> unopened 0 (drop 8 s) = None")
      case True
      then show ?thesis using less.prems unopened_close [OF cl] cl l by (auto simp: closer_end_def)
    next
      case False
      then obtain e m where m: "unopened e (drop 8 s) = Some m" "i = 8 + m"
        using less.prems unopened_close [OF cl] unopened_close_deep [OF cl, of "d - 1"]
        by (cases d; cases "unopened (d - 1) (drop 8 s)") auto
      have "closer_end m (drop 8 s)" by (rule less.hyps [OF _ m(1)]) (use l in simp)
      then show ?thesis using closer_end_shift l m(2) by blast
    qed
  next
    case other
    then obtain m where m: "unopened d (drop 1 s) = Some m" "i = 1 + m" using less.prems unopened_other by auto
    have "closer_end m (drop 1 s)" by (rule less.hyps [OF _ m(1)]) (use other in simp)
    then show ?thesis using closer_end_shift [of m 1 s] other(1) m(2) by simp
  qed
qed

text \<open>
  The section of an answer a lane parses is the whole answer, or what follows the last closer that no opener opened
  and that is not quoted in a string literal. It is the latter only when an envelope is found there, and it is
  reported ambiguous exactly when the text up to that closer has one too. The mask that hides quoted tags keeps every
  offset and invents no tag, so the closer found in the masked copy stands in the answer.
\<close>

theorem closer_sections:
  assumes "ClassifyUnopenedCloser a env = (sec, t, p)"
  shows "length (MaskJSONStrings a) = length a \<and>
    (sec = SectionWholeAnswer \<longrightarrow> t = a) \<and>
    (sec \<noteq> SectionWholeAnswer \<longrightarrow>
       (\<exists>pre. a = pre @ thinkClose @ t \<and> env t \<and> p = env (pre @ thinkClose) \<and>
          (sec = SectionAmbiguous \<longleftrightarrow> env (pre @ thinkClose)) \<and>
          has_prefix thinkClose (drop (length pre) (MaskJSONStrings a)) \<and>
          IndexAfterUnopenedCloser (drop (length pre + 8) (MaskJSONStrings a)) = None))"
proof -
  have len: "length (MaskJSONStrings a) = length a"
    using mask_blanks [of a] by (auto simp: blanks_def dest: list_all2_lengthD)
  show ?thesis
  proof (cases "sec = SectionWholeAnswer")
    case True
    then show ?thesis using assms len
      by (auto simp: ClassifyUnopenedCloser_def Let_def split: option.splits if_splits)
  next
    case False
    then obtain i where i: "IndexAfterUnopenedCloser (MaskJSONStrings a) = Some i" "i \<le> length a" "t = drop i a"
      "env t" "p = env (take i a)" "sec = (if p then SectionAmbiguous else SectionAfterCloser)"
      using assms by (auto simp: ClassifyUnopenedCloser_def Let_def split: option.splits if_splits)
    have c: "closer_end i (MaskJSONStrings a)"
      using i(1) unopened_Some by (simp add: IndexAfterUnopenedCloser_def)
    define pre where "pre = take (i - 8) a"
    have "has_prefix thinkClose (drop (i - 8) a)" using c mask_tag by (auto simp: closer_end_def)
    then have "drop (i - 8) a = thinkClose @ drop i a"
      using has_prefix_split [of thinkClose "drop (i - 8) a"] c by (simp add: closer_end_def)
    then have a: "a = pre @ thinkClose @ t" unfolding pre_def i(3) by (metis append_take_drop_id)
    have l: "length pre = i - 8" "length pre + 8 = i" using c i(2) by (auto simp: pre_def closer_end_def)
    have "take (length (pre @ thinkClose)) (pre @ thinkClose @ t) = pre @ thinkClose" by simp
    then have p: "take i a = pre @ thinkClose" using l(2) a by simp
    have "has_prefix thinkClose (drop (length pre) (MaskJSONStrings a))"
      "IndexAfterUnopenedCloser (drop (length pre + 8) (MaskJSONStrings a)) = None"
      using c l by (simp_all add: closer_end_def IndexAfterUnopenedCloser_def)
    moreover have "p = env (pre @ thinkClose)" "sec = SectionAmbiguous \<longleftrightarrow> env (pre @ thinkClose)"
      using i(5,6) p by simp_all
    ultimately show ?thesis using a i(4) False len by blast
  qed
qed

theorem closer_sections_witness:
  "ClassifyUnopenedCloser ''a</think>b'' (\<lambda>s. s = ''b'') = (SectionAfterCloser, ''b'', False) \<and>
   length (MaskJSONStrings ''a</think>b'') = length ''a</think>b''"
proof -
  have c: "ClassifyUnopenedCloser ''a</think>b'' (\<lambda>s. s = ''b'') = (SectionAfterCloser, ''b'', False)" by code_simp
  from closer_sections [OF c] c show ?thesis by blast
qed

end
