(* ===== verification/GoInt.thy ===== *)
theory GoInt
  imports Prelude
begin

text \<open>
  Signed 64-bit arithmetic, for the places where a Go \<^verbatim>\<open>int64\<close> or \<^verbatim>\<open>time.Duration\<close> is added up or shifted
  and might leave its range: an operation is the integer one followed by \<open>wrap64\<close>.
\<close>

definition MaxInt64 :: int where "MaxInt64 = 2 ^ 63 - 1"

definition wrap64 :: "int \<Rightarrow> int" where
  "wrap64 x = (x + 2 ^ 63) mod 2 ^ 64 - 2 ^ 63"

lemma wrap64_id: "- (2 ^ 63) \<le> x \<Longrightarrow> x < 2 ^ 63 \<Longrightarrow> wrap64 x = x"
  by (simp add: wrap64_def)

lemma wrap64_nonneg: "0 \<le> x \<Longrightarrow> x \<le> MaxInt64 \<Longrightarrow> wrap64 x = x"
  by (rule wrap64_id) (simp_all add: MaxInt64_def)

text \<open>A counter that is added to: the sum wraps, and it does not matter that the partial sums do.\<close>

definition add64 :: "int \<Rightarrow> int \<Rightarrow> int" where
  "add64 x y = wrap64 (x + y)"

definition fits64 :: "int \<Rightarrow> bool" where
  "fits64 x \<longleftrightarrow> - (2 ^ 63) \<le> x \<and> x < 2 ^ 63"

lemma wrap64_fits: "fits64 x \<Longrightarrow> wrap64 x = x"
  by (simp add: fits64_def wrap64_id)

lemma add64_wrap64: "add64 (wrap64 x) y = wrap64 (x + y)"
proof -
  have "((x + 2 ^ 63) mod 2 ^ 64 + y) mod 2 ^ 64 = (x + 2 ^ 63 + y) mod (2 ^ 64 :: int)" by (rule mod_add_left_eq)
  then show ?thesis by (simp add: add64_def wrap64_def algebra_simps)
qed

lemma fold_add64: "fold (\<lambda>r n. add64 n (f r)) xs (wrap64 x) = wrap64 (x + (\<Sum>r\<leftarrow>xs. f r))"
  by (induction xs arbitrary: x) (simp_all add: add64_wrap64 add.assoc)

end
