(* ===== verification/ByteBudget.thy ===== *)
theory ByteBudget
  imports GoInt "HOL-Library.Sublist"
begin

text \<open>
  The byte budget of a payload: \<^verbatim>\<open>internal/payload/budget.go\<close>, with the ranks of the modes (\<^verbatim>\<open>escalation.go\<close>). Sizes
  are \<^verbatim>\<open>int64\<close> values. A stable sort of indices by a comparison on keys is \<open>sort_key\<close> on the indices in
  order; the flags \<^verbatim>\<open>funded\<close> and \<^verbatim>\<open>dropped\<close> are the lists of the indices they are set for. The theorems show what
  is kept, within which bound and in which order files are shed.
\<close>

type_synonym payloadMode = string

definition ModeDiff :: payloadMode where "ModeDiff = ''diff''"
definition ModeBlocks :: payloadMode where "ModeBlocks = ''blocks''"
definition ModeFiles :: payloadMode where "ModeFiles = ''files''"

definition modeRank :: "payloadMode \<Rightarrow> int" where
  "modeRank m = (if m = ModeBlocks then 1 else if m = ModeFiles then 2 else 0)"

record fileEntry =
  Path :: string
  Size :: int
  Body :: string
  Mode :: payloadMode
  shedExempt :: bool
  exemptRank :: int

record truncation =
  Truncated :: bool
  FilesDropped :: "string list"
  AllDropped :: bool

definition ValidateBudget :: "int \<Rightarrow> int option" where
  "ValidateBudget b = (if b < 0 then Some b else None)"

definition clampSize :: "int \<Rightarrow> int" where
  "clampSize s = (if s < 0 then 0 else s)"

fun total_size :: "int \<Rightarrow> fileEntry list \<Rightarrow> int" where
  "total_size acc [] = acc"
| "total_size acc (e # es) =
     (let sz = clampSize (Size e) in if acc > MaxInt64 - sz then MaxInt64 else total_size (acc + sz) es)"

definition drop_key :: "(fileEntry \<Rightarrow> int) option \<Rightarrow> fileEntry \<Rightarrow> int \<times> int \<times> string" where
  "drop_key tier e = (case tier of None \<Rightarrow> 0 | Some f \<Rightarrow> f e, - Size e, Path e)"

definition drop_order :: "(fileEntry \<Rightarrow> int) option \<Rightarrow> fileEntry list \<Rightarrow> nat list" where
  "drop_order tier es = sort_key (\<lambda>i. drop_key tier (es ! i)) [0..<length es]"

definition fund_step :: "fileEntry list \<Rightarrow> int \<Rightarrow> nat \<Rightarrow> int \<times> nat list \<Rightarrow> int \<times> nat list" where
  "fund_step es budget i st =
     (case st of (exemptUsed, funded) \<Rightarrow>
        let sz = clampSize (Size (es ! i))
        in if wrap64 (exemptUsed + sz) \<le> budget then (wrap64 (exemptUsed + sz), i # funded) else st)"

definition exempt_order :: "fileEntry list \<Rightarrow> nat list" where
  "exempt_order es = sort_key (\<lambda>i. - exemptRank (es ! i)) (filter (\<lambda>i. shedExempt (es ! i)) [0..<length es])"

definition fund_exempt :: "fileEntry list \<Rightarrow> int \<Rightarrow> nat list" where
  "fund_exempt es budget = snd (fold (fund_step es budget) (exempt_order es) (0, []))"

fun shed :: "fileEntry list \<Rightarrow> int \<Rightarrow> nat list \<Rightarrow> int \<Rightarrow> nat list \<Rightarrow> nat list" where
  "shed es budget funded used [] = []"
| "shed es budget funded used (i # is) =
     (if used \<le> budget then []
      else if i \<in> set funded then shed es budget funded used is
      else i # shed es budget funded (used - clampSize (Size (es ! i))) is)"

definition ReviewableCount :: "fileEntry list \<Rightarrow> nat" where
  "ReviewableCount es = length (filter (\<lambda>e. \<not> shedExempt e) es)"

definition pick_entries :: "(nat \<Rightarrow> bool) \<Rightarrow> fileEntry list \<Rightarrow> fileEntry list" where
  "pick_entries P es = map ((!) es) (filter P [0..<length es])"

definition applyByteBudgetOrdered ::
  "fileEntry list \<Rightarrow> int \<Rightarrow> (fileEntry \<Rightarrow> int) option \<Rightarrow> fileEntry list \<times> truncation" where
  "applyByteBudgetOrdered es budget tier =
     (let none = \<lparr>Truncated = False, FilesDropped = [], AllDropped = False\<rparr> in
      if budget \<le> 0 then (es, none)
      else let total = total_size 0 es in
        if total \<le> budget then (es, none)
        else let dropped = shed es budget (fund_exempt es budget) total (drop_order tier es);
                 kept = pick_entries (\<lambda>i. i \<notin> set dropped) es;
                 droppedPaths = map Path (pick_entries (\<lambda>i. i \<in> set dropped) es)
          in (kept, \<lparr>Truncated = length droppedPaths > 0, FilesDropped = sort droppedPaths,
                AllDropped = (ReviewableCount es > 0 \<and> ReviewableCount kept = 0)\<rparr>))"

definition ApplyByteBudget :: "fileEntry list \<Rightarrow> int \<Rightarrow> fileEntry list \<times> truncation" where
  "ApplyByteBudget es budget = applyByteBudgetOrdered es budget None"

definition escalated :: "payloadMode \<Rightarrow> fileEntry \<Rightarrow> int" where
  "escalated configured e = (if modeRank (Mode e) > modeRank configured then 1 else 0)"

definition ApplyByteBudgetPreferEscalated :: "fileEntry list \<Rightarrow> int \<Rightarrow> payloadMode \<Rightarrow> fileEntry list \<times> truncation" where
  "ApplyByteBudgetPreferEscalated es budget configured =
     (let (kept, t) = applyByteBudgetOrdered es budget (Some (escalated configured))
      in if AllDropped t then ApplyByteBudget es budget else (kept, t))"

subsection \<open>What is kept\<close>

definition bytes :: "fileEntry list \<Rightarrow> int" where
  "bytes es = (\<Sum>e\<leftarrow>es. clampSize (Size e))"

lemma clampSize_nonneg [simp]: "0 \<le> clampSize s"
  by (simp add: clampSize_def)

lemma bytes_nonneg: "0 \<le> bytes es"
  unfolding bytes_def by (rule sum_list_nonneg) auto

lemma total_size_exact: "acc + bytes es \<le> MaxInt64 \<Longrightarrow> total_size acc es = acc + bytes es"
proof (induction es arbitrary: acc)
  case (Cons e es)
  then show ?case using bytes_nonneg [of es] by (simp add: bytes_def Let_def)
qed (simp add: bytes_def)

lemma bytes_pick: "bytes (pick_entries P es) = (\<Sum>i | i < length es \<and> P i. clampSize (Size (es ! i)))"
proof -
  have "bytes (pick_entries P es) = (\<Sum>i\<leftarrow>filter P [0..<length es]. clampSize (Size (es ! i)))"
    by (simp add: bytes_def pick_entries_def comp_def)
  also have "\<dots> = (\<Sum>i\<in>set (filter P [0..<length es]). clampSize (Size (es ! i)))"
    by (rule sum_list_distinct_conv_sum_set) simp
  also have "set (filter P [0..<length es]) = {i. i < length es \<and> P i}" by auto
  finally show ?thesis .
qed

lemma pick_entries_all: "pick_entries (\<lambda>_. True) es = es"
  by (simp add: pick_entries_def map_nth)

lemma subseq_pick: "subseq (pick_entries P es) es"
  unfolding pick_entries_def using subseq_map [OF subseq_filter_left [of P "[0..<length es]"], of "(!) es"] by (simp add: map_nth)

lemma mset_pick_split: "mset (pick_entries P es) + mset (pick_entries (\<lambda>i. \<not> P i) es) = mset es"
proof -
  have "mset (filter P [0..<length es]) + mset (filter (\<lambda>i. \<not> P i) [0..<length es]) = mset [0..<length es]"
    by (metis mset_filter multiset_partition)
  then have "image_mset ((!) es) (mset (filter P [0..<length es]) + mset (filter (\<lambda>i. \<not> P i) [0..<length es])) = mset es"
    by (metis map_nth mset_map)
  then show ?thesis by (simp add: pick_entries_def del: mset_filter)
qed

text \<open>The exempt sections that are funded fit the budget together.\<close>

lemma fund_fold:
  assumes "0 \<le> used" "used + (\<Sum>i\<leftarrow>is. clampSize (Size (es ! i))) \<le> MaxInt64"
    "fold (fund_step es budget) is (used, fs) = (used', fs')" "distinct (rev is @ fs)" "used \<le> budget"
    "used = (\<Sum>i\<in>set fs. clampSize (Size (es ! i)))"
  shows "used' = (\<Sum>i\<in>set fs'. clampSize (Size (es ! i))) \<and> used' \<le> budget \<and> set fs' \<subseteq> set fs \<union> set is"
  using assms
proof (induction "is" arbitrary: used fs)
  case (Cons i "is")
  define sz where "sz = clampSize (Size (es ! i))"
  have nn: "0 \<le> sz" "0 \<le> (\<Sum>i\<leftarrow>is. clampSize (Size (es ! i)))"
    by (simp add: sz_def, rule sum_list_nonneg, auto)
  have w: "wrap64 (used + sz) = used + sz"
    using Cons.prems(1,2) nn by (intro wrap64_nonneg) (simp_all add: sz_def)
  show ?case
  proof (cases "used + sz \<le> budget")
    case True
    have "used' = (\<Sum>i\<in>set fs'. clampSize (Size (es ! i))) \<and> used' \<le> budget \<and> set fs' \<subseteq> set (i # fs) \<union> set is"
      using Cons.prems w True nn
      by (intro Cons.IH [of "used + sz" "i # fs"]) (auto simp: fund_step_def Let_def sz_def)
    then show ?thesis by auto
  next
    case False
    have "used' = (\<Sum>i\<in>set fs'. clampSize (Size (es ! i))) \<and> used' \<le> budget \<and> set fs' \<subseteq> set fs \<union> set is"
      using Cons.prems w False nn
      by (intro Cons.IH [of used fs]) (auto simp: fund_step_def Let_def sz_def)
    then show ?thesis by auto
  qed
qed auto

lemma sum_exempt_le: "distinct is \<Longrightarrow> set is \<subseteq> {..<length es} \<Longrightarrow> (\<Sum>i\<leftarrow>is. clampSize (Size (es ! i))) \<le> bytes es"
  using bytes_pick [of "\<lambda>_. True" es] sum_mono2 [of "{..<length es}" "set is" "\<lambda>i. clampSize (Size (es ! i))"]
  by (simp add: pick_entries_all sum_list_distinct_conv_sum_set lessThan_def)

lemma exempt_order_facts: "distinct (exempt_order es)" "set (exempt_order es) = {i. i < length es \<and> shedExempt (es ! i)}"
  by (auto simp: exempt_order_def)

lemma fund_exempt_fits:
  assumes "bytes es \<le> MaxInt64" "0 \<le> budget"
  shows "(\<Sum>i\<in>set (fund_exempt es budget). clampSize (Size (es ! i))) \<le> budget"
    "set (fund_exempt es budget) \<subseteq> {i. i < length es \<and> shedExempt (es ! i)}"
proof -
  obtain u fs where f: "fold (fund_step es budget) (exempt_order es) (0, []) = (u, fs)" by fastforce
  have "(\<Sum>i\<leftarrow>exempt_order es. clampSize (Size (es ! i))) \<le> bytes es"
    by (rule sum_exempt_le) (use exempt_order_facts [of es] in auto)
  then have "u = (\<Sum>i\<in>set fs. clampSize (Size (es ! i))) \<and> u \<le> budget \<and> set fs \<subseteq> set [] \<union> set (exempt_order es)"
    using assms exempt_order_facts by (intro fund_fold [OF _ _ f]) auto
  then show "(\<Sum>i\<in>set (fund_exempt es budget). clampSize (Size (es ! i))) \<le> budget"
    "set (fund_exempt es budget) \<subseteq> {i. i < length es \<and> shedExempt (es ! i)}"
    using f exempt_order_facts [of es] by (auto simp: fund_exempt_def)
qed

text \<open>The shedding loop: it takes a prefix of the order, and stops as soon as the rest fits.\<close>

lemma shed_prefix:
  "\<exists>n. shed es budget funded used is = filter (\<lambda>i. i \<notin> set funded) (take n is) \<and>
     (n = length is \<or> used - (\<Sum>i\<leftarrow>shed es budget funded used is. clampSize (Size (es ! i))) \<le> budget)"
proof (induction "is" arbitrary: used)
  case (Cons i "is")
  show ?case
  proof (cases "used \<le> budget")
    case True
    then show ?thesis by (intro exI [of _ 0]) simp
  next
    case False
    obtain n where n: "shed es budget funded (if i \<in> set funded then used else used - clampSize (Size (es ! i))) is =
        filter (\<lambda>i. i \<notin> set funded) (take n is)"
      "n = length is \<or> (if i \<in> set funded then used else used - clampSize (Size (es ! i))) -
        (\<Sum>i\<leftarrow>shed es budget funded (if i \<in> set funded then used else used - clampSize (Size (es ! i))) is. clampSize (Size (es ! i))) \<le> budget"
      using Cons by blast
    then show ?thesis using False by (intro exI [of _ "Suc n"]) (auto split: if_splits)
  qed
qed simp

lemma shed_needed:
  "shed es budget funded used is = ds @ [d] \<Longrightarrow> used - (\<Sum>i\<leftarrow>ds. clampSize (Size (es ! i))) > budget"
proof (induction "is" arbitrary: used ds)
  case (Cons i "is")
  show ?case
  proof (cases "i \<in> set funded")
    case True
    then show ?thesis using Cons by (auto split: if_splits)
  next
    case False
    then have e: "i # shed es budget funded (used - clampSize (Size (es ! i))) is = ds @ [d]" and u: "used > budget"
      using Cons.prems by (auto split: if_splits)
    show ?thesis
    proof (cases ds)
      case Nil
      then show ?thesis using u by simp
    next
      case (Cons d1 ds1)
      then show ?thesis using e Cons.IH [of "used - clampSize (Size (es ! i))" ds1] \<open>ds = d1 # ds1\<close> by auto
    qed
  qed
qed simp

lemma sum_list_butlast_last:
  fixes f :: "'a \<Rightarrow> int"
  shows "xs \<noteq> [] \<Longrightarrow> (\<Sum>x\<leftarrow>xs. f x) = (\<Sum>x\<leftarrow>butlast xs. f x) + f (last xs)"
  by (induction xs) auto

text \<open>What a budget pass that sheds the indices \<open>D\<close> returns.\<close>

definition sheds :: "fileEntry list \<Rightarrow> nat set \<Rightarrow> fileEntry list \<times> truncation \<Rightarrow> bool" where
  "sheds es D res \<longleftrightarrow>
     D \<subseteq> {..<length es} \<and> fst res = pick_entries (\<lambda>i. i \<notin> D) es \<and>
     Truncated (snd res) = (D \<noteq> {}) \<and> FilesDropped (snd res) = sort (map Path (pick_entries (\<lambda>i. i \<in> D) es)) \<and>
     AllDropped (snd res) = (D \<noteq> {} \<and> ReviewableCount es > 0 \<and> ReviewableCount (fst res) = 0)"

lemma drop_order_facts:
  "distinct (drop_order tier es)" "set (drop_order tier es) = {..<length es}"
  "sorted (map (\<lambda>i. drop_key tier (es ! i)) (drop_order tier es))"
  by (auto simp: drop_order_def)

lemma shed_kept:
  fixes es :: "fileEntry list" and tier :: "(fileEntry \<Rightarrow> int) option"
  assumes "0 < budget" "bytes es \<le> MaxInt64"
  defines "fnd \<equiv> set (fund_exempt es budget)"
    and "ds \<equiv> shed es budget (fund_exempt es budget) (bytes es) (drop_order tier es)"
  shows "set ds \<subseteq> {..<length es}" "set ds \<inter> fnd = {}"
    "bytes (pick_entries (\<lambda>i. i \<notin> set ds) es) = bytes es - (\<Sum>i\<leftarrow>ds. clampSize (Size (es ! i)))"
    "bytes (pick_entries (\<lambda>i. i \<notin> set ds) es) \<le> budget"
    "i \<in> set ds \<Longrightarrow> j \<in> {..<length es} - set ds - fnd \<Longrightarrow> drop_key tier (es ! i) \<le> drop_key tier (es ! j)"
proof -
  let ?sz = "\<lambda>i. clampSize (Size (es ! i))" and ?o = "drop_order tier es"
  note o = drop_order_facts [of tier es]
  obtain n where n: "ds = filter (\<lambda>i. i \<notin> fnd) (take n ?o)" "n = length ?o \<or> bytes es - (\<Sum>i\<leftarrow>ds. ?sz i) \<le> budget"
    using shed_prefix unfolding ds_def fnd_def by blast
  show sub: "set ds \<subseteq> {..<length es}" "set ds \<inter> fnd = {}" using n(1) o(2) by (auto dest: in_set_takeD)
  have "distinct ds" using n(1) o(1) by simp
  then show kept: "bytes (pick_entries (\<lambda>i. i \<notin> set ds) es) = bytes es - (\<Sum>i\<leftarrow>ds. ?sz i)"
    using bytes_pick [of "\<lambda>i. i \<notin> set ds" es] bytes_pick [of "\<lambda>_. True" es] sub
      sum.subset_diff [of "set ds" "{..<length es}" ?sz]
    by (simp add: pick_entries_all sum_list_distinct_conv_sum_set lessThan_def set_diff_eq)
  show "bytes (pick_entries (\<lambda>i. i \<notin> set ds) es) \<le> budget"
  proof (cases "bytes es - (\<Sum>i\<leftarrow>ds. ?sz i) \<le> budget")
    case False
    then have "ds = filter (\<lambda>i. i \<notin> fnd) ?o" using n by simp
    then have "{i. i < length es \<and> i \<notin> set ds} = fnd"
      using o(2) fund_exempt_fits(2) [OF assms(2), of budget] assms(1) by (auto simp: fnd_def)
    then show ?thesis using bytes_pick [of "\<lambda>i. i \<notin> set ds" es] fund_exempt_fits(1) [OF assms(2), of budget] assms(1)
      by (simp add: fnd_def)
  qed (simp add: kept)
  assume ij: "i \<in> set ds" "j \<in> {..<length es} - set ds - fnd"
  have "i \<in> set (take n ?o)" "j \<in> set (drop n ?o)"
    using ij n(1) o(2) set_append [of "take n ?o" "drop n ?o"] by auto
  moreover have "sorted (map (\<lambda>i. drop_key tier (es ! i)) (take n ?o @ drop n ?o))" using o(3) by simp
  ultimately show "drop_key tier (es ! i) \<le> drop_key tier (es ! j)" unfolding map_append sorted_append by simp
qed

lemma byte_budget_pass:
  assumes "0 < budget" "bytes es \<le> MaxInt64" "applyByteBudgetOrdered es budget tier = (kept, t)"
  shows "\<exists>D. sheds es D (kept, t) \<and> bytes kept \<le> budget \<and> D \<inter> set (fund_exempt es budget) = {} \<and>
    (\<forall>i\<in>D. \<forall>j\<in>{..<length es} - D - set (fund_exempt es budget). drop_key tier (es ! i) \<le> drop_key tier (es ! j)) \<and>
    (D = {} \<or> (\<exists>d\<in>D. bytes kept + clampSize (Size (es ! d)) > budget))"
proof (cases "bytes es \<le> budget")
  case True
  then have "kept = es" "t = \<lparr>Truncated = False, FilesDropped = [], AllDropped = False\<rparr>"
    using assms total_size_exact [of 0 es] by (auto simp: applyByteBudgetOrdered_def)
  then show ?thesis using True
    by (intro exI [of _ "{}"]) (simp add: sheds_def pick_entries_all, simp add: pick_entries_def)
next
  case False
  define ds where "ds = shed es budget (fund_exempt es budget) (bytes es) (drop_order tier es)"
  note s = shed_kept [OF assms(1,2), where tier = tier, folded ds_def]
  have res: "kept = pick_entries (\<lambda>i. i \<notin> set ds) es" "t = \<lparr>Truncated = length (pick_entries (\<lambda>i. i \<in> set ds) es) > 0,
      FilesDropped = sort (map Path (pick_entries (\<lambda>i. i \<in> set ds) es)),
      AllDropped = (ReviewableCount es > 0 \<and> ReviewableCount kept = 0)\<rparr>"
    using False assms total_size_exact [of 0 es] by (auto simp: applyByteBudgetOrdered_def Let_def ds_def)
  have ne: "ds \<noteq> []" using s(3,4) False by auto
  have "sheds es (set ds) (kept, t)"
    using s(1) ne unfolding sheds_def res by (auto simp: pick_entries_def filter_empty_conv neq_Nil_conv)
  moreover have "bytes kept + clampSize (Size (es ! last ds)) > budget"
    using shed_needed [of es budget "fund_exempt es budget" "bytes es" "drop_order tier es" "butlast ds" "last ds"] ne s(3)
    by (simp add: ds_def [symmetric] sum_list_butlast_last res)
  ultimately show ?thesis using s(2,4,5) ne last_in_set [OF ne] unfolding res(1) by (intro exI [of _ "set ds"]) blast
qed

text \<open>
  C29. A budget pass over entries whose sizes add up in range keeps at most the budget. It sheds whole files,
  reports precisely those, keeps the rest in order, never sheds a funded exempt section, sheds in the given
  order (lower tier, then larger, then by path) so that no kept reviewable file comes before a shed one,
  and never sheds more than it needs: putting some shed file back would overrun the budget. It says all were
  dropped precisely when it shed something and no reviewable file is left.
\<close>

theorem byte_budget:
  assumes "0 < budget" "bytes es \<le> MaxInt64" "applyByteBudgetOrdered es budget tier = (kept, t)"
  shows "\<exists>D. sheds es D (kept, t) \<and> bytes kept \<le> budget \<and> D \<inter> set (fund_exempt es budget) = {} \<and>
    (\<forall>i\<in>D. \<forall>j\<in>{..<length es} - D - set (fund_exempt es budget). drop_key tier (es ! i) \<le> drop_key tier (es ! j)) \<and>
    (D = {} \<or> (\<exists>d\<in>D. bytes kept + clampSize (Size (es ! d)) > budget))"
  by (rule byte_budget_pass [OF assms])

definition entry :: "string \<Rightarrow> int \<Rightarrow> payloadMode \<Rightarrow> bool \<Rightarrow> fileEntry" where
  "entry p n m x = \<lparr>Path = p, Size = n, Body = [], Mode = m, shedExempt = x, exemptRank = 0\<rparr>"

theorem byte_budget_witness:
  "\<exists>D. sheds [entry ''a.go'' 4 ModeDiff False, entry ''lock'' 90 ModeDiff False, entry ''<claims>'' 3 ModeDiff True] D
     ([entry ''a.go'' 4 ModeDiff False, entry ''<claims>'' 3 ModeDiff True],
      \<lparr>Truncated = True, FilesDropped = [''lock''], AllDropped = False\<rparr>)"
proof -
  let ?es = "[entry ''a.go'' 4 ModeDiff False, entry ''lock'' 90 ModeDiff False, entry ''<claims>'' 3 ModeDiff True]"
  have "0 < (10::int)" "bytes ?es \<le> MaxInt64"
    "applyByteBudgetOrdered ?es 10 None = ([entry ''a.go'' 4 ModeDiff False, entry ''<claims>'' 3 ModeDiff True],
      \<lparr>Truncated = True, FilesDropped = [''lock''], AllDropped = False\<rparr>)" by code_simp+
  from byte_budget [OF this] show ?thesis by blast
qed

text \<open>
  Preferring escalated files never loses the review: everything is dropped only if the plain pass drops
  everything too, and otherwise a file that is not escalated is kept only when no escalated one is shed.
\<close>

lemma escalated_shed_last:
  assumes "0 < budget" "bytes es \<le> MaxInt64" "ApplyByteBudgetPreferEscalated es budget m = (kept, t)"
    "\<not> AllDropped (snd (applyByteBudgetOrdered es budget (Some (escalated m))))"
  shows "\<exists>D. sheds es D (kept, t) \<and>
    (\<forall>i\<in>D. \<forall>j\<in>{..<length es} - D. modeRank (Mode (es ! i)) > modeRank m \<longrightarrow> \<not> shedExempt (es ! j) \<longrightarrow>
       modeRank (Mode (es ! j)) > modeRank m)"
proof -
  obtain k t' where a: "applyByteBudgetOrdered es budget (Some (escalated m)) = (k, t')" by fastforce
  have eq: "kept = k" "t = t'" using assms(3,4) a by (auto simp: ApplyByteBudgetPreferEscalated_def)
  have f: "set (fund_exempt es budget) \<subseteq> {i. i < length es \<and> shedExempt (es ! i)}"
    using fund_exempt_fits(2) [OF assms(2)] assms(1) by simp
  obtain D where D: "sheds es D (k, t')"
    "\<forall>i\<in>D. \<forall>j\<in>{..<length es} - D - set (fund_exempt es budget). drop_key (Some (escalated m)) (es ! i) \<le> drop_key (Some (escalated m)) (es ! j)"
    using byte_budget_pass [OF assms(1,2) a] by blast
  have "modeRank (Mode (es ! j)) > modeRank m"
    if "i \<in> D" "j \<in> {..<length es} - D" "modeRank (Mode (es ! i)) > modeRank m" "\<not> shedExempt (es ! j)" for i j
  proof -
    have "j \<notin> set (fund_exempt es budget)" using f that(4) by auto
    then have "drop_key (Some (escalated m)) (es ! i) \<le> drop_key (Some (escalated m)) (es ! j)" using D(2) that by simp
    then show ?thesis using that(3) by (auto simp: drop_key_def escalated_def split: if_splits)
  qed
  then show ?thesis using D(1) eq by blast
qed

lemma escalated_never_empties:
  assumes "ApplyByteBudgetPreferEscalated es budget m = (kept, t)" "AllDropped t"
  shows "AllDropped (snd (ApplyByteBudget es budget))"
  using assms by (auto simp: ApplyByteBudgetPreferEscalated_def split: prod.splits if_splits)

text \<open>
  Sizes that add up beyond the range: the saturated total is below the real one, so the loop stops while
  the kept files still overrun the budget.
\<close>

lemma saturated_total_overruns:
  "fst (ApplyByteBudget [entry ''a'' MaxInt64 ModeDiff False, entry ''b'' MaxInt64 ModeDiff False] 1) =
     [entry ''b'' MaxInt64 ModeDiff False]"
  by code_simp

end
