(* ===== verification/CircuitBreaker.thy ===== *)
theory CircuitBreaker
  imports Prelude
begin

text \<open>
  The per-provider circuit breaker: \<^verbatim>\<open>internal/circuitbreaker/breaker.go\<close> and \<^verbatim>\<open>registry.go\<close>. Every
  method runs under the breaker's mutex, so a method call is one atomic step and an interleaving of
  goroutines is a sequence of calls. Times and durations are nanosecond counts (\<^typ>\<open>int\<close>); an
  operation that reads the clock takes its reading \<open>now\<close> as an argument. The gauge is the number
  last written to it. The registry hands out pointers, so breakers live in a heap of addresses.
\<close>

subsection \<open>The breaker\<close>

datatype State = StateClosed | StateOpen | StateHalfOpen

definition String :: "State \<Rightarrow> string" where
  "String s = (case s of StateClosed \<Rightarrow> ''closed'' | StateOpen \<Rightarrow> ''open'' | StateHalfOpen \<Rightarrow> ''half-open'')"

definition state_num :: "State \<Rightarrow> int" where
  "state_num s = (case s of StateClosed \<Rightarrow> 0 | StateOpen \<Rightarrow> 1 | StateHalfOpen \<Rightarrow> 2)"

definition DefaultThreshold :: int where "DefaultThreshold = 3"
definition DefaultCooldown :: int where "DefaultCooldown = 60 * 1000000000"

record breaker =
  provider :: string
  state :: State
  failureCount :: int
  openedAt :: int
  probeInFlight :: bool
  threshold :: int
  cooldown :: int
  gauge :: int

definition New :: "string \<Rightarrow> int \<Rightarrow> int \<Rightarrow> breaker" where
  "New prov thr cool =
     \<lparr>provider = prov, state = StateClosed, failureCount = 0, openedAt = 0, probeInFlight = False,
      threshold = (if thr \<le> 0 then DefaultThreshold else thr),
      cooldown = (if cool \<le> 0 then DefaultCooldown else cool),
      gauge = state_num StateClosed\<rparr>"

definition setMetric :: "State \<Rightarrow> breaker \<Rightarrow> breaker" where
  "setMetric s b = b\<lparr>gauge := state_num s\<rparr>"

definition transition :: "State \<Rightarrow> breaker \<Rightarrow> breaker" where
  "transition s b = setMetric s (b\<lparr>state := s\<rparr>)"

definition open_circuit :: "int \<Rightarrow> breaker \<Rightarrow> breaker" where
  "open_circuit now b = (transition StateOpen b)\<lparr>openedAt := now, failureCount := 0\<rparr>"

definition refresh :: "int \<Rightarrow> breaker \<Rightarrow> breaker" where
  "refresh now b =
     (if state b = StateOpen \<and> now - openedAt b \<ge> cooldown b then transition StateHalfOpen b else b)"

definition Allow :: "int \<Rightarrow> breaker \<Rightarrow> bool \<times> breaker" where
  "Allow now b0 =
     (let b = refresh now b0 in
      case state b of
        StateClosed \<Rightarrow> (True, b)
      | StateHalfOpen \<Rightarrow>
          if probeInFlight b then (False, b) else (True, b\<lparr>probeInFlight := True\<rparr>)
      | StateOpen \<Rightarrow> (False, b))"

definition RecordSuccess :: "breaker \<Rightarrow> breaker" where
  "RecordSuccess b =
     (case state b of
        StateHalfOpen \<Rightarrow> (transition StateClosed b)\<lparr>failureCount := 0, probeInFlight := False\<rparr>
      | _ \<Rightarrow> b\<lparr>failureCount := 0\<rparr>)"

definition RecordFailure :: "int \<Rightarrow> breaker \<Rightarrow> breaker" where
  "RecordFailure now b =
     (case state b of
        StateClosed \<Rightarrow>
          (let b1 = b\<lparr>failureCount := failureCount b + 1\<rparr>
           in if failureCount b1 \<ge> threshold b1 then open_circuit now b1 else b1)
      | StateHalfOpen \<Rightarrow> (open_circuit now b)\<lparr>probeInFlight := False\<rparr>
      | StateOpen \<Rightarrow> b)"

definition ReleaseProbe :: "breaker \<Rightarrow> breaker" where
  "ReleaseProbe b = b\<lparr>probeInFlight := False\<rparr>"

definition ForceHalfOpen :: "breaker \<Rightarrow> breaker" where
  "ForceHalfOpen b = b\<lparr>state := StateHalfOpen, probeInFlight := False\<rparr>"

definition State_of :: "int \<Rightarrow> breaker \<Rightarrow> State \<times> breaker" where
  "State_of now b0 = (let b = refresh now b0 in (state b, b))"

lemmas breaker_defs =
  New_def setMetric_def transition_def open_circuit_def refresh_def Allow_def RecordSuccess_def
  RecordFailure_def ReleaseProbe_def State_of_def

subsection \<open>Calls, steps and reachable states\<close>

text \<open>
  A production call; \<^verbatim>\<open>ForceHalfOpen\<close> and \<^verbatim>\<open>SetClock\<close> are for tests only. The answer of \<^verbatim>\<open>Allow\<close> is
  \<open>Some\<close> of it, every other call answers \<open>None\<close>.
\<close>

datatype call = CAllow | CSuccess | CFailure | CRelease | CState

fun call_step :: "int \<Rightarrow> call \<Rightarrow> breaker \<Rightarrow> bool option \<times> breaker" where
  "call_step now CAllow b = (let (ok, b') = Allow now b in (Some ok, b'))"
| "call_step now CSuccess b = (None, RecordSuccess b)"
| "call_step now CFailure b = (None, RecordFailure now b)"
| "call_step now CRelease b = (None, ReleaseProbe b)"
| "call_step now CState b = (None, snd (State_of now b))"

text \<open>A breaker and the last clock reading; the clock never runs backwards.\<close>

inductive reachable :: "breaker \<Rightarrow> int \<Rightarrow> bool" where
  start: "reachable (New prov thr cool) now"
| step: "reachable b now \<Longrightarrow> now \<le> now' \<Longrightarrow> reachable (snd (call_step now' c b)) now'"

definition breaker_inv :: "breaker \<Rightarrow> int \<Rightarrow> bool" where
  "breaker_inv b now \<longleftrightarrow>
     0 < threshold b \<and> 0 < cooldown b \<and> 0 \<le> failureCount b \<and> failureCount b < threshold b \<and>
     (state b \<noteq> StateClosed \<longrightarrow> failureCount b = 0) \<and>
     (probeInFlight b \<longrightarrow> state b = StateHalfOpen) \<and>
     (state b = StateOpen \<longrightarrow> openedAt b \<le> now) \<and>
     gauge b = state_num (state b)"

lemma New_inv: "breaker_inv (New prov thr cool) now"
  by (simp add: breaker_inv_def New_def DefaultThreshold_def DefaultCooldown_def)

lemma call_step_inv:
  assumes "breaker_inv b now" and "now \<le> now'"
  shows "breaker_inv (snd (call_step now' c b)) now'"
  using assms
  by (cases c; cases "state b") (auto simp: breaker_inv_def breaker_defs Let_def)

lemma reachable_inv: "reachable b now \<Longrightarrow> breaker_inv b now"
  by (induction rule: reachable.induct) (simp_all add: New_inv call_step_inv)

subsection \<open>The abstract circuit\<close>

text \<open>
  What the breaker promises, without its bookkeeping: a closed circuit with the length of its
  failure run, an open one with the time at which it admits a probe, and a half-open one that
  either waits for a probe or has one in flight.
\<close>

datatype circuit = Closed int | Open_until int | Half_open bool

fun circuit_step :: "int \<Rightarrow> int \<Rightarrow> int \<Rightarrow> call \<Rightarrow> circuit \<Rightarrow> bool option \<times> circuit" where
  "circuit_step thr cool now CAllow (Closed n) = (Some True, Closed n)"
| "circuit_step thr cool now CAllow (Open_until t) =
     (if t \<le> now then (Some True, Half_open True) else (Some False, Open_until t))"
| "circuit_step thr cool now CAllow (Half_open busy) = (Some (\<not> busy), Half_open True)"
| "circuit_step thr cool now CSuccess (Closed n) = (None, Closed 0)"
| "circuit_step thr cool now CSuccess (Open_until t) = (None, Open_until t)"
| "circuit_step thr cool now CSuccess (Half_open busy) = (None, Closed 0)"
| "circuit_step thr cool now CFailure (Closed n) =
     (None, if thr \<le> n + 1 then Open_until (now + cool) else Closed (n + 1))"
| "circuit_step thr cool now CFailure (Open_until t) = (None, Open_until t)"
| "circuit_step thr cool now CFailure (Half_open busy) = (None, Open_until (now + cool))"
| "circuit_step thr cool now CRelease (Half_open busy) = (None, Half_open False)"
| "circuit_step thr cool now CRelease c = (None, c)"
| "circuit_step thr cool now CState (Open_until t) =
     (None, if t \<le> now then Half_open False else Open_until t)"
| "circuit_step thr cool now CState c = (None, c)"

definition circuit_of :: "breaker \<Rightarrow> circuit" where
  "circuit_of b =
     (case state b of
        StateClosed \<Rightarrow> Closed (failureCount b)
      | StateOpen \<Rightarrow> Open_until (openedAt b + cooldown b)
      | StateHalfOpen \<Rightarrow> Half_open (probeInFlight b))"

lemma call_step_config [simp]:
  "threshold (snd (call_step now c b)) = threshold b"
  "cooldown (snd (call_step now c b)) = cooldown b"
  by (cases c; cases "state b"; simp add: breaker_defs Let_def)+

lemma call_step_refines:
  assumes "breaker_inv b t"
  shows "call_step now c b = (r, b') \<Longrightarrow>
    circuit_step (threshold b) (cooldown b) now c (circuit_of b) = (r, circuit_of b')"
  using assms
  by (cases c; cases "state b")
    (auto simp: breaker_inv_def breaker_defs circuit_of_def Let_def split: if_splits)

subsection \<open>Runs of calls\<close>

fun run_with ::
  "(int \<Rightarrow> call \<Rightarrow> 's \<Rightarrow> bool option \<times> 's) \<Rightarrow> (int \<times> call) list \<Rightarrow> 's \<Rightarrow> bool option list \<times> 's" where
  "run_with f [] s = ([], s)"
| "run_with f ((now, c) # cs) s =
     (let (r, s1) = f now c s; (rs, s2) = run_with f cs s1 in (r # rs, s2))"

fun clock_ok :: "int \<Rightarrow> (int \<times> call) list \<Rightarrow> bool" where
  "clock_ok t [] = True"
| "clock_ok t ((now, c) # cs) = (t \<le> now \<and> clock_ok now cs)"

text \<open>Answers to a run in which every \<^verbatim>\<open>Allow\<close> is answered by \<open>ok\<close>.\<close>

definition answers :: "bool \<Rightarrow> (int \<times> call) list \<Rightarrow> bool option list" where
  "answers ok cs = map (\<lambda>(now, c). if c = CAllow then Some ok else None) cs"

text \<open>Runs of the abstract circuit.\<close>

lemma circuit_fail_fast:
  "list_all (\<lambda>(now, c). now < t) cs \<Longrightarrow>
   run_with (circuit_step thr cool) cs (Open_until t) = (answers False cs, Open_until t)"
proof (induction cs)
  case Nil
  then show ?case by (simp add: answers_def)
next
  case (Cons x cs)
  obtain now c where x: "x = (now, c)" by fastforce
  have "circuit_step thr cool now c (Open_until t) =
      (if c = CAllow then Some False else None, Open_until t)"
    using Cons.prems by (cases c) (simp_all add: x)
  then show ?case using Cons by (simp add: x answers_def)
qed

lemma circuit_single_probe:
  "list_all (\<lambda>(now, c). c = CAllow \<or> c = CState) cs \<Longrightarrow>
   run_with (circuit_step thr cool) cs (Half_open True) = (answers False cs, Half_open True)"
  by (induction cs) (auto simp: answers_def)

definition failures :: "(int \<times> call) list \<Rightarrow> int" where
  "failures cs = int (length (filter (\<lambda>(now, c). c = CFailure) cs))"

lemma failures_simps [simp]:
  "failures [] = 0"
  "failures ((now, c) # cs) = (if c = CFailure then 1 else 0) + failures cs"
  by (simp_all add: failures_def)

lemma failures_nonneg: "0 \<le> failures cs"
  by (simp add: failures_def)

lemma circuit_counts_failures:
  "list_all (\<lambda>(now, c). c \<noteq> CSuccess) cs \<Longrightarrow> n + failures cs < thr \<Longrightarrow>
   run_with (circuit_step thr cool) cs (Closed n) = (answers True cs, Closed (n + failures cs))"
proof (induction cs arbitrary: n)
  case Nil
  then show ?case by (simp add: answers_def)
next
  case (Cons x cs)
  obtain now c where x: "x = (now, c)" by fastforce
  have "circuit_step thr cool now c (Closed n) =
      (if c = CAllow then Some True else None, Closed (n + (if c = CFailure then 1 else 0)))"
    using Cons.prems failures_nonneg [of cs] by (cases c) (simp_all add: x)
  then show ?case
    using Cons.IH [of "n + (if c = CFailure then 1 else 0)"] Cons.prems
    by (simp add: x answers_def algebra_simps)
qed

subsection \<open>The interface a client of the breaker relies on\<close>

text \<open>
  A provider of circuits: a step, an invariant it keeps as the clock advances, its configuration
  and the abstract circuit it implements. What a client may count on follows for every provider.
\<close>

locale circuit_provider =
  fixes step :: "int \<Rightarrow> call \<Rightarrow> 'b \<Rightarrow> bool option \<times> 'b"
    and inv :: "'b \<Rightarrow> int \<Rightarrow> bool"
    and thr :: "'b \<Rightarrow> int" and cool :: "'b \<Rightarrow> int"
    and circ :: "'b \<Rightarrow> circuit"
  assumes step_inv: "inv b t \<Longrightarrow> t \<le> now \<Longrightarrow> inv (snd (step now c b)) now"
    and step_thr: "thr (snd (step now c b)) = thr b"
    and step_cool: "cool (snd (step now c b)) = cool b"
    and step_refines: "inv b t \<Longrightarrow>
      circuit_step (thr b) (cool b) now c (circ b) = (fst (step now c b), circ (snd (step now c b)))"
begin

lemma run_refines:
  assumes "inv b t" and "clock_ok t cs"
  shows "run_with (circuit_step (thr b) (cool b)) cs (circ b) =
    (fst (run_with step cs b), circ (snd (run_with step cs b)))"
  using assms
proof (induction cs arbitrary: b t)
  case Nil
  then show ?case by simp
next
  case (Cons x cs)
  obtain now c where x: "x = (now, c)" by fastforce
  obtain r b1 where st: "step now c b = (r, b1)" by fastforce
  have "inv b1 now"
    using step_inv [OF Cons.prems(1), of now c] Cons.prems(2) by (simp add: x st)
  moreover have "thr b1 = thr b" "cool b1 = cool b"
    using step_thr [of now c b] step_cool [of now c b] by (simp_all add: st)
  ultimately have "run_with (circuit_step (thr b) (cool b)) cs (circ b1) =
      (fst (run_with step cs b1), circ (snd (run_with step cs b1)))"
    using Cons.IH [of b1 now] Cons.prems(2) by (simp add: x)
  then show ?case
    using step_refines [OF Cons.prems(1), of now c] by (simp add: x st split: prod.split)
qed

lemma run_inv:
  "inv b t \<Longrightarrow> clock_ok t cs \<Longrightarrow> \<exists>t'. inv (snd (run_with step cs b)) t'"
proof (induction cs arbitrary: b t)
  case Nil
  then show ?case by auto
next
  case (Cons x cs)
  obtain now c where x: "x = (now, c)" by fastforce
  have "inv (snd (step now c b)) now"
    using Cons.prems by (intro step_inv [OF Cons.prems(1)]) (simp add: x)
  then have "\<exists>t'. inv (snd (run_with step cs (snd (step now c b)))) t'"
    using Cons.prems(2) by (intro Cons.IH [of _ now]) (simp_all add: x)
  then show ?case by (simp add: x split_beta Let_def)
qed

lemma fail_fast:
  assumes "inv b t" and "clock_ok t cs" and "circ b = Open_until d"
    and "list_all (\<lambda>(now, c). now < d) cs"
  shows "fst (run_with step cs b) = answers False cs"
    and "circ (snd (run_with step cs b)) = Open_until d"
  using run_refines [OF assms(1,2)] circuit_fail_fast [OF assms(4)] by (simp_all add: assms(3))

lemma admits_after_cooldown:
  assumes "inv b t" and "clock_ok t cs" and "circ b = Open_until d"
    and "list_all (\<lambda>(now, c). now < d) cs" and "d \<le> later"
  shows "fst (step later CAllow (snd (run_with step cs b))) = Some True"
proof -
  obtain t' where "inv (snd (run_with step cs b)) t'"
    using run_inv [OF assms(1,2)] by blast
  from step_refines [OF this, of later CAllow] show ?thesis
    using fail_fast(2) [OF assms(1-4)] assms(5) by simp
qed

lemma single_probe:
  assumes "inv b t" and "clock_ok t cs" and "circ b = Half_open True"
    and "list_all (\<lambda>(now, c). c = CAllow \<or> c = CState) cs"
  shows "fst (run_with step cs b) = answers False cs"
    and "circ (snd (run_with step cs b)) = Half_open True"
  using run_refines [OF assms(1,2)] circuit_single_probe [OF assms(4)] by (simp_all add: assms(3))

lemma tolerates:
  assumes "inv b t" and "clock_ok t cs" and "circ b = Closed n"
    and "list_all (\<lambda>(now, c). c \<noteq> CSuccess) cs" and "n + failures cs < thr b"
  shows "fst (run_with step cs b) = answers True cs"
    and "circ (snd (run_with step cs b)) = Closed (n + failures cs)"
  using run_refines [OF assms(1,2)] circuit_counts_failures [OF assms(4,5)]
  by (simp_all add: assms(3))

lemma trips:
  assumes "inv b t" and "clock_ok t cs" and "circ b = Closed n"
    and "list_all (\<lambda>(now, c). c \<noteq> CSuccess) cs" and "n + failures cs + 1 = thr b"
  shows "circ (snd (step now CFailure (snd (run_with step cs b)))) = Open_until (now + cool b)"
proof -
  obtain t' where inv': "inv (snd (run_with step cs b)) t'"
    using run_inv [OF assms(1,2)] by blast
  have conf: "thr (snd (run_with step cs b)) = thr b \<and> cool (snd (run_with step cs b)) = cool b" for cs
    by (induction cs arbitrary: b rule: list.induct)
      (auto simp: split_beta step_thr step_cool intro: run_with.cases)
  have "circ (snd (run_with step cs b)) = Closed (n + failures cs)"
    using tolerates(2) [OF assms(1-4)] assms(5) by simp
  with step_refines [OF inv', of now CFailure] conf [of cs] assms(5) show ?thesis by simp
qed

end

lemma circuit_provider_breaker:
  "circuit_provider call_step breaker_inv threshold cooldown circuit_of"
  by unfold_locales (simp_all add: call_step_inv call_step_refines)

interpretation brk: circuit_provider call_step breaker_inv threshold cooldown circuit_of
  by (rule circuit_provider_breaker)

subsection \<open>Properties\<close>

text \<open>
  C31. In every state a breaker can reach by \<^verbatim>\<open>Allow\<close>, \<^verbatim>\<open>RecordSuccess\<close>, \<^verbatim>\<open>RecordFailure\<close>,
  \<^verbatim>\<open>ReleaseProbe\<close> and \<^verbatim>\<open>State\<close> calls under a clock that does not run backwards: the failure run is
  below the threshold and is zero unless closed, a probe is in flight only when half-open, and the
  exported gauge shows the current state.
\<close>

theorem breaker_invariant:
  "reachable b now \<Longrightarrow>
     0 \<le> failureCount b \<and> failureCount b < threshold b \<and>
     (state b \<noteq> StateClosed \<longrightarrow> failureCount b = 0) \<and>
     (probeInFlight b \<longrightarrow> state b = StateHalfOpen) \<and>
     gauge b = state_num (state b)"
  by (drule reachable_inv) (simp add: breaker_inv_def)

theorem breaker_invariant_witness:
  "let b = snd (call_step 7 CFailure (New ''p'' 1 10)) in
     state b = StateOpen \<and> 0 \<le> failureCount b \<and> failureCount b < threshold b \<and>
     (state b \<noteq> StateClosed \<longrightarrow> failureCount b = 0) \<and>
     (probeInFlight b \<longrightarrow> state b = StateHalfOpen) \<and> gauge b = state_num (state b)"
proof -
  have "reachable (snd (call_step 7 CFailure (New ''p'' 1 10))) 7"
    by (rule reachable.step [OF reachable.start order.refl])
  from breaker_invariant [OF this] show ?thesis
    by (simp add: Let_def breaker_defs)
qed

text \<open>
  C32. Refinement: every run of calls on a fresh breaker gives the answers of the abstract circuit
  with the breaker's threshold and cooldown, and ends in the circuit that run ends in. The failure
  count, the opening time, the probe flag and the lazy roll-forward are an implementation of it.
\<close>

theorem breaker_refines_circuit:
  assumes "clock_ok t cs"
  shows "run_with (circuit_step (threshold (New prov thr cool)) (cooldown (New prov thr cool))) cs
      (Closed 0) =
    (fst (run_with call_step cs (New prov thr cool)),
     circuit_of (snd (run_with call_step cs (New prov thr cool))))"
  using brk.run_refines [OF New_inv assms, of prov thr cool]
  by (simp add: circuit_of_def New_def)

theorem breaker_refines_circuit_witness:
  "clock_ok 0 [(1, CFailure), (5, CAllow), (12, CAllow), (13, CSuccess)] \<and>
   ([None, Some False, Some True, None], Closed 0) =
     (fst (run_with call_step [(1, CFailure), (5, CAllow), (12, CAllow), (13, CSuccess)]
        (New ''p'' 1 10)),
      circuit_of (snd (run_with call_step [(1, CFailure), (5, CAllow), (12, CAllow), (13, CSuccess)]
        (New ''p'' 1 10))))"
proof -
  let ?cs = "[(1, CFailure), (5, CAllow), (12, CAllow), (13, CSuccess)]"
  have "threshold (New ''p'' 1 10) = 1" "cooldown (New ''p'' 1 10) = 10"
    by (simp_all add: New_def)
  moreover have "run_with (circuit_step 1 10) ?cs (Closed 0) = ([None, Some False, Some True, None], Closed 0)"
    by simp
  moreover have "clock_ok 0 ?cs" by simp
  ultimately show ?thesis
    using breaker_refines_circuit [of 0 ?cs "''p''" 1 10] by (simp only: simp_thms)
qed

text \<open>
  An open circuit fails fast: until its cooldown has elapsed every \<^verbatim>\<open>Allow\<close> is refused whatever
  successes, failures and releases are reported meanwhile, and none of them moves the end of the
  cooldown. The first \<^verbatim>\<open>Allow\<close> from then on is admitted.
\<close>

theorem open_fails_fast:
  assumes "reachable b t" and "clock_ok t cs" and "state b = StateOpen"
    and "list_all (\<lambda>(now, c). now < openedAt b + cooldown b) cs"
    and "openedAt b + cooldown b \<le> later"
  shows "fst (run_with call_step cs b) = answers False cs \<and>
    circuit_of (snd (run_with call_step cs b)) = Open_until (openedAt b + cooldown b) \<and>
    fst (call_step later CAllow (snd (run_with call_step cs b))) = Some True"
proof -
  have circ: "circuit_of b = Open_until (openedAt b + cooldown b)"
    using assms(3) by (simp add: circuit_of_def)
  note inv = reachable_inv [OF assms(1)]
  show ?thesis
    using brk.fail_fast [OF inv assms(2) circ assms(4)]
      brk.admits_after_cooldown [OF inv assms(2) circ assms(4,5)] by simp
qed

theorem open_fails_fast_witness:
  "let b = snd (call_step 7 CFailure (New ''p'' 1 10)) in
     fst (run_with call_step [(8, CSuccess), (9, CAllow), (16, CFailure)] b) = [None, Some False, None] \<and>
     fst (call_step 17 CAllow (snd (run_with call_step [(8, CSuccess), (9, CAllow), (16, CFailure)] b))) =
       Some True"
proof -
  let ?b = "snd (call_step 7 CFailure (New ''p'' 1 10))"
  let ?cs = "[(8, CSuccess), (9, CAllow), (16, CFailure)]"
  have "reachable ?b 7"
    by (rule reachable.step [OF reachable.start order.refl])
  moreover have "state ?b = StateOpen" "openedAt ?b + cooldown ?b = 17"
    by (simp_all add: breaker_defs)
  ultimately have "fst (run_with call_step ?cs ?b) = answers False ?cs \<and>
      fst (call_step 17 CAllow (snd (run_with call_step ?cs ?b))) = Some True"
    using open_fails_fast [of ?b 7 ?cs 17] by (simp del: call_step.simps run_with.simps)
  then show ?thesis
    by (simp add: Let_def answers_def del: call_step.simps run_with.simps)
qed

text \<open>
  A half-open circuit tests the provider with one request: once an \<^verbatim>\<open>Allow\<close> has been admitted
  as the probe, every further \<^verbatim>\<open>Allow\<close> is refused until an outcome or a release is reported.
\<close>

theorem half_open_single_probe:
  assumes "reachable b t" and "clock_ok t cs" and "state b = StateHalfOpen" and "probeInFlight b"
    and "list_all (\<lambda>(now, c). c = CAllow \<or> c = CState) cs"
  shows "fst (run_with call_step cs b) = answers False cs \<and>
    circuit_of (snd (run_with call_step cs b)) = Half_open True"
proof -
  have "circuit_of b = Half_open True"
    using assms(3,4) by (simp add: circuit_of_def)
  from brk.single_probe [OF reachable_inv [OF assms(1)] assms(2) this assms(5)] show ?thesis by simp
qed

theorem half_open_single_probe_witness:
  "let b = snd (call_step 20 CAllow (snd (call_step 7 CFailure (New ''p'' 1 10)))) in
     state b = StateHalfOpen \<and> probeInFlight b \<and>
     fst (run_with call_step [(21, CAllow), (22, CAllow)] b) = [Some False, Some False]"
proof -
  let ?b = "snd (call_step 20 CAllow (snd (call_step 7 CFailure (New ''p'' 1 10))))"
  have "reachable (snd (call_step 7 CFailure (New ''p'' 1 10))) 7"
    by (rule reachable.step [OF reachable.start order.refl])
  then have "reachable ?b 20"
    by (rule reachable.step) simp
  moreover have "state ?b = StateHalfOpen" "probeInFlight ?b"
    by (simp_all add: breaker_defs)
  ultimately show ?thesis
    using half_open_single_probe [of ?b 20 "[(21, CAllow), (22, CAllow)]"]
    by (simp add: Let_def answers_def del: call_step.simps run_with.simps)
qed

text \<open>
  A fresh breaker to which no success is reported admits every request while fewer than
  \<^verbatim>\<open>threshold\<close> failures have been reported, and the failure that makes the run reach the threshold
  opens it for exactly one cooldown from the time of that failure.
\<close>

theorem trips_at_threshold:
  assumes "clock_ok t cs" and "list_all (\<lambda>(now, c). c \<noteq> CSuccess) cs"
    and "failures cs + 1 = threshold (New prov thr cool)"
  shows "fst (run_with call_step cs (New prov thr cool)) = answers True cs \<and>
    circuit_of (snd (call_step now CFailure (snd (run_with call_step cs (New prov thr cool))))) =
      Open_until (now + cooldown (New prov thr cool))"
proof -
  have "circuit_of (New prov thr cool) = Closed 0"
    by (simp add: circuit_of_def New_def)
  with brk.tolerates(1) [OF New_inv assms(1) this assms(2)]
    brk.trips [OF New_inv assms(1) this assms(2)] assms(3)
  show ?thesis by simp
qed

theorem trips_at_threshold_witness:
  "fst (run_with call_step [(1, CFailure), (2, CAllow), (3, CFailure)] (New ''p'' 0 0)) =
     [None, Some True, None] \<and>
   circuit_of (snd (call_step 4 CFailure (snd (run_with call_step
     [(1, CFailure), (2, CAllow), (3, CFailure)] (New ''p'' 0 0))))) = Open_until 60000000004"
proof -
  have "threshold (New ''p'' 0 0) = 3" "cooldown (New ''p'' 0 0) = 60000000000"
    by (simp_all add: New_def DefaultThreshold_def DefaultCooldown_def)
  then show ?thesis
    using trips_at_threshold [of 0 "[(1, CFailure), (2, CAllow), (3, CFailure)]" "''p''" 0 0 4]
    by (simp add: answers_def del: call_step.simps run_with.simps)
qed

subsection \<open>The registry\<close>

text \<open>
  The registry maps a provider to the address of its breaker. \<^verbatim>\<open>Get\<close> has two critical sections: a
  lookup under the read lock, and on a miss a re-check and creation under the write lock, between
  which other goroutines may run. \<open>Get_locked\<close> is the second; \<open>Get\<close> is the call with nobody between.
\<close>

record registry =
  breakers :: "string \<rightharpoonup> nat"
  heap :: "breaker list"

definition NewRegistry :: registry where
  "NewRegistry = \<lparr>breakers = Map.empty, heap = []\<rparr>"

definition alloc :: "breaker \<Rightarrow> registry \<Rightarrow> nat \<times> registry" where
  "alloc b r = (length (heap r), r\<lparr>heap := heap r @ [b]\<rparr>)"

definition Get_locked :: "string \<Rightarrow> registry \<Rightarrow> nat \<times> registry" where
  "Get_locked prov r =
     (case breakers r prov of
        Some a \<Rightarrow> (a, r)
      | None \<Rightarrow>
          (let (a, r1) = alloc (New prov DefaultThreshold DefaultCooldown) r
           in (a, r1\<lparr>breakers := (breakers r1)(prov \<mapsto> a)\<rparr>)))"

definition Get :: "string \<Rightarrow> registry \<Rightarrow> nat \<times> registry" where
  "Get prov r =
     (if prov = [] then alloc (New [] DefaultThreshold DefaultCooldown) r
      else case breakers r prov of Some a \<Rightarrow> (a, r) | None \<Rightarrow> Get_locked prov r)"

definition Reset :: "registry \<Rightarrow> registry" where
  "Reset r = r\<lparr>breakers := Map.empty\<rparr>"

definition Set_breaker :: "string \<Rightarrow> nat \<Rightarrow> registry \<Rightarrow> registry" where
  "Set_breaker prov a r = r\<lparr>breakers := (breakers r)(prov \<mapsto> a)\<rparr>"

text \<open>
  Goroutines calling \<^verbatim>\<open>Get\<close>: a call either hits under the read lock, or misses and waits, and later
  finishes under the write lock. The log holds the answers given so far.
\<close>

record get_system =
  reg :: registry
  waiting :: "string list"
  log :: "(string \<times> nat) list"

inductive get_step :: "get_system \<Rightarrow> get_system \<Rightarrow> bool" where
  hit: "prov \<noteq> [] \<Longrightarrow> breakers (reg s) prov = Some a \<Longrightarrow>
    get_step s (s\<lparr>log := (prov, a) # log s\<rparr>)"
| miss: "prov \<noteq> [] \<Longrightarrow> breakers (reg s) prov = None \<Longrightarrow>
    get_step s (s\<lparr>waiting := prov # waiting s\<rparr>)"
| create: "prov \<in> set (waiting s) \<Longrightarrow> Get_locked prov (reg s) = (a, r) \<Longrightarrow>
    get_step s (s\<lparr>reg := r, waiting := remove1 prov (waiting s), log := (prov, a) # log s\<rparr>)"
| anonymous: "alloc (New [] DefaultThreshold DefaultCooldown) (reg s) = (a, r) \<Longrightarrow>
    get_step s (s\<lparr>reg := r\<rparr>)"

inductive get_reachable :: "get_system \<Rightarrow> bool" where
  start: "get_reachable \<lparr>reg = NewRegistry, waiting = [], log = []\<rparr>"
| step: "get_reachable s \<Longrightarrow> get_step s t \<Longrightarrow> get_reachable t"

definition registry_inv :: "registry \<Rightarrow> bool" where
  "registry_inv r \<longleftrightarrow>
     (\<forall>p a. breakers r p = Some a \<longrightarrow> a < length (heap r)) \<and> inj_on (breakers r) (dom (breakers r))"

definition get_inv :: "get_system \<Rightarrow> bool" where
  "get_inv s \<longleftrightarrow> registry_inv (reg s) \<and> (\<forall>(p, a) \<in> set (log s). breakers (reg s) p = Some a)"

lemma Get_locked_cases:
  assumes "Get_locked prov r = (a, r')" and "registry_inv r"
  shows "registry_inv r' \<and> breakers r' prov = Some a \<and> breakers r \<subseteq>\<^sub>m breakers r'"
proof (cases "breakers r prov")
  case (Some a')
  with assms show ?thesis by (simp add: Get_locked_def)
next
  case None
  have bound: "\<And>p a. breakers r p = Some a \<Longrightarrow> a < length (heap r)"
    and inj: "inj_on (breakers r) (dom (breakers r))"
    using assms(2) by (auto simp: registry_inv_def)
  have a: "a = length (heap r)" and b: "breakers r' = (breakers r)(prov \<mapsto> a)"
    and h: "length (heap r') = Suc (length (heap r))"
    using assms(1) None by (auto simp: Get_locked_def alloc_def)
  have "inj_on (breakers r') (dom (breakers r'))"
    using inj bound None by (fastforce simp: a b inj_on_def)
  moreover have "\<And>p c. breakers r' p = Some c \<Longrightarrow> c < length (heap r')"
    using bound by (fastforce simp: a b h split: if_splits)
  ultimately show ?thesis
    using None by (auto simp: registry_inv_def b map_le_def)
qed

lemma get_step_inv: "get_step s t \<Longrightarrow> get_inv s \<Longrightarrow> get_inv t"
proof (induction rule: get_step.induct)
  case (create prov s a r)
  then show ?case
    using Get_locked_cases [of prov "reg s" a r] by (force simp: get_inv_def map_le_def)
qed (force simp: get_inv_def registry_inv_def alloc_def)+

lemma get_reachable_inv: "get_reachable s \<Longrightarrow> get_inv s"
proof (induction rule: get_reachable.induct)
  case start
  show ?case by (simp add: get_inv_def registry_inv_def NewRegistry_def)
next
  case (step s t)
  then show ?case by (blast intro: get_step_inv)
qed

text \<open>
  The registry gives every provider one circuit: in any interleaving of concurrent \<^verbatim>\<open>Get\<close> calls,
  including calls that missed together and then create in turn, all answers for one provider are
  the same breaker, and different providers never share one.
\<close>

theorem registry_one_circuit:
  assumes "get_reachable s" and "(p, a) \<in> set (log s)" and "(q, b) \<in> set (log s)"
  shows "a = b \<longleftrightarrow> p = q"
proof -
  have inv: "registry_inv (reg s)" and "breakers (reg s) p = Some a" "breakers (reg s) q = Some b"
    using get_reachable_inv [OF assms(1)] assms(2,3) by (auto simp: get_inv_def)
  then show ?thesis
    by (auto simp: registry_inv_def inj_on_def dom_def)
qed

theorem registry_one_circuit_witness:
  "\<exists>s. get_reachable s \<and> (''x'', 0) \<in> set (log s) \<and> (''y'', 1) \<in> set (log s) \<and>
     ((0::nat) = 1 \<longleftrightarrow> ''x'' = ''y'')"
proof -
  let ?s0 = "\<lparr>reg = NewRegistry, waiting = [], log = []\<rparr>"
  let ?s1 = "?s0\<lparr>waiting := [''x'']\<rparr>"
  let ?s2 = "?s1\<lparr>waiting := [''y'', ''x'']\<rparr>"
  let ?r3 = "snd (Get_locked ''x'' NewRegistry)" and ?r4 = "snd (Get_locked ''y'' (snd (Get_locked ''x'' NewRegistry)))"
  let ?s3 = "?s2\<lparr>reg := ?r3, waiting := [''y''], log := [(''x'', 0)]\<rparr>"
  let ?s4 = "?s3\<lparr>reg := ?r4, waiting := [], log := [(''y'', 1), (''x'', 0)]\<rparr>"
  have l: "Get_locked ''x'' NewRegistry = (0, ?r3)" "Get_locked ''y'' ?r3 = (1, ?r4)"
    by (simp_all add: Get_locked_def alloc_def NewRegistry_def)
  have "get_reachable ?s1"
    using get_reachable.step [OF get_reachable.start get_step.miss [of "''x''" ?s0]]
    by (simp add: NewRegistry_def)
  then have "get_reachable ?s2"
    using get_reachable.step [OF _ get_step.miss [of "''y''" ?s1]] by (simp add: NewRegistry_def)
  then have "get_reachable ?s3"
    using get_reachable.step [OF _ get_step.create [of "''x''" ?s2 0 ?r3]] l(1) by simp
  then have "get_reachable ?s4"
    using get_reachable.step [OF _ get_step.create [of "''y''" ?s3 1 ?r4]] l(2) by simp
  then show ?thesis
    using registry_one_circuit [of ?s4 "''x''" 0 "''y''" 1] by (intro exI [of _ ?s4]) simp
qed

end
