(* ===== verification/Requeue.thy ===== *)
theory Requeue
  imports CircuitBreaker GoInt
begin

text \<open>
  The outer retry of a unit of work: \<^verbatim>\<open>internal/fanout/requeue.go\<close> and the decision \<^verbatim>\<open>settle\<close> of \<^verbatim>\<open>Engine.Run\<close>
  (\<^verbatim>\<open>engine.go\<close>), with the scaling of time-outs by the number of chunks (\<^verbatim>\<open>timeout.go\<close>) and the longest
  wait of a policy (\<^verbatim>\<open>status.go\<close>). An error is the record of what \<^verbatim>\<open>errors.Is\<close> and \<^verbatim>\<open>errors.As\<close> report of it, a
  \<^verbatim>\<open>Result\<close> the fields the queue reads and writes. The theorems bound how often a unit is leased and how
  long it waits, whatever its attempts return.
\<close>

subsection \<open>Budgets\<close>

definition second :: int where "second = 1000000000"

definition unitMaxAttempts :: int where "unitMaxAttempts = 4"
definition unitBackoffBudget :: int where "unitBackoffBudget = 10 * (60 * second)"
definition rateLimitBackoff :: int where "rateLimitBackoff = 75 * second"
definition outageBackoff :: int where "outageBackoff = 20 * second"
definition circuitOpenBackoff :: int where "circuitOpenBackoff = DefaultCooldown"
definition unitCircuitWaitBudget :: int where "unitCircuitWaitBudget = 30 * (60 * second)"

datatype failureClass =
  failureFinal | failureRateLimit | failureServer | failureTransport | failureTimeout | failureCircuitOpen

definition failureClass_String :: "failureClass \<Rightarrow> string" where
  "failureClass_String c =
     (case c of
        failureRateLimit \<Rightarrow> ''rate_limit'' | failureServer \<Rightarrow> ''server_error'' | failureTransport \<Rightarrow> ''transport''
      | failureTimeout \<Rightarrow> ''timeout'' | failureCircuitOpen \<Rightarrow> ''circuit_open'' | failureFinal \<Rightarrow> ''final'')"

text \<open>What the code asks of an error chain.\<close>

record unit_error =
  isCanceled :: bool
  httpStatus :: "int option"
  isDeadlineExceeded :: bool
  isCircuitOpen :: bool
  isURLError :: bool

definition classifyUnitFailure :: "unit_error option \<Rightarrow> failureClass" where
  "classifyUnitFailure err =
     (case err of
        None \<Rightarrow> failureFinal
      | Some e \<Rightarrow>
          if isCanceled e then failureFinal
          else case httpStatus e of
            Some st \<Rightarrow> if st = 429 then failureRateLimit else if st \<ge> 500 then failureServer else failureFinal
          | None \<Rightarrow>
              if isDeadlineExceeded e then failureTimeout
              else if isCircuitOpen e then failureCircuitOpen
              else if isURLError e then failureTransport
              else failureFinal)"

record unitRetryPolicy =
  maxAttempts :: int
  budget :: int
  backoff :: "failureClass \<Rightarrow> int \<Rightarrow> int"
  circuitWait :: int
  circuitBudget :: int

definition unitBackoff :: "failureClass \<Rightarrow> int \<Rightarrow> int" where
  "unitBackoff c attempt =
     (let base = (if c = failureRateLimit then rateLimitBackoff else outageBackoff)
      in wrap64 (base * 2 ^ nat (attempt - 1)))"

definition defaultUnitRetryPolicy :: unitRetryPolicy where
  "defaultUnitRetryPolicy =
     \<lparr>maxAttempts = unitMaxAttempts, budget = unitBackoffBudget, backoff = unitBackoff,
      circuitWait = circuitOpenBackoff, circuitBudget = unitCircuitWaitBudget\<rparr>"

definition policy_next :: "unitRetryPolicy \<Rightarrow> failureClass \<Rightarrow> int \<Rightarrow> int \<Rightarrow> int \<times> bool" where
  "policy_next p c attempt spent =
     (if attempt \<ge> maxAttempts p then (0, False)
      else let d = backoff p c attempt in if wrap64 (spent + d) > budget p then (0, False) else (d, True))"

definition nextCircuitWait :: "unitRetryPolicy \<Rightarrow> int \<Rightarrow> int \<times> bool" where
  "nextCircuitWait p waited =
     (if wrap64 (waited + circuitWait p) > circuitBudget p then (0, False) else (circuitWait p, True))"

record unitRetryState =
  attempts :: int
  circuitWaits :: int
  requeues :: int
  spent :: int
  circuitSpent :: int

definition fresh_unit :: unitRetryState where
  "fresh_unit = \<lparr>attempts = 0, circuitWaits = 0, requeues = 0, spent = 0, circuitSpent = 0\<rparr>"

definition calls :: "unitRetryState \<Rightarrow> int" where
  "calls s = attempts s - circuitWaits s"

subsection \<open>What an attempt means\<close>

definition StatusOK :: string where "StatusOK = ''ok''"
definition StatusFailed :: string where "StatusFailed = ''failed''"

record unit_result =
  Status :: string
  Err :: "unit_error option"
  FallbackUsed :: bool
  failedFastOnly :: bool
  primaryServerErr :: bool
  Requeues :: int
  UnitAttempts :: int

text \<open>
  \<^verbatim>\<open>settle\<close> takes whether the unit is covered by the retry and whether the run is cancelled; it returns the
  state, the backoff, whether the unit goes back to the queue, and the result.
\<close>

definition settle_unit ::
  "unitRetryPolicy \<Rightarrow> bool \<Rightarrow> bool \<Rightarrow> unitRetryState \<Rightarrow> unit_result \<Rightarrow> unitRetryState \<times> int \<times> bool \<times> unit_result" where
  "settle_unit p covered cancelled st0 res =
     (let st = st0\<lparr>attempts := attempts st0 + 1\<rparr> in
      if \<not> covered \<or> Status res = StatusOK \<or> cancelled then (st, 0, False, res)
      else let class0 = classifyUnitFailure (Err res) in
        if class0 = failureFinal then (st, 0, False, res)
        else let c = (if class0 = failureCircuitOpen \<and> \<not> failedFastOnly res then failureTransport else class0);
                 st1 = (if c = failureCircuitOpen then st\<lparr>circuitWaits := circuitWaits st + 1\<rparr> else st);
                 (d, ok) = (if c = failureCircuitOpen then nextCircuitWait p (circuitSpent st1)
                            else policy_next p c (calls st1) (spent st1))
          in if \<not> ok then (st1, 0, False, res\<lparr>Status := StatusFailed\<rparr>)
             else let st2 = st1\<lparr>requeues := requeues st1 + 1\<rparr>;
                      st3 = (if c = failureCircuitOpen then st2\<lparr>circuitSpent := wrap64 (circuitSpent st2 + d)\<rparr>
                             else st2\<lparr>spent := wrap64 (spent st2 + d)\<rparr>)
               in (st3, d, True, res))"

text \<open>Whether a rate limit on the primary is held for a requeue rather than walked down the chain.\<close>

definition holdRateLimit :: "unitRetryPolicy \<Rightarrow> bool \<Rightarrow> unitRetryState \<Rightarrow> bool" where
  "holdRateLimit p covered st =
     (if covered then snd (policy_next p failureRateLimit (calls st + 1) (spent st)) else False)"

subsection \<open>Deadlines\<close>

definition MaxTimeoutSecs :: int where "MaxTimeoutSecs = 86400"
definition chunkTimeoutCeilingFactor :: int where "chunkTimeoutCeilingFactor = 8"

definition scaledTimeoutSecs :: "int \<Rightarrow> int \<Rightarrow> int" where
  "scaledTimeoutSecs baseSecs chunkTotal =
     (if baseSecs \<le> 0 \<or> chunkTotal \<le> 1 then baseSecs
      else let factor = (if chunkTotal > chunkTimeoutCeilingFactor then chunkTimeoutCeilingFactor else chunkTotal);
               scaled = wrap64 (baseSecs * factor)
           in if scaled > MaxTimeoutSecs \<or> scaled < baseSecs then MaxTimeoutSecs else scaled)"

fun longest_wait :: "unitRetryPolicy \<Rightarrow> failureClass \<Rightarrow> int list \<Rightarrow> int \<Rightarrow> int \<Rightarrow> int" where
  "longest_wait p c [] longest spnt = longest"
| "longest_wait p c (attempt # as) longest spnt =
     (let d = backoff p c attempt in
      if wrap64 (spnt + d) > budget p then longest_wait p c as longest spnt
      else longest_wait p c as (if d > longest then d else longest) (wrap64 (spnt + d)))"

definition maxUnitRequeueWait :: "unitRetryPolicy \<Rightarrow> int" where
  "maxUnitRequeueWait p =
     (let as = [1..maxAttempts p - 1];
          out = max (longest_wait p failureRateLimit as 0 0) (longest_wait p failureServer as 0 0)
      in if circuitWait p \<le> circuitBudget p \<and> circuitWait p > out then circuitWait p else out)"

subsection \<open>How often and how long\<close>

text \<open>A policy whose waits are positive and whose sums stay in range.\<close>

definition policy_ok :: "unitRetryPolicy \<Rightarrow> bool" where
  "policy_ok p \<longleftrightarrow>
     1 \<le> maxAttempts p \<and> 0 \<le> budget p \<and> 0 < circuitWait p \<and> 0 \<le> circuitBudget p \<and>
     circuitBudget p + circuitWait p < 2 ^ 63 \<and>
     (\<forall>c. \<forall>a\<in>{1..<maxAttempts p}. 0 \<le> backoff p c a \<and> budget p + backoff p c a < 2 ^ 63)"

text \<open>What the retry keeps of a unit that has not resolved.\<close>

definition unit_ok :: "unitRetryPolicy \<Rightarrow> unitRetryState \<Rightarrow> bool" where
  "unit_ok p st \<longleftrightarrow>
     0 \<le> circuitWaits st \<and> circuitSpent st = circuitWaits st * circuitWait p \<and> circuitSpent st \<le> circuitBudget p \<and>
     0 \<le> spent st \<and> spent st \<le> budget p \<and> 0 \<le> calls st \<and> calls st < maxAttempts p \<and>
     requeues st = attempts st"

definition leases_left :: "unitRetryPolicy \<Rightarrow> unitRetryState \<Rightarrow> nat" where
  "leases_left p st = nat (maxAttempts p - calls st + (circuitBudget p div circuitWait p - circuitWaits st))"

lemma fresh_unit_ok: "policy_ok p \<Longrightarrow> unit_ok p fresh_unit"
  by (simp add: policy_ok_def unit_ok_def fresh_unit_def calls_def)

lemma unit_ok_bounds:
  assumes "policy_ok p" "unit_ok p st"
  shows "circuitWaits st \<le> circuitBudget p div circuitWait p" "calls st \<le> maxAttempts p - 1" "1 \<le> leases_left p st"
proof -
  show w: "circuitWaits st \<le> circuitBudget p div circuitWait p"
    using assms by (simp add: policy_ok_def unit_ok_def zdiv_mono1 [of "circuitWaits st * circuitWait p" _ "circuitWait p", simplified])
  show "calls st \<le> maxAttempts p - 1" using assms(2) by (simp add: unit_ok_def)
  then show "1 \<le> leases_left p st" using w by (simp add: leases_left_def)
qed

lemma settle_again:
  assumes "policy_ok p" "unit_ok p st" "settle_unit p covered cancelled st res = (st', d, True, res')"
  shows "unit_ok p st'" "leases_left p st' < leases_left p st" "0 \<le> d" "attempts st' = attempts st + 1"
    "d = (spent st' - spent st) + (circuitSpent st' - circuitSpent st)" "res' = res" "\<not> cancelled"
proof -
  define c where "c = (if classifyUnitFailure (Err res) = failureCircuitOpen \<and> \<not> failedFastOnly res
    then failureTransport else classifyUnitFailure (Err res))"
  have run: "\<not> cancelled" "res' = res"
    using assms(3) by (auto simp: settle_unit_def Let_def split: if_splits prod.splits)
  show "res' = res" "\<not> cancelled" by (fact run)+
  have "unit_ok p st' \<and> leases_left p st' < leases_left p st \<and> 0 \<le> d \<and> attempts st' = attempts st + 1 \<and>
     d = (spent st' - spent st) + (circuitSpent st' - circuitSpent st)"
  proof (cases "c = failureCircuitOpen")
    case True
    have st': "st' = st\<lparr>attempts := attempts st + 1, circuitWaits := circuitWaits st + 1, requeues := requeues st + 1,
        circuitSpent := circuitSpent st + circuitWait p\<rparr>"
      and d: "d = circuitWait p" and le: "circuitSpent st + circuitWait p \<le> circuitBudget p"
    proof -
      have "0 \<le> circuitSpent st" "circuitSpent st \<le> circuitBudget p" "0 < circuitWait p" "circuitBudget p + circuitWait p < 2 ^ 63"
        using assms(1,2) by (simp_all add: policy_ok_def unit_ok_def)
      then have w: "wrap64 (circuitSpent st + circuitWait p) = circuitSpent st + circuitWait p"
        by (intro wrap64_id) linarith+
      show "st' = st\<lparr>attempts := attempts st + 1, circuitWaits := circuitWaits st + 1, requeues := requeues st + 1,
          circuitSpent := circuitSpent st + circuitWait p\<rparr>"
        "d = circuitWait p" "circuitSpent st + circuitWait p \<le> circuitBudget p"
        using assms(3) True w by (auto simp: settle_unit_def Let_def nextCircuitWait_def c_def split: if_splits)
    qed
    have ok: "unit_ok p st'" using assms(1,2) le
      by (simp add: st' unit_ok_def calls_def policy_ok_def algebra_simps)
    show ?thesis using ok d assms(1) unit_ok_bounds [OF assms(1) ok]
      by (simp add: st' leases_left_def calls_def policy_ok_def)
  next
    case False
    have n: "policy_next p c (calls st + 1) (spent st) = (d, True)"
      and st'': "st' = st\<lparr>attempts := attempts st + 1, requeues := requeues st + 1, spent := wrap64 (spent st + d)\<rparr>"
      using assms(3) False
      by (auto simp: settle_unit_def Let_def c_def calls_def algebra_simps split: if_splits prod.splits)
    have a: "calls st + 1 < maxAttempts p" "d = backoff p c (calls st + 1)" "wrap64 (spent st + d) \<le> budget p"
      using n by (auto simp: policy_next_def Let_def split: if_splits)
    have r: "0 \<le> d" "budget p + d < 2 ^ 63"
      using assms(1,2) a(1) unfolding a(2) by (auto simp: policy_ok_def unit_ok_def)
    have w: "wrap64 (spent st + d) = spent st + d" by (rule wrap64_id) (use assms(2) r in \<open>auto simp: unit_ok_def\<close>)
    have ok: "unit_ok p st'" using assms(2) a(1) a(3) [unfolded w] r(1) by (simp add: st'' w unit_ok_def calls_def)
    show ?thesis using ok r unit_ok_bounds [OF assms(1) ok] by (simp add: st'' w leases_left_def calls_def)
  qed
  then show "unit_ok p st'" "leases_left p st' < leases_left p st" "0 \<le> d" "attempts st' = attempts st + 1"
    "d = (spent st' - spent st) + (circuitSpent st' - circuitSpent st)" by auto
qed

text \<open>The attempts of one unit, as long as each is sent back to the queue.\<close>

fun requeued_run :: "unitRetryPolicy \<Rightarrow> unitRetryState \<Rightarrow> unit_result list \<Rightarrow> (unitRetryState \<times> int) option" where
  "requeued_run p st [] = Some (st, 0)"
| "requeued_run p st (r # rs) =
     (case settle_unit p True False st r of (st', d, again, _) \<Rightarrow>
        if again then map_option (apsnd ((+) d)) (requeued_run p st' rs) else None)"

lemma requeued_run_bound:
  assumes "policy_ok p" "unit_ok p st" "requeued_run p st rs = Some (st', w)"
  shows "length rs + leases_left p st' \<le> leases_left p st \<and> unit_ok p st' \<and>
    w = (spent st' - spent st) + (circuitSpent st' - circuitSpent st)"
  using assms(2,3)
proof (induction rs arbitrary: st w)
  case (Cons r rs)
  obtain st1 d b r1 where s: "settle_unit p True False st r = (st1, d, b, r1)" by (rule prod_cases4)
  with Cons.prems obtain w1 where b: "b" "requeued_run p st1 rs = Some (st', w1)" "w = d + w1"
    by (auto split: if_splits)
  note a = settle_again [OF assms(1) Cons.prems(1) s [unfolded b(1) [THEN eqTrueI]]]
  show ?case using Cons.IH [OF a(1) b(2)] a(2,5) b(3) by auto
qed simp

lemma requeued_run_attempts: "requeued_run p st rs = Some (st', w) \<Longrightarrow> attempts st' = attempts st + int (length rs)"
proof (induction rs arbitrary: st w)
  case (Cons r rs)
  obtain st1 d b r1 where s: "settle_unit p True False st r = (st1, d, b, r1)" by (rule prod_cases4)
  have "attempts st1 = attempts st + 1" using s by (auto simp: settle_unit_def Let_def split: if_splits prod.splits)
  then show ?case using Cons s by (auto split: if_splits)
qed simp

lemma default_policy_ok: "policy_ok defaultUnitRetryPolicy"
proof -
  have "unitBackoff c a \<le> 300 * second \<and> 0 \<le> unitBackoff c a" if "a \<in> {1..<4}" for c a
  proof -
    from that have "a = 1 \<or> a = 2 \<or> a = 3" by auto
    then show ?thesis
      by (auto simp: unitBackoff_def Let_def rateLimitBackoff_def outageBackoff_def second_def wrap64_def)
  qed
  note that' = this
  have "0 \<le> unitBackoff c a \<and> 10 * (60 * second) + unitBackoff c a < 2 ^ 63" if "a \<in> {1..<4}" for c a
    using that' [OF that, of c] by (simp add: second_def)
  then show ?thesis
    by (simp add: policy_ok_def defaultUnitRetryPolicy_def unitMaxAttempts_def unitBackoffBudget_def
        unitCircuitWaitBudget_def circuitOpenBackoff_def DefaultCooldown_def) (simp add: second_def)
qed

text \<open>
  C21. Whatever its attempts return, a unit is sent back to the queue at most 33 times, so it is leased at most 34
  times (four calls and thirty waits for an open breaker), and it waits at most forty minutes in
  all: ten of backoff and thirty for breakers.
\<close>

theorem unit_retry_bounded:
  assumes "requeued_run defaultUnitRetryPolicy fresh_unit rs = Some (st, waited)"
  shows "length rs \<le> 33 \<and> requeues st = int (length rs) \<and> 0 \<le> waited \<and> waited \<le> 40 * 60 * second"
proof -
  have b: "length rs + leases_left defaultUnitRetryPolicy st \<le> leases_left defaultUnitRetryPolicy fresh_unit"
    "unit_ok defaultUnitRetryPolicy st" "waited = spent st + circuitSpent st"
    using requeued_run_bound [OF default_policy_ok fresh_unit_ok [OF default_policy_ok] assms]
    by (auto simp: fresh_unit_def)
  have "leases_left defaultUnitRetryPolicy fresh_unit = 34" by code_simp
  moreover have "1 \<le> leases_left defaultUnitRetryPolicy st" by (rule unit_ok_bounds(3) [OF default_policy_ok b(2)])
  moreover have "attempts st = int (length rs)" using requeued_run_attempts [OF assms] by (simp add: fresh_unit_def)
  ultimately show ?thesis using b
    by (auto simp: unit_ok_def defaultUnitRetryPolicy_def unitBackoffBudget_def unitCircuitWaitBudget_def
        circuitOpenBackoff_def DefaultCooldown_def)
qed

definition fails :: "int option \<Rightarrow> bool \<Rightarrow> unit_result" where
  "fails status circ = \<lparr>Status = StatusFailed,
     Err = Some \<lparr>isCanceled = False, httpStatus = status, isDeadlineExceeded = False, isCircuitOpen = circ, isURLError = False\<rparr>,
     FallbackUsed = False, failedFastOnly = circ, primaryServerErr = False, Requeues = 0, UnitAttempts = 0\<rparr>"

text \<open>Two fail-fasts, then three rate limits.\<close>

theorem unit_retry_bounded_witness:
  "(case requeued_run defaultUnitRetryPolicy fresh_unit (replicate 2 (fails None True) @ replicate 3 (fails (Some 429) False)) of
      None \<Rightarrow> False | Some (st, w) \<Rightarrow> requeues st = 5 \<and> w = (2 * 60 + 525) * second \<and> w \<le> 40 * 60 * second)"
proof -
  let ?rs = "replicate 2 (fails None True) @ replicate 3 (fails (Some 429) False)"
  have "map_option snd (requeued_run defaultUnitRetryPolicy fresh_unit ?rs) = Some ((2 * 60 + 525) * second)" by code_simp
  then obtain st where r: "requeued_run defaultUnitRetryPolicy fresh_unit ?rs = Some (st, (2 * 60 + 525) * second)"
    by (cases "requeued_run defaultUnitRetryPolicy fresh_unit ?rs") auto
  from unit_retry_bounded [OF r] show ?thesis unfolding r by simp
qed

text \<open>
  The longest single wait of the default policy is the third backoff of a rate limit.
\<close>

lemma default_longest_wait: "maxUnitRequeueWait defaultUnitRetryPolicy = 300 * second"
  by code_simp

text \<open>The scaled time-out of a unit never exceeds the schema's ceiling and never falls below the base.\<close>

lemma scaledTimeoutSecs_bounds:
  assumes "0 < base" "base \<le> MaxTimeoutSecs"
  shows "base \<le> scaledTimeoutSecs base n" "scaledTimeoutSecs base n \<le> MaxTimeoutSecs"
    "n \<le> m \<Longrightarrow> scaledTimeoutSecs base n \<le> scaledTimeoutSecs base m"
proof -
  have w: "wrap64 (base * k) = base * k \<and> base \<le> base * k" if "1 \<le> k" "k \<le> 8" for k
  proof -
    have "base * k \<le> 86400 * 8" using assms that by (intro mult_mono) (auto simp: MaxTimeoutSecs_def)
    moreover have "base \<le> base * k" using assms that by simp
    ultimately show ?thesis using assms wrap64_nonneg [of "base * k"] by (simp add: MaxInt64_def)
  qed
  have eq: "scaledTimeoutSecs base n = min MaxTimeoutSecs (base * max 1 (min n 8))" for n
    using assms w [of n] w [of 8]
    by (auto simp: scaledTimeoutSecs_def chunkTimeoutCeilingFactor_def Let_def min_def max_def)
  show "scaledTimeoutSecs base n \<le> MaxTimeoutSecs" unfolding eq by simp
  show "base \<le> scaledTimeoutSecs base n" unfolding eq using assms w [of "max 1 (min n 8)"] by simp
  show "n \<le> m \<Longrightarrow> scaledTimeoutSecs base n \<le> scaledTimeoutSecs base m" unfolding eq
    using assms by (intro min.mono mult_left_mono max.mono) auto
qed

end
