(* ===== verification/ChunkMerge.thy ===== *)
theory ChunkMerge
  imports Chunker Think ByteBudget Requeue
begin

text \<open>
  One result per persona: the merge of chunk results in \<^verbatim>\<open>internal/fanout/chunker.go\<close> and the reading of their
  findings (\<^verbatim>\<open>parseFindings\<close>, \<^verbatim>\<open>ParsedFindingCount\<close> of \<^verbatim>\<open>engine.go\<close>). The fields of \<^verbatim>\<open>Result\<close> carry the prefix \<open>r\<close>; errors, call
  records and findings are opaque types; a nil slice is the empty list, since the code only ever builds these slices by
  appending; the memo of parsed findings is an option. The parser of a reply's findings (\<^verbatim>\<open>stream.ParseModelOutput\<close>) is an
  argument. The counters are Go's 64-bit integers, summed with wrap-around;
  \<^verbatim>\<open>UnparseableChunks\<close> and \<^verbatim>\<open>okCount\<close>, which count elements of one slice, stay below its length. The theorems show that no chunk's cost, failure or finding is lost.
\<close>

definition StatusTimeout :: string where "StatusTimeout = ''timeout''"
definition degradationOverflow :: string where "degradationOverflow = ''overflow''"

record ('e, 'c, 'f) result =
  rAgent :: string
  rContent :: string
  rStatus :: string
  rErr :: "'e option"
  rDurationMS :: int
  rFallbackUsed :: bool
  rFallbackFrom :: string
  rFallbackModel :: string
  rPayloadMode :: string
  rTruncation :: truncation
  rRequeues :: int
  rUnitAttempts :: int
  rfailedFastOnly :: bool
  rprimaryServerErr :: bool
  rDiffTruncation :: truncation
  rThreatMapDropped :: "string list"
  rImagesSentOffMachine :: bool
  rservedChunkFiles :: "string list"
  rservedRePacked :: bool
  rMinSeverity :: string
  rMaxFindings :: "int option"
  rResponseTruncated :: bool
  rSalvaged :: bool
  rSalvagedOnStop :: bool
  rUnparseableResponse :: bool
  rThinkSuppressed :: bool
  rThinkOnlyAttempts :: int
  rUnparseableChunks :: int
  rSilentChunks :: int
  rTools :: bool
  rTurns :: int
  rToolCalls :: int
  rToolBytes :: int
  rToolsDegraded :: bool
  rToolsRequested :: bool
  rTrippedBudgets :: "string list"
  rToolsDegradedReason :: string
  rCacheHit :: bool
  rUnreviewedChunks :: int
  rUnreviewedFiles :: int
  rDeferredFiles :: int
  rEffectiveBudget :: int
  rResolvedWindow :: int
  rReservedOutputTokens :: int
  rReasoningReserveTokens :: int
  rChunkCount :: int
  rDegradationAction :: string
  rResolvedMaxTokens :: int
  rModel :: string
  rTokensIn :: int
  rTokensOut :: int
  rCallRecords :: "'c list"
  rparsedFindingCount :: "int option"
  rparsedFindings :: "'f list option"
  rchunkContents :: "string list"
  rchunkSalvaged :: "bool list"
  rchunkSalvagedOnStop :: "bool list"

subsection \<open>Reading the findings of a result\<close>

definition cacheParsedFindings :: "'f list \<Rightarrow> ('e, 'c, 'f) result \<Rightarrow> 'f list \<times> ('e, 'c, 'f) result" where
  "cacheParsedFindings out r = (out, r\<lparr>rparsedFindings := Some out, rparsedFindingCount := Some (int (length out))\<rparr>)"

definition refused :: "('e, 'c, 'f) result \<Rightarrow> nat \<Rightarrow> bool" where
  "refused r i \<longleftrightarrow>
     (let perChunk = length (rchunkSalvaged r) = length (rchunkContents r);
          onStop = perChunk \<and> length (rchunkSalvagedOnStop r) = length (rchunkContents r)
      in perChunk \<and> rchunkSalvaged r ! i \<and> (\<not> onStop \<or> \<not> rchunkSalvagedOnStop r ! i))"

definition parseFindings ::
  "(string \<Rightarrow> 'f list) \<Rightarrow> ('e, 'c, 'f) result \<Rightarrow> 'f list \<times> ('e, 'c, 'f) result" where
  "parseFindings parseOutput r =
     (case rparsedFindings r of
        Some fs \<Rightarrow> (fs, r)
      | None \<Rightarrow>
          if rchunkContents r = [] then
            (if rSalvaged r \<and> rResponseTruncated r then cacheParsedFindings [] r
             else cacheParsedFindings (parseOutput (fst (SplitThink (rContent r)))) r)
          else if length (rchunkSalvaged r) \<noteq> length (rchunkContents r) \<and> rSalvaged r then cacheParsedFindings [] r
          else cacheParsedFindings
            (concat (map (\<lambda>i. if refused r i then [] else parseOutput (fst (SplitThink (rchunkContents r ! i))))
               [0..<length (rchunkContents r)])) r)"

definition ParsedFindingCount ::
  "(string \<Rightarrow> 'f list) \<Rightarrow> ('e, 'c, 'f) result \<Rightarrow> int \<times> ('e, 'c, 'f) result" where
  "ParsedFindingCount parseOutput r =
     (if rContent r = [] then (0, r)
      else case rparsedFindingCount r of
        Some n \<Rightarrow> (n, r)
      | None \<Rightarrow> (let (fs, r') = parseFindings parseOutput r
                in (int (length fs), r'\<lparr>rparsedFindingCount := Some (int (length fs))\<rparr>)))"

subsection \<open>Promotion of degradations\<close>

definition promoteDiffTruncation :: "('e, 'c, 'f) result \<Rightarrow> ('e, 'c, 'f) result" where
  "promoteDiffTruncation r =
     (if \<not> Truncated (rTruncation r) \<and> length (FilesDropped (rTruncation r)) = 0
      then r\<lparr>rTruncation := rDiffTruncation r\<rparr> else r)"

record repack_acc =
  dropped :: "string list"
  budget :: "int option"
  action :: string
  rePacked :: bool

definition repack_step :: "('e, 'c, 'f) result \<Rightarrow> repack_acc \<Rightarrow> repack_acc" where
  "repack_step r a =
     (if \<not> rservedRePacked r then a
      else a\<lparr>rePacked := True,
             dropped := dropped a @ FilesDropped (rTruncation r),
             action := (if action a \<noteq> degradationOverflow then rDegradationAction r else action a),
             budget := (case budget a of
                None \<Rightarrow> Some (rEffectiveBudget r)
              | Some b \<Rightarrow> if rEffectiveBudget r < b then Some (rEffectiveBudget r) else Some b)\<rparr>)"

definition promoteRePackedDegradation ::
  "('e, 'c, 'f) result \<Rightarrow> ('e, 'c, 'f) result list \<Rightarrow> ('e, 'c, 'f) result" where
  "promoteRePackedDegradation out g =
     (let a = fold repack_step g \<lparr>dropped = [], budget = None, action = [], rePacked = False\<rparr> in
      if \<not> rePacked a then out
      else
        let paths = sort (remdups (dropped a @ FilesDropped (rDiffTruncation out)));
            bud = (case budget a of None \<Rightarrow> 0 | Some b \<Rightarrow> b);
            out1 = out\<lparr>rChunkCount := int (length g),
                       rDegradationAction := (if action a \<noteq> [] then action a else rDegradationAction out),
                       rEffectiveBudget := bud\<rparr>;
            out2 = (if bud = 0 then out1\<lparr>rReservedOutputTokens := 0, rResolvedMaxTokens := 0, rReasoningReserveTokens := 0\<rparr>
                    else out1)
        in if length paths > 0
           then out2\<lparr>rTruncation := \<lparr>Truncated = True, FilesDropped = paths, AllDropped = False\<rparr>\<rparr>
           else out2)"

subsection \<open>Merging the results of a persona\<close>

record chunkBin =
  binContent :: string
  binSalvaged :: bool
  binOnStop :: bool

text \<open>Counts by key, in order of first appearance: a counting map together with its order slice.\<close>

fun bump :: "'k \<Rightarrow> ('k \<times> nat) list \<Rightarrow> ('k \<times> nat) list" where
  "bump k [] = [(k, 1)]"
| "bump k ((k', n) # kns) = (if k = k' then (k', n + 1) # kns else (k', n) # bump k kns)"

record served_model =
  smKey :: string
  smCount :: nat
  smFirst :: nat
  smPrimary :: bool

fun bump_served :: "string \<Rightarrow> nat \<Rightarrow> bool \<Rightarrow> served_model list \<Rightarrow> served_model list" where
  "bump_served k i primary [] = [\<lparr>smKey = k, smCount = 1, smFirst = i, smPrimary = primary\<rparr>]"
| "bump_served k i primary (m # ms) =
     (if smKey m = k then m\<lparr>smCount := smCount m + 1, smPrimary := smPrimary m \<or> primary\<rparr> # ms
      else m # bump_served k i primary ms)"

record ('e, 'c, 'f) merge_acc =
  accOut :: "('e, 'c, 'f) result"
  bins :: "chunkBin list"
  firstErr :: "'e option"
  okCount :: nat
  anyOK :: bool
  sawTimeout :: bool
  allCacheHit :: bool
  fallbackFromSet :: "string list"
  fallbackModels :: "(string \<times> nat) list"
  servedModels :: "served_model list"

definition merge_start :: "('e, 'c, 'f) result \<Rightarrow> ('e, 'c, 'f) result" where
  "merge_start r =
     r\<lparr>rErr := None, rDurationMS := 0, rTokensIn := 0, rTokensOut := 0, rTurns := 0, rToolCalls := 0, rToolBytes := 0,
       rCallRecords := [], rTrippedBudgets := [], rFallbackUsed := False, rFallbackFrom := [], rFallbackModel := [],
       rRequeues := 0, rUnitAttempts := 0, rparsedFindingCount := None, rparsedFindings := None,
       rUnparseableChunks := 0, rSilentChunks := 0, rThinkOnlyAttempts := 0, rservedChunkFiles := [],
       rservedRePacked := False, rSalvagedOnStop := False\<rparr>"

definition add_chunk :: "bool \<Rightarrow> ('e, 'c, 'f) result \<Rightarrow> ('e, 'c, 'f) result \<Rightarrow> ('e, 'c, 'f) result" where
  "add_chunk isSerial r out =
     out\<lparr>rTokensIn := add64 (rTokensIn out) (rTokensIn r), rTokensOut := add64 (rTokensOut out) (rTokensOut r),
         rTurns := add64 (rTurns out) (rTurns r), rToolCalls := add64 (rToolCalls out) (rToolCalls r),
         rToolBytes := add64 (rToolBytes out) (rToolBytes r), rCallRecords := rCallRecords out @ rCallRecords r,
         rRequeues := add64 (rRequeues out) (rRequeues r), rUnitAttempts := max (rUnitAttempts out) (rUnitAttempts r),
         rTrippedBudgets := rTrippedBudgets out @ rTrippedBudgets r,
         rDurationMS := (if isSerial then add64 (rDurationMS out) (rDurationMS r)
                         else if rDurationMS r > rDurationMS out then rDurationMS r else rDurationMS out),
         rFallbackUsed := (rFallbackUsed out \<or> rFallbackUsed r),
         rTools := (rTools out \<or> rTools r), rToolsRequested := (rToolsRequested out \<or> rToolsRequested r),
         rToolsDegraded := (rToolsDegraded out \<or> rToolsDegraded r),
         rToolsDegradedReason := (if rToolsDegradedReason out = [] then rToolsDegradedReason r else rToolsDegradedReason out),
         rResponseTruncated := (rResponseTruncated out \<or> rResponseTruncated r),
         rSalvaged := (rSalvaged out \<or> rSalvaged r),
         rUnparseableChunks := rUnparseableChunks out + (if rUnparseableResponse r then 1 else 0),
         rSilentChunks := add64 (rSilentChunks out) (rSilentChunks r),
         rThinkSuppressed := (rThinkSuppressed out \<or> rThinkSuppressed r),
         rThinkOnlyAttempts := add64 (rThinkOnlyAttempts out) (rThinkOnlyAttempts r),
         rDiffTruncation := (if \<not> Truncated (rDiffTruncation out) \<and> length (FilesDropped (rDiffTruncation out)) = 0
                             then rDiffTruncation r else rDiffTruncation out)\<rparr>"

definition merge_step ::
  "bool \<Rightarrow> nat \<times> ('e, 'c, 'f) result \<Rightarrow> ('e, 'c, 'f) merge_acc \<Rightarrow> ('e, 'c, 'f) merge_acc" where
  "merge_step isSerial ir a =
     (case ir of (i, r) \<Rightarrow>
        a\<lparr>servedModels :=
            (if rStatus r = StatusOK \<and> TrimSpace (rModel r) \<noteq> []
             then bump_served (ToLower (TrimSpace (rModel r))) i (\<not> rFallbackUsed r) (servedModels a)
             else servedModels a),
          bins :=
            (if TrimSpace (rContent r) \<noteq> []
             then bins a @ [\<lparr>binContent = rContent r, binSalvaged = rSalvaged r, binOnStop = rSalvagedOnStop r\<rparr>]
             else bins a),
          accOut := add_chunk isSerial r (accOut a),
          fallbackFromSet :=
            (if rFallbackUsed r \<and> rFallbackFrom r \<noteq> [] then List.insert (rFallbackFrom r) (fallbackFromSet a)
             else fallbackFromSet a),
          fallbackModels :=
            (if rFallbackUsed r \<and> rFallbackModel r \<noteq> [] then bump (rFallbackModel r) (fallbackModels a)
             else fallbackModels a),
          allCacheHit := (allCacheHit a \<and> rCacheHit r),
          anyOK := (anyOK a \<or> rStatus r = StatusOK),
          okCount := okCount a + (if rStatus r = StatusOK then 1 else 0),
          sawTimeout := (sawTimeout a \<or> rStatus r = StatusTimeout),
          firstErr := (if rStatus r \<noteq> StatusOK \<and> firstErr a = None then rErr r else firstErr a)\<rparr>)"

text \<open>The model that served most chunks; on a tie one that was not a fallback, then the first.\<close>

definition best_served :: "served_model list \<Rightarrow> nat \<times> nat \<times> bool" where
  "best_served ms =
     fold (\<lambda>m (idx, cnt, prim).
        if smCount m > cnt \<or> (smCount m = cnt \<and> smPrimary m \<and> \<not> prim) then (smFirst m, smCount m, smPrimary m)
        else (idx, cnt, prim)) ms (0, 0, False)"

definition modal_model :: "(string \<times> nat) list \<Rightarrow> string" where
  "modal_model kns = fst (fold (\<lambda>(k, c) (bk, bc). if c > bc then (k, c) else (bk, bc)) kns ([], 0))"

definition serve_from :: "('e, 'c, 'f) result \<Rightarrow> ('e, 'c, 'f) result \<Rightarrow> ('e, 'c, 'f) result" where
  "serve_from src out =
     out\<lparr>rModel := rModel src, rResolvedWindow := rResolvedWindow src,
         rReservedOutputTokens := rReservedOutputTokens src, rResolvedMaxTokens := rResolvedMaxTokens src,
         rReasoningReserveTokens := rReasoningReserveTokens src\<rparr>"

definition merge_fold :: "('e, 'c, 'f) result list \<Rightarrow> bool \<Rightarrow> ('e, 'c, 'f) merge_acc" where
  "merge_fold g isSerial =
     fold (merge_step isSerial) (zip [0..<length g] g)
       \<lparr>accOut = merge_start (hd g), bins = [], firstErr = None, okCount = 0, anyOK = False, sawTimeout = False,
        allCacheHit = True, fallbackFromSet = [], fallbackModels = [], servedModels = []\<rparr>"

text \<open>The code after the loop, in its order: contents and findings, the serving model, the fallbacks and the status.\<close>

definition merge_contents ::
  "(string \<Rightarrow> 'f list) \<Rightarrow> ('e, 'c, 'f) merge_acc \<Rightarrow> ('e, 'c, 'f) result" where
  "merge_contents parseOutput a =
     (let contents = map binContent (bins a);
          out1 = (accOut a)\<lparr>rContent := joinChunkContents contents, rchunkContents := contents,
                   rchunkSalvaged := map binSalvaged (bins a), rchunkSalvagedOnStop := map binOnStop (bins a)\<rparr>;
          (n, out2) = ParsedFindingCount parseOutput out1
      in out2\<lparr>rUnparseableResponse := (n = 0 \<and> rUnparseableChunks out2 > 0), rCacheHit := allCacheHit a\<rparr>)"

definition merge_serving ::
  "('e, 'c, 'f) result list \<Rightarrow> ('e, 'c, 'f) merge_acc \<Rightarrow> ('e, 'c, 'f) result \<Rightarrow> ('e, 'c, 'f) result" where
  "merge_serving g a out =
     (let (idx, cnt, prim) = best_served (servedModels a) in if cnt > 0 then serve_from (g ! idx) out else out)"

definition merge_fallbacks :: "('e, 'c, 'f) merge_acc \<Rightarrow> ('e, 'c, 'f) result \<Rightarrow> ('e, 'c, 'f) result" where
  "merge_fallbacks a out =
     (let out1 = (if fallbackFromSet a \<noteq> [] then out\<lparr>rFallbackFrom := Join (sort (fallbackFromSet a)) '',''\<rparr> else out)
      in if fallbackModels a \<noteq> [] then out1\<lparr>rFallbackModel := modal_model (fallbackModels a)\<rparr> else out1)"

definition merge_status :: "nat \<Rightarrow> ('e, 'c, 'f) merge_acc \<Rightarrow> ('e, 'c, 'f) result \<Rightarrow> ('e, 'c, 'f) result" where
  "merge_status n a out =
     (let out1 = (if 0 < okCount a \<and> okCount a < n then out\<lparr>rUnreviewedChunks := int (n - okCount a)\<rparr> else out)
      in if anyOK a then out1\<lparr>rStatus := StatusOK\<rparr>
         else if sawTimeout a then out1\<lparr>rStatus := StatusTimeout, rErr := firstErr a\<rparr>
         else out1\<lparr>rStatus := StatusFailed, rErr := firstErr a\<rparr>)"

definition mergeResultGroup ::
  "(string \<Rightarrow> 'f list) \<Rightarrow> ('e, 'c, 'f) result list \<Rightarrow> (string \<Rightarrow> bool) \<Rightarrow> ('e, 'c, 'f) result" where
  "mergeResultGroup parseOutput g serialSet =
     (let a = merge_fold g (serialSet (rAgent (hd g)));
          out = promoteRePackedDegradation (merge_serving g a (merge_contents parseOutput a)) g
      in promoteDiffTruncation (merge_status (length g) a (merge_fallbacks a out)))"

definition mergeChunkResults ::
  "(string \<Rightarrow> 'f list) \<Rightarrow> ('e, 'c, 'f) result list \<Rightarrow> (string \<Rightarrow> bool) \<Rightarrow> ('e, 'c, 'f) result list" where
  "mergeChunkResults parseOutput results serialSet =
     map (\<lambda>name. let g = filter (\<lambda>r. rAgent r = name) results
        in if length g = 1 then promoteDiffTruncation (hd g) else mergeResultGroup parseOutput g serialSet)
       (distinct_keys (map rAgent results))"

subsection \<open>The loop over the chunks\<close>

definition add_all :: "bool \<Rightarrow> ('e, 'c, 'f) result list \<Rightarrow> ('e, 'c, 'f) result \<Rightarrow> ('e, 'c, 'f) result" where
  "add_all s g out = fold (add_chunk s) g out"

definition bin_of :: "('e, 'c, 'f) result \<Rightarrow> chunkBin" where
  "bin_of r = \<lparr>binContent = rContent r, binSalvaged = rSalvaged r, binOnStop = rSalvagedOnStop r\<rparr>"

lemma merge_fold_gen:
  shows "accOut (fold (merge_step s) irs a) = add_all s (map snd irs) (accOut a)"
    and "bins (fold (merge_step s) irs a) = bins a @ map bin_of (filter (\<lambda>r. TrimSpace (rContent r) \<noteq> []) (map snd irs))"
    and "okCount (fold (merge_step s) irs a) = okCount a + length (filter (\<lambda>r. rStatus r = StatusOK) (map snd irs))"
    and "anyOK (fold (merge_step s) irs a) \<longleftrightarrow> anyOK a \<or> (\<exists>r\<in>snd ` set irs. rStatus r = StatusOK)"
    and "sawTimeout (fold (merge_step s) irs a) \<longleftrightarrow> sawTimeout a \<or> (\<exists>r\<in>snd ` set irs. rStatus r = StatusTimeout)"
    and "firstErr (fold (merge_step s) irs a) = (case firstErr a of Some e \<Rightarrow> Some e | None \<Rightarrow>
        (case filter (\<lambda>r. rStatus r \<noteq> StatusOK \<and> rErr r \<noteq> None) (map snd irs) of [] \<Rightarrow> None | r # _ \<Rightarrow> rErr r))"
  by (induction irs arbitrary: a) (auto simp: merge_step_def add_all_def bin_of_def split: option.splits if_splits)

lemma add_all_fields:
  "rTokensIn (add_all s g out) = fold (\<lambda>r n. add64 n (rTokensIn r)) g (rTokensIn out)"
  "rTokensOut (add_all s g out) = fold (\<lambda>r n. add64 n (rTokensOut r)) g (rTokensOut out)"
  "rTurns (add_all s g out) = fold (\<lambda>r n. add64 n (rTurns r)) g (rTurns out)"
  "rToolCalls (add_all s g out) = fold (\<lambda>r n. add64 n (rToolCalls r)) g (rToolCalls out)"
  "rToolBytes (add_all s g out) = fold (\<lambda>r n. add64 n (rToolBytes r)) g (rToolBytes out)"
  "rRequeues (add_all s g out) = fold (\<lambda>r n. add64 n (rRequeues r)) g (rRequeues out)"
  "rSilentChunks (add_all s g out) = fold (\<lambda>r n. add64 n (rSilentChunks r)) g (rSilentChunks out)"
  "rThinkOnlyAttempts (add_all s g out) = fold (\<lambda>r n. add64 n (rThinkOnlyAttempts r)) g (rThinkOnlyAttempts out)"
  "rCallRecords (add_all s g out) = rCallRecords out @ concat (map rCallRecords g)"
  "rAgent (add_all s g out) = rAgent out"
  by (induction g arbitrary: out) (simp_all add: add_all_def add_chunk_def)

lemma fold_counter: "fold (\<lambda>r n. add64 n (f r)) g 0 = wrap64 (\<Sum>r\<leftarrow>g. f r)"
  using fold_add64 [of f g 0] by (simp add: wrap64_id)

text \<open>The counters of a result that a persona adds up over its chunks.\<close>

definition counters :: "(('e, 'c, 'f) result \<Rightarrow> int) list" where
  "counters = [rTokensIn, rTokensOut, rTurns, rToolCalls, rToolBytes, rRequeues, rSilentChunks, rThinkOnlyAttempts]"

text \<open>What the code after the loop leaves alone.\<close>

definition tally :: "('e, 'c, 'f) result \<Rightarrow> string \<times> int list \<times> 'c list" where
  "tally r = (rAgent r, map (\<lambda>f. f r) counters, rCallRecords r)"

lemma tally_unfold:
  "tally r = (rAgent r, [rTokensIn r, rTokensOut r, rTurns r, rToolCalls r, rToolBytes r, rRequeues r, rSilentChunks r, rThinkOnlyAttempts r],
     rCallRecords r)"
  by (simp add: tally_def counters_def)

lemma parseFindings_tally: "tally (snd (parseFindings p r)) = tally r"
  by (simp add: parseFindings_def cacheParsedFindings_def tally_unfold split: option.splits)

lemma ParsedFindingCount_tally: "tally (snd (ParsedFindingCount p r)) = tally r"
  using parseFindings_tally [of p r]
  by (auto simp: ParsedFindingCount_def tally_unfold split: option.splits prod.splits)

lemma merge_contents_tally: "tally (merge_contents p a) = tally (accOut a)"
proof -
  let ?o = "(accOut a)\<lparr>rContent := joinChunkContents (map binContent (bins a)), rchunkContents := map binContent (bins a),
      rchunkSalvaged := map binSalvaged (bins a), rchunkSalvagedOnStop := map binOnStop (bins a)\<rparr>"
  have "tally (merge_contents p a) = tally (snd (ParsedFindingCount p ?o))"
    by (simp add: merge_contents_def tally_unfold Let_def case_prod_beta)
  also have "\<dots> = tally (accOut a)" unfolding ParsedFindingCount_tally by (simp add: tally_unfold)
  finally show ?thesis .
qed

lemma later_stages_tally:
  "tally (merge_serving g a out) = tally out" "tally (merge_fallbacks a out) = tally out" "tally (merge_status n a out) = tally out"
  "tally (promoteDiffTruncation out) = tally out" "tally (promoteRePackedDegradation out g) = tally out"
  by (simp_all add: tally_unfold merge_serving_def serve_from_def merge_fallbacks_def merge_status_def promoteDiffTruncation_def
      promoteRePackedDegradation_def Let_def split: prod.splits)

lemma mergeResultGroup_tally: "tally (mergeResultGroup p g s) = tally (add_all (s (rAgent (hd g))) g (merge_start (hd g)))"
  unfolding mergeResultGroup_def Let_def later_stages_tally merge_contents_tally
  by (simp add: merge_fold_def merge_fold_gen)

lemma group_tally:
  "tally (mergeResultGroup p g s) = (rAgent (hd g), map (\<lambda>f. wrap64 (\<Sum>r\<leftarrow>g. f r)) counters, concat (map rCallRecords g))"
  unfolding mergeResultGroup_tally
  by (simp add: tally_unfold counters_def add_all_fields merge_start_def fold_counter)

definition persona :: "(string \<Rightarrow> 'f list) \<Rightarrow> ('e, 'c, 'f) result list \<Rightarrow> (string \<Rightarrow> bool) \<Rightarrow> string \<Rightarrow> ('e, 'c, 'f) result" where
  "persona p rs s name =
     (let g = filter (\<lambda>r. rAgent r = name) rs
      in if length g = 1 then promoteDiffTruncation (hd g) else mergeResultGroup p g s)"

lemma mergeChunkResults_persona: "mergeChunkResults p rs s = map (persona p rs s) (distinct_keys (map rAgent rs))"
  by (simp add: mergeChunkResults_def persona_def)

lemma persona_tally:
  assumes "name \<in> rAgent ` set rs" and fits: "\<forall>r\<in>set rs. \<forall>f\<in>set counters. fits64 (f r)"
  defines "g \<equiv> filter (\<lambda>r. rAgent r = name) rs"
  shows "tally (persona p rs s name) = (name, map (\<lambda>f. wrap64 (\<Sum>r\<leftarrow>g. f r)) counters, concat (map rCallRecords g))"
proof -
  have "g \<noteq> []" using assms(1) by (auto simp: g_def filter_empty_conv)
  then have n: "rAgent (hd g) = name" using hd_in_set [of g] by (auto simp: g_def)
  show ?thesis
  proof (cases "length g = 1")
    case True
    then obtain r where r: "g = [r]" by (cases g) auto
    have "set g \<subseteq> set rs" by (simp add: g_def)
    then have "r \<in> set rs" by (simp add: r)
    then have "map (\<lambda>f. f r) counters = map (\<lambda>f. wrap64 (f r)) counters" using fits by (simp add: wrap64_fits)
    moreover have "tally (persona p rs s name) = tally r"
      using r by (simp add: persona_def g_def [symmetric] later_stages_tally)
    ultimately show ?thesis using n r by (simp add: tally_def)
  next
    case False
    then have "persona p rs s name = mergeResultGroup p g s" by (simp add: persona_def g_def [symmetric])
    then show ?thesis using n by (simp add: group_tally)
  qed
qed

lemma concat_map_concat: "concat (map f (concat xss)) = concat (map (\<lambda>xs. concat (map f xs)) xss)"
  by (induction xss) simp_all

lemma mset_concat_map_mset:
  assumes "mset xs = mset ys"
  shows "mset (concat (map f xs)) = mset (concat (map f ys))"
proof -
  have "mset (concat (map f zs)) = sum_mset (image_mset (\<lambda>z. mset (f z)) (mset zs))" for zs
    by (induction zs) simp_all
  then show ?thesis using assms by simp
qed

lemma records_by_persona:
  "mset (concat (map (\<lambda>k. concat (map rCallRecords (filter (\<lambda>r. rAgent r = k) rs))) (distinct_keys (map rAgent rs)))) =
     mset (concat (map rCallRecords rs))"
proof -
  let ?c = "concat (map (\<lambda>k. filter (\<lambda>r. rAgent r = k) rs) (distinct_keys (map rAgent rs)))"
  have "mset ?c = mset rs" by (rule mset_concat_filter_keys) auto
  then have "mset (concat (map rCallRecords ?c)) = mset (concat (map rCallRecords rs))" by (rule mset_concat_map_mset)
  then show ?thesis unfolding concat_map_concat map_map by (simp add: comp_def)
qed

text \<open>
  C25. Merging leaves one result per persona, in the order the personas first appear, and accounts for every chunk of it: the
  tokens, turns, tool calls and bytes, requeues, silent chunks and wasted attempts of a persona are the sum of its chunks',
  as a 64-bit integer, so exactly the sum whenever that fits 64 bits, and its call records are its chunks' in order, so that
  nothing a chunk cost is lost or counted twice. The hypothesis is that every counter of a chunk is a 64-bit integer.
\<close>

theorem merge_accounts_for_chunks:
  assumes "\<forall>r\<in>set rs. \<forall>f\<in>set counters. fits64 (f r)"
  shows "map rAgent (mergeChunkResults p rs s) = distinct_keys (map rAgent rs) \<and>
    list_all (\<lambda>m. let g = filter (\<lambda>r. rAgent r = rAgent m) rs
       in list_all (\<lambda>f. f m = wrap64 (\<Sum>r\<leftarrow>g. f r) \<and> (fits64 (\<Sum>r\<leftarrow>g. f r) \<longrightarrow> f m = (\<Sum>r\<leftarrow>g. f r))) counters \<and>
          rCallRecords m = concat (map rCallRecords g)) (mergeChunkResults p rs s) \<and>
    mset (concat (map rCallRecords (mergeChunkResults p rs s))) = mset (concat (map rCallRecords rs))"
proof -
  let ?ks = "distinct_keys (map rAgent rs)" and ?g = "\<lambda>k. filter (\<lambda>r. rAgent r = k) rs"
  have t: "rAgent (persona p rs s k) = k" "\<forall>f\<in>set counters. f (persona p rs s k) = wrap64 (\<Sum>r\<leftarrow>?g k. f r)"
    "rCallRecords (persona p rs s k) = concat (map rCallRecords (?g k))" if "k \<in> set ?ks" for k
    using persona_tally [OF _ assms, of k p s] that by (simp_all add: tally_def)
  have "map rAgent (mergeChunkResults p rs s) = ?ks"
    unfolding mergeChunkResults_persona map_map by (rule map_idI) (simp add: t(1))
  moreover have "list_all (\<lambda>m. let g = ?g (rAgent m)
       in list_all (\<lambda>f. f m = wrap64 (\<Sum>r\<leftarrow>g. f r) \<and> (fits64 (\<Sum>r\<leftarrow>g. f r) \<longrightarrow> f m = (\<Sum>r\<leftarrow>g. f r))) counters \<and>
          rCallRecords m = concat (map rCallRecords g)) (mergeChunkResults p rs s)"
    unfolding mergeChunkResults_persona list.pred_map by (auto simp: list_all_iff t wrap64_fits Let_def)
  moreover have "mset (concat (map rCallRecords (mergeChunkResults p rs s))) = mset (concat (map rCallRecords rs))"
    unfolding records_by_persona [symmetric] mergeChunkResults_persona map_map
    by (rule arg_cong [where f = "\<lambda>x. mset (concat x)"]) (simp add: t(3))
  ultimately show ?thesis by blast
qed

subsection \<open>Status\<close>

lemma status_after:
  "rStatus (promoteDiffTruncation out) = rStatus out" "rErr (promoteDiffTruncation out) = rErr out"
  "rUnreviewedChunks (promoteDiffTruncation out) = rUnreviewedChunks out"
  by (simp_all add: promoteDiffTruncation_def)

lemma merge_status_fields:
  "rStatus (merge_status n a out) = (if anyOK a then StatusOK else if sawTimeout a then StatusTimeout else StatusFailed)"
  "\<not> anyOK a \<Longrightarrow> rErr (merge_status n a out) = firstErr a"
  "anyOK a \<Longrightarrow> rErr (merge_status n a out) = rErr out"
  "0 < okCount a \<Longrightarrow> okCount a < n \<Longrightarrow> rUnreviewedChunks (merge_status n a out) = int (n - okCount a)"
  by (simp_all add: merge_status_def Let_def)

lemma snd_zip_index: "map snd (zip [0..<length g] g) = g" "snd ` set (zip [0..<length g] g) = set g"
proof -
  show m: "map snd (zip [0..<length g] g) = g" by simp
  show "snd ` set (zip [0..<length g] g) = set g" by (metis m list.set_map)
qed

lemma merge_fold_fields:
  "accOut (merge_fold g s) = add_all s g (merge_start (hd g))"
  "bins (merge_fold g s) = map bin_of (filter (\<lambda>r. TrimSpace (rContent r) \<noteq> []) g)"
  "okCount (merge_fold g s) = length (filter (\<lambda>r. rStatus r = StatusOK) g)"
  "anyOK (merge_fold g s) \<longleftrightarrow> (\<exists>r\<in>set g. rStatus r = StatusOK)"
  "sawTimeout (merge_fold g s) \<longleftrightarrow> (\<exists>r\<in>set g. rStatus r = StatusTimeout)"
  "firstErr (merge_fold g s) = (case filter (\<lambda>r. rStatus r \<noteq> StatusOK \<and> rErr r \<noteq> None) g of [] \<Rightarrow> None | r # _ \<Rightarrow> rErr r)"
  unfolding merge_fold_def merge_fold_gen snd_zip_index by simp_all

lemma err_kept:
  "rErr (merge_serving g a out) = rErr out" "rErr (merge_fallbacks a out) = rErr out" "rErr (promoteRePackedDegradation out g) = rErr out"
  by (simp_all add: merge_serving_def serve_from_def merge_fallbacks_def promoteRePackedDegradation_def Let_def split: prod.splits)

lemma merge_contents_err: "rErr (merge_contents p a) = rErr (accOut a)"
  by (simp add: merge_contents_def ParsedFindingCount_def parseFindings_def cacheParsedFindings_def Let_def case_prod_beta split: option.splits)

lemma add_all_err: "rErr (add_all s g out) = rErr out"
  by (induction g arbitrary: out) (simp_all add: add_all_def add_chunk_def)

lemma partial_count:
  assumes "r \<in> set g" "rStatus r = StatusOK" "r' \<in> set g" "rStatus r' \<noteq> StatusOK"
  shows "0 < length (filter (\<lambda>r. rStatus r = StatusOK) g)" "length (filter (\<lambda>r. rStatus r = StatusOK) g) < length g"
    "length g - length (filter (\<lambda>r. rStatus r = StatusOK) g) = length (filter (\<lambda>r. rStatus r \<noteq> StatusOK) g)"
proof -
  have "length (filter (\<lambda>r. rStatus r = StatusOK) g) + length (filter (\<lambda>r. rStatus r \<noteq> StatusOK) g) = length g"
    by (rule sum_length_filter_compl)
  moreover have "0 < length (filter (\<lambda>r. rStatus r = StatusOK) g)" "0 < length (filter (\<lambda>r. rStatus r \<noteq> StatusOK) g)"
    using assms by (auto simp: filter_empty_conv)
  ultimately show "0 < length (filter (\<lambda>r. rStatus r = StatusOK) g)" "length (filter (\<lambda>r. rStatus r = StatusOK) g) < length g"
    "length g - length (filter (\<lambda>r. rStatus r = StatusOK) g) = length (filter (\<lambda>r. rStatus r \<noteq> StatusOK) g)" by linarith+
qed

text \<open>
  The status of a merged persona: it is ok when some chunk is, without an error, and then the chunks that failed beside
  it are counted as unreviewed; otherwise it is a timeout when some chunk timed out, else a failure, with the
  first error any chunk reported.
\<close>

theorem merged_status:
  assumes "g \<noteq> []"
  shows "(if \<exists>r\<in>set g. rStatus r = StatusOK
     then rStatus (mergeResultGroup p g s) = StatusOK \<and> rErr (mergeResultGroup p g s) = None \<and>
       ((\<exists>r\<in>set g. rStatus r \<noteq> StatusOK) \<longrightarrow>
          rUnreviewedChunks (mergeResultGroup p g s) = int (length (filter (\<lambda>r. rStatus r \<noteq> StatusOK) g)))
     else rStatus (mergeResultGroup p g s) = (if \<exists>r\<in>set g. rStatus r = StatusTimeout then StatusTimeout else StatusFailed) \<and>
       rErr (mergeResultGroup p g s) =
         (case filter (\<lambda>r. rErr r \<noteq> None) g of [] \<Rightarrow> None | r # _ \<Rightarrow> rErr r))"
proof (cases "\<exists>r\<in>set g. rStatus r = StatusOK")
  case True
  let ?a = "merge_fold g (s (rAgent (hd g)))"
  have ok: "anyOK ?a" using True by (simp add: merge_fold_fields)
  have e: "rErr (mergeResultGroup p g s) = None"
    unfolding mergeResultGroup_def Let_def status_after merge_status_fields(3) [OF ok]
    by (simp add: err_kept merge_contents_err merge_fold_fields add_all_err merge_start_def)
  have u: "rUnreviewedChunks (mergeResultGroup p g s) = int (length (filter (\<lambda>r. rStatus r \<noteq> StatusOK) g))"
    if fails: "\<exists>r\<in>set g. rStatus r \<noteq> StatusOK"
  proof -
    obtain r r' where r: "r \<in> set g" "rStatus r = StatusOK" "r' \<in> set g" "rStatus r' \<noteq> StatusOK" using True fails by blast
    note c = partial_count [OF r]
    show ?thesis
      unfolding mergeResultGroup_def Let_def status_after
      using merge_status_fields(4) [of ?a "length g"] c by (simp add: merge_fold_fields)
  qed
  have "rStatus (mergeResultGroup p g s) = StatusOK"
    using ok by (simp add: mergeResultGroup_def Let_def status_after merge_status_fields)
  then show ?thesis using True e u by auto
next
  case False
  have "filter (\<lambda>r. rStatus r \<noteq> StatusOK \<and> rErr r \<noteq> None) g = filter (\<lambda>r. rErr r \<noteq> None) g"
    by (rule filter_cong) (use False in auto)
  moreover have "\<not> anyOK (merge_fold g (s (rAgent (hd g))))" using False by (simp add: merge_fold_fields)
  ultimately show ?thesis
    using False by (simp only: mergeResultGroup_def Let_def status_after merge_status_fields merge_fold_fields if_False)
qed

text \<open>A result to evaluate the merge on.\<close>

definition sample_result :: "string \<Rightarrow> string \<Rightarrow> (string, nat, string) result" where
  "sample_result status content =
     \<lparr>rAgent = ''a'', rContent = content, rStatus = status, rErr = None, rDurationMS = 0, rFallbackUsed = False,
      rFallbackFrom = [], rFallbackModel = [], rPayloadMode = [],
      rTruncation = \<lparr>Truncated = False, FilesDropped = [], AllDropped = False\<rparr>, rRequeues = 0,
      rUnitAttempts = 0, rfailedFastOnly = False, rprimaryServerErr = False,
      rDiffTruncation = \<lparr>Truncated = False, FilesDropped = [], AllDropped = False\<rparr>, rThreatMapDropped = [],
      rImagesSentOffMachine = False, rservedChunkFiles = [], rservedRePacked = False, rMinSeverity = [],
      rMaxFindings = None, rResponseTruncated = False, rSalvaged = False, rSalvagedOnStop = False,
      rUnparseableResponse = False, rThinkSuppressed = False, rThinkOnlyAttempts = 0, rUnparseableChunks = 0,
      rSilentChunks = 0, rTools = False, rTurns = 0, rToolCalls = 0, rToolBytes = 0, rToolsDegraded = False,
      rToolsRequested = False, rTrippedBudgets = [], rToolsDegradedReason = [], rCacheHit = False, rUnreviewedChunks = 0,
      rUnreviewedFiles = 0, rDeferredFiles = 0, rEffectiveBudget = 0, rResolvedWindow = 0, rReservedOutputTokens = 0,
      rReasoningReserveTokens = 0, rChunkCount = 0, rDegradationAction = [], rResolvedMaxTokens = 0, rModel = [],
      rTokensIn = 0, rTokensOut = 0, rCallRecords = [], rparsedFindingCount = None, rparsedFindings = None,
      rchunkContents = [], rchunkSalvaged = [], rchunkSalvagedOnStop = []\<rparr>"

text \<open>The counters of two chunks of one persona: their tokens are added, and nothing is added to the others.\<close>

theorem merge_accounts_for_chunks_witness:
  "map rTokensIn (mergeChunkResults (\<lambda>s. [s])
     [(sample_result StatusOK ''x'')\<lparr>rTokensIn := 5\<rparr>, (sample_result StatusFailed ''y'')\<lparr>rTokensIn := 7\<rparr>] (\<lambda>_. False)) = [12]"
proof -
  let ?rs = "[(sample_result StatusOK ''x'')\<lparr>rTokensIn := 5\<rparr>, (sample_result StatusFailed ''y'')\<lparr>rTokensIn := 7\<rparr>]"
  let ?ms = "mergeChunkResults (\<lambda>s. [s]) ?rs (\<lambda>_. False)"
  have fits: "\<forall>r\<in>set ?rs. \<forall>f\<in>set counters. fits64 (f r)" by (simp add: counters_def fits64_def sample_result_def)
  have a: "map rAgent ?ms = [''a'']"
    using conjunct1 [OF merge_accounts_for_chunks [OF fits, of "\<lambda>s. [s]" "\<lambda>_. False"]]
    by (simp add: distinct_keys_def sample_result_def)
  then obtain m where m: "?ms = [m]" "rAgent m = ''a''" by (auto simp: map_eq_Cons_conv)
  have "rTokensIn m = 12"
    using merge_accounts_for_chunks [OF fits, of "\<lambda>s. [s]" "\<lambda>_. False"] unfolding m(1)
    by (simp add: counters_def m(2) sample_result_def Let_def fits64_def)
  then show ?thesis unfolding m(1) by simp
qed

theorem merged_status_witness:
  "rUnreviewedChunks (mergeResultGroup (\<lambda>s. [s]) [sample_result StatusOK ''x'', sample_result StatusFailed ''y''] (\<lambda>_. False)) = 1"
proof -
  let ?g = "[sample_result StatusOK ''x'', sample_result StatusFailed ''y'']"
  have ok: "\<exists>r\<in>set ?g. rStatus r = StatusOK" "\<exists>r\<in>set ?g. rStatus r \<noteq> StatusOK"
    "length (filter (\<lambda>r. rStatus r \<noteq> StatusOK) ?g) = 1"
    by (simp_all add: sample_result_def StatusOK_def StatusFailed_def)
  show ?thesis
    using merged_status [of ?g "\<lambda>s. [s]" "\<lambda>_. False"] unfolding if_P [OF ok(1)] using ok(2,3) by auto
qed

subsection \<open>Findings\<close>

definition chunk_findings :: "(string \<Rightarrow> 'f list) \<Rightarrow> ('e, 'c, 'f) result \<Rightarrow> 'f list" where
  "chunk_findings p r =
     (if TrimSpace (rContent r) = [] \<or> (rSalvaged r \<and> \<not> rSalvagedOnStop r) then []
      else p (fst (SplitThink (rContent r))))"

lemma join_nonempty:
  assumes "cs \<noteq> []" "[] \<notin> set cs"
  shows "joinChunkContents cs \<noteq> []"
proof
  assume "joinChunkContents cs = []"
  then have f: "framed (map reply_lines cs) = [[]]" using join_lines [OF assms(1)] by (simp add: Split_def)
  obtain c cs' where cs: "cs = c # cs'" using assms(1) by (cases cs) auto
  show False
  proof (cases cs')
    case Nil
    then have "Split c [NL] = [[]]" using f cs boundary_facts(3)
      by (auto simp: reply_lines_def neutralLine_def chunkBoundaryLine_def split: if_splits)
    then have "c = []" using Join_Split_char [of c NL] by simp
    then show False using assms(2) cs by simp
  next
    case (Cons c' cs'')
    then have "chunkBoundaryLine \<in> set (framed (map reply_lines cs))" using cs by simp
    then show False using f by (simp add: chunkBoundaryLine_def)
  qed
qed

definition binned :: "chunkBin list \<Rightarrow> ('e, 'c, 'f) result \<Rightarrow> ('e, 'c, 'f) result" where
  "binned bs out = out\<lparr>rContent := joinChunkContents (map binContent bs), rchunkContents := map binContent bs,
     rchunkSalvaged := map binSalvaged bs, rchunkSalvagedOnStop := map binOnStop bs\<rparr>"

definition bin_findings :: "(string \<Rightarrow> 'f list) \<Rightarrow> chunkBin \<Rightarrow> 'f list" where
  "bin_findings p b = (if binSalvaged b \<and> \<not> binOnStop b then [] else p (fst (SplitThink (binContent b))))"

lemma parse_binned:
  assumes "rparsedFindings out = None" "bs \<noteq> []"
  shows "parseFindings p (binned bs out) = cacheParsedFindings (concat (map (bin_findings p) bs)) (binned bs out)"
proof -
  have "map (\<lambda>i. if refused (binned bs out) i then [] else p (fst (SplitThink (rchunkContents (binned bs out) ! i))))
      [0..<length (rchunkContents (binned bs out))] = map (\<lambda>i. bin_findings p (bs ! i)) [0..<length bs]"
    by (auto simp: binned_def refused_def bin_findings_def Let_def)
  also have "\<dots> = map (bin_findings p) (map ((!) bs) [0..<length bs])" by simp
  also have "\<dots> = map (bin_findings p) bs" unfolding map_nth ..
  finally have c: "concat (map (\<lambda>i. if refused (binned bs out) i then [] else p (fst (SplitThink (rchunkContents (binned bs out) ! i))))
      [0..<length (rchunkContents (binned bs out))]) = concat (map (bin_findings p) bs)" by simp
  have "rparsedFindings (binned bs out) = None" "rchunkContents (binned bs out) \<noteq> []"
    "length (rchunkSalvaged (binned bs out)) = length (rchunkContents (binned bs out))"
    using assms by (simp_all add: binned_def)
  then show ?thesis unfolding parseFindings_def c by simp
qed

text \<open>The memo of the findings and the counts it decides survive the code after the loop.\<close>

definition reading :: "('e, 'c, 'f) result \<Rightarrow> string \<times> 'f list option \<times> int option \<times> bool \<times> int" where
  "reading r = (rContent r, rparsedFindings r, rparsedFindingCount r, rUnparseableResponse r, rUnparseableChunks r)"

lemma later_stages_reading:
  "reading (merge_serving g a out) = reading out" "reading (merge_fallbacks a out) = reading out"
  "reading (merge_status n a out) = reading out" "reading (promoteDiffTruncation out) = reading out"
  "reading (promoteRePackedDegradation out g) = reading out"
  by (simp_all add: reading_def merge_serving_def serve_from_def merge_fallbacks_def merge_status_def promoteDiffTruncation_def
      promoteRePackedDegradation_def Let_def split: prod.splits)

lemma add_all_memo:
  "rparsedFindings (add_all s g out) = rparsedFindings out" "rparsedFindingCount (add_all s g out) = rparsedFindingCount out"
  "rUnparseableChunks (add_all s g out) = rUnparseableChunks out + int (length (filter rUnparseableResponse g))"
  by (induction g arbitrary: out) (simp_all add: add_all_def add_chunk_def)

lemma merge_contents_reading:
  assumes "bins a \<noteq> []" "[] \<notin> binContent ` set (bins a)" "rparsedFindings (accOut a) = None" "rparsedFindingCount (accOut a) = None"
  shows "reading (merge_contents p a) =
    (let fs = concat (map (bin_findings p) (bins a))
     in (joinChunkContents (map binContent (bins a)), Some fs, Some (int (length fs)),
         fs = [] \<and> 0 < rUnparseableChunks (accOut a), rUnparseableChunks (accOut a)))"
proof -
  have ne: "rContent (binned (bins a) (accOut a)) \<noteq> []"
    unfolding binned_def using assms(1,2) join_nonempty [of "map binContent (bins a)"] by simp
  have "ParsedFindingCount p (binned (bins a) (accOut a)) =
      (let fs = concat (map (bin_findings p) (bins a))
       in (int (length fs), (binned (bins a) (accOut a))\<lparr>rparsedFindings := Some fs, rparsedFindingCount := Some (int (length fs))\<rparr>))"
    using ne assms(4) parse_binned [OF assms(3,1), of p]
    by (simp add: ParsedFindingCount_def cacheParsedFindings_def Let_def) (simp add: binned_def)
  then show ?thesis
    unfolding merge_contents_def Let_def binned_def [symmetric] by (simp add: reading_def binned_def)
qed

lemma bin_of_findings: "concat (map (bin_findings p) (map bin_of (filter (\<lambda>r. TrimSpace (rContent r) \<noteq> []) g))) = concat (map (chunk_findings p) g)"
  by (induction g) (simp_all add: bin_findings_def bin_of_def chunk_findings_def)

text \<open>
  C26. When some chunk has a reply that is not blank, the findings of a merged persona are those of its chunks, each read from its own reply: a blank reply and a reply salvaged from
  a cut-off have none, every other one has what the parser finds once its leading reasoning is stripped.
  The persona counts as unparseable exactly when it has no finding at all and some chunk was unparseable.
\<close>

theorem merged_findings:
  assumes "\<exists>r\<in>set g. TrimSpace (rContent r) \<noteq> []"
  shows "fst (parseFindings p (mergeResultGroup p g s)) = concat (map (chunk_findings p) g) \<and>
    fst (ParsedFindingCount p (mergeResultGroup p g s)) = int (length (concat (map (chunk_findings p) g))) \<and>
    rContent (mergeResultGroup p g s) = joinChunkContents (filter (\<lambda>c. TrimSpace c \<noteq> []) (map rContent g)) \<and>
    (rUnparseableResponse (mergeResultGroup p g s) \<longleftrightarrow>
       concat (map (chunk_findings p) g) = [] \<and> (\<exists>r\<in>set g. rUnparseableResponse r))"
proof -
  let ?a = "merge_fold g (s (rAgent (hd g)))" and ?fs = "concat (map (chunk_findings p) g)"
  have b: "bins ?a \<noteq> []" "[] \<notin> binContent ` set (bins ?a)"
    using assms trim_left_Nil by (auto simp: merge_fold_fields filter_empty_conv bin_of_def TrimSpace_def trim_right.simps)
  have m: "rparsedFindings (accOut ?a) = None" "rparsedFindingCount (accOut ?a) = None"
    by (simp_all add: merge_fold_fields add_all_memo merge_start_def)
  have c: "map binContent (bins ?a) = filter (\<lambda>c. TrimSpace c \<noteq> []) (map rContent g)"
    by (simp add: merge_fold_fields bin_of_def filter_map comp_def)
  have u: "0 < rUnparseableChunks (accOut ?a) \<longleftrightarrow> (\<exists>r\<in>set g. rUnparseableResponse r)"
    by (auto simp: merge_fold_fields add_all_memo merge_start_def filter_empty_conv)
  have f: "concat (map (bin_findings p) (bins ?a)) = ?fs"
    unfolding merge_fold_fields by (rule bin_of_findings)
  have "reading (mergeResultGroup p g s) = (joinChunkContents (filter (\<lambda>c. TrimSpace c \<noteq> []) (map rContent g)), Some ?fs,
      Some (int (length ?fs)), ?fs = [] \<and> (\<exists>r\<in>set g. rUnparseableResponse r), rUnparseableChunks (accOut ?a))"
    unfolding mergeResultGroup_def Let_def later_stages_reading merge_contents_reading [OF b m] c u f by simp
  moreover have "rContent (mergeResultGroup p g s) \<noteq> []"
  proof -
    have "joinChunkContents (map binContent (bins ?a)) \<noteq> []" by (rule join_nonempty) (use b in auto)
    then show ?thesis using calculation unfolding c by (simp add: reading_def)
  qed
  ultimately show ?thesis
    by (simp add: reading_def parseFindings_def ParsedFindingCount_def)
qed

theorem merged_findings_witness:
  "fst (parseFindings (\<lambda>s. [s]) (mergeResultGroup (\<lambda>s. [s]) [sample_result StatusOK ''x'', sample_result StatusOK ''y''] (\<lambda>_. False))) =
     [''x'', ''y'']"
proof -
  let ?g = "[sample_result StatusOK ''x'', sample_result StatusOK ''y'']"
  have t: "TrimSpace ''x'' = ''x''" "TrimSpace ''y'' = ''y''" "SplitThink ''x'' = (''x'', [])" "SplitThink ''y'' = (''y'', [])"
    by code_simp+
  then have "\<exists>r\<in>set ?g. TrimSpace (rContent r) \<noteq> []" by (simp add: sample_result_def)
  note m = merged_findings [OF this, of "\<lambda>s. [s]" "\<lambda>_. False", THEN conjunct1]
  show ?thesis unfolding m using t by (simp add: chunk_findings_def sample_result_def)
qed

subsection \<open>Degradations\<close>

lemma repack_filter: "fold repack_step g a = fold repack_step (filter rservedRePacked g) a"
  by (induction g arbitrary: a) (simp_all add: repack_step_def)

lemma repack_fold:
  "\<forall>r\<in>set g. rservedRePacked r \<Longrightarrow>
     rePacked (fold repack_step g a) = (rePacked a \<or> g \<noteq> []) \<and>
     dropped (fold repack_step g a) = dropped a @ concat (map (FilesDropped \<circ> rTruncation) g)"
  by (induction g arbitrary: a) (auto simp: repack_step_def)

lemma repack_budget:
  "\<forall>r\<in>set g. rservedRePacked r \<Longrightarrow> budget a = Some b \<Longrightarrow>
     budget (fold repack_step g a) = Some (Min (insert b (rEffectiveBudget ` set g)))"
proof (induction g arbitrary: a b)
  case (Cons r g)
  have "budget (repack_step r a) = Some (min b (rEffectiveBudget r))"
    using Cons.prems by (simp add: repack_step_def min_def)
  then have "budget (fold repack_step g (repack_step r a)) = Some (Min (insert (min b (rEffectiveBudget r)) (rEffectiveBudget ` set g)))"
    using Cons by simp
  moreover have "Min (insert (min b (rEffectiveBudget r)) S) = Min (insert b (insert (rEffectiveBudget r) S))" if "finite S" for S
    using that by (cases "S = {}") (simp_all add: min.assoc)
  ultimately show ?case by simp
qed simp

lemma repack_action:
  "\<forall>r\<in>set g. rservedRePacked r \<Longrightarrow> g \<noteq> [] \<Longrightarrow>
     action (fold repack_step g a) =
       (if action a = degradationOverflow \<or> (\<exists>r\<in>set g. rDegradationAction r = degradationOverflow) then degradationOverflow
        else rDegradationAction (last g))"
proof (induction g arbitrary: a)
  case (Cons r g)
  show ?case
  proof (cases "g = []")
    case True
    then show ?thesis using Cons.prems by (simp add: repack_step_def)
  next
    case False
    then show ?thesis using Cons.prems Cons.IH [of "repack_step r a"] by (auto simp: repack_step_def)
  qed
qed simp

text \<open>
  A chunk that was packed again for a fallback marks the persona: the merged record has the number of chunks, the smallest
  budget of the chunks packed again, the overflow action when one of them overflowed and else the last one's, and the
  files any of them or the whole diff dropped, each once and in order. A zero budget leaves no reservation beside it, and
  without such a chunk the record is unchanged.
\<close>

theorem repack_promoted:
  "(if filter rservedRePacked g = [] then promoteRePackedDegradation out g = out
     else rChunkCount (promoteRePackedDegradation out g) = int (length g) \<and>
       rEffectiveBudget (promoteRePackedDegradation out g) = Min (rEffectiveBudget ` set (filter rservedRePacked g)) \<and>
       rDegradationAction (promoteRePackedDegradation out g) =
         (if \<exists>r\<in>set (filter rservedRePacked g). rDegradationAction r = degradationOverflow then degradationOverflow
          else if rDegradationAction (last (filter rservedRePacked g)) = [] then rDegradationAction out
          else rDegradationAction (last (filter rservedRePacked g))) \<and>
       (rEffectiveBudget (promoteRePackedDegradation out g) = 0 \<longrightarrow>
          rReservedOutputTokens (promoteRePackedDegradation out g) = 0 \<and> rResolvedMaxTokens (promoteRePackedDegradation out g) = 0 \<and> rReasoningReserveTokens (promoteRePackedDegradation out g) = 0) \<and>
       (let paths = (\<Union>r\<in>set (filter rservedRePacked g). set (FilesDropped (rTruncation r))) \<union> set (FilesDropped (rDiffTruncation out))
        in if paths = {} then rTruncation (promoteRePackedDegradation out g) = rTruncation out
           else Truncated (rTruncation (promoteRePackedDegradation out g)) \<and> sorted_wrt (<) (FilesDropped (rTruncation (promoteRePackedDegradation out g))) \<and>
             set (FilesDropped (rTruncation (promoteRePackedDegradation out g))) = paths))"
proof -
  define P where "P = filter rservedRePacked g"
  define a where "a = fold repack_step g \<lparr>dropped = [], budget = None, action = [], rePacked = False\<rparr>"
  have P: "\<forall>r\<in>set P. rservedRePacked r" by (simp add: P_def)
  have a: "a = fold repack_step P \<lparr>dropped = [], budget = None, action = [], rePacked = False\<rparr>"
    unfolding a_def P_def by (rule repack_filter)
  show ?thesis
  proof (cases "P = []")
    case True
    then show ?thesis unfolding P_def [symmetric] by (simp add: promoteRePackedDegradation_def a_def [symmetric] Let_def a)
  next
    case False
    then obtain r P' where rP: "P = r # P'" by (cases P) auto
    have f: "rePacked a" "dropped a = concat (map (FilesDropped \<circ> rTruncation) P)"
      using repack_fold [OF P] False unfolding a by simp_all
    have b: "budget a = Some (Min (rEffectiveBudget ` set P))"
      using repack_budget [of P' "repack_step r \<lparr>dropped = [], budget = None, action = [], rePacked = False\<rparr>" "rEffectiveBudget r"] P
      unfolding a rP by (simp add: repack_step_def)
    have c: "action a = (if \<exists>r\<in>set P. rDegradationAction r = degradationOverflow then degradationOverflow else rDegradationAction (last P))"
      using repack_action [OF P False] unfolding a by (simp add: degradationOverflow_def)
    define paths where "paths = sort (remdups (dropped a @ FilesDropped (rDiffTruncation out)))"
    have s: "set paths = (\<Union>r\<in>set P. set (FilesDropped (rTruncation r))) \<union> set (FilesDropped (rDiffTruncation out))"
      "sorted_wrt (<) paths" "0 < length paths \<longleftrightarrow> set paths \<noteq> {}"
      unfolding paths_def f(2) by (auto simp: strict_sorted_iff)
    have e: "promoteRePackedDegradation out g = (let out1 = out\<lparr>rChunkCount := int (length g), rDegradationAction := (if action a \<noteq> [] then action a else rDegradationAction out),
          rEffectiveBudget := Min (rEffectiveBudget ` set P)\<rparr>;
        out2 = (if Min (rEffectiveBudget ` set P) = 0 then out1\<lparr>rReservedOutputTokens := 0, rResolvedMaxTokens := 0, rReasoningReserveTokens := 0\<rparr> else out1)
      in if 0 < length paths then out2\<lparr>rTruncation := \<lparr>Truncated = True, FilesDropped = paths, AllDropped = False\<rparr>\<rparr> else out2)"
      unfolding promoteRePackedDegradation_def a_def [symmetric] Let_def paths_def [symmetric] b using f(1) by simp
    have "degradationOverflow \<noteq> []" by (simp add: degradationOverflow_def)
    then show ?thesis
      unfolding P_def [symmetric] s(1) [symmetric] using False s(2,3) by (simp add: e Let_def c)
  qed
qed

theorem repack_promoted_witness:
  "rEffectiveBudget (promoteRePackedDegradation (sample_result StatusOK ''x'')
     [sample_result StatusOK ''x'', (sample_result StatusOK ''y'')\<lparr>rservedRePacked := True, rEffectiveBudget := 5\<rparr>]) = 5"
proof -
  let ?g = "[sample_result StatusOK ''x'', (sample_result StatusOK ''y'')\<lparr>rservedRePacked := True, rEffectiveBudget := 5\<rparr>]"
  have f: "filter rservedRePacked ?g = [(sample_result StatusOK ''y'')\<lparr>rservedRePacked := True, rEffectiveBudget := 5\<rparr>]"
    by (simp add: sample_result_def)
  then have "filter rservedRePacked ?g \<noteq> []" by simp
  from repack_promoted [of ?g "sample_result StatusOK ''x''", unfolded if_not_P [OF this]]
  show ?thesis unfolding f by simp
qed

end
