(* ===== verification/GoUnmarshal.thy ===== *)
theory GoUnmarshal
  imports GoJson
begin

text \<open>
  What the program uses of Go's \<^verbatim>\<open>json.Unmarshal\<close>: the syntax check of a whole document (white space, the
  number grammar, escapes, control characters, the nesting limit) and the decoding of string literals
  (surrogate pairs, invalid UTF-8 replaced by U+FFFD). A document is a \<open>jdoc\<close> tree; a key is matched to a field
  exactly or under Go's case folding. The lemma of the theory is that reading back an object of strings
  that \<open>marshal\<close> wrote gives these strings, up to invalid UTF-8.
\<close>

subsection \<open>String literals\<close>

definition hex_value :: "char \<Rightarrow> nat option" where
  "hex_value c =
     (if 48 \<le> byte c \<and> byte c \<le> (57 :: nat) then Some (byte c - 48)
      else if 97 \<le> byte c \<and> byte c \<le> (102 :: nat) then Some (byte c - 87)
      else if 65 \<le> byte c \<and> byte c \<le> (70 :: nat) then Some (byte c - 55)
      else None)"

definition hex4 :: "string \<Rightarrow> nat option" where
  "hex4 s =
     (case s of
        a # b # c # d # _ \<Rightarrow>
          (case (hex_value a, hex_value b, hex_value c, hex_value d) of
             (Some w, Some x, Some y, Some z) \<Rightarrow> Some (((w * 16 + x) * 16 + y) * 16 + z)
           | _ \<Rightarrow> None)
      | _ \<Rightarrow> None)"

definition high_surrogate :: "nat \<Rightarrow> bool" where "high_surrogate r \<longleftrightarrow> 55296 \<le> r \<and> r < 56320"
definition low_surrogate :: "nat \<Rightarrow> bool" where "low_surrogate r \<longleftrightarrow> 56320 \<le> r \<and> r < 57344"

text \<open>The second half of a surrogate pair that follows a first one.\<close>

definition second_half :: "nat \<Rightarrow> string \<Rightarrow> nat option" where
  "second_half r s =
     (if high_surrogate r \<and> has_prefix [backslash, CHR ''u''] s then
        (case hex4 (drop 2 s) of
           Some r2 \<Rightarrow> if low_surrogate r2 then Some ((r - 55296) * 1024 + (r2 - 56320) + 65536) else None
         | None \<Rightarrow> None)
      else None)"

text \<open>Reads a literal after its opening quote: the decoded text and what follows the closing quote.\<close>

fun unquote :: "string \<Rightarrow> (string \<times> string) option" where
  "unquote [] = None"
| "unquote (c # cs) =
     (if c = quote_mark then Some ([], cs)
      else if c = backslash then
        (case cs of
           [] \<Rightarrow> None
         | x # rest \<Rightarrow>
             if x = CHR ''u'' then
               (case hex4 rest of
                  None \<Rightarrow> None
                | Some r \<Rightarrow>
                    if high_surrogate r \<or> low_surrogate r then
                      (case second_half r (drop 4 rest) of
                         Some dec \<Rightarrow> prepend (encode_rune dec) (unquote (drop 10 rest))
                       | None \<Rightarrow> prepend (encode_rune RuneError) (unquote (drop 4 rest)))
                    else prepend (encode_rune r) (unquote (drop 4 rest)))
             else if x \<in> {CHR ''b'', CHR ''f'', CHR ''n'', CHR ''r'', CHR ''t'', backslash, CHR ''/'', quote_mark}
             then prepend [unescape_char x] (unquote rest)
             else None)
      else if byte c < 32 then None
      else if byte c < 128 then prepend [c] (unquote cs)
      else case decode_rune (c # cs) of (r, w) \<Rightarrow>
        if w \<le> 1 then prepend (encode_rune RuneError) (unquote cs)
        else prepend (c # take (w - 1) cs) (unquote (drop (w - 1) cs)))"

subsection \<open>Documents\<close>

datatype jdoc =
    DNull
  | DBool bool
  | DNum string
  | DStr string
  | DArr "jdoc list"
  | DObj "(string \<times> jdoc) list"

definition json_space :: "char \<Rightarrow> bool" where
  "json_space c \<longleftrightarrow> c = CHR '' '' \<or> c = CHR 0x09 \<or> c = CHR 0x0A \<or> c = CHR 0x0D"

definition skip_space :: "string \<Rightarrow> string" where
  "skip_space s = dropWhile json_space s"

lemma skip_space_Cons: "skip_space s = c # cs \<Longrightarrow> length cs < length s"
  using length_dropWhile_le [of json_space s] by (simp add: skip_space_def)

definition digit :: "char \<Rightarrow> bool" where
  "digit c \<longleftrightarrow> 48 \<le> byte c \<and> byte c \<le> (57 :: nat)"

text \<open>One or more digits after \<open>p\<close>, which has been read.\<close>

definition some_digits :: "string \<Rightarrow> string \<Rightarrow> (string \<times> string) option" where
  "some_digits p s = (if takeWhile digit s = [] then None else Some (p @ takeWhile digit s, dropWhile digit s))"

definition int_part :: "string \<Rightarrow> string \<Rightarrow> (string \<times> string) option" where
  "int_part p s = (if has_prefix ''0'' s then Some (p @ ''0'', tl s) else some_digits p s)"

definition frac_part :: "string \<times> string \<Rightarrow> (string \<times> string) option" where
  "frac_part = (\<lambda>(p, s). if has_prefix ''.'' s then some_digits (p @ ''.'') (tl s) else Some (p, s))"

definition exp_part :: "string \<times> string \<Rightarrow> (string \<times> string) option" where
  "exp_part = (\<lambda>(p, s).
     if has_prefix ''e'' s \<or> has_prefix ''E'' s then
       (if has_prefix ''+'' (tl s) \<or> has_prefix ''-'' (tl s) then some_digits (p @ take 2 s) (drop 2 s)
        else some_digits (p @ take 1 s) (tl s))
     else Some (p, s))"

definition parse_number :: "string \<Rightarrow> (string \<times> string) option" where
  "parse_number s =
     Option.bind (Option.bind (if has_prefix ''-'' s then int_part ''-'' (tl s) else int_part [] s) frac_part) exp_part"

definition maxNestingDepth :: nat where "maxNestingDepth = 10000"

definition parse_literal :: "string \<Rightarrow> (jdoc \<times> string) option" where
  "parse_literal s =
     (if has_prefix ''null'' s then Some (DNull, drop 4 s)
      else if has_prefix ''true'' s then Some (DBool True, drop 4 s)
      else if has_prefix ''false'' s then Some (DBool False, drop 5 s)
      else map_option (\<lambda>(n, rest). (DNum n, rest)) (parse_number s))"

text \<open>
  A value, the elements of an array up to its bracket, and the members of an object up to its brace, at nesting
  depth \<open>d\<close>. What is left after a part is always shorter than what was there; the comparisons of the lengths make
  the recursion obviously well-founded and never fail.
\<close>

function parse_value :: "nat \<Rightarrow> string \<Rightarrow> (jdoc \<times> string) option"
  and parse_elems :: "nat \<Rightarrow> string \<Rightarrow> (jdoc list \<times> string) option"
  and parse_members :: "nat \<Rightarrow> string \<Rightarrow> ((string \<times> jdoc) list \<times> string) option" where
  "parse_value d s =
     (case skip_space s of
        [] \<Rightarrow> None
      | c # cs \<Rightarrow>
          if c = quote_mark then map_option (\<lambda>(x, rest). (DStr x, rest)) (unquote cs)
          else if c = CHR ''['' then
            (if d + 1 > maxNestingDepth then None
             else if has_prefix '']'' (skip_space cs) then Some (DArr [], tl (skip_space cs))
             else map_option (\<lambda>(vs, rest). (DArr vs, rest)) (parse_elems (d + 1) cs))
          else if c = CHR ''{'' then
            (if d + 1 > maxNestingDepth then None
             else if has_prefix ''}'' (skip_space cs) then Some (DObj [], tl (skip_space cs))
             else map_option (\<lambda>(ms, rest). (DObj ms, rest)) (parse_members (d + 1) cs))
          else parse_literal (c # cs))"
| "parse_elems d s =
     (case parse_value d s of
        None \<Rightarrow> None
      | Some (v, rest) \<Rightarrow>
          (case skip_space rest of
             [] \<Rightarrow> None
           | c # cs \<Rightarrow>
               if c = CHR '']'' then Some ([v], cs)
               else if c = CHR '','' \<and> length cs < length s then
                 map_option (\<lambda>(vs, rest). (v # vs, rest)) (parse_elems d cs)
               else None))"
| "parse_members d s =
     (case skip_space s of
        [] \<Rightarrow> None
      | q # ks \<Rightarrow>
          if q \<noteq> quote_mark then None
          else case unquote ks of
            None \<Rightarrow> None
          | Some (key, after) \<Rightarrow>
              (case skip_space after of
                 [] \<Rightarrow> None
               | colon # vs \<Rightarrow>
                   if colon \<noteq> CHR '':'' \<or> \<not> length vs < length s then None
                   else case parse_value d vs of
                     None \<Rightarrow> None
                   | Some (v, rest) \<Rightarrow>
                       (case skip_space rest of
                          [] \<Rightarrow> None
                        | c # cs \<Rightarrow>
                            if c = CHR ''}'' then Some ([(key, v)], cs)
                            else if c = CHR '','' \<and> length cs < length s then
                              map_option (\<lambda>(ms, rest). ((key, v) # ms, rest)) (parse_members d cs)
                            else None)))"
  by pat_completeness auto

termination
  by (relation "measure (\<lambda>x. case x of Inl (d, s) \<Rightarrow> 2 * length s | Inr (Inl (d, s)) \<Rightarrow> 2 * length s + 1 | Inr (Inr (d, s)) \<Rightarrow> 2 * length s + 1)")
    (auto dest: skip_space_Cons)

declare parse_value.simps [simp del] parse_elems.simps [simp del] parse_members.simps [simp del]

definition parse_document :: "string \<Rightarrow> jdoc option" where
  "parse_document s =
     (case parse_value 0 s of
        None \<Rightarrow> None
      | Some (v, rest) \<Rightarrow> if skip_space rest = [] then Some v else None)"

subsection \<open>Fields\<close>

text \<open>
  The folding of a key: letters of ASCII to upper case, and the two other runes that fold to one of them. A rune
  that folds elsewhere stays outside ASCII, where no name of a field is.
\<close>

definition fold_rune :: "nat \<Rightarrow> nat" where
  "fold_rune r = (if 97 \<le> r \<and> r \<le> 122 then r - 32 else if r = 383 then 83 else if r = 8490 then 75 else r)"

definition fold_name :: "string \<Rightarrow> nat list" where
  "fold_name s = map fold_rune (decode_runes s)"

definition field_of :: "string list \<Rightarrow> string \<Rightarrow> string option" where
  "field_of names key =
     (if key \<in> set names then Some key else find (\<lambda>n. fold_name n = fold_name key) names)"
subsection \<open>Reading back written strings\<close>

lemma hex_low_digit: "k < 16 \<Longrightarrow> hex_value (hex_low k) = Some k"
proof -
  assume "k < 16"
  then have "k \<in> set [0..<16]" by simp
  then show ?thesis by (auto simp: hex_low_def hex_value_def upt_rec)
qed

lemma byte_at_quote: "byte quote_mark = 34" "byte backslash = 92" "quote_mark \<noteq> backslash" "backslash \<noteq> quote_mark"
  by (simp_all add: quote_mark_def backslash_def)

lemma unquote_end: "unquote (quote_mark # t) = Some ([], t)"
  by simp

lemma unquote_short:
  "x \<in> {CHR ''b'', CHR ''f'', CHR ''n'', CHR ''r'', CHR ''t'', backslash, CHR ''/'', quote_mark} \<Longrightarrow>
     unquote (backslash # x # t) = prepend [unescape_char x] (unquote t)"
  using byte_at_quote by (auto simp: backslash_def quote_mark_def)

lemma unquote_hex:
  "hex4 h = Some r \<Longrightarrow> \<not> high_surrogate r \<Longrightarrow> \<not> low_surrogate r \<Longrightarrow>
     unquote (backslash # CHR ''u'' # h) = prepend (encode_rune r) (unquote (drop 4 h))"
  using byte_at_quote by simp

lemma unquote_plain:
  "32 \<le> byte c \<Longrightarrow> byte c < (128 :: nat) \<Longrightarrow> c \<noteq> quote_mark \<Longrightarrow> c \<noteq> backslash \<Longrightarrow> unquote (c # t) = prepend [c] (unquote t)"
  by simp

lemma unquote_wide:
  "decode_rune (c # cs) = (r, w) \<Longrightarrow> 128 \<le> byte c \<Longrightarrow> 1 < w \<Longrightarrow>
     unquote (c # cs) = prepend (c # take (w - 1) cs) (unquote (drop (w - 1) cs))"
  using byte_at_quote by auto

declare unquote.simps [simp del]

lemma encode_ascii: "n < 128 \<Longrightarrow> encode_rune n = [char_of n]"
  by (simp add: encode_rune_def)

lemma unquote_byte:
  assumes "byte c < (128 :: nat)"
  shows "unquote (escape_byte c @ t) = prepend [c] (unquote t)"
proof -
  have named: ?thesis
    if "byte c = k" "escape_byte c = [backslash, x]" "x \<in> {CHR ''b'', CHR ''f'', CHR ''n'', CHR ''r'', CHR ''t''}"
      "unescape_char x = char_of (k :: nat)" for k x
  proof -
    have "char_of k = c" using that(1) by auto
    moreover have "unquote (backslash # x # t) = prepend [unescape_char x] (unquote t)"
      using that(3) by (intro unquote_short) blast
    ultimately show ?thesis using that(2,4) by simp
  qed
  have nq: "c \<noteq> quote_mark \<and> c \<noteq> backslash" if "byte c < (33 :: nat)"
    using that by (auto simp: quote_mark_def backslash_def)
  consider "c = quote_mark \<or> c = backslash" | "byte c = (8 :: nat)" | "byte c = (12 :: nat)" | "byte c = (10 :: nat)"
    | "byte c = (13 :: nat)" | "byte c = (9 :: nat)"
    | "\<not> (c = quote_mark \<or> c = backslash)" "byte c \<notin> {8, 12, 10, 13, 9 :: nat}"
      "byte c < (32 :: nat) \<or> c = CHR ''<'' \<or> c = CHR ''>'' \<or> c = CHR ''&''"
    | "\<not> (c = quote_mark \<or> c = backslash)" "byte c \<notin> {8, 12, 10, 13, 9 :: nat}"
      "\<not> (byte c < (32 :: nat) \<or> c = CHR ''<'' \<or> c = CHR ''>'' \<or> c = CHR ''&'')"
    by blast
  then show ?thesis
  proof cases
    case 1
    then have "escape_byte c = [backslash, c]" by (simp add: escape_byte_def)
    moreover have "unescape_char c = c" using 1 by (auto simp: unescape_char_def quote_mark_def backslash_def)
    ultimately show ?thesis using 1 unquote_short [of c t] by auto
  next
    case 2
    then show ?thesis by (intro named [of 8 "CHR ''b''"]) (simp_all add: escape_byte_def unescape_char_def nq)
  next
    case 3
    then show ?thesis by (intro named [of 12 "CHR ''f''"]) (simp_all add: escape_byte_def unescape_char_def nq)
  next
    case 4
    then show ?thesis by (intro named [of 10 "CHR ''n''"]) (simp_all add: escape_byte_def unescape_char_def nq)
  next
    case 5
    then show ?thesis by (intro named [of 13 "CHR ''r''"]) (simp_all add: escape_byte_def unescape_char_def nq)
  next
    case 6
    then show ?thesis by (intro named [of 9 "CHR ''t''"]) (simp_all add: escape_byte_def unescape_char_def nq)
  next
    case 7
    then have e: "escape_byte c = backslash # ''u00'' @ [hex_low (byte c div 16), hex_low (byte c mod 16)]"
      by (auto simp: escape_byte_def)
    have zero: "hex_value (CHR ''0'') = Some 0" by (simp add: hex_value_def)
    have "byte c div 16 < (16 :: nat)" using assms by simp
    then have "hex4 (''00'' @ [hex_low (byte c div 16), hex_low (byte c mod 16)] @ t) = Some (byte c)"
      by (simp add: hex4_def hex_low_digit zero)
    then show ?thesis
      using assms unquote_hex [of "''00'' @ [hex_low (byte c div 16), hex_low (byte c mod 16)] @ t" "byte c"]
      by (simp add: e high_surrogate_def low_surrogate_def encode_ascii)
  next
    case 8
    then have "escape_byte c = [c]" by (auto simp: escape_byte_def)
    then show ?thesis using 8 assms unquote_plain [of c t] by simp
  qed
qed

lemma decode_rune_local:
  assumes "decode_rune (c # cs) = (r, w)" "128 \<le> byte c" "1 < w"
  shows "decode_rune (c # take (w - 1) cs @ t) = (r, w)"
  using decode_rune_multi [OF assms] assms(1)
  by (elim disjE exE conjE) (auto simp: Let_def rune_width_def split: if_splits prod.splits)

lemma unquote_escape: "unquote (escape s @ quote_mark # rest) = Some (coerce s, rest)"
  supply escape.simps [simp] coerce.simps [simp]
proof (induction s rule: escape.induct)
  case 1
  then show ?case by (simp add: unquote_end)
next
  case (2 c cs)
  obtain r w where d: "decode_rune (c # cs) = (r, w)" by fastforce
  consider "byte c < (128::nat)" | "128 \<le> byte c" "w \<le> 1"
    | "128 \<le> byte c" "1 < w" "r = 8232 \<or> r = 8233" | "128 \<le> byte c" "1 < w" "\<not> (r = 8232 \<or> r = 8233)"
    by linarith
  then show ?case
  proof cases
    case 1
    then have "w = 1" using d by (auto simp: Let_def rune_width_cases split: prod.splits)
    then show ?thesis using 2(1) [OF d [symmetric] refl 1] 1 unquote_byte [OF 1] d by (simp add: prepend_def)
  next
    case 2
    have "escape (c # cs) = backslash # CHR ''u'' # ''fffd'' @ escape cs" using d 2 by simp
    moreover have "coerce (c # cs) = encode_rune 65533 @ coerce cs" using d 2 by (simp add: RuneError_def)
    moreover have "hex4 (''fffd'' @ t) = Some 65533" for t by (simp add: hex4_def hex_value_def)
    ultimately show ?thesis
      using "2.IH"(2) [OF d [symmetric] refl] 2 unquote_hex [of "''fffd'' @ escape cs @ quote_mark # rest" 65533]
      by (simp add: prepend_def high_surrogate_def low_surrogate_def)
  next
    case 3
    define code where "code = (if r = 8232 then ''2028'' else ''2029'')"
    have rr: "escape (c # cs) = backslash # CHR ''u'' # code @ escape (drop (w - 1) cs)" using d 3 by (auto simp: code_def)
    have ih: "unquote (escape (drop (w - 1) cs) @ quote_mark # rest) = Some (coerce (drop (w - 1) cs), rest)"
      using "2.IH"(3,4) [OF d [symmetric] refl] 3 by (metis not_le)
    have co: "coerce (c # cs) = encode_rune r @ coerce (drop (w - 1) cs)"
      using d 3 decode_rune_separator [OF d 3] by (auto simp: append_Cons [symmetric] simp del: append_Cons)
    define u where "u = escape (drop (w - 1) cs) @ quote_mark # rest"
    have "hex4 (code @ u) = Some r" "drop 4 (code @ u) = u" using 3(3) by (auto simp: code_def hex4_def hex_value_def)
    moreover have "\<not> high_surrogate r" "\<not> low_surrogate r" using 3(3) by (auto simp: high_surrogate_def low_surrogate_def)
    ultimately have "unquote (backslash # CHR ''u'' # code @ u) = prepend (encode_rune r) (unquote u)"
      using unquote_hex [of "code @ u" r] by simp
    then have "unquote (escape (c # cs) @ quote_mark # rest) = prepend (encode_rune r) (unquote u)"
      unfolding rr u_def by simp
    then show ?thesis unfolding co using ih by (simp add: u_def prepend_def)
  next
    case 4
    define t where "t = escape (drop (w - 1) cs) @ quote_mark # rest"
    have "escape (c # cs) @ quote_mark # rest = c # take (w - 1) cs @ t" using d 4 by (simp add: t_def)
    moreover have "length (take (w - 1) cs) = w - 1" using decode_rune_multi [OF d 4(1,2)] by auto
    ultimately have "unquote (escape (c # cs) @ quote_mark # rest) = prepend (c # take (w - 1) cs) (unquote t)"
      using unquote_wide [OF decode_rune_local [OF d 4(1,2), of t] 4(1,2)] by simp
    moreover have "unquote t = Some (coerce (drop (w - 1) cs), rest)"
      using "2.IH"(5) [OF d [symmetric] refl] 4 unfolding t_def by (metis not_le)
    moreover have "coerce (c # cs) = c # take (w - 1) cs @ coerce (drop (w - 1) cs)" using d 4 by simp
    ultimately show ?thesis by (simp add: prepend_def)
  qed
qed

lemma skip_space_stop: "\<not> json_space c \<Longrightarrow> skip_space (c # cs) = c # cs"
  by (simp add: skip_space_def)

lemma no_space: "\<not> json_space quote_mark" "\<not> json_space (CHR '':'')" "\<not> json_space (CHR '','')" "\<not> json_space (CHR ''}'')"
  "\<not> json_space (CHR ''{'')"
  by (simp_all add: json_space_def quote_mark_def)

lemma quote_no_brace: "quote_mark \<noteq> CHR ''{''" "quote_mark \<noteq> CHR ''}''" "CHR ''{'' \<noteq> quote_mark" "CHR ''}'' \<noteq> quote_mark"
  by (simp_all add: quote_mark_def)

lemma parse_quoted: "parse_value d (quoted x @ t) = Some (DStr (coerce x), t)"
  by (simp add: parse_value.simps quoted_def skip_space_stop no_space unquote_escape)

definition pair_text :: "string \<times> string \<Rightarrow> string" where
  "pair_text = (\<lambda>(k, x). quoted k @ '':'' @ quoted x)"

lemma parse_pair:
  "parse_members d (pair_text (k, x) @ c # t) =
     (if json_space c then parse_members d (pair_text (k, x) @ c # t)
      else if c = CHR ''}'' then Some ([(coerce k, DStr (coerce x))], t)
      else if c = CHR '','' then map_option (\<lambda>(ms, rest). ((coerce k, DStr (coerce x)) # ms, rest)) (parse_members d t)
      else None)"
proof (cases "json_space c")
  case False
  define vs where "vs = quoted x @ c # t"
  have s: "pair_text (k, x) @ c # t = quote_mark # escape k @ quote_mark # CHR '':'' # vs"
    by (simp add: pair_text_def quoted_def vs_def)
  have "length vs < length (pair_text (k, x) @ c # t)" unfolding s by simp
  moreover have "length t < length (pair_text (k, x) @ c # t)" by simp
  moreover have "parse_value d vs = Some (DStr (coerce x), c # t)" unfolding vs_def by (rule parse_quoted)
  ultimately show ?thesis
    using False unfolding parse_members.simps [of d "pair_text (k, x) @ c # t"]
    by (simp add: s skip_space_stop no_space unquote_escape)
qed simp

lemma parse_pairs:
  "kvs \<noteq> [] \<Longrightarrow> parse_members d (Join (map pair_text kvs) '','' @ CHR ''}'' # t) =
     Some (map (\<lambda>(k, x). (coerce k, DStr (coerce x))) kvs, t)"
proof (induction kvs)
  case (Cons p kvs)
  obtain k x where p: "p = (k, x)" by (cases p)
  show ?case
  proof (cases kvs)
    case Nil
    then show ?thesis by (simp add: p parse_pair no_space)
  next
    case (Cons q qs)
    then have "Join (map pair_text (p # kvs)) '','' @ CHR ''}'' # t = pair_text (k, x) @ CHR '','' # Join (map pair_text kvs) '','' @ CHR ''}'' # t"
      by (simp add: p)
    then show ?thesis using Cons.IH Cons by (simp add: parse_pair no_space p)
  qed
qed simp

definition strings_object :: "(string \<times> string) list \<Rightarrow> json" where
  "strings_object kvs = JObj (map (\<lambda>(k, x). (k, JStr x)) kvs)"

lemma marshal_strings: "marshal (strings_object kvs) = CHR ''{'' # Join (map pair_text kvs) '','' @ ''}''"
proof -
  have "map (\<lambda>(k, v). quoted k @ '':'' @ marshal v) (map (\<lambda>(k, x). (k, JStr x)) kvs) = map pair_text kvs"
    by (auto simp: pair_text_def)
  then show ?thesis unfolding strings_object_def marshal.simps by (simp only: append.simps)
qed

lemma document_read_back:
  assumes "kvs \<noteq> []"
  shows "parse_document (marshal (strings_object kvs)) = Some (DObj (map (\<lambda>(k, x). (coerce k, DStr (coerce x))) kvs))"
proof -
  obtain k x rest where "kvs = (k, x) # rest" using assms by (cases kvs) auto
  then obtain cs where cs: "Join (map pair_text kvs) '','' @ ''}'' = quote_mark # cs"
    by (cases rest) (simp_all add: pair_text_def quoted_def)
  then have "\<not> has_prefix ''}'' (skip_space (Join (map pair_text kvs) '','' @ ''}''))"
    by (simp add: skip_space_stop no_space quote_no_brace)
  then have "parse_value 0 (marshal (strings_object kvs)) = Some (DObj (map (\<lambda>(k, x). (coerce k, DStr (coerce x))) kvs), [])"
    using parse_pairs [OF assms, of 1 "[]"] quote_no_brace
    by (simp add: marshal_strings parse_value.simps skip_space_stop no_space maxNestingDepth_def)
  then show ?thesis by (simp add: parse_document_def skip_space_def)
qed


end
