(* ===== verification/Envelope.thy ===== *)
theory Envelope
  imports DebateRun GoUnmarshal Think
begin

text \<open>
  The judge's ruling envelope: \<^verbatim>\<open>internal/debate/envelope.go\<close>. A reply is free text; the first balanced object that
  decodes and has an outcome is the ruling. Shown here: a reading is always one of the four outcomes, and an
  envelope is read back from any reply that puts no brace before it.
\<close>

definition EmptyRulingReasoning :: string where "EmptyRulingReasoning = ''empty_response''"

record ruling =
  rlOutcome :: string
  rlSettledSeverity :: string
  rlClusterDecision :: string
  rlReasoning :: string

definition ruling_ChallengeSurvived :: "ruling \<Rightarrow> bool" where
  "ruling_ChallengeSurvived r \<longleftrightarrow> rlOutcome r = OutcomeUphold \<or> rlOutcome r = OutcomeSplit"

definition unresolved_ruling :: "string \<Rightarrow> ruling" where
  "unresolved_ruling reasoning =
     \<lparr>rlOutcome = OutcomeUnresolved, rlSettledSeverity = [], rlClusterDecision = [], rlReasoning = reasoning\<rparr>"

definition reviewSeverity :: "string \<Rightarrow> bool" where
  "reviewSeverity s \<longleftrightarrow> s = SevCritical \<or> s = SevHigh \<or> s = SevMedium \<or> s = SevLow"

text \<open>The mark opens with the three bytes of an ellipsis.\<close>

definition maxNotesLen :: nat where "maxNotesLen = 2000"

function back_up :: "string \<Rightarrow> nat \<Rightarrow> nat" where
  "back_up s n = (if n > 0 \<and> is_cont (s ! n) then back_up s (n - 1) else n)"
  by pat_completeness auto
termination
  by (relation "measure snd") auto

declare back_up.simps [simp del]

definition truncate_notes :: "string \<Rightarrow> string" where
  "truncate_notes s =
     (if length s \<le> maxNotesLen then s
      else take (back_up s maxNotesLen) s @ [CHR 0xE2, CHR 0x80, CHR 0xA6] @ ''[truncated]'')"

subsection \<open>The first balanced object\<close>

fun object_end :: "nat \<Rightarrow> bool \<Rightarrow> bool \<Rightarrow> string \<Rightarrow> nat option" where
  "object_end depth inside esc [] = None"
| "object_end depth inside esc (c # cs) =
     (if inside then
        map_option Suc
          (if esc then object_end depth True False cs
           else if c = backslash then object_end depth True True cs
           else if c = quote_mark then object_end depth False False cs
           else object_end depth True False cs)
      else if c = quote_mark then map_option Suc (object_end depth True esc cs)
      else if c = CHR ''{'' then map_option Suc (object_end (depth + 1) False esc cs)
      else if c = CHR ''}'' then
        (if depth - 1 = 0 then Some 1 else map_option Suc (object_end (depth - 1) False esc cs))
      else map_option Suc (object_end depth False esc cs))"

definition extractJSONObject :: "string \<Rightarrow> string" where
  "extractJSONObject s =
     (case Index s ''{'' of
        None \<Rightarrow> []
      | Some start \<Rightarrow>
          (case object_end 0 False False (drop start s) of None \<Rightarrow> [] | Some n \<Rightarrow> take n (drop start s)))"

subsection \<open>Decoding\<close>

definition ruling_fields :: "string list" where
  "ruling_fields = [''outcome'', ''settled_severity'', ''cluster_decision'', ''reasoning'']"

record candidate =
  cdOutcome :: "string option"
  cdSettledSeverity :: string
  cdClusterDecision :: string
  cdReasoning :: string
  cdTypeError :: bool

text \<open>A null leaves a string field as it is and clears the pointer; any other value is an error of type.\<close>

definition string_field :: "jdoc \<Rightarrow> string \<Rightarrow> string option" where
  "string_field v old = (case v of DNull \<Rightarrow> Some old | DStr x \<Rightarrow> Some x | _ \<Rightarrow> None)"

definition set_member :: "string \<times> jdoc \<Rightarrow> candidate \<Rightarrow> candidate" where
  "set_member = (\<lambda>(key, v) cd.
     case field_of ruling_fields key of
       None \<Rightarrow> cd
     | Some name \<Rightarrow>
         if name = ''outcome'' then
           (case v of DNull \<Rightarrow> cd\<lparr>cdOutcome := None\<rparr> | DStr x \<Rightarrow> cd\<lparr>cdOutcome := Some x\<rparr>
            | _ \<Rightarrow> cd\<lparr>cdTypeError := True\<rparr>)
         else if name = ''settled_severity'' then
           (case string_field v (cdSettledSeverity cd) of
              Some x \<Rightarrow> cd\<lparr>cdSettledSeverity := x\<rparr> | None \<Rightarrow> cd\<lparr>cdTypeError := True\<rparr>)
         else if name = ''cluster_decision'' then
           (case string_field v (cdClusterDecision cd) of
              Some x \<Rightarrow> cd\<lparr>cdClusterDecision := x\<rparr> | None \<Rightarrow> cd\<lparr>cdTypeError := True\<rparr>)
         else
           (case string_field v (cdReasoning cd) of
              Some x \<Rightarrow> cd\<lparr>cdReasoning := x\<rparr> | None \<Rightarrow> cd\<lparr>cdTypeError := True\<rparr>))"

text \<open>The outcome and the other fields, where decoding gives no error and an outcome.\<close>

definition unmarshal_candidate :: "string \<Rightarrow> (string \<times> string \<times> string \<times> string) option" where
  "unmarshal_candidate obj =
     (case parse_document obj of
        Some (DObj ms) \<Rightarrow>
          (let cd = fold set_member ms \<lparr>cdOutcome = None, cdSettledSeverity = [], cdClusterDecision = [],
                                        cdReasoning = [], cdTypeError = False\<rparr> in
           if cdTypeError cd then None
           else case cdOutcome cd of
             None \<Rightarrow> None
           | Some o' \<Rightarrow> Some (o', cdSettledSeverity cd, cdClusterDecision cd, cdReasoning cd))
      | _ \<Rightarrow> None)"

definition ruleFromCandidate :: "string \<Rightarrow> string \<Rightarrow> string \<Rightarrow> string \<Rightarrow> string \<Rightarrow> ruling" where
  "ruleFromCandidate outcome settled cluster reasoning raw =
     (let o' = ToLower (TrimSpace outcome) in
      if \<not> (o' = OutcomeUphold \<or> o' = OutcomeOverturn \<or> o' = OutcomeSplit)
      then unresolved_ruling (''invalid_outcome: '' @ truncate_notes outcome @ '' (raw: '' @ truncate_notes raw @ '')'')
      else let sev = NormalizeSeverity settled; sev = (if \<not> reviewSeverity sev then [] else sev);
               cd = ToLower (TrimSpace cluster); cd = (if cd \<noteq> ClusterMerge \<and> cd \<noteq> ClusterSeparate then [] else cd)
        in \<lparr>rlOutcome = o', rlSettledSeverity = sev, rlClusterDecision = cd, rlReasoning = reasoning\<rparr>)"

lemma extract_nonempty: "Index s obj = Some i \<Longrightarrow> obj \<noteq> [] \<Longrightarrow> length (drop (i + length obj) s) < length s"
  using Index_Some [of s obj i] by (cases obj) auto

lemma index_advances: "Index s ''{'' = Some i \<Longrightarrow> length (drop (i + 1) s) < length s"
  using Index_Some [of s "''{''" i] by auto

function parse_loop :: "string \<Rightarrow> string \<Rightarrow> ruling" where
  "parse_loop response rest =
     (let obj = extractJSONObject rest; malformed = unresolved_ruling (''malformed_output: '' @ truncate_notes response) in
      if obj = [] then
        (case Index rest ''{'' of None \<Rightarrow> malformed | Some next \<Rightarrow> parse_loop response (drop (next + 1) rest))
      else case unmarshal_candidate obj of
        Some (o', settled, cluster, reasoning) \<Rightarrow> ruleFromCandidate o' settled cluster reasoning response
      | None \<Rightarrow>
          (case Index rest obj of None \<Rightarrow> malformed | Some idx \<Rightarrow> parse_loop response (drop (idx + length obj) rest)))"
  by pat_completeness auto
termination
  by (relation "measure (\<lambda>(response, rest). length rest)")
    (auto dest: extract_nonempty index_advances simp del: length_drop)

declare parse_loop.simps [simp del]

definition parseRuling :: "string \<Rightarrow> ruling" where
  "parseRuling response =
     (if TrimSpace response = [] then unresolved_ruling EmptyRulingReasoning else parse_loop response response)"

definition carriesRuling :: "string \<Rightarrow> bool" where
  "carriesRuling s \<longleftrightarrow> rlOutcome (parseRuling s) \<noteq> OutcomeUnresolved"
subsection \<open>The outcomes of a reading\<close>

lemma ruleFromCandidate_outcome:
  "rlOutcome (ruleFromCandidate o' s c r raw) \<in> {OutcomeUphold, OutcomeOverturn, OutcomeSplit, OutcomeUnresolved}"
  by (auto simp: ruleFromCandidate_def unresolved_ruling_def Let_def)

lemma parse_loop_outcome:
  "rlOutcome (parse_loop response rest) \<in> {OutcomeUphold, OutcomeOverturn, OutcomeSplit, OutcomeUnresolved}"
proof (induction response rest rule: parse_loop.induct)
  case (1 response rest)
  define obj where "obj = extractJSONObject rest"
  have bad: "rlOutcome (unresolved_ruling t) \<in> {OutcomeUphold, OutcomeOverturn, OutcomeSplit, OutcomeUnresolved}" for t
    by (simp add: unresolved_ruling_def)
  show ?case
  proof (cases "obj = []")
    case True
    then show ?thesis using 1(1) [OF obj_def refl True] bad
      by (subst parse_loop.simps) (simp add: obj_def [symmetric] Let_def split: option.split del: insert_iff)
  next
    case False
    then show ?thesis using 1(2) [OF obj_def refl False] bad ruleFromCandidate_outcome
      by (subst parse_loop.simps) (simp add: obj_def [symmetric] Let_def split: option.split prod.split del: insert_iff)
  qed
qed

lemma parseRuling_outcome:
  "rlOutcome (parseRuling response) \<in> {OutcomeUphold, OutcomeOverturn, OutcomeSplit, OutcomeUnresolved}"
  using parse_loop_outcome [of response response] by (simp add: parseRuling_def unresolved_ruling_def)

subsection \<open>Literals in an object\<close>

lemma hex_value_plain: "hex_value c = Some k \<Longrightarrow> c \<noteq> quote_mark \<and> c \<noteq> backslash"
  using byte_at_quote by (auto simp: hex_value_def split: if_splits)

lemma hex4_digits:
  assumes "hex4 s = Some r"
  shows "\<exists>a b c d t. s = a # b # c # d # t \<and> (\<forall>x\<in>{a, b, c, d}. x \<noteq> quote_mark \<and> x \<noteq> backslash)"
proof -
  obtain a b c d t where s: "s = a # b # c # d # t"
    using assms by (auto simp: hex4_def split: list.splits)
  then have "\<forall>x\<in>{a, b, c, d}. \<exists>k. hex_value x = Some k" using assms by (auto simp: hex4_def split: option.splits)
  then show ?thesis using s hex_value_plain by blast
qed

definition past :: "nat \<Rightarrow> nat option \<Rightarrow> nat option" where
  "past n x = map_option (\<lambda>k. n + k) x"

lemma past_past [simp]: "past m (past n x) = past (m + n) x"
  by (cases x) (simp_all add: past_def)

lemma past_zero [simp]: "past 0 x = x"
  by (cases x) (simp_all add: past_def)

lemma past_Suc: "map_option Suc x = past 1 x"
  by (cases x) (simp_all add: past_def)

lemma inside_step: "c \<noteq> quote_mark \<Longrightarrow> c \<noteq> backslash \<Longrightarrow> object_end d True False (c # t) = past 1 (object_end d True False t)"
  by (simp add: past_Suc)

lemma inside_close: "object_end d True False (quote_mark # t) = past 1 (object_end d False False t)"
  by (simp add: past_Suc byte_at_quote)

lemma inside_pair: "object_end d True False (backslash # x # t) = past 2 (object_end d True False t)"
  by (simp add: past_Suc numeral_2_eq_2)

declare object_end.simps [simp del]

lemma inside_plain:
  "(\<forall>x\<in>set p. x \<noteq> quote_mark \<and> x \<noteq> backslash) \<Longrightarrow> object_end d True False (p @ t) = past (length p) (object_end d True False t)"
  by (induction p) (simp_all add: inside_step)

lemma prepend_SomeE: "prepend p y = Some (x, rest) \<Longrightarrow> \<exists>x'. y = Some (x', rest)"
  by (auto simp: prepend_def)

lemma unquote_unicode:
  assumes "hex4 h = Some r"
  shows "(high_surrogate r \<or> low_surrogate r) \<and> second_half r (drop 4 h) = Some dec \<Longrightarrow>
      \<exists>p. unquote (backslash # CHR ''u'' # h) = prepend p (unquote (drop 10 h))"
    and "\<not> ((high_surrogate r \<or> low_surrogate r) \<and> second_half r (drop 4 h) \<noteq> None) \<Longrightarrow>
      \<exists>p. unquote (backslash # CHR ''u'' # h) = prepend p (unquote (drop 4 h))"
  using assms byte_at_quote by (auto simp: unquote.simps)

lemma unquote_tail:
  "y \<noteq> CHR ''u'' \<Longrightarrow> unquote (backslash # y # t) \<noteq> None \<Longrightarrow> \<exists>p. unquote (backslash # y # t) = prepend p (unquote t)"
  "c \<noteq> quote_mark \<Longrightarrow> c \<noteq> backslash \<Longrightarrow> byte c < (128 :: nat) \<Longrightarrow> unquote (c # t) \<noteq> None \<Longrightarrow>
     \<exists>p. unquote (c # t) = prepend p (unquote t)"
  "128 \<le> byte c \<Longrightarrow> decode_rune (c # t) = (r, w) \<Longrightarrow> w \<le> 1 \<Longrightarrow> \<exists>p. unquote (c # t) = prepend p (unquote t)"
  using byte_at_quote by (auto simp: unquote.simps(2) [of _ t] unquote.simps(2) [of _ "y # t"] split: if_splits simp del: decode_rune.simps)

lemma inside_unicode:
  assumes "hex4 h = Some r"
  shows "object_end d True False (backslash # CHR ''u'' # h) = past 6 (object_end d True False (drop 4 h))"
proof -
  obtain a b c e t where h: "h = a # b # c # e # t" "\<forall>x\<in>{a, b, c, e}. x \<noteq> quote_mark \<and> x \<noteq> backslash"
    using hex4_digits [OF assms] by blast
  then have "object_end d True False h = past 4 (object_end d True False t)"
    using inside_plain [of "[a, b, c, e]" d t] by (simp add: numeral_eq_Suc)
  then show ?thesis unfolding inside_pair using h(1) by simp
qed

text \<open>One step inside a literal: some bytes of it are read, and the rest of it decodes.\<close>

definition advances :: "nat \<Rightarrow> string \<Rightarrow> string \<Rightarrow> bool" where
  "advances d s rest \<longleftrightarrow> (\<exists>n t x. 0 < n \<and> length s = n + length t \<and>
     object_end d True False s = past n (object_end d True False t) \<and> unquote t = Some (x, rest))"

lemma advancesI:
  "object_end d True False s = past n (object_end d True False t) \<Longrightarrow> length s = n + length t \<Longrightarrow> 0 < n \<Longrightarrow>
     prepend p (unquote t) = Some (x, rest) \<Longrightarrow> advances d s rest"
  unfolding advances_def using prepend_SomeE by blast

lemma advance_unicode:
  assumes "unquote (backslash # CHR ''u'' # t) = Some (x, rest)"
  shows "advances d (backslash # CHR ''u'' # t) rest"
proof -
  obtain r where r: "hex4 t = Some r" using assms by (cases "hex4 t") (simp_all add: unquote.simps byte_at_quote)
  obtain a b c e u where u: "t = a # b # c # e # u" using hex4_digits [OF r] by blast
  have here: "object_end d True False (backslash # CHR ''u'' # t) = past 6 (object_end d True False u)"
    using inside_unicode [OF r, of d] by (simp add: u)
  show ?thesis
  proof (cases "(high_surrogate r \<or> low_surrogate r) \<and> second_half r u \<noteq> None")
    case True
    then obtain dec where dec: "second_half r u = Some dec" by blast
    then have "has_prefix [backslash, CHR ''u''] u" "hex4 (drop 2 u) \<noteq> None"
      by (auto simp: second_half_def split: if_splits option.splits)
    then obtain h r2 where h: "u = backslash # CHR ''u'' # h" "hex4 h = Some r2" by (cases u; cases "tl u") auto
    obtain a' b' c' e' w where w: "h = a' # b' # c' # e' # w" using hex4_digits [OF h(2)] by blast
    have "object_end d True False (backslash # CHR ''u'' # t) = past 12 (object_end d True False w)"
      using here inside_unicode [OF h(2), of d] by (simp add: h(1) w)
    moreover obtain p where "unquote (backslash # CHR ''u'' # t) = prepend p (unquote (drop 10 t))"
      using unquote_unicode(1) [OF r, of dec] True dec by (auto simp: u)
    ultimately show ?thesis using assms by (intro advancesI [of d _ 12 w p]) (simp_all add: u h(1) w)
  next
    case False
    then obtain p where "unquote (backslash # CHR ''u'' # t) = prepend p (unquote (drop 4 t))"
      using unquote_unicode(2) [OF r] by (auto simp: u)
    then show ?thesis using here assms by (intro advancesI [of d _ 6 u p]) (simp_all add: u)
  qed
qed

lemma advance_byte:
  assumes "unquote (c # cs) = Some (x, rest)" "c \<noteq> quote_mark" "c \<noteq> backslash"
  shows "advances d (c # cs) rest"
proof -
  obtain r w where d: "decode_rune (c # cs) = (r, w)" by fastforce
  consider "byte c < (128 :: nat) \<or> 128 \<le> byte c \<and> w \<le> 1" | "128 \<le> byte c" "1 < w" by linarith
  then show ?thesis
  proof cases
    case 1
    then obtain p where "unquote (c # cs) = prepend p (unquote cs)"
      using unquote_tail(2) [OF assms(2,3), of cs] unquote_tail(3) [OF _ d] assms(1) by auto
    then show ?thesis using assms inside_step by (intro advancesI [of d _ 1 cs p x]) simp_all
  next
    case 2
    have len: "length (take (w - 1) cs) = w - 1" using decode_rune_multi [OF d 2] by auto
    have "object_end d True False (c # cs) = past w (object_end d True False (drop (w - 1) cs))"
      using inside_plain [OF decode_rune_cont [OF d 2], of d "drop (w - 1) cs"] len 2(2) by simp
    then show ?thesis
      using assms(1) unquote_wide [OF d 2] len 2(2) by (intro advancesI [of d _ w "drop (w - 1) cs" "c # take (w - 1) cs"]) auto
  qed
qed

lemma literal_advances:
  assumes "unquote s = Some (x, rest)"
  shows "s = quote_mark # rest \<or> advances d s rest"
proof -
  obtain c cs where s: "s = c # cs" using assms by (cases s) (auto simp: unquote.simps)
  consider "c = quote_mark" | "c = backslash" "cs = []" | t where "c = backslash" "cs = CHR ''u'' # t"
    | y t where "c = backslash" "cs = y # t" "y \<noteq> CHR ''u''" | "c \<noteq> quote_mark" "c \<noteq> backslash"
    by (cases cs) auto
  then show ?thesis
  proof cases
    case 2
    then show ?thesis using assms by (simp add: s unquote.simps byte_at_quote)
  next
    case (4 y t)
    then obtain p where "unquote s = prepend p (unquote t)" using unquote_tail(1) [OF 4(3), of t] assms by (auto simp: s)
    then show ?thesis using 4 assms inside_pair by (intro disjI2 advancesI [of d _ 2 t p]) (simp_all add: s)
  qed (use assms advance_unicode advance_byte in \<open>auto simp: s unquote_end\<close>)
qed

text \<open>A literal that decodes is passed over as a whole, so no brace inside it counts.\<close>

lemma literal_skipped:
  "unquote s = Some (x, rest) \<Longrightarrow>
     length rest \<le> length s \<and> object_end d True False s = past (length s - length rest) (object_end d False False rest)"
proof (induction s arbitrary: x rule: length_induct)
  case (1 s)
  from literal_advances [OF 1(2), of d] show ?case
  proof
    assume "s = quote_mark # rest"
    then show ?thesis by (simp add: inside_close)
  next
    assume "advances d s rest"
    then obtain n t x' where t: "0 < n" "length s = n + length t" "object_end d True False s = past n (object_end d True False t)"
        "unquote t = Some (x', rest)"
      unfolding advances_def by blast
    then have "length rest \<le> length t \<and> object_end d True False t = past (length t - length rest) (object_end d False False rest)"
      using 1(1) by simp
    then show ?thesis using t by simp
  qed
qed

subsection \<open>Reading back an envelope\<close>

definition skips :: "string \<Rightarrow> bool" where
  "skips u \<longleftrightarrow> (\<forall>d t. object_end d False False (u @ t) = past (length u) (object_end d False False t))"

lemma skips_append: "skips u \<Longrightarrow> skips v \<Longrightarrow> skips (u @ v)"
  by (simp add: skips_def)

lemma skips_mark: "c \<noteq> quote_mark \<Longrightarrow> c \<noteq> CHR ''{'' \<Longrightarrow> c \<noteq> CHR ''}'' \<Longrightarrow> skips [c]"
  by (simp add: skips_def object_end.simps past_Suc)

lemma skips_quoted: "skips (quoted x)"
  unfolding skips_def
proof (intro allI)
  fix d t
  have "object_end d True False (escape x @ quote_mark # t) = past (Suc (length (escape x))) (object_end d False False t)"
    using literal_skipped [OF unquote_escape [of x t], of d] by simp
  then show "object_end d False False (quoted x @ t) = past (length (quoted x)) (object_end d False False t)"
    by (simp add: quoted_def object_end.simps past_Suc)
qed

lemma skips_pairs: "skips (Join (map pair_text kvs) '','')"
proof (induction kvs)
  case (Cons p kvs)
  have one: "skips (pair_text p)"
    unfolding pair_text_def case_prod_beta
    by (intro skips_append skips_quoted skips_mark) (simp_all add: quote_mark_def)
  have comma: "skips '',''" by (intro skips_mark) (simp_all add: quote_mark_def)
  show ?case
  proof (cases kvs)
    case (Cons q qs)
    then have "Join (map pair_text (p # kvs)) '','' = pair_text p @ '','' @ Join (map pair_text kvs) '',''" by simp
    then show ?thesis using one comma Cons.IH by (simp only: skips_append)
  qed (simp add: one)
qed (simp add: skips_def)

lemma Index_skip: "CHR ''{'' \<notin> set p \<Longrightarrow> Index (p @ CHR ''{'' # t) ''{'' = Some (length p)"
  by (induction p) (auto simp: Index.simps)

lemma extract_object:
  assumes "CHR ''{'' \<notin> set p"
  shows "extractJSONObject (p @ marshal (strings_object kvs) @ q) = marshal (strings_object kvs)"
proof -
  define body where "body = Join (map pair_text kvs) '',''"
  have brace: "CHR ''{'' \<noteq> quote_mark" "CHR ''}'' \<noteq> quote_mark" by (simp_all add: quote_mark_def)
  have "object_end 1 False False (body @ CHR ''}'' # q) = past (length body) (Some 1)"
    using skips_pairs [of kvs] brace unfolding skips_def body_def by (simp add: object_end.simps(2) [of _ _ _ "CHR ''}''"])
  then have "object_end 0 False False (CHR ''{'' # body @ CHR ''}'' # q) = Some (length body + 2)"
    using brace by (simp add: object_end.simps(2) [of _ _ _ "CHR ''{''"] past_def)
  then show ?thesis using Index_skip [OF assms]
    by (simp add: extractJSONObject_def marshal_strings body_def [symmetric])
qed

definition envelope_of :: "string \<Rightarrow> string \<Rightarrow> string \<Rightarrow> string \<Rightarrow> string" where
  "envelope_of o' s c r =
     marshal (strings_object [(''outcome'', o'), (''settled_severity'', s), (''cluster_decision'', c), (''reasoning'', r)])"

lemma coerce_names:
  "coerce ''outcome'' = ''outcome''" "coerce ''settled_severity'' = ''settled_severity''"
  "coerce ''cluster_decision'' = ''cluster_decision''" "coerce ''reasoning'' = ''reasoning''"
  by code_simp+

lemma unmarshal_envelope: "unmarshal_candidate (envelope_of o' s c r) = Some (coerce o', coerce s, coerce c, coerce r)"
proof -
  have "parse_document (envelope_of o' s c r) =
      Some (DObj [(''outcome'', DStr (coerce o')), (''settled_severity'', DStr (coerce s)),
        (''cluster_decision'', DStr (coerce c)), (''reasoning'', DStr (coerce r))])"
    unfolding envelope_of_def by (subst document_read_back) (simp_all add: coerce_names)
  moreover have "field_of ruling_fields ''outcome'' = Some ''outcome''"
      "field_of ruling_fields ''settled_severity'' = Some ''settled_severity''"
      "field_of ruling_fields ''cluster_decision'' = Some ''cluster_decision''"
      "field_of ruling_fields ''reasoning'' = Some ''reasoning''"
    by (simp_all add: field_of_def ruling_fields_def)
  ultimately show ?thesis by (simp add: unmarshal_candidate_def set_member_def string_field_def)
qed

lemma plain_outcomes:
  "o' \<in> {OutcomeUphold, OutcomeOverturn, OutcomeSplit} \<Longrightarrow> coerce o' = o' \<and> ToLower (TrimSpace o') = o'"
  unfolding OutcomeUphold_def OutcomeOverturn_def OutcomeSplit_def by (elim insertE emptyE; hypsubst; code_simp)

lemma plain_decisions:
  "c \<in> {[], ClusterMerge, ClusterSeparate} \<Longrightarrow> coerce c = c \<and> ToLower (TrimSpace c) = c"
  unfolding ClusterMerge_def ClusterSeparate_def by (elim insertE emptyE; hypsubst; code_simp)

lemma plain_severities:
  "s \<in> {[], SevCritical, SevHigh, SevMedium, SevLow} \<Longrightarrow> coerce s = s \<and> (if reviewSeverity (NormalizeSeverity s) then NormalizeSeverity s else []) = s"
  unfolding SevCritical_def SevHigh_def SevMedium_def SevLow_def by (elim insertE emptyE; hypsubst; code_simp)

text \<open>
  C16. The judge's envelope is read back from its reply: with any text that has no opening brace before it, any text
  after it, and any reasoning, braces, quotes and control characters included, the ruling is the outcome, the
  settled severity, the cluster decision and the reasoning that were encoded (invalid UTF-8 replaced).
\<close>

theorem envelope_read_back:
  assumes "CHR ''{'' \<notin> set p" and "o' \<in> {OutcomeUphold, OutcomeOverturn, OutcomeSplit}"
    and "s \<in> {[], SevCritical, SevHigh, SevMedium, SevLow}" and "c \<in> {[], ClusterMerge, ClusterSeparate}"
  shows "parseRuling (p @ envelope_of o' s c r @ q) =
    \<lparr>rlOutcome = o', rlSettledSeverity = s, rlClusterDecision = c, rlReasoning = coerce r\<rparr>"
proof -
  define reply where "reply = p @ envelope_of o' s c r @ q"
  have "CHR ''{'' \<in> set reply" by (simp add: reply_def envelope_of_def marshal_strings)
  then have "TrimSpace reply \<noteq> []" using blank_no_visible visible_marks(2) by blast
  moreover have obj: "extractJSONObject reply = envelope_of o' s c r"
    unfolding reply_def envelope_of_def by (rule extract_object [OF assms(1)])
  moreover have "envelope_of o' s c r \<noteq> []" by (simp add: envelope_of_def marshal_strings)
  ultimately have "parseRuling reply = ruleFromCandidate (coerce o') (coerce s) (coerce c) (coerce r) reply"
    by (simp add: parseRuling_def parse_loop.simps [of reply reply] obj unmarshal_envelope)
  also have "\<dots> = \<lparr>rlOutcome = o', rlSettledSeverity = s, rlClusterDecision = c, rlReasoning = coerce r\<rparr>"
  proof -
    have o2: "coerce o' = o'" "ToLower (TrimSpace o') = o'" "o' = OutcomeUphold \<or> o' = OutcomeOverturn \<or> o' = OutcomeSplit"
      using plain_outcomes [OF assms(2)] assms(2) by auto
    have s2: "coerce s = s" "(if \<not> reviewSeverity (NormalizeSeverity s) then [] else NormalizeSeverity s) = s"
      using plain_severities [OF assms(3)] by (auto split: if_splits)
    have c2: "coerce c = c" "ToLower (TrimSpace c) = c" "(if c \<noteq> ClusterMerge \<and> c \<noteq> ClusterSeparate then [] else c) = c"
      using plain_decisions [OF assms(4)] assms(4) by auto
    show ?thesis unfolding ruleFromCandidate_def Let_def o2(1,2) s2 c2 using o2(3) by simp
  qed
  finally show ?thesis unfolding reply_def .
qed

theorem envelope_read_back_witness:
  "parseRuling (''I weighed both sides. '' @ envelope_of OutcomeSplit SevLow [] ''guarded by } and {'' @ '' Done.'') =
     \<lparr>rlOutcome = OutcomeSplit, rlSettledSeverity = SevLow, rlClusterDecision = [], rlReasoning = ''guarded by } and {''\<rparr>"
proof -
  have "CHR ''{'' \<notin> set ''I weighed both sides. ''" by simp
  moreover have "coerce ''guarded by } and {'' = ''guarded by } and {''" by code_simp
  ultimately show ?thesis
    using envelope_read_back [of "''I weighed both sides. ''" OutcomeSplit SevLow "[]" "''guarded by } and {''" "'' Done.''"] by simp
qed


end
