(* ===== verification/Debate.thy ===== *)
theory Debate
  imports Protocol Envelope
begin

text \<open>
  The debate of one item, \<^verbatim>\<open>debateOne\<close> of \<^verbatim>\<open>internal/debate/debate.go\<close>, and what the stage promises with it. The
  theory interprets the contract \<open>item_debater\<close> on \<open>debateOne\<close>, so the properties of the stage hold for the code's own debates,
  whatever the engine answers. The transcript of an item is left to its turn events; creating its directory and the
  log are left out.
\<close>

subsection \<open>Reading the record of an exchange\<close>

definition silentArguingSeats :: "debate_record \<Rightarrow> string list" where
  "silentArguingSeats r =
     (if TrimSpace (ProposerStatement r) = [] then [LabelProposer] else []) @
     (if TrimSpace (ChallengerStatement r) = [] then [LabelChallenger] else [])"

definition seatsAsked :: "string list \<Rightarrow> string list \<Rightarrow> string list" where
  "seatsAsked asked ss = filter (\<lambda>s. s \<in> set asked) ss"

definition allSeatsIn :: "string list \<Rightarrow> string list \<Rightarrow> bool" where
  "allSeatsIn cause ss = list_all (\<lambda>s. s \<in> set cause) ss"

definition judgeHalted :: "string list \<Rightarrow> bool" where
  "judgeHalted halted \<longleftrightarrow> LabelJudge \<in> set halted"

definition seatSilenceNotes :: "string list \<Rightarrow> string list \<Rightarrow> string list \<Rightarrow> string list" where
  "seatSilenceNotes halted suppressed ss =
     map (\<lambda>s. let causes = (if s \<in> set suppressed then [''suppressed''] else []) @ (if s \<in> set halted then [''halted''] else []);
                  causes = (if length causes = 0 then [''silent''] else causes)
              in s @ '' '' @ Join causes ''+'') ss"

definition joinSeatSilenceNotes :: "string list \<Rightarrow> string" where
  "joinSeatSilenceNotes notes = Join notes '', ''"

definition itemID :: "runtime \<Rightarrow> disagreementItem \<Rightarrow> string" where
  "itemID rt it =
     ''item-'' @ hex_EncodeToString (take 8 (sum256 rt
       (itFile it @ [CHR 0x00] @ Itoa (itLine it) @ [CHR 0x00] @ itKind it @ [CHR 0x00] @ itProblem it)))"

definition debateSubdir :: string where "debateSubdir = ''debate''"

subsection \<open>The debate of one item\<close>

definition unresolved_as :: "string \<Rightarrow> string \<Rightarrow> itemResult \<Rightarrow> itemResult" where
  "unresolved_as reason reasoning ir = ir\<lparr>irOutcome := OutcomeUnresolved, irReason := reason, irReasoning := reasoning\<rparr>"

definition silence_reason :: "debate_record \<Rightarrow> string" where
  "silence_reason r =
     (let blamed = seatsAsked (Asked r) (silentArguingSeats r) in
      if allSeatsIn (Suppressed r) blamed then ReasonSeatSuppressed
      else if allSeatsIn (Halted r) blamed then ReasonSeatHalted
      else ReasonSeatSilent)"

definition ambiguous_note :: string where
  "ambiguous_note = ''judge reply has a ruling envelope on both sides of a </think> no <think> opened; neither is provably committed''"

definition draft_note :: string where
  "draft_note = ''judge reply has a ruling envelope only before a </think> no <think> opened and none usable after it; the ruling may be an abandoned draft''"

definition markup_note :: string where
  "markup_note = ''judge reply carries inline think markup; ruling refused''"

definition ruled_as :: "string \<Rightarrow> itemResult \<Rightarrow> itemResult" where
  "ruled_as judgeText ir =
     (let rl = parseRuling judgeText;
          ir = ir\<lparr>irOutcome := rlOutcome rl, irReasoning := rlReasoning rl, irClusterDecision := rlClusterDecision rl,
                  irChallengeSurvived := ruling_ChallengeSurvived rl\<rparr>;
          ir = (if rlOutcome rl = OutcomeUnresolved
                then ir\<lparr>irReason := (if rlReasoning rl = EmptyRulingReasoning then ReasonEmptyRuling else ReasonUnparseableRuling)\<rparr>
                else ir)
      in if rlOutcome rl = OutcomeSplit then ir\<lparr>irSettledSeverity := rlSettledSeverity rl\<rparr> else ir)"

definition judge_reading :: "string \<Rightarrow> itemResult \<Rightarrow> itemResult" where
  "judge_reading raw ir =
     (if HasEnclosingThinkBlock (MaskJSONStrings raw) then unresolved_as ReasonJudgeThinkMarkup markup_note ir
      else case ClassifyUnopenedCloser raw carriesRuling of (section, text, prefixHasEnvelope) \<Rightarrow>
        if section = SectionAmbiguous then unresolved_as ReasonJudgeThinkMarkup ambiguous_note ir
        else if section = SectionWholeAnswer \<and> prefixHasEnvelope then unresolved_as ReasonJudgeThinkMarkup draft_note ir
        else ruled_as (if section = SectionAfterCloser then text else raw) ir)"

definition exchange_reading :: "debate_record \<Rightarrow> itemResult \<Rightarrow> itemResult" where
  "exchange_reading r ir =
     (if judgeHalted (Halted r) then
        ir\<lparr>irOutcome := OutcomeUnresolved,
           irReason := (if LabelJudge \<in> set (Suppressed r) then ReasonJudgeSuppressed else ReasonJudgeHalted)\<rparr>
      else if length (silentArguingSeats r) > 0 then
        unresolved_as (silence_reason r)
          (''no statement: '' @ joinSeatSilenceNotes
             (seatSilenceNotes (Halted r) (Suppressed r) (seatsAsked (Asked r) (silentArguingSeats r)))) ir
      else judge_reading (JudgeRaw r) ir)"

definition cast_result :: "runtime \<Rightarrow> disagreementItem \<Rightarrow> seats \<Rightarrow> itemResult" where
  "cast_result rt it s = (itemResult_for it)
     \<lparr>irSingleModel := SingleModel s, irProposer := csAgent (Proposer s), irChallenger := csAgent (Challenger s),
      irJudge := csAgent (Judge s),
      irTranscript := debateSubdir @ ''/'' @ itemID rt it @ ''/transcript.jsonl''\<rparr>"

definition debateOne ::
  "runtime \<Rightarrow> config \<Rightarrow> agentRegistry option \<Rightarrow> ('e, 'c, 'f) engine option \<Rightarrow> string \<Rightarrow> disagreementItem \<Rightarrow> itemResult" where
  "debateOne rt cfg rgy cc random it =
     (case CastRoles rgy it cfg of
        Inl reason \<Rightarrow> (itemResult_for it)\<lparr>irOutcome := OutcomeUnresolved, irReason := reason\<rparr>
      | Inr s \<Rightarrow> exchange_reading (RunDebate it s cc random) (cast_result rt it s))"

subsection \<open>The contract of the stage\<close>

lemma unresolved_as_fields [simp]:
  "irOutcome (unresolved_as reason note ir) = OutcomeUnresolved" "result_id (unresolved_as reason note ir) = result_id ir"
  "irChallengeSurvived (unresolved_as reason note ir) = irChallengeSurvived ir"
  "irSettledSeverity (unresolved_as reason note ir) = irSettledSeverity ir"
  by (simp_all add: unresolved_as_def)

lemma ruled_as_fields:
  "irOutcome (ruled_as t ir) = rlOutcome (parseRuling t)" "result_id (ruled_as t ir) = result_id ir"
  "irChallengeSurvived (ruled_as t ir) \<longleftrightarrow> rlOutcome (parseRuling t) \<in> {OutcomeUphold, OutcomeSplit}"
  "irSettledSeverity (ruled_as t ir) = (if rlOutcome (parseRuling t) = OutcomeSplit then rlSettledSeverity (parseRuling t) else irSettledSeverity ir)"
  by (simp_all add: ruled_as_def Let_def ruling_ChallengeSurvived_def)

lemma itemResult_for_fields:
  "result_id (itemResult_for it) = item_id it" "irChallengeSurvived (itemResult_for it) = False" "irSettledSeverity (itemResult_for it) = []"
  by (simp_all add: itemResult_for_def zero_itemResult_def)

text \<open>A reading keeps what was known of the item and is either unresolved or a parsed ruling.\<close>

definition reading_ok :: "itemResult \<Rightarrow> itemResult \<Rightarrow> bool" where
  "reading_ok ir0 ir \<longleftrightarrow> result_id ir = result_id ir0 \<and>
     irOutcome ir \<in> {OutcomeUphold, OutcomeOverturn, OutcomeSplit, OutcomeUnresolved} \<and>
     (irChallengeSurvived ir \<longleftrightarrow> irOutcome ir \<in> {OutcomeUphold, OutcomeSplit}) \<and>
     (irSettledSeverity ir = [] \<or> irOutcome ir = OutcomeSplit)"

lemma unresolved_reading_ok:
  "result_id ir = result_id ir0 \<Longrightarrow> irOutcome ir = OutcomeUnresolved \<Longrightarrow> \<not> irChallengeSurvived ir \<Longrightarrow> irSettledSeverity ir = [] \<Longrightarrow> reading_ok ir0 ir"
  using outcomes_distinct by (simp add: reading_ok_def)

lemma ruled_reading_ok: "irSettledSeverity ir = [] \<Longrightarrow> reading_ok ir (ruled_as t ir)"
  unfolding reading_ok_def ruled_as_fields using parseRuling_outcome [of t] by simp

lemma refused_reading_ok: "\<not> irChallengeSurvived ir \<Longrightarrow> irSettledSeverity ir = [] \<Longrightarrow> reading_ok ir (unresolved_as reason note ir)"
  by (rule unresolved_reading_ok) simp_all

lemma judge_reading_ok: "\<not> irChallengeSurvived ir \<Longrightarrow> irSettledSeverity ir = [] \<Longrightarrow> reading_ok ir (judge_reading raw ir)"
  unfolding judge_reading_def by (simp add: ruled_reading_ok refused_reading_ok split: prod.split)

lemma exchange_reading_ok: "\<not> irChallengeSurvived ir \<Longrightarrow> irSettledSeverity ir = [] \<Longrightarrow> reading_ok ir (exchange_reading r ir)"
proof -
  assume ir: "\<not> irChallengeSurvived ir" "irSettledSeverity ir = []"
  then have "reading_ok ir (ir\<lparr>irOutcome := OutcomeUnresolved, irReason := why\<rparr>)" for why
    by (intro unresolved_reading_ok) simp_all
  then show ?thesis unfolding exchange_reading_def using ir judge_reading_ok refused_reading_ok by simp
qed

lemma debateOne_ok: "reading_ok (itemResult_for it) (debateOne rt cfg rgy cc random it)"
proof (cases "CastRoles rgy it cfg")
  case (Inl reason)
  then show ?thesis unfolding debateOne_def
    by (auto simp: itemResult_for_fields intro!: unresolved_reading_ok)
next
  case (Inr s)
  have base: "result_id (cast_result rt it s) = result_id (itemResult_for it)" "\<not> irChallengeSurvived (cast_result rt it s)"
      "irSettledSeverity (cast_result rt it s) = []"
    by (simp_all add: cast_result_def itemResult_for_def zero_itemResult_def)
  then have "reading_ok (cast_result rt it s) (exchange_reading (RunDebate it s cc random) (cast_result rt it s))"
    by (simp add: exchange_reading_ok)
  then show ?thesis using Inr base(1) by (simp add: debateOne_def reading_ok_def)
qed

definition debates_of ::
  "runtime \<Rightarrow> config \<Rightarrow> agentRegistry option \<Rightarrow> (nat \<Rightarrow> ('e, 'c, 'f) engine option) \<Rightarrow> (nat \<Rightarrow> string) \<Rightarrow> nat \<Rightarrow> disagreementItem \<Rightarrow> itemResult" where
  "debates_of rt cfg rgy cc random i it = debateOne rt cfg rgy (cc i) (random i) it"

interpretation one_debate: item_debater "debates_of rt cfg rgy cc random"
  for rt cfg rgy and cc :: "nat \<Rightarrow> ('e, 'c, 'f) engine option" and random
proof
  fix i it
  have ok: "reading_ok (itemResult_for it) (debates_of rt cfg rgy cc random i it)"
    unfolding debates_of_def by (rule debateOne_ok)
  show "result_id (debates_of rt cfg rgy cc random i it) = item_id it"
    using ok itemResult_for_fields(1) [of it] by (simp add: reading_ok_def)
  show "irOutcome (debates_of rt cfg rgy cc random i it) \<in> {OutcomeUphold, OutcomeOverturn, OutcomeSplit, OutcomeUnresolved}"
      "irChallengeSurvived (debates_of rt cfg rgy cc random i it) \<longleftrightarrow>
        irOutcome (debates_of rt cfg rgy cc random i it) \<in> {OutcomeUphold, OutcomeSplit}"
      "irSettledSeverity (debates_of rt cfg rgy cc random i it) = [] \<or> irOutcome (debates_of rt cfg rgy cc random i it) = OutcomeSplit"
    using ok by (simp_all only: reading_ok_def)
qed
definition stage_config :: "debateConfig \<Rightarrow> bool \<Rightarrow> config" where
  "stage_config dc singleModel =
     (let cfg = ResolveConfig dc in if singleModel then cfg\<lparr>AllowSingleModel := True\<rparr> else cfg)"

subsection \<open>Where a ruling comes from\<close>

lemma pickDistinct_label: "pickDistinct r role label ex = Some s \<Longrightarrow> csLabel s = label"
  unfolding pickDistinct_def Let_def by (drule first_some_Some) (auto split: option.splits if_splits)

lemma cast_judge_label: "CastRoles rgy it cfg = Inr s \<Longrightarrow> csLabel (Judge s) = LabelJudge"
  using pickDistinct_label
  by (auto simp: CastRoles_def Let_def split: option.splits if_splits Option.bind_splits)

lemma runTurn_fields:
  "ProposerStatement (snd (runTurn seat n prompt cc r)) = ProposerStatement r"
  "ChallengerStatement (snd (runTurn seat n prompt cc r)) = ChallengerStatement r"
  "fst (runTurn seat n prompt cc r) = fst (driveSeat seat prompt cc)"
  "snd (snd (driveSeat seat prompt cc)) \<noteq> StatusOK \<Longrightarrow> csLabel seat \<in> set (Halted (snd (runTurn seat n prompt cc r)))"
  by (cases "driveSeat seat prompt cc"; simp add: runTurn_def recordTurnCause_def Let_def)+

lemma RunDebate_full:
  assumes "TrimSpace (ChallengerStatement (RunDebate it s cc random)) \<noteq> []"
  shows "\<exists>prompt. JudgeRaw (RunDebate it s cc random) = fst (driveSeat (Judge s) prompt cc) \<and>
    (snd (snd (driveSeat (Judge s) prompt cc)) \<noteq> StatusOK \<longrightarrow> csLabel (Judge s) \<in> set (Halted (RunDebate it s cc random)))"
proof -
  define t where "t = newSentinel random"
  define r0 where "r0 = \<lparr>ProposerStatement = [], ChallengerStatement = [], JudgeRaw = [], Halted = [], Asked = [], Suppressed = [], Turns = []\<rparr>"
  obtain p r1 where 1: "runTurn (Proposer s) 1 (buildProposerPrompt it t) cc r0 = (p, r1)" by fastforce
  obtain c r2 where 2: "runTurn (Challenger s) 2 (buildChallengerPrompt it p t) cc (r1\<lparr>ProposerStatement := p\<rparr>) = (c, r2)" by fastforce
  obtain j r3 where 3: "runTurn (Judge s) 3 (buildJudgePrompt it p c t) cc (r2\<lparr>ChallengerStatement := c\<rparr>) = (j, r3)" by fastforce
  have run: "RunDebate it s cc random =
      (if TrimSpace p = [] \<and> csLabel (Proposer s) \<notin> set (Halted r1) then r1\<lparr>ProposerStatement := p\<rparr> else r3\<lparr>JudgeRaw := j\<rparr>)"
    unfolding RunDebate_def Let_def t_def [symmetric] r0_def [symmetric] 1 by (simp add: 2 3)
  have "ChallengerStatement r1 = []" using runTurn_fields(2) [of "Proposer s" 1 "buildProposerPrompt it t" cc r0] 1 by (simp add: r0_def)
  moreover have "TrimSpace [] = []" by code_simp
  ultimately have "RunDebate it s cc random = r3\<lparr>JudgeRaw := j\<rparr>" using assms unfolding run by (auto split: if_splits)
  then show ?thesis
    using runTurn_fields(3) [of "Judge s" 3 "buildJudgePrompt it p c t" cc "r2\<lparr>ChallengerStatement := c\<rparr>"]
      runTurn_fields(4) [of "Judge s" "buildJudgePrompt it p c t" cc 3 "r2\<lparr>ChallengerStatement := c\<rparr>"] 3
    by (intro exI [of _ "buildJudgePrompt it p c t"]) simp
qed

lemma driveSeat_OK:
  assumes "snd (snd (driveSeat seat prompt cc)) = StatusOK"
  shows "\<exists>run reply rest. cc = Some run \<and> run (buildDebateAgent seat prompt) = reply # rest \<and> rStatus reply = StatusOK \<and>
    rTrippedBudgets reply = [] \<and> \<not> rResponseTruncated reply \<and> \<not> rSalvaged reply \<and>
    fst (driveSeat seat prompt cc) = fst (SplitThink (rContent reply))"
proof -
  have ne: "StatusFailed \<noteq> StatusOK" by (simp add: StatusFailed_def StatusOK_def)
  then obtain run where cc: "cc = Some run" using assms by (cases cc) (auto simp: driveSeat_def)
  obtain reply rest where r: "run (buildDebateAgent seat prompt) = reply # rest"
    using assms ne by (cases "run (buildDebateAgent seat prompt)") (auto simp: driveSeat_def cc)
  show ?thesis using assms ne by (auto simp: driveSeat_def cc r split: if_splits prod.splits)
qed

definition clean_reply :: "('e, 'c, 'f) result \<Rightarrow> bool" where
  "clean_reply reply \<longleftrightarrow> rStatus reply = StatusOK \<and> rTrippedBudgets reply = [] \<and> \<not> rResponseTruncated reply \<and> \<not> rSalvaged reply"

text \<open>
  C12. A ruling has a clean source: a debate that ends with an outcome other than unresolved was cast, both arguing
  seats made a statement, the judge's engine answered without error, tripped budget, truncation or salvage, the
  answer after its leading reasoning has no enclosing reasoning block, and the outcome is the one parsed from that
  answer or from the part of it after an unopened closer.
\<close>

theorem ruling_has_clean_source:
  assumes "irOutcome (debateOne rt cfg rgy cc random it) \<noteq> OutcomeUnresolved"
  shows "\<exists>s run prompt reply rest raw text.
    CastRoles rgy it cfg = Inr s \<and> cc = Some run \<and> run (buildDebateAgent (Judge s) prompt) = reply # rest \<and> clean_reply reply \<and>
    raw = fst (SplitThink (rContent reply)) \<and> \<not> HasEnclosingThinkBlock (MaskJSONStrings raw) \<and>
    silentArguingSeats (RunDebate it s cc random) = [] \<and>
    text \<in> {raw, fst (snd (ClassifyUnopenedCloser raw carriesRuling))} \<and>
    irOutcome (debateOne rt cfg rgy cc random it) = rlOutcome (parseRuling text)"
proof -
  obtain s where s: "CastRoles rgy it cfg = Inr s" using assms by (cases "CastRoles rgy it cfg") (auto simp: debateOne_def)
  define r where "r = RunDebate it s cc random"
  define ir where "ir = cast_result rt it s"
  have one: "debateOne rt cfg rgy cc random it = exchange_reading r ir" by (simp add: debateOne_def s r_def ir_def)
  then have halted: "\<not> judgeHalted (Halted r)" and silent: "silentArguingSeats r = []" and read: "exchange_reading r ir = judge_reading (JudgeRaw r) ir"
    using assms by (auto simp: exchange_reading_def split: if_splits)
  have "TrimSpace (ChallengerStatement r) \<noteq> []" using silent by (auto simp: silentArguingSeats_def split: if_splits)
  then obtain prompt where raw: "JudgeRaw r = fst (driveSeat (Judge s) prompt cc)"
      "snd (snd (driveSeat (Judge s) prompt cc)) \<noteq> StatusOK \<longrightarrow> csLabel (Judge s) \<in> set (Halted r)"
    using RunDebate_full unfolding r_def by blast
  then have "snd (snd (driveSeat (Judge s) prompt cc)) = StatusOK"
    using halted cast_judge_label [OF s] by (auto simp: judgeHalted_def)
  from driveSeat_OK [OF this] obtain run reply rest where reply: "cc = Some run" "run (buildDebateAgent (Judge s) prompt) = reply # rest"
      "clean_reply reply" "JudgeRaw r = fst (SplitThink (rContent reply))"
    using raw(1) by (auto simp: clean_reply_def)
  have out: "irOutcome (judge_reading (JudgeRaw r) ir) \<noteq> OutcomeUnresolved" using assms one read by simp
  then have think: "\<not> HasEnclosingThinkBlock (MaskJSONStrings (JudgeRaw r))" by (auto simp: judge_reading_def)
  obtain sec tx pre where c: "ClassifyUnopenedCloser (JudgeRaw r) carriesRuling = (sec, tx, pre)" by (cases "ClassifyUnopenedCloser (JudgeRaw r) carriesRuling")
  have "judge_reading (JudgeRaw r) ir = ruled_as (if sec = SectionAfterCloser then tx else JudgeRaw r) ir"
    using out think by (auto simp: judge_reading_def c split: if_splits)
  then have "irOutcome (debateOne rt cfg rgy cc random it) = rlOutcome (parseRuling (if sec = SectionAfterCloser then tx else JudgeRaw r))"
    using one read ruled_as_fields(1) by simp
  then show ?thesis
    using s reply think silent c unfolding r_def
    by (intro exI [of _ s] exI [of _ run] exI [of _ prompt] exI [of _ reply] exI [of _ rest] exI [of _ "JudgeRaw r"]
        exI [of _ "if sec = SectionAfterCloser then tx else JudgeRaw r"]) (simp add: r_def)
qed

definition scripted :: "(string, nat, string) engine" where
  "scripted ag =
     [sample_result StatusOK
        (if ivResponseFormat (agInvocation ag) \<noteq> [] then ''Ruling: '' @ envelope_of OutcomeUphold [] [] ''it holds'' else ''line 3 leaks'')]"

lemma scripted_debate:
  "irOutcome (debateOne exact_runtime (sample_config True) (Some sample_registry) (Some scripted) ''0123456789abcdef'' sample_item) = OutcomeUphold"
  by code_simp

theorem ruling_has_clean_source_witness:
  "irOutcome (debateOne exact_runtime (sample_config True) (Some sample_registry) (Some scripted) ''0123456789abcdef'' sample_item)
     \<noteq> OutcomeUnresolved \<and>
   (\<exists>s. CastRoles (Some sample_registry) sample_item (sample_config True) = Inr s \<and>
      silentArguingSeats (RunDebate sample_item s (Some scripted) ''0123456789abcdef'') = [])"
proof -
  have out: "irOutcome (debateOne exact_runtime (sample_config True) (Some sample_registry) (Some scripted) ''0123456789abcdef'' sample_item)
      \<noteq> OutcomeUnresolved"
    using scripted_debate outcomes_distinct by simp
  show ?thesis using ruling_has_clean_source [OF out] out by blast
qed

subsection \<open>The stage over its own debates\<close>

definition stage_env ::
  "runtime \<Rightarrow> config \<Rightarrow> agentRegistry option \<Rightarrow> (nat \<Rightarrow> ('e, 'c, 'f) engine option) \<Rightarrow> (nat \<Rightarrow> string) \<Rightarrow> bool \<Rightarrow> (nat \<Rightarrow> bool) \<Rightarrow> circumstances" where
  "stage_env rt cfg rgy cc random failed can =
     \<lparr>harnessFailed = failed, cancelled = can, debated = debates_of rt cfg rgy cc random\<rparr>"

lemma stage_env_debated: "debated (stage_env rt cfg rgy cc random failed can) = debates_of rt cfg rgy cc random"
  by (simp add: stage_env_def)

text \<open>
  C9. No dispute is dropped silently: the debated items and the overflow records of an enabled trigger are together,
  with multiplicity, the disputes of that trigger that are still open; the counters of the result add up to the
  debated items and to the overflow records; and a positive cap bounds the debated items. This holds for whatever
  the models answer, with the harness unavailable and after a cancellation too.
\<close>

theorem disputes_accounted:
  "let out = runDebate rt cfg (stage_env rt cfg rgy cc random failed can) fs clusters prior;
       df = soDebate out; res = soResult out; trig = (\<lambda>k. k \<in> set (Triggers cfg)) in
     mset (map result_id (dbItems df)) + mset (map overflow_id (filter (\<lambda>ov. trig (ovKind ov)) (dbOverflow df))) =
       mset (map item_id (filter (\<lambda>it. trig (itKind it)) (debatable rt (deduplicateFindings fs) clusters))) \<and>
     rsUpheld res + rsOverturned res + rsSplit res + rsUnresolved res = length (dbItems df) \<and>
     rsSelected res = length (dbItems df) \<and> rsOverflow res + rsWithheld res = length (dbOverflow df) \<and>
     (MaxItems cfg \<le> 0 \<or> int (length (dbItems df)) \<le> MaxItems cfg)"
proof -
  define env where "env = stage_env rt cfg rgy cc random failed can"
  define p where "p = parts_of rt cfg env fs clusters prior"
  define df where "df = soDebate (runDebate rt cfg env fs clusters prior)"
  have env: "debated env = debates_of rt cfg rgy cc random" by (simp add: env_def stage_env_debated)
  have acc: "mset (map result_id (dbItems df)) + mset (map overflow_id (filter (\<lambda>ov. ovKind ov \<in> set (Triggers cfg)) (dbOverflow df))) =
      mset (map item_id (filter (\<lambda>it. itKind it \<in> set (Triggers cfg)) (debatable rt (deduplicateFindings fs) clusters)))"
    using one_debate.accounts [OF env, of rt cfg fs clusters prior] unfolding Let_def df_def .
  have len: "length (dbItems df) = length (rpSelected p)" "length (dbOverflow df) = length (rpOverflow p) + length (rpWithheld p)"
    by (simp_all add: df_def runDebate_debate Let_def p_def parts_facts(3) outcomes_of_def overflowItems_def)
  have cap: "MaxItems cfg \<le> 0 \<or> int (length (rpSelected p)) \<le> MaxItems cfg"
    using triggered_split [of cfg "rpKept p"] by (cases "0 < MaxItems cfg") (auto simp: p_def parts_of_def Let_def split: prod.splits)
  show ?thesis
    unfolding Let_def env_def [symmetric] df_def [symmetric] runDebate_result p_def [symmetric]
    using acc len cap by (simp only: tally_sum debateResult.select_convs) simp
qed

text \<open>
  C10. What is settled stays settled: after a run that upheld, split or overturned a finding, no later run on its findings
  and the same clusters debates or lists that finding again, with any configuration, panel, answers and debate file.
  Clusters are located at one of their members, as the reconciler writes them.
\<close>

theorem settled_once:
  assumes "ir \<in> set (dbItems (soDebate (runDebate rt cfg (stage_env rt cfg rgy cc random failed can) fs clusters prior)))"
    and "irKind ir \<noteq> KindGrayZone" "irOutcome ir \<noteq> OutcomeUnresolved" and "\<forall>c\<in>set clusters. located c"
    and "later = soDebate (runDebate rt cfg' (stage_env rt cfg' rgy' cc' random' failed' can')
       (soFindings (runDebate rt cfg (stage_env rt cfg rgy cc random failed can) fs clusters prior)) clusters prior')"
  shows "(\<forall>ir'\<in>set (dbItems later). result_fkey ir' \<noteq> result_fkey ir) \<and> (\<forall>ov\<in>set (dbOverflow later). overflow_fkey ov \<noteq> result_fkey ir)"
proof -
  define fs' where "fs' = soFindings (runDebate rt cfg (stage_env rt cfg rgy cc random failed can) fs clusters prior)"
  define env' where "env' = stage_env rt cfg' rgy' cc' random' failed' can'"
  have gone: "item_fkey it \<noteq> result_fkey ir" if "it \<in> set (debatable rt (deduplicateFindings fs') clusters)" for it
    using one_debate.settled_not_again [OF stage_env_debated assms(1-4)] that unfolding fs'_def by blast
  have later: "later = soDebate (runDebate rt cfg' env' fs' clusters prior')" using assms(5) by (simp add: env'_def fs'_def)
  have env': "debated env' = debates_of rt cfg' rgy' cc' random'" by (simp add: env'_def stage_env_debated)
  have "\<not> (\<exists>ir'\<in>set (dbItems later). result_fkey ir' = result_fkey ir)"
    unfolding later one_debate.debated_keys [OF env']
    using gone selected_debatable [of _ rt cfg' env' fs' clusters prior'] by blast
  moreover have "\<forall>ov\<in>set (dbOverflow later). overflow_fkey ov \<noteq> result_fkey ir"
  proof
    fix ov assume "ov \<in> set (dbOverflow later)"
    then obtain it where "it \<in> set (debatable rt (deduplicateFindings fs') clusters)" "overflow_fkey ov = item_fkey it"
      using overflow_from unfolding later by blast
    then show "overflow_fkey ov \<noteq> result_fkey ir" using gone by metis
  qed
  ultimately show ?thesis by blast
qed

text \<open>
  C11. An item that never converges is paid for at most three times: over any sequence of runs of a review in each of
  which the item is in dispute under an enabled trigger and is not settled, at most three runs spend an attempt on it
  (a reason that is evidence about the item), and once three have, every later run withholds it and says so. Runs that
  were cancelled, had no harness or no panel, and runs that left the item to the cap spend nothing and forget nothing.
\<close>

theorem attempts_bounded:
  assumes "\<forall>r\<in>set runs. in_play rt (ruConfig r) (ruFindings r) (ruClusters r) k \<and>
      (\<exists>rgy cc random failed can. ruEnv r = stage_env rt (ruConfig r) rgy (cc :: nat \<Rightarrow> ('e, 'c, 'f) engine option) random failed can)"
    and "\<forall>df\<in>set (history rt None runs). unsettled df k"
  shows "length (filter (\<lambda>df. attempt_spent df k) (history rt None runs)) \<le> 3 \<and>
    (\<forall>j<length (history rt None runs).
       length (filter (\<lambda>df. attempt_spent df k) (take j (history rt None runs))) = 3 \<longrightarrow> item_withheld (history rt None runs ! j) k)"
proof -
  have runs: "\<forall>r\<in>set runs. item_debater (debated (ruEnv r)) \<and> in_play rt (ruConfig r) (ruFindings r) (ruClusters r) k"
  proof
    fix r assume r: "r \<in> set runs"
    then obtain rgy random failed can and cc :: "nat \<Rightarrow> ('e, 'c, 'f) engine option"
      where "ruEnv r = stage_env rt (ruConfig r) rgy cc random failed can"
      using assms(1) by blast
    then show "item_debater (debated (ruEnv r)) \<and> in_play rt (ruConfig r) (ruFindings r) (ruClusters r) k"
      using assms(1) r one_debate.item_debater_axioms by (simp add: stage_env_debated)
  qed
  have zero: "attempts_at None k = 0" by (simp add: priorUnresolvedAttempts_def int_at_def)
  show ?thesis
  proof (intro conjI allI impI)
    show "length (filter (\<lambda>df. attempt_spent df k) (history rt None runs)) \<le> 3"
      using spent_runs_bounded [OF runs assms(2)] zero by (simp add: maxUnresolvedAttempts_def)
  next
    fix j
    assume "j < length (history rt None runs)" "length (filter (\<lambda>df. attempt_spent df k) (take j (history rt None runs))) = 3"
    then show "item_withheld (history rt None runs ! j) k"
      using withheld_after [OF runs assms(2)] zero by (simp add: maxUnresolvedAttempts_def)
  qed
qed

subsection \<open>Two runs on a small review\<close>

definition split_finding :: jsonFinding where
  "split_finding = zero_jsonFinding
     \<lparr>jfSeverity := ''HIGH'', jfFile := ''a.go'', jfLine := 3, jfProblem := ''leak'', jfReviewers := [''ann'', ''eve''],
      jfDisagreement := ''HIGH vs LOW''\<rparr>"

definition scripted_env :: circumstances where
  "scripted_env = stage_env exact_runtime (sample_config True) (Some sample_registry) (\<lambda>_. Some scripted) (\<lambda>_. ''0123456789abcdef'') False (\<lambda>_. False)"

definition silent_env :: circumstances where
  "silent_env = stage_env exact_runtime (sample_config True) (Some sample_registry)
     (\<lambda>_. None :: (string, nat, string) engine option) (\<lambda>_. ''0123456789abcdef'') False (\<lambda>_. False)"

definition silent_run :: run where
  "silent_run = \<lparr>ruConfig = sample_config True, ruEnv = silent_env, ruFindings = [split_finding], ruClusters = []\<rparr>"

definition leak_key :: findingKey where "leak_key = (''a.go'', 3, ''leak'')"

theorem settled_once_witness:
  "let out = runDebate exact_runtime (sample_config True) scripted_env [split_finding] [] None;
       later = soDebate (runDebate exact_runtime (sample_config True) scripted_env (soFindings out) [] (Some (soDebate out))) in
     (\<exists>ir\<in>set (dbItems (soDebate out)). result_fkey ir = leak_key) \<and> (\<forall>ir'\<in>set (dbItems later). result_fkey ir' \<noteq> leak_key)"
proof -
  define out where "out = runDebate exact_runtime (sample_config True) scripted_env [split_finding] [] None"
  have "case dbItems (soDebate out) of [ir] \<Rightarrow> result_fkey ir = leak_key \<and> irKind ir \<noteq> KindGrayZone \<and> irOutcome ir \<noteq> OutcomeUnresolved | _ \<Rightarrow> False"
    unfolding out_def by code_simp
  then obtain ir where ir: "ir \<in> set (dbItems (soDebate out))" "result_fkey ir = leak_key" "irKind ir \<noteq> KindGrayZone" "irOutcome ir \<noteq> OutcomeUnresolved"
    by (cases "dbItems (soDebate out)"; cases "tl (dbItems (soDebate out))") auto
  show ?thesis
    unfolding Let_def out_def [symmetric]
    using settled_once [OF ir(1) [unfolded out_def scripted_env_def] ir(3,4) _ refl] ir(1,2)
    unfolding out_def scripted_env_def by (metis empty_iff list.set(1))
qed

theorem attempts_bounded_witness:
  "length (filter (\<lambda>df. attempt_spent df leak_key) (history exact_runtime None (replicate 3 silent_run))) = 3 \<and>
   item_withheld (history exact_runtime None (replicate 5 silent_run) ! 4) leak_key"
proof -
  define runs where "runs = replicate 5 silent_run"
  have play: "in_play exact_runtime (sample_config True) [split_finding] [] leak_key" by code_simp
  have open_runs: "list_all (\<lambda>df. unsettled df leak_key) (history exact_runtime None runs)"
    and counts: "length (history exact_runtime None runs) = 5"
      "length (filter (\<lambda>df. attempt_spent df leak_key) (take 4 (history exact_runtime None runs))) = 3"
    and three: "length (filter (\<lambda>df. attempt_spent df leak_key) (history exact_runtime None (replicate 3 silent_run))) = 3"
    unfolding runs_def by code_simp+
  have env: "\<exists>rgy cc random failed can. silent_env =
      stage_env exact_runtime (sample_config True) rgy (cc :: nat \<Rightarrow> (string, nat, string) engine option) random failed can"
    unfolding silent_env_def by (intro exI, rule refl)
  have "\<forall>r\<in>set runs. in_play exact_runtime (ruConfig r) (ruFindings r) (ruClusters r) leak_key \<and>
      (\<exists>rgy cc random failed can. ruEnv r = stage_env exact_runtime (ruConfig r) rgy (cc :: nat \<Rightarrow> (string, nat, string) engine option) random failed can)"
    using play env by (simp add: runs_def silent_run_def)
  from attempts_bounded [OF this] open_runs counts three show ?thesis unfolding runs_def by (simp add: list_all_iff)
qed


end
