(* ===== verification/Throttle.thy ===== *)
theory Throttle
  imports Requeue
begin

text \<open>
  Adaptive leasing, \<^verbatim>\<open>internal/fanout/throttle.go\<close>: how many units of a lane (a provider and a model) may be out at
  once. Times are nanoseconds since Go's zero time, so the zero lane has its windows at \<open>0\<close>; an operation
  takes the clock's reading \<open>now\<close> and the state \<open>br\<close> of the providers' circuit breakers at its instant. The
  map of lanes, which creates a zero lane when it is asked for one, is a total function.
\<close>

record leaseKey =
  lane_provider :: string
  lane_model :: string

record providerLane =
  inFlight :: int
  limit :: int
  until :: int
  serverRun :: int
  serverUntil :: int

definition zero_lane :: providerLane where
  "zero_lane = \<lparr>inFlight = 0, limit = 0, until = 0, serverRun = 0, serverUntil = 0\<rparr>"

record providerThrottle =
  lease_ceiling :: int
  lease_window :: int
  key :: "nat \<Rightarrow> leaseKey"
  lanes :: "leaseKey \<Rightarrow> providerLane"
  provider_inFlight :: "string \<Rightarrow> int"

definition throttleWindow :: int where "throttleWindow = rateLimitBackoff"
definition serverStreak :: int where "serverStreak = 2"
definition serverWindow :: int where "serverWindow = 2 * outageBackoff"

definition newProviderThrottle :: "int \<Rightarrow> (nat \<Rightarrow> leaseKey) \<Rightarrow> providerThrottle" where
  "newProviderThrottle ceil k =
     \<lparr>lease_ceiling = max ceil 1, lease_window = throttleWindow, key = k, lanes = (\<lambda>_. zero_lane), provider_inFlight = (\<lambda>_. 0)\<rparr>"

definition capFor :: "providerThrottle \<Rightarrow> int \<Rightarrow> (string \<Rightarrow> State) \<Rightarrow> leaseKey \<Rightarrow> int \<times> bool" where
  "capFor t now br k =
     (if lane_provider k = [] then (lease_ceiling t, False)
      else let l = lanes t k;
               (lim, thr) = (if limit l > 0 then (limit l, True) else (lease_ceiling t, False));
               (lim, thr) = (if now < serverUntil l then (max 1 (lim div 2), True) else (lim, thr))
           in if br (lane_provider k) \<noteq> StateClosed then (1, True) else (lim, thr))"

record leaseVerdict =
  admit :: bool
  throttled :: bool
  probe :: bool

definition verdict :: "providerThrottle \<Rightarrow> int \<Rightarrow> (string \<Rightarrow> State) \<Rightarrow> leaseKey \<Rightarrow> leaseVerdict" where
  "verdict t now br k =
     (if lane_provider k = [] then \<lparr>admit = True, throttled = False, probe = False\<rparr>
      else let (lim, thr) = capFor t now br k; st = br (lane_provider k); out = provider_inFlight t (lane_provider k)
           in \<lparr>admit = (if st \<noteq> StateClosed then out < 1 else inFlight (lanes t k) < lim),
               throttled = thr, probe = (out = 0 \<and> st = StateHalfOpen)\<rparr>)"

text \<open>
  \<^verbatim>\<open>pick\<close> memoises the verdicts of one pass; they are of one instant, so the loop asks again. Positions are
  counted by \<open>k\<close>, and \<open>None\<close> is \<^verbatim>\<open>-1\<close>.
\<close>

fun pick_loop ::
  "(leaseKey \<Rightarrow> leaseVerdict) \<Rightarrow> (nat \<Rightarrow> leaseKey) \<Rightarrow> nat \<Rightarrow> nat option \<Rightarrow> nat option \<Rightarrow> nat list \<Rightarrow> nat option" where
  "pick_loop vd ky k healthy deferred [] = (case healthy of Some h \<Rightarrow> Some h | None \<Rightarrow> deferred)"
| "pick_loop vd ky k healthy deferred (i # is) =
     (let v = vd (ky i) in
      if \<not> admit v then pick_loop vd ky (Suc k) healthy deferred is
      else if probe v then Some k
      else if \<not> throttled v then pick_loop vd ky (Suc k) (if healthy = None then Some k else healthy) deferred is
      else pick_loop vd ky (Suc k) healthy (if deferred = None then Some k else deferred) is)"

definition pick :: "providerThrottle \<Rightarrow> int \<Rightarrow> (string \<Rightarrow> State) \<Rightarrow> nat list \<Rightarrow> nat option" where
  "pick t now br pend = pick_loop (verdict t now br) (key t) 0 None None pend"

definition set_lane :: "leaseKey \<Rightarrow> providerLane \<Rightarrow> providerThrottle \<Rightarrow> providerThrottle" where
  "set_lane k l t = t\<lparr>lanes := (lanes t)(k := l)\<rparr>"

definition count_lease :: "leaseKey \<Rightarrow> int \<Rightarrow> providerThrottle \<Rightarrow> providerThrottle" where
  "count_lease k d t =
     (let l = lanes t k; p = lane_provider k
      in (set_lane k (l\<lparr>inFlight := inFlight l + d\<rparr>) t)\<lparr>provider_inFlight := (provider_inFlight t)(p := provider_inFlight t p + d)\<rparr>)"

definition acquire :: "nat \<Rightarrow> providerThrottle \<Rightarrow> providerThrottle" where
  "acquire i t = (if lane_provider (key t i) \<noteq> [] then count_lease (key t i) 1 t else t)"

text \<open>What an attempt's outcome does to the caps of its lane.\<close>

definition adapt_lane :: "int \<Rightarrow> int \<Rightarrow> int \<Rightarrow> unit_result \<Rightarrow> providerLane \<Rightarrow> providerLane" where
  "adapt_lane ceil win now r l0 =
     (let serverFail = (primaryServerErr r \<or>
            (\<not> FallbackUsed r \<and> Status r \<noteq> StatusOK \<and> classifyUnitFailure (Err r) = failureServer))
      in if FallbackUsed r \<and> \<not> serverFail then l0
         else let l = (if Status r = StatusOK \<and> \<not> FallbackUsed r then l0\<lparr>serverRun := 0\<rparr> else l0) in
           if serverFail then
             (let l1 = l\<lparr>serverRun := serverRun l + 1\<rparr>
              in if serverRun l1 \<ge> serverStreak then l1\<lparr>serverUntil := now + serverWindow\<rparr> else l1)
           else if \<not> FallbackUsed r \<and> Status r \<noteq> StatusOK \<and> classifyUnitFailure (Err r) = failureRateLimit then
             l\<lparr>limit := max 1 ((if limit l = 0 then ceil else limit l) div 2), until := now + win\<rparr>
           else if \<not> FallbackUsed r \<and> Status r = StatusOK \<and> limit l > 0 \<and> \<not> now < until l then
             (let l1 = l\<lparr>limit := limit l + 1\<rparr> in if limit l1 \<ge> ceil then l1\<lparr>limit := 0\<rparr> else l1)
           else l)"

definition throttle_done :: "nat \<Rightarrow> int \<Rightarrow> unit_result \<Rightarrow> providerThrottle \<Rightarrow> providerThrottle" where
  "throttle_done i now r t =
     (let k = key t i in
      if lane_provider k = [] then t
      else let t1 = count_lease k (- 1) t
           in set_lane k (adapt_lane (lease_ceiling t1) (lease_window t1) now r (lanes t1 k)) t1)"

subsection \<open>Accounting of leases\<close>

text \<open>The counts of the throttle are those of the units in flight, and a lowered cap stays between one and the ceiling.\<close>

definition out_on :: "providerThrottle \<Rightarrow> leaseKey \<Rightarrow> nat list \<Rightarrow> nat" where
  "out_on t k us = length (filter (\<lambda>i. key t i = k) us)"

definition out_at :: "providerThrottle \<Rightarrow> string \<Rightarrow> nat list \<Rightarrow> nat" where
  "out_at t p us = length (filter (\<lambda>i. lane_provider (key t i) = p) us)"

definition throttle_ok :: "providerThrottle \<Rightarrow> nat list \<Rightarrow> bool" where
  "throttle_ok t us \<longleftrightarrow>
     1 \<le> lease_ceiling t \<and>
     (\<forall>k. 0 \<le> limit (lanes t k) \<and> limit (lanes t k) \<le> lease_ceiling t) \<and>
     (\<forall>k. lane_provider k \<noteq> [] \<longrightarrow> inFlight (lanes t k) = int (out_on t k us)) \<and>
     (\<forall>p. p \<noteq> [] \<longrightarrow> provider_inFlight t p = int (out_at t p us))"

lemmas throttle_simps = set_lane_def count_lease_def Let_def

lemma new_throttle_ok: "throttle_ok (newProviderThrottle c k) []"
  by (simp add: throttle_ok_def newProviderThrottle_def zero_lane_def out_on_def out_at_def)

lemma key_acquire [simp]: "key (acquire i t) = key t"
  by (simp add: acquire_def throttle_simps)

lemma key_done [simp]: "key (throttle_done i now r t) = key t"
  by (simp add: throttle_done_def throttle_simps)

lemma acquire_ok: "throttle_ok t us \<Longrightarrow> throttle_ok (acquire i t) (i # us)"
  by (auto simp: throttle_ok_def acquire_def throttle_simps out_on_def out_at_def)

lemma adapt_lane_inFlight [simp]: "inFlight (adapt_lane c w now r l) = inFlight l"
  by (simp add: adapt_lane_def Let_def)

lemma adapt_lane_limit:
  assumes "1 \<le> c" "0 \<le> limit l" "limit l \<le> c"
  shows "0 \<le> limit (adapt_lane c w now r l) \<and> limit (adapt_lane c w now r l) \<le> c"
  using assms by (auto simp: adapt_lane_def Let_def)

lemma length_filter_remove1:
  "i \<in> set us \<Longrightarrow> int (length (filter P (remove1 i us))) = int (length (filter P us)) - (if P i then 1 else 0)"
  by (induction us) auto

lemma out_remove1:
  assumes "i \<in> set us"
  shows "int (out_on t k (remove1 i us)) = int (out_on t k us) - (if key t i = k then 1 else 0)"
    "int (out_at t p (remove1 i us)) = int (out_at t p us) - (if lane_provider (key t i) = p then 1 else 0)"
  using assms by (simp_all add: out_on_def out_at_def length_filter_remove1)

lemma done_fields:
  assumes "lane_provider (key t i) \<noteq> []"
  shows "lease_ceiling (throttle_done i now r t) = lease_ceiling t"
    "provider_inFlight (throttle_done i now r t) =
       (provider_inFlight t)(lane_provider (key t i) := provider_inFlight t (lane_provider (key t i)) - 1)"
    "k \<noteq> key t i \<Longrightarrow> lanes (throttle_done i now r t) k = lanes t k"
    "lanes (throttle_done i now r t) (key t i) =
       adapt_lane (lease_ceiling t) (lease_window t) now r ((lanes t (key t i))\<lparr>inFlight := inFlight (lanes t (key t i)) - 1\<rparr>)"
  using assms by (simp_all add: throttle_done_def throttle_simps)

lemma done_ok:
  assumes "throttle_ok t us" "i \<in> set us"
  shows "throttle_ok (throttle_done i now r t) (remove1 i us)"
proof (cases "lane_provider (key t i) = []")
  case True
  then have "throttle_done i now r t = t" by (simp add: throttle_done_def)
  then show ?thesis using assms True by (auto simp: throttle_ok_def out_remove1)
next
  case False
  let ?t = "throttle_done i now r t"
  have out: "out_on ?t = out_on t" "out_at ?t = out_at t" by (simp_all add: fun_eq_iff out_on_def out_at_def)
  have "0 \<le> limit (lanes ?t k) \<and> limit (lanes ?t k) \<le> lease_ceiling t" for k
    using assms(1) False by (cases "k = key t i") (auto simp: throttle_ok_def done_fields adapt_lane_limit)
  moreover have "inFlight (lanes ?t k) = int (out_on t k (remove1 i us))" if "lane_provider k \<noteq> []" for k
    using assms False that by (cases "k = key t i") (auto simp: throttle_ok_def done_fields out_remove1)
  moreover have "provider_inFlight ?t p = int (out_at t p (remove1 i us))" if "p \<noteq> []" for p
    using assms False that by (auto simp: throttle_ok_def done_fields out_remove1)
  moreover have "1 \<le> lease_ceiling t" using assms(1) by (simp add: throttle_ok_def)
  ultimately show ?thesis unfolding throttle_ok_def out done_fields(1) [OF False] by blast
qed

subsection \<open>Which unit is picked\<close>

lemma capFor_pos: "throttle_ok t us \<Longrightarrow> 1 \<le> fst (capFor t now br k) \<and> fst (capFor t now br k) \<le> lease_ceiling t"
proof -
  assume ok: "throttle_ok t us"
  then have "1 \<le> lease_ceiling t" "limit (lanes t k) \<le> lease_ceiling t" by (auto simp: throttle_ok_def)
  then show ?thesis by (auto simp: capFor_def Let_def)
qed

lemma admit_unless_out:
  assumes "throttle_ok t us" "\<not> admit (verdict t now br k)"
  shows "\<exists>i\<in>set us. lane_provider (key t i) = lane_provider k"
proof -
  have ne: "lane_provider k \<noteq> []" using assms(2) by (auto simp: verdict_def)
  have "out_on t k us \<le> out_at t (lane_provider k) us"
    unfolding out_on_def out_at_def by (induction us) auto
  moreover have "0 < out_on t k us \<or> 0 < out_at t (lane_provider k) us"
    using assms ne capFor_pos [OF assms(1), of now br k]
    by (auto simp: verdict_def throttle_ok_def Let_def split: if_splits prod.splits)
  ultimately have "filter (\<lambda>i. lane_provider (key t i) = lane_provider k) us \<noteq> []" by (auto simp: out_at_def)
  then show ?thesis by (auto simp: filter_empty_conv)
qed

text \<open>What the loop knows after the positions \<open>pre\<close>.\<close>

definition pick_inv :: "(nat \<Rightarrow> leaseVerdict) \<Rightarrow> nat list \<Rightarrow> nat option \<Rightarrow> nat option \<Rightarrow> bool" where
  "pick_inv v pre h d \<longleftrightarrow>
     (case h of Some x \<Rightarrow> x < length pre \<and> admit (v (pre ! x)) \<and> \<not> throttled (v (pre ! x))
      | None \<Rightarrow> list_all (\<lambda>i. admit (v i) \<longrightarrow> throttled (v i)) pre) \<and>
     (case d of Some x \<Rightarrow> x < length pre \<and> admit (v (pre ! x))
      | None \<Rightarrow> h = None \<longrightarrow> list_all (\<lambda>i. \<not> admit (v i)) pre) \<and>
     list_all (\<lambda>i. admit (v i) \<longrightarrow> \<not> probe (v i)) pre"

lemma pick_inv_step:
  assumes "pick_inv v pre h d" "\<not> (admit (v i) \<and> probe (v i))"
  shows "\<not> admit (v i) \<Longrightarrow> pick_inv v (pre @ [i]) h d"
    "admit (v i) \<Longrightarrow> \<not> throttled (v i) \<Longrightarrow> pick_inv v (pre @ [i]) (if h = None then Some (length pre) else h) d"
    "admit (v i) \<Longrightarrow> throttled (v i) \<Longrightarrow> pick_inv v (pre @ [i]) h (if d = None then Some (length pre) else d)"
  using assms by (cases h; cases d; simp add: pick_inv_def nth_append)+

definition picked :: "(nat \<Rightarrow> leaseVerdict) \<Rightarrow> nat list \<Rightarrow> nat option \<Rightarrow> bool" where
  "picked v us res \<longleftrightarrow>
     (case res of
        None \<Rightarrow> list_all (\<lambda>i. \<not> admit (v i)) us
      | Some at \<Rightarrow> at < length us \<and> admit (v (us ! at)) \<and>
          (probe (v (us ! at)) \<or> list_all (\<lambda>i. admit (v i) \<longrightarrow> \<not> probe (v i)) us \<and>
           (throttled (v (us ! at)) \<longrightarrow> list_all (\<lambda>i. admit (v i) \<longrightarrow> throttled (v i)) us)))"

lemma pick_loop_picked:
  "pick_inv (\<lambda>i. vd (ky i)) pre h d \<Longrightarrow> picked (\<lambda>i. vd (ky i)) (pre @ is) (pick_loop vd ky (length pre) h d is)"
proof (induction "is" arbitrary: pre h d)
  case Nil
  then show ?case by (cases h; cases d) (auto simp: picked_def pick_inv_def)
next
  case (Cons i "is")
  let ?v = "\<lambda>i. vd (ky i)"
  note IH = Cons.IH [where pre = "pre @ [i]", simplified]
  show ?case
  proof (cases "admit (?v i) \<and> probe (?v i)")
    case True
    then show ?thesis by (simp add: picked_def)
  next
    case False
    note inv = pick_inv_step [OF Cons.prems False]
    from False inv show ?thesis by (cases "admit (?v i)"; cases "throttled (?v i)") (auto simp: Let_def intro!: IH)
  qed
qed

lemma pick_picked: "picked (\<lambda>i. verdict t now br (key t i)) us (pick t now br us)"
  using pick_loop_picked [of "verdict t now br" "key t" "[]" None None us] by (simp add: pick_def pick_inv_def)

text \<open>
  C22. The throttle leases within its caps, the clock and the breakers read at one instant and units without a
  provider apart, which have no cap: the lane of the unit it picks has fewer units out than its cap, which is
  between one and the ceiling; a provider whose breaker is not closed has none out; a unit of a throttled
  lane is picked only when no admissible unit is healthy, and when a half-open breaker awaits its
  probe the pick is a probe. When it picks nothing, every pending unit's provider has a unit out.
\<close>

theorem throttle_respects_caps:
  assumes "throttle_ok t out"
  shows "case pick t now br us of
      None \<Rightarrow> list_all (\<lambda>i. out_at t (lane_provider (key t i)) out > 0) us
    | Some at \<Rightarrow>
        let k = key t (us ! at); p = lane_provider k in
        at < length us \<and>
        (p = [] \<or> br p = StateClosed \<and> int (out_on t k out) < fst (capFor t now br k) \<or> br p \<noteq> StateClosed \<and> out_at t p out = 0) \<and>
        fst (capFor t now br k) \<in> {1..lease_ceiling t} \<and>
        (probe (verdict t now br k) \<or>
         filter (\<lambda>i. admit (verdict t now br (key t i)) \<and> probe (verdict t now br (key t i))) us = [] \<and>
         (\<not> throttled (verdict t now br k) \<or>
          filter (\<lambda>i. admit (verdict t now br (key t i)) \<and> \<not> throttled (verdict t now br (key t i))) us = []))"
proof (cases "pick t now br us")
  case None
  have "out_at t (lane_provider (key t i)) out > 0" if "i \<in> set us" for i
    using admit_unless_out [OF assms, of now br "key t i"] pick_picked [of t now br us] that None
    by (auto simp: picked_def list_all_iff out_at_def filter_empty_conv)
  then show ?thesis using None by (simp add: list_all_iff)
next
  case (Some at)
  note pk = pick_picked [of t now br us, unfolded Some picked_def option.case]
  define k where "k = key t (us ! at)"
  have adm: "admit (verdict t now br k)" using pk by (simp add: k_def)
  have "lane_provider k = [] \<or> br (lane_provider k) = StateClosed \<and> int (out_on t k out) < fst (capFor t now br k) \<or>
      br (lane_provider k) \<noteq> StateClosed \<and> out_at t (lane_provider k) out = 0"
    using adm assms by (auto simp: verdict_def throttle_ok_def Let_def split: if_splits prod.splits)
  then show ?thesis using pk capFor_pos [OF assms, of now br k]
    unfolding Some option.case Let_def k_def by (auto simp: list_all_iff filter_empty_conv)
qed

definition lane_ab :: "nat \<Rightarrow> leaseKey" where
  "lane_ab i = \<lparr>lane_provider = if i < 2 then ''a'' else ''b'', lane_model = ''m''\<rparr>"

theorem throttle_respects_caps_witness:
  "pick (acquire 0 (newProviderThrottle 1 lane_ab)) 0 (\<lambda>_. StateClosed) [1, 2] = Some 1 \<and>
   (case pick (acquire 0 (newProviderThrottle 1 lane_ab)) 0 (\<lambda>_. StateClosed) [1, 2] of
      None \<Rightarrow> False | Some at \<Rightarrow> at < 2)"
proof -
  have p: "pick (acquire 0 (newProviderThrottle 1 lane_ab)) 0 (\<lambda>_. StateClosed) [1, 2] = Some 1" by code_simp
  have "throttle_ok (acquire 0 (newProviderThrottle 1 lane_ab)) [0]" by (rule acquire_ok [OF new_throttle_ok])
  from throttle_respects_caps [OF this, where now = 0 and br = "\<lambda>_. StateClosed" and us = "[1, 2]"] p show ?thesis by (simp add: Let_def)
qed

end
