(* ===== verification/WorkQueue.thy ===== *)
theory WorkQueue
  imports Throttle
begin

text \<open>
  The work queue and its pool of workers: \<^verbatim>\<open>internal/fanout/workpool.go\<close> and the loop \<^verbatim>\<open>work\<close>/\<^verbatim>\<open>runUnit\<close> of \<^verbatim>\<open>Engine.Run\<close>
  (\<^verbatim>\<open>engine.go\<close>). Every operation of the queue runs under its mutex and is one atomic step. \<^verbatim>\<open>lease\<close> is a loop of
  passes, each one critical section that hands out a unit, reports the queue drained, or waits (for a
  release, for the timer it arms, or for the run to be cancelled); \<open>lease_pass\<close> is one pass.
\<close>

subsection \<open>The queue\<close>

record unitQueue =
  pending :: "nat list"
  delayed :: "(nat \<times> int) list"
  held :: int
  throttle :: "providerThrottle option"

definition newUnitQueue :: "nat list \<Rightarrow> providerThrottle option \<Rightarrow> unitQueue" where
  "newUnitQueue idx thr = \<lparr>pending = idx, delayed = [], held = 0, throttle = thr\<rparr>"

definition promote :: "bool \<Rightarrow> int \<Rightarrow> unitQueue \<Rightarrow> unitQueue" where
  "promote everything now q =
     (if delayed q = [] then q
      else let ready = (\<lambda>d. everything \<or> \<not> snd d > now)
           in q\<lparr>pending := pending q @ map fst (filter ready (delayed q)), delayed := filter (\<lambda>d. \<not> ready d) (delayed q)\<rparr>)"

definition take_unit :: "bool \<Rightarrow> int \<Rightarrow> (string \<Rightarrow> State) \<Rightarrow> unitQueue \<Rightarrow> (nat \<times> unitQueue) option" where
  "take_unit everything now br q =
     (if pending q = [] then None
      else case (case throttle q of
                   None \<Rightarrow> Some 0
                 | Some t \<Rightarrow> if everything then Some 0 else pick t now br (pending q)) of
        None \<Rightarrow> None
      | Some at \<Rightarrow>
          let i = pending q ! at
          in Some (i, q\<lparr>pending := take at (pending q) @ drop (Suc at) (pending q),
                        throttle := map_option (acquire i) (throttle q)\<rparr>))"

definition nextReady :: "unitQueue \<Rightarrow> int" where
  "nextReady q = fold (\<lambda>d at. if snd d < at then snd d else at) (tl (delayed q)) (snd (hd (delayed q)))"

datatype lease_outcome = Leased nat | Drained | Waiting "int option"

definition lease_pass :: "bool \<Rightarrow> int \<Rightarrow> (string \<Rightarrow> State) \<Rightarrow> unitQueue \<Rightarrow> lease_outcome \<times> unitQueue" where
  "lease_pass ctxDone now br q0 =
     (let q = promote ctxDone now q0 in
      case take_unit ctxDone now br q of
        Some (i, q1) \<Rightarrow> (Leased i, q1\<lparr>held := held q1 + 1\<rparr>)
      | None \<Rightarrow>
          if pending q = [] \<and> delayed q = [] \<and> held q = 0 then (Drained, q)
          else (Waiting (if delayed q \<noteq> [] then Some (nextReady q) else None), q))"

definition settle_throttle :: "nat \<Rightarrow> int \<Rightarrow> unit_result \<Rightarrow> unitQueue \<Rightarrow> unitQueue" where
  "settle_throttle i now r q = q\<lparr>throttle := map_option (throttle_done i now r) (throttle q)\<rparr>"

definition release :: "nat \<Rightarrow> int \<Rightarrow> unit_result \<Rightarrow> unitQueue \<Rightarrow> unitQueue" where
  "release i now r q = settle_throttle i now r (q\<lparr>held := held q - 1\<rparr>)"

definition requeue :: "nat \<Rightarrow> int \<Rightarrow> int \<Rightarrow> unit_result \<Rightarrow> unitQueue \<Rightarrow> unitQueue" where
  "requeue i wait now r q =
     (let q1 = settle_throttle i now r (q\<lparr>held := held q - 1\<rparr>)
      in q1\<lparr>delayed := delayed q1 @ [(i, now + wait)]\<rparr>)"

definition poolWorkers :: "int \<Rightarrow> int \<Rightarrow> int" where
  "poolWorkers n maxParallel = (if maxParallel > 0 \<and> maxParallel < n then maxParallel else n)"

subsection \<open>The pool\<close>

text \<open>
  The workers are interchangeable: the state counts the idle ones and those that have left, and lists
  the units in the hands of the others. What a provider answers, what the breakers show, a panic while
  a unit runs, the clock and the cancellation of the run are the environment's.
\<close>

record pool =
  queue :: unitQueue
  idle :: nat
  busy :: "nat list"
  gone :: nat
  retry :: "nat \<Rightarrow> unitRetryState"
  results :: "nat \<Rightarrow> unit_result option"
  resolved :: "nat list"
  clock :: int
  cancelled :: bool

definition start_pool :: "nat list \<Rightarrow> providerThrottle option \<Rightarrow> nat \<Rightarrow> int \<Rightarrow> pool" where
  "start_pool idx thr n now =
     \<lparr>queue = newUnitQueue idx thr, idle = n, busy = [], gone = 0, retry = (\<lambda>_. fresh_unit), results = (\<lambda>_. None),
      resolved = [], clock = now, cancelled = False\<rparr>"

text \<open>The end of \<^verbatim>\<open>runUnit\<close>: the unit goes back with its backoff, or it is resolved.\<close>

definition hand_back :: "nat \<Rightarrow> int \<Rightarrow> unit_result \<Rightarrow> pool \<Rightarrow> pool" where
  "hand_back i wait r s =
     s\<lparr>queue := requeue i wait (clock s) r (queue s), busy := remove1 i (busy s), idle := idle s + 1,
       results := (results s)(i \<mapsto> r)\<rparr>"

definition resolve :: "nat \<Rightarrow> unit_result \<Rightarrow> pool \<Rightarrow> pool" where
  "resolve i r s =
     (let st = retry s i;
          r1 = (if requeues st > 0 then r\<lparr>Requeues := requeues st, UnitAttempts := attempts st\<rparr> else r)
      in s\<lparr>queue := release i (clock s) r1 (queue s), busy := remove1 i (busy s), idle := idle s + 1,
           results := (results s)(i \<mapsto> r1), resolved := resolved s @ [i]\<rparr>)"

definition finish :: "unitRetryPolicy \<Rightarrow> (nat \<Rightarrow> bool) \<Rightarrow> nat \<Rightarrow> unit_result \<Rightarrow> pool \<Rightarrow> pool" where
  "finish p covered i res s =
     (case settle_unit p (covered i) (cancelled s) (retry s i) res of (st, wait, again, r) \<Rightarrow>
        let s1 = s\<lparr>retry := (retry s)(i := st)\<rparr> in if again then hand_back i wait r s1 else resolve i r s1)"

definition lease_step :: "(string \<Rightarrow> State) \<Rightarrow> pool \<Rightarrow> pool" where
  "lease_step br s =
     (case lease_pass (cancelled s) (clock s) br (queue s) of
        (Leased i, q) \<Rightarrow> s\<lparr>queue := q, idle := idle s - 1, busy := i # busy s\<rparr>
      | (Drained, q) \<Rightarrow> s\<lparr>queue := q, idle := idle s - 1, gone := gone s + 1\<rparr>
      | (Waiting _, q) \<Rightarrow> s\<lparr>queue := q\<rparr>)"

inductive pool_step :: "unitRetryPolicy \<Rightarrow> (nat \<Rightarrow> bool) \<Rightarrow> pool \<Rightarrow> pool \<Rightarrow> bool" for p covered where
  lease: "idle s > 0 \<Longrightarrow> pool_step p covered s (lease_step br s)"
| attempt: "i \<in> set (busy s) \<Longrightarrow> pool_step p covered s (finish p covered i res s)"
| cut_short: "i \<in> set (busy s) \<Longrightarrow> cancelled s \<Longrightarrow> attempts (retry s i) > 0 \<Longrightarrow> results s i = Some r \<Longrightarrow>
    pool_step p covered s (resolve i r s)"
| panic: "i \<in> set (busy s) \<Longrightarrow> pool_step p covered s (resolve i res s)"
| tick: "clock s \<le> now \<Longrightarrow> pool_step p covered s (s\<lparr>clock := now\<rparr>)"
| cancel: "pool_step p covered s (s\<lparr>cancelled := True\<rparr>)"

inductive_cases pool_stepE: "pool_step p covered s s'"

text \<open>The states reached with a number of leases handed out.\<close>

inductive pool_run :: "unitRetryPolicy \<Rightarrow> (nat \<Rightarrow> bool) \<Rightarrow> pool \<Rightarrow> nat \<Rightarrow> pool \<Rightarrow> bool" for p covered s0 where
  start: "pool_run p covered s0 0 s0"
| step: "pool_run p covered s0 n s \<Longrightarrow> pool_step p covered s s' \<Longrightarrow>
    pool_run p covered s0 (n + (if length (busy s') > length (busy s) then 1 else 0)) s'"

subsection \<open>Every unit is somewhere\<close>

definition queued :: "unitQueue \<Rightarrow> nat multiset" where
  "queued q = mset (pending q) + mset (map fst (delayed q))"

definition gate_ok :: "unitQueue \<Rightarrow> nat list \<Rightarrow> bool" where
  "gate_ok q us \<longleftrightarrow> held q = int (length us) \<and> (case throttle q of None \<Rightarrow> True | Some t \<Rightarrow> throttle_ok t us)"

lemma queued_promote [simp]: "queued (promote e now q) = queued q"
proof -
  have "image_mset fst (filter_mset P M) + image_mset fst (filter_mset (\<lambda>x. \<not> P x) M) = image_mset fst M"
    for P and M :: "(nat \<times> int) multiset" by (metis image_mset_union multiset_partition)
  from this [of "\<lambda>d. e \<or> \<not> snd d > now" "mset (delayed q)"] show ?thesis
    by (simp add: queued_def promote_def Let_def add.assoc)
qed

lemma gate_promote [simp]: "gate_ok (promote e now q) us = gate_ok q us"
  by (simp add: gate_ok_def promote_def Let_def)

lemma held_promote [simp]: "held (promote e now q) = held q"
  by (simp add: promote_def Let_def)

lemma mset_take_drop: "at < length xs \<Longrightarrow> add_mset (xs ! at) (mset (take at xs @ drop (Suc at) xs)) = mset xs"
  by (metis id_take_nth_drop mset.simps(2) mset_append union_mset_add_mset_right)

lemma pick_less: "pick t now br us = Some at \<Longrightarrow> at < length us"
  using pick_picked [of t now br us] by (simp add: picked_def)

lemma length_remove1_Suc: "i \<in> set us \<Longrightarrow> Suc (length (remove1 i us)) = length us"
  by (metis One_nat_def Suc_pred length_pos_if_in_set length_remove1)

lemma take_unit_Some:
  assumes "take_unit e now br q = Some (i, q')"
  shows "queued q = add_mset i (queued q')" "delayed q' = delayed q" "gate_ok q us \<Longrightarrow> gate_ok (q'\<lparr>held := held q' + 1\<rparr>) (i # us)"
    "i \<in> set (pending q)"
proof -
  obtain at where at: "at < length (pending q)" "i = pending q ! at"
    "q' = q\<lparr>pending := take at (pending q) @ drop (Suc at) (pending q), throttle := map_option (acquire i) (throttle q)\<rparr>"
  proof -
    obtain at where "(case throttle q of None \<Rightarrow> Some 0 | Some t \<Rightarrow> if e then Some 0 else pick t now br (pending q)) = Some at"
      and ne: "pending q \<noteq> []" and "i = pending q ! at" "q' = q\<lparr>pending := take at (pending q) @ drop (Suc at) (pending q),
        throttle := map_option (acquire i) (throttle q)\<rparr>"
      using assms by (auto simp: take_unit_def Let_def split: if_splits option.splits)
    moreover from this have "at < length (pending q)" by (auto split: option.splits if_splits dest: pick_less)
    ultimately show thesis using that by blast
  qed
  show "queued q = add_mset i (queued q')" using mset_take_drop [OF at(1)] at(2,3) by (simp add: queued_def)
  show "delayed q' = delayed q" "i \<in> set (pending q)" using at by simp_all
  show "gate_ok q us \<Longrightarrow> gate_ok (q'\<lparr>held := held q' + 1\<rparr>) (i # us)"
    using at(3) by (auto simp: gate_ok_def acquire_ok split: option.splits)
qed

lemma settle_gate:
  assumes "gate_ok q us" "i \<in> set us"
  shows "gate_ok (release i now r q) (remove1 i us)" "gate_ok (requeue i w now r q) (remove1 i us)"
proof -
  have l: "int (length us) - 1 = int (length (remove1 i us))"
    using length_remove1_Suc [OF assms(2)] by simp
  show "gate_ok (release i now r q) (remove1 i us)" "gate_ok (requeue i w now r q) (remove1 i us)"
    using assms l done_ok [OF _ assms(2)]
    by (auto simp: gate_ok_def release_def requeue_def settle_throttle_def Let_def split: option.splits)
qed

lemma queued_release [simp]: "queued (release i now r q) = queued q"
  by (simp add: queued_def release_def settle_throttle_def)

lemma queued_requeue [simp]: "queued (requeue i w now r q) = add_mset i (queued q)"
  by (simp add: queued_def requeue_def settle_throttle_def Let_def)

text \<open>
  The invariant of the pool: the units are partitioned between the queue, the workers and the resolved
  ones, the queue's counts are right, and a worker has left only when all is resolved.
\<close>

definition pool_ok :: "nat list \<Rightarrow> nat \<Rightarrow> pool \<Rightarrow> bool" where
  "pool_ok units n s \<longleftrightarrow>
     queued (queue s) + mset (busy s) + mset (resolved s) = mset units \<and>
     gate_ok (queue s) (busy s) \<and> idle s + length (busy s) + gone s = n \<and>
     (gone s > 0 \<longrightarrow> queued (queue s) = {#} \<and> busy s = [])"

lemma start_pool_ok:
  assumes "case thr of None \<Rightarrow> True | Some t \<Rightarrow> throttle_ok t []"
  shows "pool_ok units n (start_pool units thr n now)"
  using assms by (simp add: pool_ok_def start_pool_def newUnitQueue_def queued_def gate_ok_def)

lemma queued_empty: "queued q = {#} \<longleftrightarrow> pending q = [] \<and> delayed q = []"
  by (simp add: queued_def)

lemma lease_step_cases:
  assumes "pool_ok units n s"
  obtains (leased) i q where "queued (queue s) = add_mset i (queued q)" "gate_ok q (i # busy s)" "gone s = 0"
      "lease_step br s = s\<lparr>queue := q, idle := idle s - 1, busy := i # busy s\<rparr>"
  | (drained) q where "queued (queue s) = {#}" "queued q = {#}" "gate_ok q (busy s)" "busy s = []"
      "lease_step br s = s\<lparr>queue := q, idle := idle s - 1, gone := gone s + 1\<rparr>"
  | (waiting) q where "queued q = queued (queue s)" "gate_ok q (busy s)" "lease_step br s = s\<lparr>queue := q\<rparr>"
proof (cases "take_unit (cancelled s) (clock s) br (promote (cancelled s) (clock s) (queue s))")
  case (Some a)
  obtain i q where a: "a = (i, q)" by (cases a)
  note t = take_unit_Some [OF Some [unfolded a]]
  have "queued (queue s) = add_mset i (queued q)" using t(1) by simp
  moreover from this have "gone s = 0" using assms by (auto simp: pool_ok_def)
  moreover have "queued (q\<lparr>held := held q + 1\<rparr>) = queued q" by (simp add: queued_def)
  ultimately show thesis
    using leased [of i "q\<lparr>held := held q + 1\<rparr>"] t(3) [of "busy s"] assms Some a
    by (simp add: lease_step_def lease_pass_def pool_ok_def)
next
  case None
  let ?q = "promote (cancelled s) (clock s) (queue s)"
  show thesis
  proof (cases "pending ?q = [] \<and> delayed ?q = [] \<and> held ?q = 0")
    case True
    then have "queued (queue s) = {#}" using queued_empty [of ?q] by simp
    moreover have "busy s = []" using True assms by (auto simp: pool_ok_def gate_ok_def)
    ultimately show thesis
      using drained [of ?q] True None assms by (simp add: lease_step_def lease_pass_def pool_ok_def)
  next
    case False
    then show thesis
      using waiting [of ?q] None assms by (auto simp: lease_step_def lease_pass_def Let_def pool_ok_def)
  qed
qed

lemma mset_remove1_busy: "i \<in> set b \<Longrightarrow> add_mset i (mset (remove1 i b)) = mset b"
  by simp

lemma return_ok:
  assumes "pool_ok units n s" "i \<in> set (busy s)"
  shows "pool_ok units n (resolve i r s)" "pool_ok units n (hand_back i w r s)"
proof -
  have "gone s = 0" "idle s + 1 + length (remove1 i (busy s)) = idle s + length (busy s)"
    using assms length_remove1_Suc [OF assms(2)] by (auto simp: pool_ok_def simp del: length_remove1)
  moreover have "mset units = add_mset i (queued (queue s) + (mset (busy s) - {#i#}) + mset (resolved s))"
  proof -
    obtain B where B: "mset (busy s) = add_mset i B" using assms(2) by (metis mset_add set_mset_mset)
    have "mset units = queued (queue s) + add_mset i B + mset (resolved s)" using assms(1) B by (simp add: pool_ok_def)
    then show ?thesis using B by simp
  qed
  moreover have "gate_ok (release i (clock s) r' (queue s)) (remove1 i (busy s))"
    "gate_ok (requeue i w (clock s) r (queue s)) (remove1 i (busy s))" for r'
    using assms by (auto simp: pool_ok_def settle_gate)
  ultimately show "pool_ok units n (resolve i r s)" "pool_ok units n (hand_back i w r s)"
    using assms(1) by (simp_all add: pool_ok_def resolve_def hand_back_def Let_def)
qed

lemma pool_ok_retry [simp]: "pool_ok units n (s\<lparr>retry := x\<rparr>) = pool_ok units n s"
  by (simp add: pool_ok_def)

lemma pool_step_ok:
  assumes "pool_step p covered s s'" "pool_ok units n s"
  shows "pool_ok units n s'"
  using assms
proof cases
  case (lease br)
  show ?thesis using assms(2)
  proof (cases rule: lease_step_cases [where br = br])
    case (leased i q)
    then show ?thesis using assms(2) lease by (auto simp: pool_ok_def)
  next
    case (drained q)
    then show ?thesis using assms(2) lease by (auto simp: pool_ok_def)
  next
    case (waiting q)
    then show ?thesis using assms(2) lease by (auto simp: pool_ok_def)
  qed
next
  case (attempt i res)
  then show ?thesis using assms(2) return_ok [of units n "s\<lparr>retry := _\<rparr>" i]
    by (auto simp: finish_def Let_def split: prod.splits)
qed (use assms(2) in \<open>auto simp: return_ok\<close>, auto simp: pool_ok_def)

lemma pool_run_ok: "pool_run p covered s0 k s \<Longrightarrow> pool_ok units n s0 \<Longrightarrow> pool_ok units n s"
  by (induction rule: pool_run.induct) (auto intro: pool_step_ok)

subsection \<open>The pool ends\<close>

text \<open>
  What the pool asks of a retry policy: some measure of a unit's state is positive as long as the unit may be
  leased and sinks whenever it is sent back.
\<close>

locale retry_budget =
  fixes p :: unitRetryPolicy and ok :: "unitRetryState \<Rightarrow> bool" and left :: "unitRetryState \<Rightarrow> nat"
  assumes fresh_ok: "ok fresh_unit"
    and left_pos: "ok st \<Longrightarrow> 1 \<le> left st"
    and again_sinks: "ok st \<Longrightarrow> settle_unit p cov canc st r = (st', d, True, r') \<Longrightarrow> ok st' \<and> left st' < left st"
begin

definition potential :: "pool \<Rightarrow> nat" where
  "potential s = (\<Sum>i\<in>#queued (queue s). left (retry s i)) + (\<Sum>i\<in>#mset (busy s). left (retry s i) - 1)"

definition live_ok :: "pool \<Rightarrow> bool" where
  "live_ok s \<longleftrightarrow> (\<forall>i\<in>#queued (queue s) + mset (busy s). ok (retry s i))"

lemma resolve_potential:
  assumes "i \<in> set (busy s)" "live_ok s"
  shows "potential (resolve i r s) \<le> potential s" "live_ok (resolve i r s)"
proof -
  obtain B where B: "mset (busy s) = add_mset i B" using assms(1) by (metis mset_add set_mset_mset)
  show "potential (resolve i r s) \<le> potential s" by (simp add: potential_def resolve_def Let_def B)
  show "live_ok (resolve i r s)" using assms(2) by (auto simp: live_ok_def resolve_def Let_def B)
qed

lemma finish_potential:
  assumes "pool_ok units n s" "distinct units" "i \<in> set (busy s)" "live_ok s"
  shows "potential (finish p covered i res s) \<le> potential s" "live_ok (finish p covered i res s)"
proof -
  obtain B where B: "mset (busy s) = add_mset i B" using assms(3) by (metis mset_add set_mset_mset)
  have "count (mset units) i \<le> 1" using assms(2) by (simp add: distinct_count_atmost_1)
  moreover have "mset units = add_mset i (queued (queue s) + B + mset (resolved s))"
    using assms(1) B by (simp add: pool_ok_def)
  ultimately have fresh: "i \<notin># queued (queue s)" "i \<notin># B"
    by (auto simp: not_in_iff)
  obtain st d again r where f: "settle_unit p (covered i) (cancelled s) (retry s i) res = (st, d, again, r)"
    by (rule prod_cases4)
  have sums: "(\<Sum>j\<in>#queued (queue s). left (((retry s)(i := st)) j)) = (\<Sum>j\<in>#queued (queue s). left (retry s j))"
    "(\<Sum>j\<in>#B. left (((retry s)(i := st)) j) - 1) = (\<Sum>j\<in>#B. left (retry s j) - 1)"
    using fresh by (auto intro!: arg_cong [where f = sum_mset] image_mset_cong)
  have ok: "ok (retry s i)" using assms(4) by (simp add: live_ok_def B)
  show "potential (finish p covered i res s) \<le> potential s"
  proof (cases again)
    case True
    then have "left st \<le> left (retry s i) - 1" using again_sinks [OF ok, of "covered i" "cancelled s" res st d r] f by auto
    then show ?thesis using f True sums by (simp add: finish_def potential_def hand_back_def B Let_def)
  next
    case False
    then show ?thesis using f sums by (simp add: finish_def potential_def resolve_def B Let_def)
  qed
  show "live_ok (finish p covered i res s)"
    using f assms(4) fresh again_sinks [OF ok, of "covered i" "cancelled s" res st d r]
    by (cases again) (auto simp: finish_def live_ok_def hand_back_def resolve_def B Let_def)
qed

lemma step_potential:
  assumes "pool_step p covered s s'" "pool_ok units n s" "distinct units" "live_ok s"
  shows "potential s' + (if length (busy s') > length (busy s) then 1 else 0) \<le> potential s \<and> live_ok s'"
  using assms(1)
proof cases
  case (lease br)
  show ?thesis using assms(2)
  proof (cases rule: lease_step_cases [where br = br])
    case (leased i q)
    then have "1 \<le> left (retry s i)" using assms(4) left_pos by (simp add: live_ok_def)
    then show ?thesis using leased lease assms(4) by (auto simp: potential_def live_ok_def)
  next
    case (drained q)
    then show ?thesis using lease assms(4) by (simp add: potential_def live_ok_def)
  next
    case (waiting q)
    then show ?thesis using lease assms(4) by (simp add: potential_def live_ok_def)
  qed
next
  case (attempt i res)
  have "length (busy (finish p covered i res s)) \<le> length (busy s)"
    by (auto simp: finish_def hand_back_def resolve_def Let_def length_remove1 split: prod.splits)
  then show ?thesis using finish_potential [OF assms(2,3) attempt(2) assms(4), of covered res] attempt by simp
next
  case (cut_short i r)
  have "length (busy (resolve i r s)) \<le> length (busy s)" by (simp add: resolve_def Let_def length_remove1)
  then show ?thesis using resolve_potential [OF cut_short(2) assms(4)] cut_short by simp
next
  case (panic i res)
  have "length (busy (resolve i res s)) \<le> length (busy s)" by (simp add: resolve_def Let_def length_remove1)
  then show ?thesis using resolve_potential [OF panic(2) assms(4)] panic by simp
qed (use assms(4) in \<open>simp_all add: potential_def live_ok_def\<close>)

lemma run_bounded:
  assumes "pool_run p covered (start_pool units thr n now) k s" "distinct units"
    "case thr of None \<Rightarrow> True | Some t \<Rightarrow> throttle_ok t []"
  shows "k + potential s \<le> left fresh_unit * length units"
proof -
  let ?s0 = "start_pool units thr n now"
  have "k + potential s \<le> potential ?s0 \<and> live_ok s"
    using assms(1)
  proof induction
    case start
    then show ?case by (simp add: live_ok_def start_pool_def fresh_ok)
  next
    case (step k s s')
    have "pool_ok units n s" by (rule pool_run_ok [OF step(1) start_pool_ok [OF assms(3)]])
    from step_potential [OF step(2) this assms(2)] step.IH show ?case by auto
  qed
  moreover have "potential ?s0 = left fresh_unit * length units"
    by (simp add: potential_def start_pool_def newUnitQueue_def queued_def)
  ultimately show ?thesis by simp
qed

end

interpretation default_budget: retry_budget defaultUnitRetryPolicy "unit_ok defaultUnitRetryPolicy" "leases_left defaultUnitRetryPolicy"
  by unfold_locales
    (use fresh_unit_ok unit_ok_bounds(3) settle_again(1,2) default_policy_ok in blast)+


text \<open>
  C19. Whatever the providers answer and however the workers interleave, the pool keeps its invariant: the units
  are partitioned between the queue, the workers' hands and the resolved ones, the queue counts the units
  in hand, the throttle counts them per lane and provider, and a worker leaves only when every unit is resolved.
\<close>

theorem pool_invariant:
  assumes "pool_run p covered (start_pool units (Some (newProviderThrottle c ky)) n now) k s"
  shows "pool_ok units n s \<and>
    (case throttle (queue s) of None \<Rightarrow> True | Some t \<Rightarrow> throttle_ok t (busy s)) \<and>
    (gone s = 0 \<or> mset (resolved s) = mset units)"
proof -
  have "pool_ok units n s" by (rule pool_run_ok [OF assms start_pool_ok]) (simp add: new_throttle_ok)
  then show ?thesis by (auto simp: pool_ok_def gate_ok_def)
qed

definition demo_pool :: pool where
  "demo_pool = start_pool [0, 1] (Some (newProviderThrottle 2 lane_ab)) 1 0"

definition demo_leased :: pool where
  "demo_leased = lease_step (\<lambda>_. StateClosed) demo_pool"

definition demo_back :: pool where
  "demo_back = finish defaultUnitRetryPolicy (\<lambda>_. True) 0 (fails (Some 429) False) demo_leased"

lemma demo_run:
  "pool_run defaultUnitRetryPolicy (\<lambda>_. True) (start_pool [0, 1] (Some (newProviderThrottle 2 lane_ab)) 1 0) 1 demo_back"
proof -
  have b: "busy demo_pool = []" "busy demo_leased = [0]" "busy demo_back = []" "idle demo_pool = 1" by code_simp+
  let ?run = "pool_run defaultUnitRetryPolicy (\<lambda>_. True) demo_pool"
  have "?run 0 demo_pool" by (rule pool_run.start)
  from pool_run.step [OF this pool_step.lease [of _ _ _ "\<lambda>_. StateClosed"], folded demo_leased_def] b
  have "?run 1 demo_leased" by simp
  from pool_run.step [OF this pool_step.attempt [of 0 _ _ _ "fails (Some 429) False"], folded demo_back_def] b
  have "?run 1 demo_back" by simp
  then show ?thesis by (simp add: demo_pool_def)
qed

theorem pool_invariant_witness: "pool_ok [0, 1] 1 demo_back \<and> queued (queue demo_back) = mset [0, 1] \<and> resolved demo_back = []"
proof -
  have "pool_ok [0, 1] 1 demo_back" using pool_invariant [OF demo_run] by blast
  moreover have "pending (queue demo_back) = [1]" "map fst (delayed (queue demo_back)) = [0]" "resolved demo_back = []" by code_simp+
  ultimately show ?thesis by (simp add: queued_def)
qed

text \<open>
  With the engine's retry policy a run of the pool hands out at most 34 leases per unit, whatever happens: no
  unit is retried for ever.
\<close>

theorem pool_leases_bounded:
  assumes "pool_run defaultUnitRetryPolicy covered (start_pool units (Some (newProviderThrottle c ky)) n now) k s" "distinct units"
  shows "k \<le> 34 * length units"
proof -
  have "leases_left defaultUnitRetryPolicy fresh_unit = 34" by code_simp
  then show ?thesis using default_budget.run_bounded [OF assms] by (simp add: new_throttle_ok)
qed

theorem pool_leases_bounded_witness: "(1::nat) \<le> 34 * length [0::nat, 1] \<and> busy demo_leased = [0]"
proof -
  have "busy demo_leased = [0]" by code_simp
  then show ?thesis using pool_leases_bounded [OF demo_run] by simp
qed

lemma fold_least:
  fixes m :: int
  shows "fold (\<lambda>d at. if snd d < at then snd d else at) ds m \<in> insert m (snd ` set ds) \<and>
    (\<forall>d\<in>set ds. fold (\<lambda>d at. if snd d < at then snd d else at) ds m \<le> snd d) \<and>
    fold (\<lambda>d at. if snd d < at then snd d else at) ds m \<le> m"
proof (induction ds arbitrary: m)
  case (Cons d ds)
  show ?case using Cons [of "if snd d < m then snd d else m"] by (auto split: if_splits)
qed simp

lemma nextReady_least:
  assumes "delayed q \<noteq> []"
  shows "nextReady q \<in> snd ` set (delayed q)" "\<forall>d\<in>set (delayed q). nextReady q \<le> snd d"
  using assms fold_least [of "tl (delayed q)" "snd (hd (delayed q))"] by (cases "delayed q"; auto simp: nextReady_def)+

lemma promote_ready: "d \<in> set (delayed q) \<Longrightarrow> snd d \<le> t \<Longrightarrow> pending (promote e t q) \<noteq> []"
  by (auto simp: promote_def Let_def filter_empty_conv intro!: bexI [of _ d])

lemma take_unit_idle:
  assumes "gate_ok q []" "pending q \<noteq> []"
  shows "take_unit e now br q \<noteq> None"
proof (cases "throttle q")
  case (Some t)
  then have "throttle_ok t []" using assms(1) by (simp add: gate_ok_def)
  then have adm: "admit (verdict t now br k)" for k using admit_unless_out by fastforce
  have "pick t now br (pending q) \<noteq> None"
  proof
    assume "pick t now br (pending q) = None"
    then show False using adm pick_picked [of t now br "pending q"] assms(2) by (cases "pending q") (simp_all add: picked_def)
  qed
  then show ?thesis using Some assms(2) by (auto simp: take_unit_def Let_def)
qed (use assms(2) in \<open>simp add: take_unit_def Let_def\<close>)

lemma lease_pass_ready:
  assumes "gate_ok q []" "pending (promote e now q) \<noteq> []"
  shows "\<exists>i q'. lease_pass e now br q = (Leased i, q') \<and> i \<in># queued q"
proof -
  have "gate_ok (promote e now q) []" using assms(1) by simp
  from take_unit_idle [OF this assms(2), of e now br] obtain i q'
    where t: "take_unit e now br (promote e now q) = Some (i, q')" by auto
  from take_unit_Some(1) [OF t] have "i \<in># queued q" by simp
  then show ?thesis using t by (simp add: lease_pass_def)
qed

text \<open>
  C20. The queue never wedges: in every reachable state in which no worker holds a unit, a worker that asks for one
  gets it, unless all units are resolved, or all unresolved ones wait out a backoff that ends at the
  time the worker's timer is set to, which is in the future and ends the wait; after a cancellation
  there is nothing to wait for.
\<close>

theorem pool_never_wedges:
  assumes "pool_run p covered (start_pool units (Some (newProviderThrottle c ky)) n now) k s" "busy s = []"
  shows "case fst (lease_pass (cancelled s) (clock s) br (queue s)) of
      Leased i \<Rightarrow> i \<in># queued (queue s)
    | Drained \<Rightarrow> mset (resolved s) = mset units
    | Waiting None \<Rightarrow> False
    | Waiting (Some t) \<Rightarrow> \<not> cancelled s \<and> clock s < t \<and> pending (queue s) = [] \<and>
        (case fst (lease_pass False t br (queue s)) of Leased i \<Rightarrow> i \<in># queued (queue s) | _ \<Rightarrow> False)"
proof -
  let ?q = "queue s" and ?p = "promote (cancelled s) (clock s) (queue s)"
  have ok: "pool_ok units n s" by (rule pool_run_ok [OF assms(1) start_pool_ok]) (simp add: new_throttle_ok)
  then have gate: "gate_ok ?q []" using assms(2) by (simp add: pool_ok_def)
  consider (ready) "pending ?p \<noteq> []" | (none) "pending ?p = []" "delayed ?p = []" | (wait) "pending ?p = []" "delayed ?p \<noteq> []"
    by blast
  then show ?thesis
  proof cases
    case ready
    from lease_pass_ready [OF gate ready, of br] show ?thesis by auto
  next
    case none
    then have "queued ?q = {#}" using queued_empty [of ?p] by simp
    moreover have "lease_pass (cancelled s) (clock s) br ?q = (Drained, ?p)"
      using none gate by (simp add: lease_pass_def take_unit_def gate_ok_def)
    ultimately show ?thesis using ok assms(2) by (simp add: pool_ok_def)
  next
    case wait
    note n = nextReady_least [OF wait(2)]
    have eq: "lease_pass (cancelled s) (clock s) br ?q = (Waiting (Some (nextReady ?p)), ?p)"
      using wait by (simp add: lease_pass_def take_unit_def Let_def)
    have d: "\<not> cancelled s" "pending ?q = []" "\<forall>d\<in>set (delayed ?p). d \<in> set (delayed ?q) \<and> snd d > clock s"
      using wait by (auto simp: promote_def Let_def split: if_splits)
    obtain d0 where d0: "d0 \<in> set (delayed ?q)" "snd d0 = nextReady ?p" using n(1) d(3) by auto
    have "pending (promote False (nextReady ?p) ?q) \<noteq> []"
      by (rule promote_ready [OF d0(1)]) (simp add: d0(2))
    from lease_pass_ready [OF gate this, of br] show ?thesis
      using eq d n(1) by (auto split: prod.splits)
  qed
qed


theorem pool_never_wedges_witness:
  "fst (lease_pass (cancelled demo_back) (clock demo_back) (\<lambda>_. StateOpen) (queue demo_back)) = Leased 1 \<and>
   1 \<in># queued (queue demo_back)"
proof -
  have "busy demo_back = []"
    "fst (lease_pass (cancelled demo_back) (clock demo_back) (\<lambda>_. StateOpen) (queue demo_back)) = Leased 1" by code_simp+
  then show ?thesis using pool_never_wedges [OF demo_run, of "\<lambda>_. StateOpen"] by simp
qed

end
