(* ===== verification/FallbackGraph.thy ===== *)
theory FallbackGraph
  imports Prelude
begin

text \<open>
  Validation of fallback chains: \<^verbatim>\<open>internal/registry/graph.go\<close>, with \<^verbatim>\<open>AgentTier\<close> (\<^verbatim>\<open>overlay.go\<close>) and \<^verbatim>\<open>sortedKeys\<close>
  (\<^verbatim>\<open>config.go\<close>). The registry's maps are association lists; an agent is its fallback (the empty string for
  none), which is also what Go reads of an agent that is not there. The colours are a total function, white
  by default. The walk returns \<open>None\<close> where the code panics. The theorem shows that the panic is
  unreachable and that the errors are precisely the dangling references and the cycles.
\<close>

subsection \<open>The registry\<close>

record registry =
  Agents :: "(string \<times> string) list"
  AgentSource :: "(string \<times> string) list"

definition SourceProject :: string where "SourceProject = ''project''"
definition SourceUser :: string where "SourceUser = ''user''"

definition AgentTier :: "registry \<Rightarrow> string \<Rightarrow> string" where
  "AgentTier r name =
     (case map_of (AgentSource r) name of Some tier \<Rightarrow> if tier \<noteq> [] then tier else SourceUser | None \<Rightarrow> SourceUser)"

definition sortedKeys :: "(string \<times> 'v) list \<Rightarrow> string list" where
  "sortedKeys m = sort (distinct_keys (map fst m))"

definition Fallback :: "registry \<Rightarrow> string \<Rightarrow> string" where
  "Fallback r name = (case map_of (Agents r) name of Some fb \<Rightarrow> fb | None \<Rightarrow> [])"

subsection \<open>The walk\<close>

datatype nodeColor = white | gray | black

definition blacken :: "string list \<Rightarrow> (string \<Rightarrow> nodeColor) \<Rightarrow> string \<Rightarrow> nodeColor" where
  "blacken path col = fold (\<lambda>n c. c(n := black)) path col"

text \<open>The nodes an edge can lead to.\<close>

definition targets :: "registry \<Rightarrow> string set" where
  "targets r = snd ` set (Agents r)"

lemma Fallback_target: "Fallback r n \<noteq> [] \<Longrightarrow> Fallback r n \<in> targets r"
proof (cases "map_of (Agents r) n")
  case (Some fb)
  then have "(n, fb) \<in> set (Agents r)" by (rule map_of_SomeD)
  then show "Fallback r n \<in> targets r" using Some by (auto simp: Fallback_def targets_def intro: image_eqI [of _ _ "(n, fb)"])
qed (simp add: Fallback_def)

function walk_loop ::
  "registry \<Rightarrow> string list \<Rightarrow> string \<Rightarrow> (string \<Rightarrow> nodeColor) \<Rightarrow> ((string \<Rightarrow> nodeColor) \<times> string list option) option" where
  "walk_loop r path0 node col0 =
     (let col = col0(node := gray); path = path0 @ [node]; nxt = Fallback r node in
      if nxt = [] \<or> col nxt = black then Some (blacken path col, None)
      else if col nxt = gray then
        (if nxt \<in> set path then Some (blacken path col, Some (dropWhile (\<lambda>n. n \<noteq> nxt) path @ [nxt])) else None)
      else walk_loop r path nxt col)"
  by pat_completeness auto
termination
proof (relation "measure (\<lambda>(r, path, node, col). card {n \<in> targets r. col n = white \<and> n \<noteq> node})", goal_cases)
  case (2 r path0 node col0 col path nxt)
  have "nxt \<in> targets r" using 2(3,4) Fallback_target [of r node] by simp
  moreover have "col nxt = white" using 2(4,5) by (cases "col nxt") auto
  moreover have w: "n \<noteq> node \<and> col0 n = white" if "col n = white" for n
    using that unfolding 2(1) by (cases "n = node") simp_all
  ultimately have "{n \<in> targets r. col n = white \<and> n \<noteq> nxt} \<subset> {n \<in> targets r. col0 n = white \<and> n \<noteq> node}"
    by blast
  moreover have "finite (targets r)" by (simp add: targets_def)
  ultimately show ?case by (simp add: psubset_card_mono)
qed simp

declare walk_loop.simps [simp del]

definition walkFallbacks ::
  "registry \<Rightarrow> string \<Rightarrow> (string \<Rightarrow> nodeColor) \<Rightarrow> ((string \<Rightarrow> nodeColor) \<times> string list option) option" where
  "walkFallbacks r start col = walk_loop r [] start col"

subsection \<open>Validation\<close>

datatype fallbackError = ErrDanglingFallback string string | ErrFallbackCycle string "string list"

definition attributed :: "registry \<Rightarrow> string list \<Rightarrow> string" where
  "attributed r path = (case find (\<lambda>n. AgentTier r n = SourceProject) path of Some n \<Rightarrow> n | None \<Rightarrow> hd path)"

definition dangling :: "registry \<Rightarrow> string list \<Rightarrow> fallbackError list" where
  "dangling r names =
     map (\<lambda>n. ErrDanglingFallback n (Fallback r n))
       (filter (\<lambda>n. Fallback r n \<noteq> [] \<and> map_of (Agents r) (Fallback r n) = None) names)"

fun cycle_scan :: "registry \<Rightarrow> string list \<Rightarrow> (string \<Rightarrow> nodeColor) \<Rightarrow> fallbackError list option" where
  "cycle_scan r [] col = Some []"
| "cycle_scan r (name # names) col =
     (if col name \<noteq> white then cycle_scan r names col
      else case walkFallbacks r name col of
        None \<Rightarrow> None
      | Some (col', None) \<Rightarrow> cycle_scan r names col'
      | Some (col', Some path) \<Rightarrow>
          map_option ((#) (ErrFallbackCycle (attributed r path) path)) (cycle_scan r names col'))"

definition ValidateFallbacks :: "registry \<Rightarrow> fallbackError list option" where
  "ValidateFallbacks r =
     (let names = sortedKeys (Agents r)
      in map_option ((@) (dangling r names)) (cycle_scan r names (\<lambda>_. white)))"

subsection \<open>Chains and cycles\<close>

definition edge :: "registry \<Rightarrow> string \<Rightarrow> string \<Rightarrow> bool" where
  "edge r a b \<longleftrightarrow> Fallback r a = b \<and> b \<noteq> []"

definition on_cycle :: "registry \<Rightarrow> string \<Rightarrow> bool" where
  "on_cycle r n \<longleftrightarrow> (edge r)\<^sup>+\<^sup>+ n n"

definition is_cycle :: "registry \<Rightarrow> string list \<Rightarrow> bool" where
  "is_cycle r c \<longleftrightarrow> length c \<ge> 2 \<and> hd c = last c \<and> distinct (tl c) \<and> successively (edge r) c"

definition closed :: "registry \<Rightarrow> (string \<Rightarrow> nodeColor) \<Rightarrow> bool" where
  "closed r col \<longleftrightarrow> (\<forall>a b. col a = black \<longrightarrow> edge r a b \<longrightarrow> col b = black)"

lemma blacken_apply: "blacken path col n = (if n \<in> set path then black else col n)"
  unfolding blacken_def by (induction path arbitrary: col) auto

lemma successively_nth: "successively P xs \<Longrightarrow> Suc i < length xs \<Longrightarrow> P (xs ! i) (xs ! Suc i)"
  by (simp add: successively_conv_nth)

lemma tranclp_closed:
  assumes "E\<^sup>+\<^sup>+ a b" "\<And>x. E a x \<Longrightarrow> x \<in> S" "\<And>x y. x \<in> S \<Longrightarrow> E x y \<Longrightarrow> y \<in> S"
  shows "b \<in> S"
  using assms by (induction rule: tranclp_induct) auto

text \<open>A walk \<open>V\<close> that continues beyond its position \<open>j\<close> only forwards never returns to \<open>j\<close>.\<close>

lemma no_return:
  assumes "distinct V" "successively (edge r) V" "j < length V" "closed r col" "\<forall>n\<in>set V. col n \<noteq> black"
    "Fallback r (last V) = [] \<or> col (Fallback r (last V)) = black \<or> Fallback r (last V) \<in> set (drop (Suc j) V)"
  shows "\<not> on_cycle r (V ! j)"
proof
  let ?S = "set (drop (Suc j) V) \<union> {m. col m = black}"
  have step: "y \<in> ?S" if "j \<le> k" "k < length V" "edge r (V ! k) y" for k y
  proof (cases "Suc k < length V")
    case True
    have "y = V ! Suc k" using successively_nth [OF assms(2) True] that(3) by (simp add: edge_def)
    moreover have "V ! Suc k = drop (Suc j) V ! (k - j)" using that(1) True by simp
    moreover have "k - j < length (drop (Suc j) V)" using that(1) True by simp
    ultimately have "y \<in> set (drop (Suc j) V)" by (metis nth_mem)
    then show ?thesis by simp
  next
    case False
    then have "V ! k = last V" using that(2) by (metis Suc_lessI diff_Suc_1 last_conv_nth length_0_conv not_less0)
    then show ?thesis using that(3) assms(6) by (auto simp: edge_def)
  qed
  assume "on_cycle r (V ! j)"
  then have "V ! j \<in> ?S" unfolding on_cycle_def
  proof (rule tranclp_closed)
    show "x \<in> ?S" if "edge r (V ! j) x" for x using step [of j x] assms(3) that by simp
    show "y \<in> ?S" if "x \<in> ?S" "edge r x y" for x y
    proof (cases "x \<in> set (drop (Suc j) V)")
      case True
      then obtain k where "x = V ! (Suc j + k)" "Suc j + k < length V" by (auto simp: in_set_conv_nth)
      then show ?thesis using step [of "Suc j + k" y] that(2) by simp
    next
      case False
      then show ?thesis using that assms(4) by (auto simp: closed_def)
    qed
  qed
  moreover have "V ! j \<notin> set (drop (Suc j) V)"
    using assms(1,3) by (metis distinct.simps(2) distinct_drop id_take_nth_drop Cons_nth_drop_Suc)
  ultimately show False using assms(3,5) by auto
qed

subsection \<open>One walk\<close>

definition walk_ok :: "registry \<Rightarrow> string list \<Rightarrow> string \<Rightarrow> (string \<Rightarrow> nodeColor) \<Rightarrow> bool" where
  "walk_ok r path node col \<longleftrightarrow>
     distinct (path @ [node]) \<and> successively (edge r) (path @ [node]) \<and> (\<forall>n. col n = gray \<longleftrightarrow> n \<in> set path) \<and> col node = white"

definition walk_result :: "registry \<Rightarrow> (string \<Rightarrow> nodeColor) \<Rightarrow> string list \<Rightarrow> string list option \<Rightarrow> bool" where
  "walk_result r col V res \<longleftrightarrow>
     distinct V \<and> successively (edge r) V \<and> V \<noteq> [] \<and>
     (case res of
        None \<Rightarrow> Fallback r (last V) = [] \<or> col (Fallback r (last V)) = black
      | Some c \<Rightarrow> \<exists>i<length V. Fallback r (last V) = V ! i \<and> V ! i \<noteq> [] \<and> c = drop i V @ [V ! i])"

lemma dropWhile_drop: "x \<in> set xs \<Longrightarrow> \<exists>i<length xs. xs ! i = x \<and> dropWhile (\<lambda>n. n \<noteq> x) xs = drop i xs"
proof (induction xs)
  case (Cons y ys)
  show ?case
  proof (cases "y = x")
    case True
    then show ?thesis by (intro exI [of _ 0]) simp
  next
    case False
    then obtain i where "i < length ys \<and> ys ! i = x \<and> dropWhile (\<lambda>n. n \<noteq> x) ys = drop i ys" using Cons by auto
    then show ?thesis using False by (intro exI [of _ "Suc i"]) simp
  qed
qed simp

lemma walk_result_uncolour: "walk_result r (col(n := gray)) V res \<Longrightarrow> walk_result r col V res"
  by (cases res; cases "Fallback r (last V) = n") (simp_all add: walk_result_def)

lemma walk_correct:
  "walk_ok r path node col \<Longrightarrow>
   \<exists>W res. walk_loop r path node col = Some (\<lambda>n. if n \<in> set (path @ node # W) then black else col n, res) \<and>
     walk_result r col (path @ node # W) res \<and> (\<forall>n\<in>set (node # W). col n = white)"
proof (induction r path node col rule: walk_loop.induct)
  case (1 r path node col)
  let ?p = "path @ [node]" and ?c = "col(node := gray)" and ?n = "Fallback r node"
  note ok = 1(2)
  have gray: "?c n = gray \<longleftrightarrow> n \<in> set ?p" for n using ok by (auto simp: walk_ok_def)
  have black: "blacken ?p ?c = (\<lambda>n. if n \<in> set ?p then black else col n)" by (auto simp: blacken_apply)
  consider (stop) "?n = [] \<or> ?c ?n = black" | (cycle) "?n \<noteq> []" "?c ?n = gray" | (on) "?n \<noteq> []" "?c ?n = white"
    by (cases "?c ?n") auto
  then show ?case
  proof cases
    case stop
    then have "walk_loop r path node col = Some (blacken ?p ?c, None)" by (subst walk_loop.simps) (simp add: Let_def)
    moreover have "?n = [] \<or> col ?n = black" using stop by (cases "?n = node") simp_all
    then have "walk_result r col ?p None" using ok by (simp add: walk_result_def walk_ok_def)
    ultimately show ?thesis using ok unfolding black by (intro exI [of _ "[]"] exI [of _ None]) (simp add: walk_ok_def)
  next
    case cycle
    have "?n \<in> set ?p" using gray cycle(2) by blast
    then have eq: "walk_loop r path node col = Some (blacken ?p ?c, Some (dropWhile (\<lambda>n. n \<noteq> ?n) ?p @ [?n]))"
      using cycle by (subst walk_loop.simps) (simp add: Let_def)
    obtain i where i: "i < length ?p" "?p ! i = ?n" "dropWhile (\<lambda>n. n \<noteq> ?n) ?p = drop i ?p"
      using dropWhile_drop [OF \<open>?n \<in> set ?p\<close>] by blast
    have "\<exists>j<length ?p. Fallback r (last ?p) = ?p ! j \<and> ?p ! j \<noteq> [] \<and> drop i ?p @ [?n] = drop j ?p @ [?p ! j]"
      by (rule exI [of _ i]) (use cycle(1) i(1) in \<open>simp only: i(2) last_snoc simp_thms\<close>)
    then have "walk_result r col ?p (Some (dropWhile (\<lambda>n. n \<noteq> ?n) ?p @ [?n]))"
      unfolding i(3) walk_result_def using ok by (simp only: walk_ok_def option.case) simp
    then show ?thesis using ok eq unfolding black
      by (intro exI [of _ "[]"] exI [of _ "Some (dropWhile (\<lambda>n. n \<noteq> ?n) ?p @ [?n])"]) (simp add: walk_ok_def)
  next
    case on
    have eq: "walk_loop r path node col = walk_loop r ?p ?n ?c" using on by (subst walk_loop.simps) (simp add: Let_def)
    have "?n \<notin> set ?p" using gray [of ?n] on(2) by simp
    then have ok': "walk_ok r ?p ?n ?c" unfolding walk_ok_def
      using ok on gray by (simp add: walk_ok_def successively_append_iff edge_def) metis
    have neg: "\<not> (?n = [] \<or> ?c ?n = black)" "\<not> ?c ?n = gray" using on by simp_all
    obtain W res where W: "walk_loop r ?p ?n ?c = Some (\<lambda>n. if n \<in> set (?p @ ?n # W) then black else ?c n, res)"
      "walk_result r ?c (?p @ ?n # W) res" "\<forall>n\<in>set (?n # W). ?c n = white"
      using 1(1) [OF refl refl refl neg ok'] by blast
    have "(\<lambda>n. if n \<in> set (?p @ ?n # W) then black else ?c n) = (\<lambda>n. if n \<in> set (path @ node # ?n # W) then black else col n)"
      by auto
    moreover have "walk_result r col (path @ node # ?n # W) res"
      using walk_result_uncolour [OF W(2)] by simp
    moreover have "\<forall>n\<in>set (node # ?n # W). col n = white" using W(3) ok unfolding walk_ok_def by (metis fun_upd_other fun_upd_same nodeColor.distinct(1) set_ConsD)
    ultimately show ?thesis using W(1) unfolding eq by (intro exI [of _ "?n # W"] exI [of _ res]) simp
  qed
qed

lemma walk_cycle:
  assumes "walk_result r col V (Some c)"
  shows "is_cycle r c" "set c \<subseteq> set V" "c \<noteq> []"
proof -
  obtain i where i: "i < length V" "Fallback r (last V) = V ! i" "V ! i \<noteq> []" "c = drop i V @ [V ! i]"
    and V: "distinct V" "successively (edge r) V"
    using assms by (auto simp: walk_result_def)
  obtain d where d: "drop i V = V ! i # d" using i(1) by (metis Cons_nth_drop_Suc)
  have lastV: "last (drop i V) = last V" using i(1) by simp
  have s: "successively (edge r) (drop i V)" using V(2) by (metis append_take_drop_id successively_append_iff)
  have "distinct (drop i V)" using V(1) by simp
  then have "distinct (tl c)" using i(4) d by simp
  moreover have "successively (edge r) c"
    unfolding i(4) successively_append_iff using s lastV i(2,3) by (simp add: edge_def)
  ultimately show "is_cycle r c" using i(4) d by (simp add: is_cycle_def)
  show "set c \<subseteq> set V" using i(1,4) set_drop_subset [of i V] nth_mem [of i V] by auto
  show "c \<noteq> []" using i(4) by simp
qed

lemma walk_finds:
  assumes "walk_result r col V res" "closed r col" "\<forall>n\<in>set V. col n \<noteq> black" "n \<in> set V" "on_cycle r n"
  shows "\<exists>c. res = Some c \<and> n \<in> set c"
proof -
  obtain j where j: "j < length V" "V ! j = n" using assms(4) by (auto simp: in_set_conv_nth)
  have V: "distinct V" "successively (edge r) V" using assms(1) by (simp_all add: walk_result_def)
  note nr = no_return [OF V j(1) assms(2,3)]
  show ?thesis
  proof (cases res)
    case None
    then show ?thesis using nr assms(1,5) j(2) by (auto simp: walk_result_def)
  next
    case (Some c)
    then obtain i where i: "i < length V" "Fallback r (last V) = V ! i" "c = drop i V @ [V ! i]"
      using assms(1) by (auto simp: walk_result_def)
    have "i \<le> j"
    proof (rule ccontr)
      assume "\<not> i \<le> j"
      then have "V ! i = drop (Suc j) V ! (i - Suc j)" "i - Suc j < length (drop (Suc j) V)" using i(1) by simp_all
      then have "V ! i \<in> set (drop (Suc j) V)" by (metis nth_mem)
      then show False using nr assms(5) j(2) i(2) by simp
    qed
    then have "n = drop i V ! (j - i)" "j - i < length (drop i V)" using j by simp_all
    then have "n \<in> set (drop i V)" by (metis nth_mem)
    then show ?thesis using Some i(3) by simp
  qed
qed

lemma closed_after_walk:
  assumes "walk_result r col V res" "closed r col"
  shows "closed r (\<lambda>n. if n \<in> set V then black else col n)"
  unfolding closed_def
proof (intro allI impI)
  fix a b assume a: "(if a \<in> set V then black else col a) = black" and e: "edge r a b"
  have "b \<in> set V \<or> col b = black"
  proof (cases "a \<in> set V")
    case True
    then obtain k where k: "k < length V" "V ! k = a" by (auto simp: in_set_conv_nth)
    show ?thesis
    proof (cases "Suc k < length V")
      case True
      then have "edge r a (V ! Suc k)" using assms(1) k by (metis successively_nth walk_result_def)
      then have "b = V ! Suc k" using e by (simp add: edge_def)
      then show ?thesis using True by simp
    next
      case False
      then have "a = last V" using k by (metis Suc_lessI diff_Suc_1 last_conv_nth length_0_conv not_less0)
      then show ?thesis using e assms(1) by (cases res) (auto simp: walk_result_def edge_def)
    qed
  next
    case False
    then show ?thesis using a e assms(2) by (simp add: closed_def)
  qed
  then show "(if b \<in> set V then black else col b) = black" by auto
qed

subsection \<open>The scan\<close>

definition cycles :: "fallbackError list \<Rightarrow> string list list" where
  "cycles errs = concat (map (\<lambda>e. case e of ErrFallbackCycle _ c \<Rightarrow> [c] | _ \<Rightarrow> []) errs)"

lemma set_tl_cycle: "is_cycle r c \<Longrightarrow> set (tl c) = set c"
  by (cases c) (auto simp: is_cycle_def dest: last_in_set split: if_splits)

lemma cycle_scan_correct:
  assumes "closed r col" "\<forall>n. col n \<noteq> gray"
  shows "\<exists>errs. cycle_scan r names col = Some errs \<and>
    errs = map (\<lambda>c. ErrFallbackCycle (attributed r c) c) (cycles errs) \<and>
    list_all (is_cycle r) (cycles errs) \<and> distinct (concat (map tl (cycles errs))) \<and>
    (\<forall>c\<in>set (cycles errs). \<forall>n\<in>set c. col n = white) \<and>
    (\<forall>n\<in>set names. on_cycle r n \<longrightarrow> col n = white \<longrightarrow> (\<exists>c\<in>set (cycles errs). n \<in> set c))"
  using assms
proof (induction names arbitrary: col)
  case Nil
  then show ?case by (simp add: cycles_def)
next
  case (Cons name names)
  show ?case
  proof (cases "col name = white")
    case False
    then show ?thesis using Cons.IH [OF Cons.prems] by auto
  next
    case True
    have "walk_ok r [] name col" using True Cons.prems(2) by (simp add: walk_ok_def)
    from walk_correct [OF this] obtain W res where W:
      "walkFallbacks r name col = Some (\<lambda>n. if n \<in> set (name # W) then black else col n, res)"
      "walk_result r col (name # W) res" "\<forall>n\<in>set (name # W). col n = white"
      unfolding walkFallbacks_def append_Nil by blast
    define V where "V = name # W"
    define col' where "col' = (\<lambda>n. if n \<in> set V then black else col n)"
    have cl: "closed r col'" unfolding col'_def by (rule closed_after_walk [OF W(2) [folded V_def] Cons.prems(1)])
    have ng: "\<forall>n. col' n \<noteq> gray" using Cons.prems(2) by (simp add: col'_def)
    obtain errs where E: "cycle_scan r names col' = Some errs"
      "errs = map (\<lambda>c. ErrFallbackCycle (attributed r c) c) (cycles errs)"
      "list_all (is_cycle r) (cycles errs)" "distinct (concat (map tl (cycles errs)))"
      "\<forall>c\<in>set (cycles errs). \<forall>n\<in>set c. col' n = white"
      "\<forall>n\<in>set names. on_cycle r n \<longrightarrow> col' n = white \<longrightarrow> (\<exists>c\<in>set (cycles errs). n \<in> set c)"
      using Cons.IH [OF cl ng] by blast
    have later: "col n = white \<and> n \<notin> set V" if "c \<in> set (cycles errs)" "n \<in> set c" for c n
      using E(5) that by (metis col'_def nodeColor.distinct(3))
    have "col n \<noteq> black" if "n \<in> set V" for n using W(3) that V_def by (metis nodeColor.distinct(3))
    note finds = walk_finds [OF W(2) [folded V_def] Cons.prems(1)]
    have found: "(\<exists>c\<in>set (cycles errs). n \<in> set c) \<or> (\<exists>c. res = Some c \<and> n \<in> set c)"
      if "n \<in> set (name # names)" "on_cycle r n" "col n = white" for n
    proof (cases "n \<in> set V")
      case True
      then show ?thesis using finds [of n] that \<open>\<And>n. n \<in> set V \<Longrightarrow> col n \<noteq> black\<close> by blast
    next
      case False
      then have "n \<in> set names" "col' n = white" using that by (auto simp: V_def col'_def)
      then show ?thesis using E(6) that(2) by blast
    qed
    show ?thesis
    proof (cases res)
      case None
      then have "cycle_scan r (name # names) col = Some errs"
        using W(1) True E(1) by (simp add: col'_def V_def)
      then show ?thesis using E(2,3,4) later found None by blast
    next
      case (Some c)
      note c = walk_cycle [OF W(2) [folded V_def, unfolded Some]]
      have scan: "cycle_scan r (name # names) col = Some (ErrFallbackCycle (attributed r c) c # errs)"
        using W(1) True E(1) Some by (simp add: col'_def V_def)
      have cyc: "cycles (ErrFallbackCycle (attributed r c) c # errs) = c # cycles errs" by (simp add: cycles_def)
      have "set (tl x) \<subseteq> set x" for x :: "string list" by (cases x) auto
      then have "set (tl c) \<inter> set (concat (map tl (cycles errs))) = {}"
        using later c(2) by fastforce
      then have "distinct (concat (map tl (c # cycles errs)))" using E(4) c(1) by (simp add: is_cycle_def)
      then show ?thesis unfolding scan
        using E(2,3) c W(3) later found Some
        by (intro exI [of _ "ErrFallbackCycle (attributed r c) c # errs"] conjI) (auto simp: cyc V_def)
    qed
  qed
qed

lemma edge_known: "edge r a b \<Longrightarrow> a \<in> fst ` set (Agents r)"
  by (force simp: edge_def Fallback_def dest: map_of_SomeD split: option.splits)

lemma cycle_on: "is_cycle r c \<Longrightarrow> n \<in> set c \<Longrightarrow> on_cycle r n"
proof -
  have chain: "successively (edge r) c \<Longrightarrow> i < j \<Longrightarrow> j < length c \<Longrightarrow> (edge r)\<^sup>+\<^sup>+ (c ! i) (c ! j)" for i j and c :: "string list"
  proof (induction "j - i" arbitrary: j)
    case (Suc k)
    then obtain j' where j: "j = Suc j'" by (cases j) auto
    have e: "edge r (c ! j') (c ! j)" using successively_nth [OF Suc.prems(1)] Suc.prems(3) j by simp
    show ?case
    proof (cases "i = j'")
      case False
      then show ?thesis using Suc.hyps(1) [of j'] Suc.prems Suc.hyps(2) j e by (metis Suc_lessD Suc_diff_le diff_Suc_Suc less_antisym nat.inject Suc_leI less_Suc_eq_le tranclp.trancl_into_trancl)
    qed (use e in auto)
  qed simp
  assume c: "is_cycle r c" and "n \<in> set c"
  then obtain i where i: "i < length c" "c ! i = n" by (auto simp: in_set_conv_nth)
  let ?l = "length c - 1"
  have "c \<noteq> []" using i(1) by auto
  then have s: "successively (edge r) c" and l: "0 < ?l" "c ! 0 = c ! ?l" "?l < length c"
    using c using hd_conv_nth [of c] last_conv_nth [of c] by (simp_all add: is_cycle_def)
  show "on_cycle r n"
  proof (cases "i = 0 \<or> i = ?l")
    case True
    then show ?thesis using chain [OF s l(1,3)] l(2) i(2) by (auto simp: on_cycle_def)
  next
    case False
    then have "(edge r)\<^sup>+\<^sup>+ (c ! 0) n" "(edge r)\<^sup>+\<^sup>+ n (c ! ?l)" using chain [OF s, of 0 i] chain [OF s, of i ?l] i l(3) by auto
    then show ?thesis using l(2) by (simp add: on_cycle_def)
  qed
qed

lemma cycles_append: "cycles (xs @ ys) = cycles xs @ cycles ys"
  by (simp add: cycles_def)

lemma cycles_dangling [simp]: "cycles (dangling r names) = []"
  by (simp add: cycles_def dangling_def)

lemma validate_cycles:
  "\<exists>errs. ValidateFallbacks r = Some (dangling r (sortedKeys (Agents r)) @ errs) \<and>
     errs = map (\<lambda>c. ErrFallbackCycle (attributed r c) c) (cycles errs) \<and>
     list_all (is_cycle r) (cycles errs) \<and> distinct (concat (map tl (cycles errs))) \<and>
     (\<Union>c\<in>set (cycles errs). set c) = {n. on_cycle r n}"
proof -
  have keys: "set (sortedKeys (Agents r)) = fst ` set (Agents r)" by (simp add: sortedKeys_def)
  have "closed r (\<lambda>_. white)" by (simp add: closed_def)
  from cycle_scan_correct [OF this, of "sortedKeys (Agents r)"] obtain errs where E:
    "cycle_scan r (sortedKeys (Agents r)) (\<lambda>_. white) = Some errs"
    "errs = map (\<lambda>c. ErrFallbackCycle (attributed r c) c) (cycles errs)" "list_all (is_cycle r) (cycles errs)"
    "distinct (concat (map tl (cycles errs)))"
    "\<forall>n\<in>set (sortedKeys (Agents r)). on_cycle r n \<longrightarrow> (\<exists>c\<in>set (cycles errs). n \<in> set c)" by auto
  have "n \<in> set (sortedKeys (Agents r))" if "on_cycle r n" for n
    using that unfolding keys on_cycle_def by (rule tranclp.cases) (metis edge_known tranclpD)+
  then have "(\<Union>c\<in>set (cycles errs). set c) = {n. on_cycle r n}"
    using E(3,5) cycle_on by (auto simp: list_all_iff)
  then show ?thesis using E by (intro exI [of _ errs]) (simp add: ValidateFallbacks_def)
qed

text \<open>
  C30. The walk never reaches its panic, and the errors are precisely what is wrong: every agent whose fallback is
  not registered is reported, in order of names, and every cycle is reported once, by a path that
  goes round it and is attributed to one of its agents; the agents on reported paths are precisely those
  on cycles.
\<close>

theorem fallbacks_validated:
  "\<exists>errs. ValidateFallbacks r = Some (dangling r (sortedKeys (Agents r)) @ errs) \<and>
     errs = map (\<lambda>c. ErrFallbackCycle (attributed r c) c) (cycles errs) \<and>
     list_all (is_cycle r) (cycles errs) \<and> distinct (concat (map tl (cycles errs))) \<and>
     (\<Union>c\<in>set (cycles errs). set c) = {n. on_cycle r n}"
  by (rule validate_cycles)

text \<open>A registry without cycle errors has only chains that end.\<close>

lemma valid_chains_end:
  assumes "ValidateFallbacks r = Some []"
  shows "wf {(b, a). edge r a b}" "edge r a b \<Longrightarrow> b \<in> fst ` set (Agents r)"
proof -
  obtain errs where v: "ValidateFallbacks r = Some (dangling r (sortedKeys (Agents r)) @ errs)"
    "(\<Union>c\<in>set (cycles errs). set c) = {n. on_cycle r n}" using validate_cycles by blast
  have none: "errs = []" "dangling r (sortedKeys (Agents r)) = []" using v(1) assms by auto
  have "{(b, a). edge r a b} \<subseteq> (\<lambda>a. (Fallback r a, a)) ` (fst ` set (Agents r))"
    using edge_known by (fastforce simp: edge_def)
  then have "finite {(b, a). edge r a b}" by (rule finite_subset) simp
  moreover have "acyclic {(a, b). edge r a b}"
    using v(2) none(1) by (auto simp: acyclic_def on_cycle_def cycles_def tranclp_unfold)
  then have "acyclic {(b, a). edge r a b}" using acyclic_converse [of "{(a, b). edge r a b}"] by (simp add: converse_unfold)
  ultimately show "wf {(b, a). edge r a b}" by (rule finite_acyclic_wf)
  assume e: "edge r a b"
  then have "a \<in> set (sortedKeys (Agents r))" using edge_known by (simp add: sortedKeys_def)
  then have "map_of (Agents r) b \<noteq> None" using none(2) e by (auto simp: dangling_def edge_def filter_empty_conv)
  then show "b \<in> fst ` set (Agents r)" by (simp add: map_of_eq_None_iff)
qed

end
