(* ===== verification/Votes.thy ===== *)
theory Votes
  imports Finding
begin

text \<open>
  How the verdicts of several skeptics become one: \<^verbatim>\<open>internal/verify/votes.go\<close>, with the markers of \<^verbatim>\<open>invoke.go\<close> and
  the severity gates of \<^verbatim>\<open>severity.go\<close>. A nil verdict is \<open>None\<close>. The count of the votes ranges over a Go map,
  whose order is unspecified: the order is the argument \<open>ord\<close>, a list of the verdicts that have votes.
  The theorem shows that it does not matter.
\<close>

subsection \<open>Gates\<close>

definition sev_rank :: "string \<Rightarrow> int" where
  "sev_rank s = rank_or_zero SeverityRank (NormalizeSeverity s)"

definition meetsSeverityFloor :: "string \<Rightarrow> string \<Rightarrow> bool" where
  "meetsSeverityFloor findingSeverity minSeverity =
     (let fr = sev_rank findingSeverity; mr = sev_rank minSeverity in if fr = 0 then False else fr \<ge> mr)"

definition withinComplexityCeiling :: "int \<Rightarrow> int \<Rightarrow> bool" where
  "withinComplexityCeiling estMinutes maxMinutes =
     (if maxMinutes \<le> 0 \<or> estMinutes \<le> 0 then True else estMinutes \<le> maxMinutes)"

definition withinSeverityCeiling :: "string \<Rightarrow> string \<Rightarrow> bool" where
  "withinSeverityCeiling findingSeverity maxSeverity =
     (let nc = NormalizeSeverity maxSeverity in
      if nc = [] then True
      else let cr = rank_or_zero SeverityRank nc
           in if cr = 0 then False else sev_rank findingSeverity \<le> cr)"

subsection \<open>The fold\<close>

definition fragmentAfterToken :: string where "fragmentAfterToken = ''verdict_after_unopened_closer''"
definition fragmentBeforeToken :: string where "fragmentBeforeToken = ''verdict_before_unopened_closer''"

definition TrimPrefix_space :: "string \<Rightarrow> string" where
  "TrimPrefix_space s = (case s of c # cs \<Rightarrow> if c = CHR '' '' then cs else s | [] \<Rightarrow> s)"

definition splitFragmentMarker :: "string \<Rightarrow> (string \<times> string) option" where
  "splitFragmentMarker notes =
     (if \<not> has_prefix (''['' @ fragmentAfterToken @ '':'') notes \<and> \<not> has_prefix (''['' @ fragmentBeforeToken @ '':'') notes then None
      else if CHR '']'' \<notin> set notes then None
      else let end = length (takeWhile (\<lambda>c. c \<noteq> CHR '']'') notes)
           in Some (take (end + 1) notes, TrimPrefix_space (drop (end + 1) notes)))"

definition anyTruncated :: "verification list \<Rightarrow> bool" where
  "anyTruncated vs = list_ex Truncated vs"

definition filterByVerdict :: "verification list \<Rightarrow> string \<Rightarrow> verification list" where
  "filterByVerdict vs verdict = filter (\<lambda>v. Verdict v = verdict) vs"

definition joinSkeptics :: "verification list \<Rightarrow> string" where
  "joinSkeptics vs = Join (filter (\<lambda>n. n \<noteq> []) (map Skeptic vs)) '', ''"

definition combineReasonings :: "verification list \<Rightarrow> string" where
  "combineReasonings vs =
     (let label = (\<lambda>v. if Skeptic v = [] then Verdict v else Skeptic v);
          notes = (\<lambda>v. case splitFragmentMarker (Notes v) of Some (_, rest) \<Rightarrow> rest | None \<Rightarrow> Notes v);
          markers = List.map_filter (\<lambda>v. map_option fst (splitFragmentMarker (Notes v))) vs;
          joined = Join (map (\<lambda>v. label v @ '': '' @ notes v) vs) '' | ''
      in if markers = [] then joined else Join markers '' '' @ '' '' @ joined)"

definition known_verdict :: "string \<Rightarrow> bool" where
  "known_verdict s \<longleftrightarrow> s = VerdictConfirmed \<or> s = VerdictRefuted \<or> s = VerdictUnverifiable"

definition valid_votes :: "verification option list \<Rightarrow> verification list" where
  "valid_votes perSkeptic = filter (\<lambda>v. known_verdict (Verdict v)) (List.map_filter id perSkeptic)"

definition votes_for :: "verification list \<Rightarrow> string \<Rightarrow> nat" where
  "votes_for valid w = length (filterByVerdict valid w)"

definition tally_step :: "verification list \<Rightarrow> string \<Rightarrow> string \<times> nat \<times> bool \<Rightarrow> string \<times> nat \<times> bool" where
  "tally_step valid w st =
     (case st of (winner, most, tie) \<Rightarrow>
        if votes_for valid w > most then (w, votes_for valid w, False)
        else if votes_for valid w = most then (winner, most, True) else st)"

definition plain_verification :: "string \<Rightarrow> string \<Rightarrow> string \<Rightarrow> bool \<Rightarrow> verification" where
  "plain_verification verdict skeptic notes trunc =
     \<lparr>Verdict = verdict, Skeptic = skeptic, Notes = notes, ChallengeSurvived = False, Truncated = trunc\<rparr>"

definition aggregateVerdicts :: "string list \<Rightarrow> verification option list \<Rightarrow> verification" where
  "aggregateVerdicts ord perSkeptic =
     (case valid_votes perSkeptic of
        [] \<Rightarrow> plain_verification VerdictUnverifiable [] ''no_skeptic_verdicts'' False
      | [v] \<Rightarrow> v
      | valid \<Rightarrow>
          (case fold (tally_step valid) ord ([], 0, False) of (winner, most, tie) \<Rightarrow>
             if tie
             then plain_verification VerdictUnverifiable (joinSkeptics valid) (combineReasonings valid)
                    (anyTruncated (filterByVerdict valid VerdictUnverifiable))
             else let winners = filterByVerdict valid winner
                  in plain_verification winner (joinSkeptics winners) (combineReasonings winners) (anyTruncated winners)))"

subsection \<open>The strict plurality decides\<close>

definition verdict_levels :: "string list" where
  "verdict_levels = [VerdictConfirmed, VerdictRefuted, VerdictUnverifiable]"

lemma known_levels: "known_verdict s \<longleftrightarrow> s \<in> set verdict_levels"
  by (simp add: known_verdict_def verdict_levels_def)

lemma distinct_levels: "distinct verdict_levels"
  by (simp add: verdict_levels_def)

text \<open>The verdicts that have more votes than every other one: none or one.\<close>

definition leaders :: "verification list \<Rightarrow> string list" where
  "leaders valid = filter (\<lambda>w. list_all (\<lambda>w'. w' = w \<or> votes_for valid w' < votes_for valid w) verdict_levels) verdict_levels"

definition majority :: "verification option list \<Rightarrow> verification" where
  "majority vs =
     (case valid_votes vs of
        [] \<Rightarrow> plain_verification VerdictUnverifiable [] ''no_skeptic_verdicts'' False
      | [v] \<Rightarrow> v
      | valid \<Rightarrow>
          (case leaders valid of
             [w] \<Rightarrow> plain_verification w (joinSkeptics (filterByVerdict valid w)) (combineReasonings (filterByVerdict valid w))
                     (anyTruncated (filterByVerdict valid w))
           | _ \<Rightarrow> plain_verification VerdictUnverifiable (joinSkeptics valid) (combineReasonings valid)
                    (anyTruncated (filterByVerdict valid VerdictUnverifiable))))"

lemma tally_fold:
  assumes "\<forall>w\<in>set ws. votes_for valid w > 0"
  shows "case fold (tally_step valid) ws ([], 0, False) of (winner, most, tie) \<Rightarrow>
     (\<forall>w\<in>set ws. votes_for valid w \<le> most) \<and>
     (ws = [] \<and> most = 0 \<and> \<not> tie \<or> (\<exists>rest. filter (\<lambda>w. votes_for valid w = most) ws = winner # rest \<and> (tie \<longleftrightarrow> rest \<noteq> [])))"
  using assms
proof (induction ws rule: rev_induct)
  case (snoc w ws)
  obtain win m tie where f: "fold (tally_step valid) ws ([], 0, False) = (win, m, tie)" by (rule prod_cases3)
  have le: "\<forall>w\<in>set ws. votes_for valid w \<le> m" and
    st: "ws = [] \<and> m = 0 \<and> \<not> tie \<or> (\<exists>rest. filter (\<lambda>w. votes_for valid w = m) ws = win # rest \<and> (tie \<longleftrightarrow> rest \<noteq> []))"
    using snoc f by auto
  have pos: "votes_for valid w > 0" using snoc.prems by simp
  have step: "fold (tally_step valid) (ws @ [w]) ([], 0, False) =
      (if votes_for valid w > m then (w, votes_for valid w, False) else if votes_for valid w = m then (win, m, True) else (win, m, tie))"
    using f by (simp add: tally_step_def)
  have gt: "filter (\<lambda>x. votes_for valid x = votes_for valid w) ws = []" if "votes_for valid w > m"
    using le that by (fastforce simp: filter_empty_conv)
  consider "votes_for valid w > m" | "votes_for valid w = m" | "votes_for valid w < m" by linarith
  then show ?case
  proof cases
    case 1
    then show ?thesis unfolding step using le gt by auto
  next
    case 2
    then show ?thesis unfolding step using le st pos by auto
  next
    case 3
    then show ?thesis unfolding step using le st by auto
  qed
qed simp

lemma filter_one: "distinct xs \<Longrightarrow> w \<in> set xs \<Longrightarrow> P w \<Longrightarrow> (\<And>x. x \<in> set xs \<Longrightarrow> P x \<Longrightarrow> x = w) \<Longrightarrow> filter P xs = [w]"
proof (induction xs)
  case (Cons x xs)
  show ?case
  proof (cases "x = w")
    case True
    then have "filter P xs = []" using Cons.prems(1,4) unfolding filter_empty_conv by (metis distinct.simps(2) list.set_intros(2))
    then show ?thesis using True Cons.prems(3) by simp
  next
    case False
    then have "\<not> P x" using Cons.prems(4) [of x] by auto
    moreover have "filter P xs = [w]" by (rule Cons.IH) (use Cons.prems False in \<open>simp_all\<close>)
    ultimately show ?thesis by simp
  qed
qed simp

lemma votes_positive: "votes_for valid w > 0 \<longleftrightarrow> w \<in> Verdict ` set valid"
  by (auto simp: votes_for_def filterByVerdict_def filter_empty_conv)

lemma tally_leaders:
  assumes "distinct ord" "set ord = Verdict ` set valid" "\<forall>v\<in>set valid. known_verdict (Verdict v)" "valid \<noteq> []"
    "fold (tally_step valid) ord ([], 0, False) = (winner, most, tie)"
  shows "if tie then leaders valid = [] else leaders valid = [winner]"
proof -
  have pos: "\<forall>w\<in>set ord. votes_for valid w > 0" using assms(2) by (simp add: votes_positive)
  have "ord \<noteq> []" using assms(2,4) by auto
  then obtain rest where le: "\<forall>w\<in>set ord. votes_for valid w \<le> most"
    and r: "filter (\<lambda>w. votes_for valid w = most) ord = winner # rest" "tie \<longleftrightarrow> rest \<noteq> []"
    using tally_fold [OF pos] assms(5) by auto
  have in_ord: "set ord \<subseteq> set verdict_levels" using assms(2,3) known_levels by auto
  have zero: "votes_for valid w \<le> most" "w \<notin> set ord \<Longrightarrow> votes_for valid w = 0" for w
    using le assms(2) votes_positive [of valid w] by (cases "w \<in> set ord"; auto)+
  have win: "winner \<in> set ord" "votes_for valid winner = most"
    using arg_cong [OF r(1), of set] by auto
  have m: "most > 0" using win pos by auto
  have lead: "list_all (\<lambda>w'. w' = w \<or> votes_for valid w' < votes_for valid w) verdict_levels \<Longrightarrow> votes_for valid w = most" for w
    using win in_ord zero(1) [of w] by (fastforce simp: list_all_iff)
  show ?thesis
  proof (cases "rest = []")
    case True
    have only: "w = winner" if "votes_for valid w = most" for w
    proof -
      have "w \<in> set ord" using zero(2) [of w] that m by auto
      then have "w \<in> set (filter (\<lambda>w. votes_for valid w = most) ord)" using that by simp
      then show ?thesis unfolding r(1) True by simp
    qed
    have "leaders valid = [winner]" unfolding leaders_def
    proof (rule filter_one [OF distinct_levels])
      show "winner \<in> set verdict_levels" using win in_ord by auto
      show "list_all (\<lambda>w'. w' = winner \<or> votes_for valid w' < votes_for valid winner) verdict_levels"
        using only zero(1) win(2) by (metis (mono_tags, lifting) list_all_iff order_neq_le_trans)
    qed (use lead only in blast)
    then show ?thesis using True r(2) by simp
  next
    case False
    then obtain w rest' where w: "rest = w # rest'" by (cases rest) auto
    have "distinct (winner # w # rest')" using assms(1) r(1) w by (metis distinct_filter)
    moreover have "w \<in> set ord" "votes_for valid w = most"
      using arg_cong [OF r(1), of set] w by auto
    ultimately have "\<not> list_all (\<lambda>w'. w' = x \<or> votes_for valid w' < votes_for valid x) verdict_levels" for x
      using win in_ord zero(1) [of x] by (auto simp: list_all_iff) (metis less_irrefl subsetD linorder_not_less)+
    then have "leaders valid = []" by (simp add: leaders_def filter_empty_conv)
    then show ?thesis using False r(2) by simp
  qed
qed

text \<open>
  The verdict on a finding is the one with strictly more valid votes than every other, with the names, the
  reasonings and the truncation of the skeptics who cast it; a tie for the lead, or no valid vote at all, is
  unverifiable. The order in which the map of counts is read does not matter.
\<close>

theorem strict_plurality_decides:
  assumes "distinct ord" "set ord = Verdict ` set (valid_votes vs)"
  shows "aggregateVerdicts ord vs = majority vs"
proof (cases "valid_votes vs" rule: remdups_adj.cases)
  case (3 a b vs')
  obtain w m tie where f: "fold (tally_step (valid_votes vs)) ord ([], 0, False) = (w, m, tie)" by (rule prod_cases3)
  have "\<forall>v\<in>set (valid_votes vs). known_verdict (Verdict v)" by (simp add: valid_votes_def)
  from tally_leaders [OF assms this _ f] 3 have l: "if tie then leaders (valid_votes vs) = [] else leaders (valid_votes vs) = [w]" by simp
  show ?thesis
  proof (cases tie)
    case True
    then show ?thesis using l f 3 by (simp add: aggregateVerdicts_def majority_def)
  next
    case False
    then show ?thesis using l f 3 by (simp add: aggregateVerdicts_def majority_def Let_def)
  qed
qed (simp_all add: aggregateVerdicts_def majority_def)

definition vote :: "string \<Rightarrow> string \<Rightarrow> verification option" where
  "vote w name = Some (plain_verification w name ''n'' False)"

theorem strict_plurality_decides_witness:
  "aggregateVerdicts [VerdictRefuted, VerdictConfirmed]
     [vote VerdictConfirmed ''a'', None, vote VerdictRefuted ''b'', vote ''maybe'' ''c'', vote VerdictConfirmed ''d''] =
   plain_verification VerdictConfirmed ''a, d'' ''a: n | d: n'' False"
proof -
  let ?vs = "[vote VerdictConfirmed ''a'', None, vote VerdictRefuted ''b'', vote ''maybe'' ''c'', vote VerdictConfirmed ''d'']"
  have v: "valid_votes ?vs = [plain_verification VerdictConfirmed ''a'' ''n'' False, plain_verification VerdictRefuted ''b'' ''n'' False,
      plain_verification VerdictConfirmed ''d'' ''n'' False]" by code_simp
  have "distinct [VerdictRefuted, VerdictConfirmed]" by simp
  moreover have "set [VerdictRefuted, VerdictConfirmed] = Verdict ` set (valid_votes ?vs)"
    unfolding v by (simp add: plain_verification_def) blast
  ultimately have "aggregateVerdicts [VerdictRefuted, VerdictConfirmed] ?vs = majority ?vs" by (rule strict_plurality_decides)
  moreover have "majority ?vs = plain_verification VerdictConfirmed ''a, d'' ''a: n | d: n'' False" by code_simp
  ultimately show ?thesis by simp
qed

text \<open>A finding that passes a floor and a ceiling lies between them; a ceiling that is no severity admits none.\<close>

lemma severity_gates:
  assumes "meetsSeverityFloor s floor" "withinSeverityCeiling s ceil" "NormalizeSeverity ceil \<noteq> []"
  shows "sev_rank floor \<le> sev_rank s" "0 < sev_rank s" "sev_rank s \<le> sev_rank ceil"
proof -
  have "0 \<le> sev_rank s" using SeverityRank_range by (fastforce simp: sev_rank_def rank_or_zero_def split: option.splits)
  then show "sev_rank floor \<le> sev_rank s" "0 < sev_rank s" "sev_rank s \<le> sev_rank ceil"
    using assms by (auto simp: meetsSeverityFloor_def withinSeverityCeiling_def Let_def sev_rank_def split: if_splits)
qed

end
