(* ===== verification/Timewindow.thy ===== *)
theory Timewindow
  imports StreamFormat GoInt
begin

text \<open>
  The grammar of window flags: \<^verbatim>\<open>internal/timewindow/timewindow.go\<close>. A duration is a count of nanoseconds in an
  \<^verbatim>\<open>int64\<close>. \<^verbatim>\<open>strings.EqualFold\<close> against \<^verbatim>\<open>all\<close> compares ASCII letters, since no other character folds to one of
  its letters. The theorem shows that an accepted window is positive, exact and in range.
\<close>

definition All :: int where "All = MaxInt64"
definition AllLiteral :: string where "AllLiteral = ''all''"

definition hour :: int where "hour = 3600 * 1000000000"
definition perDay :: int where "perDay = 24 * hour"
definition perWeek :: int where "perWeek = 7 * (24 * hour)"
definition perMonth :: int where "perMonth = 30 * (24 * hour)"

definition ascii_lower :: "char \<Rightarrow> char" where
  "ascii_lower c = (if 65 \<le> (of_char c :: nat) \<and> of_char c \<le> (90 :: nat) then char_of (of_char c + 32 :: nat) else c)"

definition EqualFold_ascii :: "string \<Rightarrow> string \<Rightarrow> bool" where
  "EqualFold_ascii s t \<longleftrightarrow> map ascii_lower s = map ascii_lower t"

datatype window_error = Invalid string | NotPositive string | OutOfRange string

definition unit_of :: "char \<Rightarrow> int option" where
  "unit_of c =
     (if c = CHR ''d'' then Some perDay else if c = CHR ''w'' then Some perWeek
      else if c = CHR ''m'' then Some perMonth else None)"

definition window_Parse :: "string \<Rightarrow> window_error + int" where
  "window_Parse s0 =
     (let s = TrimSpace s0 in
      if EqualFold_ascii s AllLiteral then Inr All
      else if length s < 2 then Inl (Invalid s)
      else case unit_of (last s) of
        None \<Rightarrow> Inl (Invalid s)
      | Some per \<Rightarrow>
          (case Atoi (butlast s) of
             None \<Rightarrow> Inl (Invalid s)
           | Some n \<Rightarrow>
               if n \<le> 0 then Inl (NotPositive s)
               else if n > MaxInt64 div per then Inl (OutOfRange s)
               else Inr (wrap64 (n * per))))"

lemma unit_of_pos: "unit_of c = Some per \<Longrightarrow> 0 < per"
  by (auto simp: unit_of_def perDay_def perWeek_def perMonth_def hour_def split: if_splits)

lemma window_product:
  assumes "0 < n" "0 < per" "n \<le> MaxInt64 div per"
  shows "wrap64 (n * per) = n * per" "0 < n * per" "n * per \<le> MaxInt64"
proof -
  have "n * per \<le> MaxInt64 div per * per" using assms by simp
  also have "\<dots> \<le> MaxInt64" using div_mult_mod_eq [of MaxInt64 per] pos_mod_sign [OF assms(2), of MaxInt64] by linarith
  finally show le: "n * per \<le> MaxInt64" .
  show pos: "0 < n * per" using assms by simp
  show "wrap64 (n * per) = n * per" using pos le by (simp add: wrap64_nonneg)
qed

text \<open>
  An accepted window is a positive duration in range, and it is exact: the largest duration for the literal, and
  otherwise the number of the text times its unit with no overflow.
\<close>

theorem window_in_range:
  "case window_Parse s of
     Inl _ \<Rightarrow> True
   | Inr d \<Rightarrow> 0 < d \<and> d \<le> MaxInt64 \<and>
       (d = All \<and> EqualFold_ascii (TrimSpace s) AllLiteral \<or>
        (\<exists>n per. Atoi (butlast (TrimSpace s)) = Some n \<and> unit_of (last (TrimSpace s)) = Some per \<and> d = n * per))"
proof (cases "EqualFold_ascii (TrimSpace s) AllLiteral")
  case True
  then show ?thesis by (simp add: window_Parse_def All_def MaxInt64_def)
next
  case False
  show ?thesis
  proof (cases "window_Parse s")
    case (Inr d)
    with False obtain per n where p: "unit_of (last (TrimSpace s)) = Some per" "Atoi (butlast (TrimSpace s)) = Some n"
      "\<not> n \<le> 0" "\<not> n > MaxInt64 div per" "d = wrap64 (n * per)"
      by (auto simp: window_Parse_def Let_def split: if_splits option.splits)
    then show ?thesis using Inr window_product [of n per] unit_of_pos [OF p(1)] by simp
  qed simp
qed

text \<open>Every window in range can be written.\<close>

lemma window_roundtrip:
  assumes "unit_of c = Some per" "0 < n" "n * per \<le> MaxInt64"
  shows "window_Parse (Itoa n @ [c]) = Inr (n * per)"
proof -
  have per: "0 < per" "n \<le> n * per" using unit_of_pos [OF assms(1)] assms(2) by simp_all
  have c: "byte c < (128 :: nat)" "\<not> unicode_IsSpace (byte c)"
    using assms(1) by (auto simp: unit_of_def unicode_IsSpace_def split: if_splits)
  obtain d ds where d: "Itoa n = d # ds" "is_digit d"
  proof -
    have "Itoa n \<noteq> []" "list_all is_digit (Itoa n)" using assms(2) list_all_digits [of "nat n"] by (simp_all add: Itoa_def)
    then show thesis using that by (cases "Itoa n") auto
  qed
  have "trim_left (d # ds @ [c]) = d # ds @ [c]" using digit_char d(2) by (simp add: trim_left_stop)
  moreover have "trim_right (d # ds @ [c]) = d # ds @ [c]" by (rule trim_right_stop) (use c in simp_all)
  ultimately have t: "TrimSpace (Itoa n @ [c]) = Itoa n @ [c]" unfolding d(1) TrimSpace_def by simp
  have "\<not> EqualFold_ascii (Itoa n @ [c]) AllLiteral"
  proof -
    have "ascii_lower d = d" using d(2) by (auto simp: is_digit_def ascii_lower_def)
    moreover have "d \<noteq> CHR ''a''" using d(2) by (auto simp: is_digit_def)
    ultimately show ?thesis using d(1) by (auto simp: EqualFold_ascii_def AllLiteral_def ascii_lower_def)
  qed
  moreover have "n < 2 ^ 63" using order_trans [OF per(2) assms(3)] by (simp add: MaxInt64_def)
  then have "int64 n" using assms(2) by (simp add: int64_def)
  moreover have "\<not> n > MaxInt64 div per" using assms(3) per(1) by (metis linorder_not_less zdiv_mono1 nonzero_mult_div_cancel_right order_less_irrefl)
  moreover have "Itoa n \<noteq> []" using d(1) by simp
  ultimately show ?thesis using assms t per window_product [of n per]
    by (simp add: window_Parse_def Let_def Atoi_Itoa)
qed

end
