(* ===== verification/Spec2Isabelle.thy ===== *)
theory Spec2Isabelle
  imports Reconcile Suggest Debate WorkQueue FallbackGraph Votes Timewindow
begin

text \<open>
  A verification of the core of atcr, a command-line tool that sends a code change to a panel of
  language-model reviewers and reconciles what they report.

  \<^bold>\<open>The program.\<close> A review fans a change out to reviewers (\<^verbatim>\<open>internal/fanout\<close>, \<^verbatim>\<open>internal/llmclient\<close>), guarded
  per provider by a circuit breaker (\<^verbatim>\<open>internal/circuitbreaker\<close>). Each reviewer's findings are written
  and read as a line format (\<^verbatim>\<open>internal/stream\<close>). The library \<^verbatim>\<open>reconcile/\<close> then turns the findings of all
  sources into one deterministic result: identical findings are collapsed, the rest is clustered by
  location, each cluster is deduplicated by optimal matching between sources, each group is merged
  into one finding with a confidence, and uncorroborated findings are filtered into a sidecar. What is written of
  it decides a gate and feeds a radar of disputed findings, and a debate stage (\<^verbatim>\<open>internal/debate\<close>) puts each dispute to
  three models, a proposer, a challenger and a judge, whose rulings are written back into the findings. The
  library is modelled in full, file by file; around it the records, the gate and the radar of \<^verbatim>\<open>internal/reconcile\<close>, the
  debate stage from selection to the application of rulings, the breaker, the line format, and of the fan-out
  the retries, the throttle and the worker pool that drive the calls and the chunking of a diff and merging of
  its replies, with the pieces they rest on in \<^verbatim>\<open>internal/llmclient\<close>, \<^verbatim>\<open>internal/payload\<close>, \<^verbatim>\<open>internal/registry\<close> and
  \<^verbatim>\<open>internal/verify\<close>.

  \<^bold>\<open>The theories.\<close>
  \<^item> \<open>Prelude\<close>: generic lemmas on lists, keys in order of first occurrence and sorting.
  \<^item> \<open>GoUnicode\<close>, \<open>GoText\<close>, \<open>GoInt\<close>, \<open>GoFloat\<close>, \<open>GoSha256\<close>, \<open>GoRuntime\<close>, \<open>GoJson\<close>, \<open>GoUnmarshal\<close>, \<open>GoTime\<close>, \<open>GoAscii\<close>: what the program uses
    of Go's library. Strings are byte lists; \<^verbatim>\<open>ToLower\<close>, \<^verbatim>\<open>ToUpper\<close> and \<^verbatim>\<open>TrimSpace\<close> decode UTF-8. A
    \<^verbatim>\<open>float64\<close> is the rational it denotes and every operation is followed by a rounding, which with the
    digest is the record \<open>runtime\<close> every computing definition takes: \<open>go_runtime\<close> is IEEE binary64 and SHA-256,
    \<open>exact_runtime\<close> has no rounding.
  \<^item> \<open>Finding\<close>: the records and vocabularies of \<^verbatim>\<open>finding.go\<close>, \<^verbatim>\<open>source.go\<close>, \<^verbatim>\<open>verification.go\<close>,
    \<^verbatim>\<open>severity.go\<close>, \<^verbatim>\<open>confidence.go\<close>, \<^verbatim>\<open>attribution.go\<close>. \<open>Category\<close>: \<^verbatim>\<open>category.go\<close>.
  \<^item> \<open>Cluster\<close>: \<^verbatim>\<open>cluster.go\<close> and \<^verbatim>\<open>grouper.go\<close>; the structural grouper (an interface implemented outside the
    library) is a function argument.
  \<^item> \<open>Similarity\<close>: token sets, Jaccard thresholds and distances (\<^verbatim>\<open>dedupe.go\<close>, \<^verbatim>\<open>distance.go\<close>).
    \<open>UnionFind\<close>, \<open>Dbscan\<close>, \<open>Hungarian\<close>, \<open>Bipartite\<close>: the disjoint sets of \<^verbatim>\<open>dedupe.go\<close>, \<^verbatim>\<open>dbscan.go\<close> and the
    assignment solver and grouping of \<^verbatim>\<open>bipartite.go\<close>; \<open>HungarianFloat\<close>: the solver under rounding. \<open>Ambiguous\<close>: ids, hashes and JSON of the sidecar
    (\<^verbatim>\<open>ambiguous.go\<close>). \<open>Dedupe\<close>: \<^verbatim>\<open>dedupeCluster\<close>, which composes them.
  \<^item> \<open>Merge\<close>: \<^verbatim>\<open>merge.go\<close> and \<^verbatim>\<open>panelwide.go\<close>. \<open>Pagerank\<close>: \<^verbatim>\<open>pagerank.go\<close>. \<open>Consensus\<close>: \<^verbatim>\<open>consensus.go\<close>.
    \<open>Reconcile\<close>: \<^verbatim>\<open>reconcile.go\<close>, the pipeline.
  \<^item> \<open>JsonFinding\<close>: the records of findings.json and their derivation (\<^verbatim>\<open>emit.go\<close>, \<^verbatim>\<open>lib.go\<close>, \<^verbatim>\<open>fallback.go\<close>, \<^verbatim>\<open>unresolved.go\<close> of
    \<^verbatim>\<open>internal/reconcile\<close>). \<open>JsonMerge\<close>: \<^verbatim>\<open>merge.go\<close>, the union of the records of a cluster. \<open>Gate\<close>: \<^verbatim>\<open>gate.go\<close>. \<open>Radar\<close>: \<^verbatim>\<open>disagree.go\<close>,
    the ranking of disputed findings and clusters.
  \<^item> \<open>DebateRun\<close>: \<^verbatim>\<open>select.go\<close>, \<^verbatim>\<open>cluster.go\<close>, \<^verbatim>\<open>emit.go\<close> and \<^verbatim>\<open>runDebate\<close> of \<^verbatim>\<open>internal/debate\<close>, a run as a function of the findings,
    the clusters, the last debate.json and the circumstances of the run, with \<^verbatim>\<open>symbol_anchor.go\<close>. \<open>Cast\<close>: \<^verbatim>\<open>cast.go\<close>, the seats of a
    debate. \<open>Protocol\<close>: \<^verbatim>\<open>protocol.go\<close>, the three turns and their prompts, with the engine and the random bytes of the sentinel as
    arguments. \<open>Envelope\<close>: \<^verbatim>\<open>envelope.go\<close>, the reading of a ruling from a reply. \<open>Debate\<close>: \<^verbatim>\<open>debateOne\<close>, which composes them, and
    the theorems on whole runs.
  \<^item> \<open>CircuitBreaker\<close>: \<^verbatim>\<open>breaker.go\<close> and \<^verbatim>\<open>registry.go\<close>, with the clock as an argument and the two lock regions
    of \<^verbatim>\<open>Registry.Get\<close> as atomic steps. \<open>StreamFormat\<close>: \<^verbatim>\<open>writer.go\<close>, the line parser of \<^verbatim>\<open>parser.go\<close> and
    \<^verbatim>\<open>category.go\<close> of \<^verbatim>\<open>internal/stream\<close>. \<open>Levenshtein\<close>: \<^verbatim>\<open>levenshtein.go\<close>. \<open>Suggest\<close>: \<^verbatim>\<open>fileindex.go\<close> and
    \<^verbatim>\<open>suggest.go\<close>, the index of tracked files and the correction of cited paths that do not exist.
  \<^item> \<open>Requeue\<close>: the budgets of a unit of work and the decision after an attempt (\<^verbatim>\<open>requeue.go\<close>, \<^verbatim>\<open>timeout.go\<close>, \<^verbatim>\<open>settle\<close> of
    \<^verbatim>\<open>engine.go\<close>). \<open>Throttle\<close>: \<^verbatim>\<open>throttle.go\<close>, the caps on leases per provider and model. \<open>WorkQueue\<close>: \<^verbatim>\<open>workpool.go\<close> and the
    worker loop of \<^verbatim>\<open>Engine.Run\<close>, as an inductive step relation whose steps are the lock regions of a worker, with
    panics, the clock and cancellation; it calls the other two and reads the states of the breakers.
  \<^item> \<open>Chunker\<close>: the splitting of a diff and the joining of replies in \<^verbatim>\<open>chunker.go\<close>, with the reader of the joined text
    (\<^verbatim>\<open>chunkSegmentBounds\<close> of \<^verbatim>\<open>internal/reconcile\<close>). \<open>Think\<close>: \<^verbatim>\<open>think.go\<close>, reasoning markup in a reply. \<open>ChunkMerge\<close>: the merge of
    the chunk results of a persona (\<^verbatim>\<open>chunker.go\<close>) and the reading of their findings (\<^verbatim>\<open>engine.go\<close>), which calls both.
  \<^item> \<open>ByteBudget\<close>: \<^verbatim>\<open>payload/budget.go\<close>. \<open>FallbackGraph\<close>: \<^verbatim>\<open>registry/graph.go\<close>. \<open>Votes\<close>: \<^verbatim>\<open>verify/votes.go\<close> and
    \<^verbatim>\<open>severity.go\<close>. \<open>Timewindow\<close>: \<^verbatim>\<open>timewindow.go\<close>.

  A struct is a record (an embedded struct a record extension), an enum a datatype, a panic \<open>None\<close>, an
  error a value of a sum, a mutating method a function on the record, a map that is only looked up or
  listed in sorted order an association list or its list of keys. A record field whose name would clash
  carries a prefix (\<open>sq\<close>, \<open>sc\<close>, \<open>amb\<close>, \<open>res\<close>, \<open>sum\<close>, \<open>s\<close>, \<open>pr\<close>, \<open>sk\<close>).

  \<^bold>\<open>What is shown.\<close>
  \<^item> The pipeline (\<open>Reconcile\<close>): it returns, loses and invents no finding, sorts its output, gives every
    confidence a reason, never filters a corroborated, grave, security or out-of-scope finding, and a
    stricter level only removes findings.
  \<^item> Clustering is single linkage on lines and a partition for every grouper. The solver returns a
    permutation, of minimum cost in exact arithmetic and with rounding a permutation still; grouping is complete linkage and a partition; disjoint sets and DBSCAN
    compute connectivity; thresholds are exact whatever the rounding; adjudications are honoured and
    the sidecar never contradicts the output; an id's preimage determines what it names.
  \<^item> Merging: severity, category, reviewers, confidence and the panel-wide class are characterised exactly,
    and the order of a group does not matter. Authority, in exact arithmetic, is a probability distribution and its
    iteration stops by its epsilon. Levels fail safe.
  \<^item> The gate counts the same over records as over findings, no level of consensus and no merge of a cluster hides a finding
    that fails it, and the radar is sound and complete.
  \<^item> The debate: every dispute is debated, disclosed as overflow or withheld; what is settled is not debated again; an item
    that never converges costs three attempts; rulings and cluster merges never meet; a ruling decides the gate and
    comes from a clean reply of a judge on its own model; no quoted text can forge a tag of a prompt; an envelope is read back.
  \<^item> The breaker keeps its invariant, refines an abstract circuit, fails fast while open, admits one probe
    and trips at its threshold; concurrent lookups of a provider share one circuit.
  \<^item> The line format round-trips and accounts for every row; canonical categories cannot ungate a finding.
    The edit distance is minimal, a suggestion is always another tracked file, and the shortcut of the
    typo tier never changes its answer.
  \<^item> The worker pool keeps every unit in one place, never wedges and hands out a bounded number of leases, whatever the
    providers answer; a unit's retries and waits are bounded; the throttle stays within its caps.
  \<^item> Chunks hold whole files within their bounds; no reply can forge a boundary; a merged persona accounts for
    every chunk's cost, status and findings; stripping removes precisely the leading reasoning.
  \<^item> A byte budget is kept, in the documented order; the errors of the fallback graph are precisely its dangling
    references and cycles; a strict plurality of skeptics decides; a window is in range and reads back.

  \<^bold>\<open>Interfaces.\<close> The locale \<open>assignment_solver\<close> states what the grouping asks of a solver (a permutation for
  every cost matrix in range); \<open>HungarianFloat\<close> interprets it by the Hungarian algorithm in \<^verbatim>\<open>float64\<close> and in exact
  arithmetic, and the partition theorem of \<open>Bipartite\<close> is obtained for every accurate rounding. The locale
  \<open>circuit_provider\<close> states what a client of a circuit may rely on; the breaker interprets it. The locale \<open>retry_budget\<close> states what the pool asks of a retry policy (an
  invariant and a count of leases that every requeue lowers); the default policy interprets it, and the bound on leases is
  obtained there. The locale \<open>item_debater\<close> states what a run asks of the debate of one item (the identity of the
  item, an outcome of the four, flags that agree with it); \<^verbatim>\<open>debateOne\<close> interprets it for every panel, engine and configuration, and the
  theorems on runs and on sequences of runs are obtained there. What the pipeline needs of rounding is the predicate \<open>accurate\<close> of
  \<open>GoFloat\<close> (values up to \<open>2 ^ 16\<close> are off by at most \<open>1 / 2 ^ 37\<close>); it is proved of IEEE binary64 and of exact
  arithmetic, so the theorems on the pipeline are stated for \<open>go_runtime\<close> without a hypothesis on the solver.

  \<^bold>\<open>Bounds and fuel.\<close> Loops are total functions: the augmenting-path search is bounded by the number of
  columns and the power iteration by the code's own cap of 1000; the theorems show that the first always
  finds a column and, in exact arithmetic, the second never reaches its cap. A worker waiting for a unit
  is a step that leaves the state as it is, so no fuel is needed. Integers are unbounded where the code only
  compares and prints them or counts the elements of a slice; sizes, durations, parsed numbers and the counters a persona
  adds up over its chunks are kept to 64 bits, with the wrap-around (\<open>wrap64\<close>, \<open>add64\<close>) or the saturation the code has.

  \<^bold>\<open>Not modelled.\<close> Log lines, metrics other than the breaker's gauge, and everything that is input and output:
  calls to providers, git, files, the MCP server, the terminal. Of \<^verbatim>\<open>internal/stream\<close> the JSON documents in
  model output, the v2 documents (built on the module go-axi), path validation on disk and the run of \<^verbatim>\<open>git ls-files\<close>
  that lists the tracked files. Of the fan-out what a unit does while a worker holds it (the calls down its fallback
  chain, deadlines as contexts), the preparation of payloads, the artifacts and resuming. The parser of a reply's findings
  is an argument of the merge. Of the debate the harness of tools, the transcript on disk, the bytes of the artifacts and
  the correction of verification.json after a ruling. The remaining packages (the stage of verification, scorecards,
  reports, sandboxing, configuration, persona files) orchestrate these and are listed in the manifest.
\<close>

end
